(* ===== verification/Prelude.thy ===== *)
theory Prelude
  imports Main "HOL-Library.Word"
begin

text \<open>
  Shared vocabulary of the development: bytes and C strings, the functions of the C
  library the sources call (\<open>memchr\<close>, \<open>strlen\<close>, \<open>strcasecmp\<close>, \<open>strspn\<close>,
  \<open>strtoul\<close>, the \<open>%x\<close> and \<open>%u\<close> conversions of \<open>sprintf\<close>), the outcome type of an operation
  that may abort or leave the memory it owns, and the generic list lemmas the component
  theories use.  A C string is the list of the bytes before its terminating zero byte.
\<close>

named_theorems chunk_simps \<open>operations on data chunks, in terms of the bytes they refer to\<close>
named_theorems wf_intros \<open>preservation of the components' well-formedness invariants\<close>

type_synonym bytes = "char list"
type_synonym u32 = "32 word"
type_synonym u64 = "64 word"

abbreviation NUL :: char where "NUL \<equiv> CHR 0x00"
abbreviation TAB :: char where "TAB \<equiv> CHR 0x09"
abbreviation LF :: char where "LF \<equiv> CHR 0x0A"
abbreviation CR :: char where "CR \<equiv> CHR 0x0D"
abbreviation QUOTE :: char where "QUOTE \<equiv> CHR 0x22"
abbreviation APOS :: char where "APOS \<equiv> CHR 0x27"
abbreviation CRLF :: bytes where "CRLF \<equiv> [CR, LF]"

text \<open>
  The outcome of an operation: a value, a call of \<open>abort()\<close>, or an access outside the
  memory the code owns (undefined behaviour).
\<close>

datatype 'a cres = Ok 'a | Abort | Undef

text \<open>
  The answer of a \<open>write\<close> (the bytes it took, or an \<open>errno\<close>) and of a \<open>read\<close> (it gets up to
  so many bytes, and at least one unless the file is at its end; or an \<open>errno\<close>), and the error
  numbers the sources compare with.
\<close>

datatype WriteAns = Wrote nat | WErr nat
datatype ReadAns = Got nat | RErr nat

definition EPERM :: nat where "EPERM = 1"
definition ENOENT :: nat where "ENOENT = 2"
definition EWOULDBLOCK :: nat where "EWOULDBLOCK = 11"
definition EACCES :: nat where "EACCES = 13"
definition EEXIST :: nat where "EEXIST = 17"
definition ENOTDIR :: nat where "ENOTDIR = 20"
definition EISDIR :: nat where "EISDIR = 21"
definition EPIPE :: nat where "EPIPE = 32"
definition ECONNRESET :: nat where "ECONNRESET = 104"

subsection \<open>Strings\<close>

definition cstr :: "bytes \<Rightarrow> bytes" where
  "cstr b = takeWhile (\<lambda>c. c \<noteq> NUL) b"

definition strlen :: "bytes \<Rightarrow> nat" where
  "strlen b = length (cstr b)"

fun memchr :: "char \<Rightarrow> bytes \<Rightarrow> nat option" where
  "memchr c [] = None"
| "memchr c (x # xs) = (if x = c then Some 0 else map_option Suc (memchr c xs))"

fun strrchr :: "char \<Rightarrow> bytes \<Rightarrow> nat option" where
  "strrchr c [] = None"
| "strrchr c (x # xs) =
     (case strrchr c xs of Some i \<Rightarrow> Some (Suc i) | None \<Rightarrow> if x = c then Some 0 else None)"

definition c_tolower :: "char \<Rightarrow> char" where
  "c_tolower c = (let n = (of_char c :: nat) in
     if 65 \<le> n \<and> n \<le> 90 then char_of (n + 32) else c)"

definition strcasecmp_eq :: "bytes \<Rightarrow> bytes \<Rightarrow> bool" where
  "strcasecmp_eq a b = (map c_tolower a = map c_tolower b)"

definition strncasecmp_eq :: "nat \<Rightarrow> bytes \<Rightarrow> bytes \<Rightarrow> bool" where
  "strncasecmp_eq n a b = strcasecmp_eq (take n a) (take n b)"

definition strspn :: "bytes \<Rightarrow> bytes \<Rightarrow> nat" where
  "strspn s acc = length (takeWhile (\<lambda>c. c \<in> set acc) s)"

definition strcspn :: "bytes \<Rightarrow> bytes \<Rightarrow> nat" where
  "strcspn s rej = length (takeWhile (\<lambda>c. c \<notin> set rej) s)"

text \<open>\<open>strncmp\<close> equal to 0: the same bytes up to the \<open>n\<close>-th or the end of both strings.\<close>

definition strncmp_eq :: "nat \<Rightarrow> bytes \<Rightarrow> bytes \<Rightarrow> bool" where
  "strncmp_eq n a b = (take n (cstr a @ [NUL]) = take n (cstr b @ [NUL]))"

definition ends_with :: "bytes \<Rightarrow> bytes \<Rightarrow> bool" where
  "ends_with s t = (length t \<le> length s \<and> drop (length s - length t) s = t)"

text \<open>\<open>strcmp\<close> as a three-way comparison of the bytes as unsigned numbers.\<close>

fun strcmp :: "bytes \<Rightarrow> bytes \<Rightarrow> int" where
  "strcmp [] [] = 0"
| "strcmp [] (_ # _) = - 1"
| "strcmp (_ # _) [] = 1"
| "strcmp (x # xs) (y # ys) =
     (let a = (of_char x :: nat); b = of_char y in
      if a < b then - 1 else if b < a then 1 else strcmp xs ys)"

subsection \<open>Numbers\<close>

definition is_space :: "char \<Rightarrow> bool" where
  "is_space c = (c = CHR '' '' \<or> (let n = (of_char c :: nat) in 9 \<le> n \<and> n \<le> 13))"

definition digit_val :: "nat \<Rightarrow> char \<Rightarrow> nat option" where
  "digit_val base c = (let n = (of_char c :: nat);
       v = (if 48 \<le> n \<and> n \<le> 57 then n - 48
            else if 65 \<le> n \<and> n \<le> 90 then n - 55
            else if 97 \<le> n \<and> n \<le> 122 then n - 87 else 36)
     in if v < base then Some v else None)"

fun digits :: "nat \<Rightarrow> bytes \<Rightarrow> nat list" where
  "digits base [] = []"
| "digits base (c # cs) =
     (case digit_val base c of None \<Rightarrow> [] | Some v \<Rightarrow> v # digits base cs)"

definition num_of :: "nat \<Rightarrow> nat list \<Rightarrow> nat" where
  "num_of base ds = foldl (\<lambda>a d. base * a + d) 0 ds"

text \<open>
  \<open>strtoul\<close> for a 64-bit \<open>unsigned long\<close>: the value and the number of bytes consumed,
  which is 0 when nothing was converted (\<open>endptr\<close> is then the start of the string).
\<close>

definition strtoul :: "nat \<Rightarrow> bytes \<Rightarrow> nat \<times> nat" where
  "strtoul base s =
     (let sp = length (takeWhile is_space s);
          s1 = drop sp s;
          neg = (s1 \<noteq> [] \<and> hd s1 = CHR ''-'');
          sg = (if s1 \<noteq> [] \<and> (hd s1 = CHR ''-'' \<or> hd s1 = CHR ''+'') then 1 else 0);
          s2 = drop sg s1;
          hexp = ((base = 0 \<or> base = 16) \<and> 3 \<le> length s2 \<and> s2 ! 0 = CHR ''0'' \<and>
                  c_tolower (s2 ! 1) = CHR ''x'' \<and> digit_val 16 (s2 ! 2) \<noteq> None);
          b = (if hexp then 16 else if base \<noteq> 0 then base
               else if s2 \<noteq> [] \<and> hd s2 = CHR ''0'' then 8 else 10);
          px = (if hexp then 2 else 0);
          ds = digits b (drop px s2);
          v = num_of b ds
      in if ds = [] then (0, 0)
         else (if 2 ^ 64 \<le> v then 2 ^ 64 - 1 else if neg then (2 ^ 64 - v) mod 2 ^ 64 else v,
               sp + sg + px + length ds))"

definition digit_char :: "nat \<Rightarrow> char" where
  "digit_char v = (if v < 10 then char_of (48 + v) else char_of (87 + v))"

text \<open>The digits \<open>sprintf\<close> prints for \<open>%x\<close> (base 16) and \<open>%u\<close>, \<open>%llu\<close> (base 10).\<close>

fun to_base :: "nat \<Rightarrow> nat \<Rightarrow> bytes" where
  "to_base b n = (if b < 2 \<or> n < b then [digit_char n]
                  else to_base b (n div b) @ [digit_char (n mod b)])"

declare to_base.simps [simp del]

subsection \<open>Lemmas\<close>

lemma memchr_None: "memchr c s = None \<longleftrightarrow> c \<notin> set s"
  by (induction s) auto

lemma memchr_Some:
  "memchr c s = Some i \<Longrightarrow> i < length s \<and> s ! i = c \<and> c \<notin> set (take i s)"
  by (induction s arbitrary: i) (auto split: if_splits)

lemma memchr_SomeD: "memchr c s = Some i \<Longrightarrow> s = take i s @ c # drop (Suc i) s"
  using memchr_Some by (metis id_take_nth_drop)

lemma memchr_append: "c \<notin> set xs \<Longrightarrow> memchr c (xs @ c # ys) = Some (length xs)"
  by (induction xs) auto

lemma memchr_append_iff:
  "memchr c (xs @ ys) =
     (case memchr c xs of Some i \<Rightarrow> Some i | None \<Rightarrow> map_option ((+) (length xs)) (memchr c ys))"
proof (induction xs)
  case Nil
  show ?case by (cases "memchr c ys") simp_all
next
  case (Cons a xs)
  then show ?case by (cases "memchr c ys"; cases "memchr c xs") simp_all
qed

lemma strrchr_notin: "c \<notin> set s \<Longrightarrow> strrchr c s = None"
  by (induction s) auto

lemma strrchr_None: "strrchr c s = None \<longleftrightarrow> c \<notin> set s"
  by (induction s) (auto split: option.splits)

lemma strrchr_append: "c \<notin> set t \<Longrightarrow> strrchr c (s @ c # t) = Some (length s)"
  by (induction s) (auto simp: strrchr_notin)

lemma strrchr_Some: "strrchr c s = Some i \<Longrightarrow> i < length s \<and> s ! i = c \<and> c \<notin> set (drop (Suc i) s)"
  by (induction s arbitrary: i) (auto split: option.splits if_splits dest: strrchr_None [THEN iffD1])

lemma cstr_id [simp]: "NUL \<notin> set s \<Longrightarrow> cstr s = s"
  unfolding cstr_def by (rule takeWhile_eq_all_conv [THEN iffD2]) auto

lemma NUL_notin_cstr [simp]: "NUL \<notin> set (cstr s)"
  unfolding cstr_def by (auto dest: set_takeWhileD)

lemma length_cstr: "length (cstr s) \<le> length s"
  by (simp add: cstr_def length_takeWhile_le)

lemma cstr_append_NUL: "NUL \<notin> set s \<Longrightarrow> cstr (s @ NUL # t) = s"
  unfolding cstr_def by (induction s) auto

lemma takeWhile_until: "c \<notin> set xs \<Longrightarrow> takeWhile (\<lambda>x. x \<noteq> c) (xs @ c # ys) = xs"
  by (induction xs) auto

lemma cstr_append: "NUL \<notin> set s \<Longrightarrow> cstr (s @ t) = s @ cstr t"
  by (induction s) (auto simp: cstr_def)

lemma cstr_until_NUL: "cstr (s @ NUL # t) = cstr s"
  by (induction s) (simp_all add: cstr_def)

lemma rev_dropWhile_take:
  "n \<le> length s \<Longrightarrow> P (s ! (n - 1)) \<Longrightarrow> 0 < n \<Longrightarrow>
     dropWhile P (rev (take n s)) = dropWhile P (rev (take (n - 1) s))"
  by (cases n) (auto simp: take_Suc_conv_app_nth)

lemma digit_val_digit_char: "v < b \<Longrightarrow> b \<le> 16 \<Longrightarrow> digit_val b (digit_char v) = Some v"
  by (auto simp: digit_val_def digit_char_def Let_def)

lemma digits_append:
  "(\<forall>c \<in> set xs. digit_val b c \<noteq> None) \<Longrightarrow>
     digits b (xs @ ys) = digits b xs @ digits b ys"
  by (induction xs) (auto split: option.splits)

lemma num_of_append [simp]: "num_of b (xs @ [d]) = b * num_of b xs + d"
  by (simp add: num_of_def)

lemma num_of_Nil [simp]: "num_of b [] = 0"
  by (simp add: num_of_def)

lemma to_base_digits:
  "2 \<le> b \<Longrightarrow> b \<le> 16 \<Longrightarrow> c \<in> set (to_base b n) \<Longrightarrow> \<exists>v < b. c = digit_char v"
proof (induction b n rule: to_base.induct)
  case (1 b n)
  then show ?case
    by (subst (asm) (2) to_base.simps) (auto split: if_splits intro: exI [of _ "n mod b"])
qed

lemma to_base_not_Nil [simp]: "to_base b n \<noteq> []"
  by (subst to_base.simps) simp

text \<open>Reading back what was printed: the digits of \<open>to_base b n\<close> denote \<open>n\<close>.\<close>

lemma digits_to_base:
  "2 \<le> b \<Longrightarrow> b \<le> 16 \<Longrightarrow> num_of b (digits b (to_base b n)) = n"
proof (induction b n rule: to_base.induct)
  case (1 b n)
  show ?case
  proof (cases "n < b")
    case True
    with 1 show ?thesis
      by (subst to_base.simps) (simp add: digit_val_digit_char num_of_def)
  next
    case False
    have ok: "\<forall>c \<in> set (to_base b (n div b)). digit_val b c \<noteq> None"
    proof
      fix c assume "c \<in> set (to_base b (n div b))"
      then obtain v where "v < b" "c = digit_char v"
        using to_base_digits [OF 1(2,3)] by blast
      then show "digit_val b c \<noteq> None"
        using 1(3) by (simp add: digit_val_digit_char)
    qed
    have unf: "to_base b n = to_base b (n div b) @ [digit_char (n mod b)]"
      using 1 False by (subst to_base.simps) simp
    have "n mod b < b" using 1 by simp
    then have "digits b [digit_char (n mod b)] = [n mod b]"
      using 1 by (simp add: digit_val_digit_char)
    then have "digits b (to_base b n) = digits b (to_base b (n div b)) @ [n mod b]"
      by (simp only: unf digits_append [OF ok])
    moreover have "num_of b (digits b (to_base b (n div b))) = n div b"
      using 1 False by simp
    ultimately show ?thesis by (simp only: num_of_append mult_div_mod_eq)
  qed
qed

end
