(* ===== verification/Datachunk.thy ===== *)
theory Datachunk
  imports Prelude
begin

text \<open>
  \<open>src/datachunk.c\<close>: a reference to a piece of a byte buffer.  The pointer member is the list of
  the bytes from the address it holds to the end of the object it points into (\<open>None\<close> is
  \<open>NULL\<close>), so that moving it forward by \<open>n\<close> is \<open>drop n\<close> and a read at offset \<open>i\<close> stays
  inside the object exactly when \<open>i\<close> is below its length.  Every function of the file
  returns the updated chunks; \<open>dch_bytes\<close> is what a chunk denotes and the lemmas of
  \<open>chunk_simps\<close> give every operation as a function of these bytes.  No decrement of
  a length can wrap: each one is guarded by the loop or the test in front of it.
\<close>

record DataChunk =
  dc_data :: "bytes option"
  dc_len :: nat

definition gWhiteSpaces :: bytes where
  "gWhiteSpaces = [CHR '' '', TAB, LF]"

definition dch_clear :: DataChunk where
  "dch_clear = \<lparr>dc_data = None, dc_len = 0\<rparr>"

definition dch_init :: "bytes option \<Rightarrow> nat \<Rightarrow> DataChunk" where
  "dch_init p n = \<lparr>dc_data = p, dc_len = n\<rparr>"

definition dch_initWithStr :: "bytes option \<Rightarrow> DataChunk" where
  "dch_initWithStr s =
     \<lparr>dc_data = s, dc_len = (case s of None \<Rightarrow> 0 | Some b \<Rightarrow> strlen b)\<rparr>"

text \<open>What a chunk denotes, and when it lies inside the object it points into.\<close>

definition dch_bytes :: "DataChunk \<Rightarrow> bytes" where
  "dch_bytes d = (case dc_data d of None \<Rightarrow> [] | Some s \<Rightarrow> take (dc_len d) s)"

definition dch_wf :: "DataChunk \<Rightarrow> bool" where
  "dch_wf d = (case dc_data d of None \<Rightarrow> dc_len d = 0 | Some s \<Rightarrow> dc_len d \<le> length s)"

definition dc_byte :: "DataChunk \<Rightarrow> nat \<Rightarrow> char" where
  "dc_byte d i = the (dc_data d) ! i"

definition dch_advance :: "nat \<Rightarrow> DataChunk \<Rightarrow> DataChunk" where
  "dch_advance n d = d\<lparr>dc_data := map_option (drop n) (dc_data d), dc_len := dc_len d - n\<rparr>"

definition dch_shift :: "DataChunk \<Rightarrow> nat \<Rightarrow> bool \<times> DataChunk" where
  "dch_shift d n = (if dc_len d < n then (False, d) else (True, dch_advance n d))"

definition dch_shiftAfterChr :: "DataChunk \<Rightarrow> char \<Rightarrow> bool \<times> DataChunk" where
  "dch_shiftAfterChr d c =
     (case memchr c (dch_bytes d) of
        None \<Rightarrow> (False, d)
      | Some i \<Rightarrow> (True, dch_advance (i + 1) d))"

text \<open>The loop \<open>while( dch->len && P(*dch->data) ) { ++dch->data; --dch->len; }\<close>.\<close>

function skip_while :: "(char \<Rightarrow> bool) \<Rightarrow> DataChunk \<Rightarrow> DataChunk" where
  "skip_while P d = (if 0 < dc_len d \<and> P (dc_byte d 0) then skip_while P (dch_advance 1 d) else d)"
  by pat_completeness auto
termination
  by (relation "measure (\<lambda>(P, d). dc_len d)") (auto simp: dch_advance_def)

text \<open>
  The loop \<open>while( n > lo && P(data[n-1]) ) --n\<close>, on the bytes of the buffer, and the loop
  \<open>while( i < n && P(data[i]) ) ++i\<close>.
\<close>

fun back_while :: "(char \<Rightarrow> bool) \<Rightarrow> nat \<Rightarrow> bytes \<Rightarrow> nat \<Rightarrow> nat" where
  "back_while P lo s n =
     (if lo < n \<and> P (s ! (n - 1)) then back_while P lo s (n - 1) else n)"

function fwd_while :: "(char \<Rightarrow> bool) \<Rightarrow> DataChunk \<Rightarrow> nat \<Rightarrow> nat" where
  "fwd_while P d i = (if i < dc_len d \<and> P (dc_byte d i) then fwd_while P d (Suc i) else i)"
  by pat_completeness auto
termination
  by (relation "measure (\<lambda>(P, d, i). dc_len d - i)") auto

declare skip_while.simps [simp del] back_while.simps [simp del] fwd_while.simps [simp del]

definition trim_back :: "(char \<Rightarrow> bool) \<Rightarrow> DataChunk \<Rightarrow> DataChunk" where
  "trim_back P d = (case dc_data d of None \<Rightarrow> d
     | Some s \<Rightarrow> d\<lparr>dc_len := back_while P 0 s (dc_len d)\<rparr>)"

definition dch_skipLeading :: "DataChunk \<Rightarrow> char \<Rightarrow> DataChunk" where
  "dch_skipLeading d c = skip_while (\<lambda>x. x = c) d"

definition dch_trimTrailing :: "DataChunk \<Rightarrow> char \<Rightarrow> DataChunk" where
  "dch_trimTrailing d c = trim_back (\<lambda>x. x = c) d"

definition is_ws :: "char \<Rightarrow> bool" where
  "is_ws c = (c \<noteq> NUL \<and> memchr c gWhiteSpaces \<noteq> None)"

definition skipLeadingWS :: "DataChunk \<Rightarrow> DataChunk" where
  "skipLeadingWS d = skip_while is_ws d"

definition trimTrailingWS :: "DataChunk \<Rightarrow> DataChunk" where
  "trimTrailingWS d = trim_back is_ws d"

definition dch_trimWS :: "DataChunk \<Rightarrow> DataChunk" where
  "dch_trimWS d = trimTrailingWS (skipLeadingWS d)"

definition dch_dirNameOf :: "DataChunk \<Rightarrow> DataChunk" where
  "dch_dirNameOf f =
     (let s = (case dc_data f of None \<Rightarrow> [] | Some s \<Rightarrow> s);
          n1 = back_while (\<lambda>c. c = CHR ''/'') 1 s (dc_len f);
          n2 = back_while (\<lambda>c. c \<noteq> CHR ''/'') 0 s n1;
          n3 = back_while (\<lambda>c. c = CHR ''/'') 1 s n2
      in dch_init (dc_data f) n3)"

text \<open>
  The result of an extraction: whether the delimiter was found, the remaining chunk and the
  extracted one.
\<close>

definition dch_extractTillChr :: "DataChunk \<Rightarrow> char \<Rightarrow> bool \<times> DataChunk \<times> DataChunk" where
  "dch_extractTillChr d delim =
     (case memchr delim (dch_bytes d) of
        Some i \<Rightarrow> (True, dch_advance (i + 1) d, \<lparr>dc_data = dc_data d, dc_len = i\<rparr>)
      | None \<Rightarrow> (False, dch_clear, d))"

definition dch_extractTillChrStripWS ::
    "DataChunk \<Rightarrow> char \<Rightarrow> bool \<times> DataChunk \<times> DataChunk" where
  "dch_extractTillChrStripWS d delim =
     (let (res, d', sub) = dch_extractTillChr d delim in
      if res then (res, skipLeadingWS d', trimTrailingWS sub) else (res, d', sub))"

definition dch_extractTillWS :: "DataChunk \<Rightarrow> bool \<times> DataChunk \<times> DataChunk" where
  "dch_extractTillWS d0 =
     (let d = skipLeadingWS d0 in
      if 0 < dc_len d then
        (let d' = skip_while (\<lambda>c. \<not> is_ws c) d
         in (True, skipLeadingWS d', \<lparr>dc_data = dc_data d, dc_len = dc_len d - dc_len d'\<rparr>))
      else (False, d, dch_clear))"

text \<open>
  \<open>dch_extractParam\<close> returns its result, the parameter line after the call, and the
  name and value; when no \<open>=\<close> is found the value is not written (\<open>None\<close>).
\<close>

definition dch_extractParam ::
    "DataChunk \<Rightarrow> char \<Rightarrow> bool \<times> DataChunk \<times> DataChunk \<times> DataChunk option" where
  "dch_extractParam line delim =
     (let (res, l1, name) = dch_extractTillChr line (CHR ''='') in
      if res then
        (let name' = dch_trimWS name; l2 = skipLeadingWS l1 in
         if 0 < dc_len l2 \<and> dc_byte l2 0 = QUOTE then
           (let l3 = snd (dch_shift l2 1);
                (_, l4, val) = dch_extractTillChr l3 QUOTE;
                l5 = snd (dch_shiftAfterChr l4 delim)
            in (True, l5, name', Some val))
         else
           (let (_, l3, val) = dch_extractTillChr l2 delim
            in (True, l3, name', Some (trimTrailingWS val))))
      else (False, l1, name, None))"

definition dch_equalsStr :: "DataChunk \<Rightarrow> bytes \<Rightarrow> bool" where
  "dch_equalsStr d s = (dc_len d = length s \<and> take (length s) (dch_bytes d) = s)"

definition dch_equalsStrIgnoreCase :: "DataChunk \<Rightarrow> bytes \<Rightarrow> bool" where
  "dch_equalsStrIgnoreCase d s =
     (dc_len d = length s \<and> strncasecmp_eq (length s) (dch_bytes d) s)"

definition dch_startsWithStr :: "DataChunk \<Rightarrow> bytes \<Rightarrow> bool" where
  "dch_startsWithStr d s = (length s \<le> dc_len d \<and> take (length s) (dch_bytes d) = s)"

definition dch_startsWithStrIgnoreCase :: "DataChunk \<Rightarrow> bytes \<Rightarrow> bool" where
  "dch_startsWithStrIgnoreCase d s =
     (length s \<le> dc_len d \<and> strncasecmp_eq (length s) (dch_bytes d) s)"

definition dch_endOfSpan :: "DataChunk \<Rightarrow> nat \<Rightarrow> char \<Rightarrow> nat" where
  "dch_endOfSpan d i c = fwd_while (\<lambda>x. x = c) d i"

definition dch_endOfCSpan :: "DataChunk \<Rightarrow> nat \<Rightarrow> char \<Rightarrow> nat" where
  "dch_endOfCSpan d i c = fwd_while (\<lambda>x. x \<noteq> c) d i"

text \<open>The copy \<open>dch_dupToStr\<close> returns, with its terminating zero byte.\<close>

definition dch_dupToStr :: "DataChunk \<Rightarrow> bytes" where
  "dch_dupToStr d = dch_bytes d @ [NUL]"

definition dch_toUInt :: "DataChunk \<Rightarrow> nat \<Rightarrow> u32 option" where
  "dch_toUInt d base =
     (if 0 < dc_len d then
        (let (v, n) = strtoul base (cstr (dch_dupToStr d))
         in if n \<noteq> 0 then Some (of_nat v) else None)
      else None)"


subsection \<open>Operations as functions of the bytes\<close>

definition rtrim :: "(char \<Rightarrow> bool) \<Rightarrow> bytes \<Rightarrow> bytes" where
  "rtrim P s = rev (dropWhile P (rev s))"

lemma rtrim_Nil [simp]: "rtrim P [] = []"
  by (simp add: rtrim_def)

lemma rtrim_snoc [simp]: "rtrim P (s @ [c]) = (if P c then rtrim P s else s @ [c])"
  by (simp add: rtrim_def)

lemma rtrim_prefix: "\<exists>t. s = rtrim P s @ t \<and> (\<forall>c \<in> set t. P c)"
proof -
  have "s = rev (dropWhile P (rev s)) @ rev (takeWhile P (rev s))"
    by (metis rev_append rev_rev_ident takeWhile_dropWhile_id)
  then show ?thesis
    unfolding rtrim_def by (metis set_rev set_takeWhileD)
qed

lemma rtrim_id: "s = [] \<or> \<not> P (last s) \<Longrightarrow> rtrim P s = s"
  by (cases s rule: rev_cases) auto

lemma length_rtrim: "length (rtrim P s) \<le> length s"
  by (metis rtrim_def length_rev length_dropWhile_le)

lemma take_length_rtrim: "take (length (rtrim P s)) s = rtrim P s"
  by (metis append_eq_conv_conj rtrim_prefix)

lemma dch_bytes_length [chunk_simps]: "dch_wf d \<Longrightarrow> length (dch_bytes d) = dc_len d"
  by (auto simp: dch_wf_def dch_bytes_def split: option.splits)

lemma length_dch_bytes_le: "length (dch_bytes d) \<le> dc_len d"
  by (auto simp: dch_bytes_def split: option.splits)

lemma dc_byte_nth [chunk_simps]: "dch_wf d \<Longrightarrow> i < dc_len d \<Longrightarrow> dc_byte d i = dch_bytes d ! i"
  by (auto simp: dch_wf_def dch_bytes_def dc_byte_def split: option.splits)

lemma dch_equalsStr_bytes [chunk_simps]: "dch_wf d \<Longrightarrow> dch_equalsStr d s = (dch_bytes d = s)"
  by (auto simp: dch_equalsStr_def dch_bytes_length [symmetric])

lemma dch_equalsStrIgnoreCase_bytes [chunk_simps]:
  "dch_wf d \<Longrightarrow> dch_equalsStrIgnoreCase d s = strcasecmp_eq (dch_bytes d) s"
  unfolding dch_equalsStrIgnoreCase_def strncasecmp_eq_def strcasecmp_eq_def
  by (metis dch_bytes_length length_map order_refl take_all)

lemma dch_startsWithStr_bytes [chunk_simps]:
  "dch_wf d \<Longrightarrow> dch_startsWithStr d s = (take (length s) (dch_bytes d) = s)"
  by (auto simp: dch_startsWithStr_def dch_bytes_length [symmetric] min_def
      dest: arg_cong [where f = length] split: if_splits)

lemma dch_bytes_clear [chunk_simps]: "dch_bytes dch_clear = []"
  by (simp add: dch_bytes_def dch_clear_def)

lemma dch_bytes_initWithStr [chunk_simps]:
  "dch_bytes (dch_initWithStr s) = (case s of None \<Rightarrow> [] | Some b \<Rightarrow> cstr b)"
  by (auto simp: dch_bytes_def dch_initWithStr_def strlen_def cstr_def takeWhile_eq_take [symmetric]
      split: option.splits)

lemma dch_bytes_advance [chunk_simps]: "dch_bytes (dch_advance n d) = drop n (dch_bytes d)"
  by (auto simp: dch_bytes_def dch_advance_def drop_take split: option.splits)

lemma dc_len_advance [simp]: "dc_len (dch_advance n d) = dc_len d - n"
  by (simp add: dch_advance_def)

lemma dch_bytes_Nil_iff: "dch_wf d \<Longrightarrow> dch_bytes d = [] \<longleftrightarrow> dc_len d = 0"
  by (metis dch_bytes_length length_0_conv)

lemma wf_clear [wf_intros, simp]: "dch_wf dch_clear"
  by (simp add: dch_wf_def dch_clear_def)

lemma wf_initWithStr [wf_intros, simp]: "dch_wf (dch_initWithStr s)"
  by (auto simp: dch_wf_def dch_initWithStr_def strlen_def length_cstr split: option.splits)

lemma wf_advance [wf_intros]: "dch_wf d \<Longrightarrow> dch_wf (dch_advance n d)"
  by (auto simp: dch_wf_def dch_advance_def split: option.splits)

lemma skip_while_len: "dc_len (skip_while P d) \<le> dc_len d"
  by (induction P d rule: skip_while.induct) (subst skip_while.simps, auto)

lemma wf_skip_while [wf_intros]: "dch_wf d \<Longrightarrow> dch_wf (skip_while P d)"
  by (induction P d rule: skip_while.induct) (subst skip_while.simps, simp add: wf_advance)

lemma dch_bytes_skip_while [chunk_simps]:
  "dch_wf d \<Longrightarrow> dch_bytes (skip_while P d) = dropWhile P (dch_bytes d)"
proof (induction P d rule: skip_while.induct)
  case (1 P d)
  show ?case
  proof (cases "0 < dc_len d \<and> P (dc_byte d 0)")
    case True
    then obtain x xs where b: "dch_bytes d = x # xs"
      using 1(2) by (metis dch_bytes_Nil_iff neq0_conv neq_Nil_conv)
    have "dc_byte d 0 = x" using True dc_byte_nth [OF 1(2)] b by simp
    then have "P x" using True by simp
    with True 1 b show ?thesis
      by (subst skip_while.simps) (simp add: wf_advance dch_bytes_advance)
  next
    case False
    then show ?thesis using 1(2) dch_bytes_Nil_iff [of d]
      by (subst skip_while.simps) (cases "dch_bytes d", auto simp: dc_byte_nth)
  qed
qed

lemma back_while_le: "back_while P lo s n \<le> n"
  by (induction P lo s n rule: back_while.induct) (subst back_while.simps, auto)

lemma back_while_rtrim:
  "n \<le> length s \<Longrightarrow> take (back_while P 0 s n) s = rtrim P (take n s)"
proof (induction n)
  case 0
  show ?case by (subst back_while.simps) simp
next
  case (Suc n)
  then show ?case
    by (subst back_while.simps) (simp add: take_Suc_conv_app_nth)
qed

lemma wf_trim_back [wf_intros]: "dch_wf d \<Longrightarrow> dch_wf (trim_back P d)"
  by (auto simp: trim_back_def dch_wf_def intro: le_trans [OF back_while_le] split: option.splits)

lemma dch_bytes_trim_back [chunk_simps]:
  "dch_wf d \<Longrightarrow> dch_bytes (trim_back P d) = rtrim P (dch_bytes d)"
  by (auto simp: trim_back_def dch_wf_def dch_bytes_def back_while_rtrim split: option.splits)

lemma trim_back_len: "dc_len (trim_back P d) \<le> dc_len d"
  by (auto simp: trim_back_def back_while_le split: option.splits)

text \<open>
  A chunk inside another one: cleared, or starting at or after its start and ending at or
  before its end, in the same object.
\<close>

definition dch_within :: "DataChunk \<Rightarrow> DataChunk \<Rightarrow> bool" where
  "dch_within e d = (e = dch_clear \<or>
     (\<exists>k. dc_data e = map_option (drop k) (dc_data d) \<and> k + dc_len e \<le> dc_len d))"

lemma within_clear [wf_intros, simp]: "dch_within dch_clear d"
  by (simp add: dch_within_def)

lemma within_refl [wf_intros, simp]: "dch_within d d"
  by (auto simp: dch_within_def option.map_ident intro!: exI [of _ 0])

lemma within_trans: "dch_within e d \<Longrightarrow> dch_within d c \<Longrightarrow> dch_within e c"
  unfolding dch_within_def
  by (auto simp: dch_clear_def option.map_comp comp_def add.commute intro: exI [of _ "_ + _"])

lemma within_wf: "dch_within e d \<Longrightarrow> dch_wf d \<Longrightarrow> dch_wf e"
  by (auto simp: dch_within_def dch_wf_def dch_clear_def split: option.splits)

lemma within_advance: "n \<le> dc_len d \<Longrightarrow> dch_within (dch_advance n d) d"
  by (auto simp: dch_within_def dch_advance_def)

lemma within_prefix: "n \<le> dc_len d \<Longrightarrow> dch_within (d\<lparr>dc_len := n\<rparr>) d"
  by (auto simp: dch_within_def option.map_ident intro!: exI [of _ 0])

lemma within_skip_while: "dch_within (skip_while P d) d"
proof (induction P d rule: skip_while.induct)
  case (1 P d)
  show ?case
  proof (cases "0 < dc_len d \<and> P (dc_byte d 0)")
    case True
    then have "dch_within (dch_advance 1 d) d" by (simp add: within_advance)
    with True 1 show ?thesis
      by (subst skip_while.simps) (simp add: within_trans [of _ "dch_advance 1 d"])
  qed (subst skip_while.simps, auto)
qed

lemma within_trim_back: "dch_within (trim_back P d) d"
  by (auto simp: trim_back_def back_while_le intro: within_prefix split: option.splits)

lemmas within_rules = within_skip_while within_trim_back within_advance within_prefix

subsection \<open>The extraction functions\<close>

text \<open>The split at a delimiter, on bytes.\<close>

definition till :: "char \<Rightarrow> bytes \<Rightarrow> bytes \<times> bytes" where
  "till c s = (case memchr c s of Some i \<Rightarrow> (take i s, drop (Suc i) s) | None \<Rightarrow> (s, []))"

lemma till_append [simp]: "c \<notin> set xs \<Longrightarrow> till c (xs @ c # ys) = (xs, ys)"
  by (simp add: till_def memchr_append)

lemma till_None [simp]: "c \<notin> set xs \<Longrightarrow> till c xs = (xs, [])"
  using memchr_None [of c xs] by (simp add: till_def)

lemma wf_prefix: "dch_wf d \<Longrightarrow> n \<le> dc_len d \<Longrightarrow> dch_wf (d\<lparr>dc_len := n\<rparr>)"
  by (auto simp: dch_wf_def split: option.splits)

lemma sub_chunk_eq: "\<lparr>dc_data = dc_data d, dc_len = n\<rparr> = (d::DataChunk)\<lparr>dc_len := n\<rparr>"
  by (cases d) simp

lemma dch_bytes_prefix: "n \<le> dc_len d \<Longrightarrow> dch_bytes (d\<lparr>dc_len := n\<rparr>) = take n (dch_bytes d)"
  by (auto simp: dch_bytes_def min_def split: option.splits)

lemma memchr_dch_less: "memchr c (dch_bytes d) = Some i \<Longrightarrow> i < dc_len d"
  using memchr_Some length_dch_bytes_le less_le_trans by blast

lemma extractTillChr_spec:
  assumes "dch_wf d" "dch_extractTillChr d c = (res, d', sub)"
  shows "dch_wf d' \<and> dch_wf sub \<and> dch_within d' d \<and> dch_within sub d \<and>
         res = (c \<in> set (dch_bytes d)) \<and> (dch_bytes sub, dch_bytes d') = till c (dch_bytes d)"
proof (cases "memchr c (dch_bytes d)")
  case None
  then show ?thesis
    using assms memchr_None [of c "dch_bytes d"]
    by (auto simp: dch_extractTillChr_def till_def dch_bytes_clear)
next
  case (Some i)
  then have "i < dc_len d" "c \<in> set (dch_bytes d)"
    using memchr_dch_less memchr_None [of c "dch_bytes d"] by auto
  with Some assms show ?thesis
    by (auto simp: dch_extractTillChr_def till_def sub_chunk_eq dch_bytes_advance
        dch_bytes_prefix wf_prefix wf_advance intro: within_rules)
qed

lemma extractTillChr_len:
  "dch_extractTillChr d c = (res, d', sub) \<Longrightarrow> dc_len d' \<le> dc_len d \<and> (res \<longrightarrow> dc_len d' < dc_len d)"
  by (auto simp: dch_extractTillChr_def dch_clear_def dest: memchr_dch_less split: option.splits)

lemma shiftAfterChr_spec:
  assumes "dch_wf d"
  shows "dch_wf (snd (dch_shiftAfterChr d c)) \<and> dch_within (snd (dch_shiftAfterChr d c)) d \<and>
     fst (dch_shiftAfterChr d c) = (c \<in> set (dch_bytes d)) \<and>
     dch_bytes (snd (dch_shiftAfterChr d c)) =
       (if c \<in> set (dch_bytes d) then snd (till c (dch_bytes d)) else dch_bytes d)"
proof (cases "memchr c (dch_bytes d)")
  case None
  then show ?thesis
    using assms memchr_None [of c "dch_bytes d"] by (auto simp: dch_shiftAfterChr_def)
next
  case (Some i)
  then have "i < dc_len d" "c \<in> set (dch_bytes d)"
    using memchr_dch_less memchr_None [of c "dch_bytes d"] by auto
  with Some assms show ?thesis
    by (auto simp: dch_shiftAfterChr_def till_def dch_bytes_advance wf_advance
        intro: within_rules)
qed

text \<open>The parameter extraction, on bytes: name, value and what is left of the line.\<close>

definition trim_ws :: "bytes \<Rightarrow> bytes" where
  "trim_ws s = rtrim is_ws (dropWhile is_ws s)"

definition param_spec :: "bytes \<Rightarrow> char \<Rightarrow> (bytes \<times> bytes \<times> bytes) option" where
  "param_spec s delim =
     (if CHR ''='' \<notin> set s then None
      else (let (n, r) = till (CHR ''='') s; r' = dropWhile is_ws r in
        if r' \<noteq> [] \<and> hd r' = QUOTE then
          (let (v, q) = till QUOTE (tl r') in
           Some (trim_ws n, v, if delim \<in> set q then snd (till delim q) else q))
        else (let (v, q) = till delim r' in Some (trim_ws n, rtrim is_ws v, q))))"

lemma dch_bytes_trimWS [chunk_simps]: "dch_wf d \<Longrightarrow> dch_bytes (dch_trimWS d) = trim_ws (dch_bytes d)"
  by (simp add: dch_trimWS_def trimTrailingWS_def skipLeadingWS_def trim_ws_def chunk_simps wf_intros)

lemma wf_trimWS [wf_intros]: "dch_wf d \<Longrightarrow> dch_wf (dch_trimWS d)"
  by (simp add: dch_trimWS_def trimTrailingWS_def skipLeadingWS_def wf_intros)

lemma within_trimWS: "dch_within (dch_trimWS d) d"
  unfolding dch_trimWS_def trimTrailingWS_def skipLeadingWS_def
  by (rule within_trans) (rule within_rules)+

lemma skipLeadingWS_spec [chunk_simps]:
  "dch_wf d \<Longrightarrow> dch_bytes (skipLeadingWS d) = dropWhile is_ws (dch_bytes d)"
  by (simp add: skipLeadingWS_def chunk_simps)

lemma trimTrailingWS_spec [chunk_simps]:
  "dch_wf d \<Longrightarrow> dch_bytes (trimTrailingWS d) = rtrim is_ws (dch_bytes d)"
  by (simp add: trimTrailingWS_def chunk_simps)

lemma wf_skipLeadingWS [wf_intros]: "dch_wf d \<Longrightarrow> dch_wf (skipLeadingWS d)"
  by (simp add: skipLeadingWS_def wf_intros)

lemma wf_trimTrailingWS [wf_intros]: "dch_wf d \<Longrightarrow> dch_wf (trimTrailingWS d)"
  by (simp add: trimTrailingWS_def wf_intros)

lemma dch_shift_1: "0 < dc_len d \<Longrightarrow> dch_shift d (Suc 0) = (True, dch_advance (Suc 0) d)"
  by (simp add: dch_shift_def)

lemma quote_test:
  "dch_wf d \<Longrightarrow> (0 < dc_len d \<and> dc_byte d 0 = QUOTE) = (dch_bytes d \<noteq> [] \<and> hd (dch_bytes d) = QUOTE)"
  using dch_bytes_Nil_iff [of d] dc_byte_nth [of d 0] by (auto simp: hd_conv_nth)

lemma extractParam_len:
  assumes "dch_extractParam line delim = (res, l, n, v)"
  shows "dc_len l \<le> dc_len line \<and> (res \<longrightarrow> dc_len l < dc_len line)"
proof -
  obtain r l1 n1 where e: "dch_extractTillChr line (CHR ''='') = (r, l1, n1)" by (metis surj_pair)
  obtain r2 l3 v2 where q: "dch_extractTillChr (dch_advance (Suc 0) (skipLeadingWS l1)) QUOTE = (r2, l3, v2)"
    by (metis surj_pair)
  obtain r4 l5 v4 where t: "dch_extractTillChr (skipLeadingWS l1) delim = (r4, l5, v4)"
    by (metis surj_pair)
  have a: "dc_len (snd (dch_shiftAfterChr l3 delim)) \<le> dc_len l3"
    by (auto simp: dch_shiftAfterChr_def split: option.splits)
  have s: "dc_len (skipLeadingWS l1) \<le> dc_len l1"
    by (simp add: skipLeadingWS_def skip_while_len)
  show ?thesis
    using assms extractTillChr_len [OF e] extractTillChr_len [OF q] extractTillChr_len [OF t] a s
    by (auto simp: dch_extractParam_def Let_def e q t dch_shift_1 split: if_splits)
qed

lemma extractParam_refines:
  assumes wf: "dch_wf line" and res: "dch_extractParam line delim = (res, l, n, v)"
  shows "dch_wf l \<and> dch_wf n \<and> (\<forall>w. v = Some w \<longrightarrow> dch_wf w) \<and> (res \<longleftrightarrow> v \<noteq> None) \<and>
     param_spec (dch_bytes line) delim =
       (case v of None \<Rightarrow> None | Some w \<Rightarrow> Some (dch_bytes n, dch_bytes w, dch_bytes l))"
proof -
  obtain r l1 n1 where e: "dch_extractTillChr line (CHR ''='') = (r, l1, n1)" by (metis surj_pair)
  note e1 = extractTillChr_spec [OF wf e]
  let ?l2 = "skipLeadingWS l1"
  have w2: "dch_wf ?l2" using e1 by (simp add: wf_intros)
  show ?thesis
  proof (cases r)
    case False
    with res e e1 show ?thesis by (auto simp: dch_extractParam_def param_spec_def)
  next
    case r: True
    have eq: "CHR ''='' \<in> set (dch_bytes line)" using e1 r by simp
    have b1: "till (CHR ''='') (dch_bytes line) = (dch_bytes n1, dch_bytes l1)"
      and b2: "dropWhile is_ws (dch_bytes l1) = dch_bytes ?l2"
      using e1 by (auto simp: skipLeadingWS_spec)
    have wn: "dch_wf (dch_trimWS n1)" "dch_bytes (dch_trimWS n1) = trim_ws (dch_bytes n1)"
      using e1 by (simp_all add: wf_trimWS dch_bytes_trimWS)
    show ?thesis
    proof (cases "0 < dc_len ?l2 \<and> dc_byte ?l2 0 = QUOTE")
      case q: True
      obtain r3 l3 v3 where t: "dch_extractTillChr (dch_advance (Suc 0) ?l2) QUOTE = (r3, l3, v3)"
        by (metis surj_pair)
      note t1 = extractTillChr_spec [OF wf_advance [OF w2] t]
      have w3: "dch_wf l3" "dch_wf v3" using t1 by simp_all
      note a = shiftAfterChr_spec [OF w3(1), of delim]
      have h: "dch_bytes ?l2 \<noteq> []" "hd (dch_bytes ?l2) = QUOTE" using quote_test [OF w2] q by auto
      have tl: "till QUOTE (tl (dch_bytes ?l2)) = (dch_bytes v3, dch_bytes l3)"
        using t1 by (simp add: dch_bytes_advance drop_Suc)
      have out: "res" "l = snd (dch_shiftAfterChr l3 delim)" "n = dch_trimWS n1" "v = Some v3"
        using res e r q t by (auto simp: dch_extractParam_def Let_def dch_shift_1)
      have "param_spec (dch_bytes line) delim = Some (trim_ws (dch_bytes n1), dch_bytes v3,
              if delim \<in> set (dch_bytes l3) then snd (till delim (dch_bytes l3)) else dch_bytes l3)"
        using eq h by (simp add: param_spec_def Let_def b1 b2 tl del: dropWhile_eq_Nil_conv)
      then show ?thesis using out a w3 wn by simp
    next
      case q: False
      obtain r3 l3 v3 where t: "dch_extractTillChr ?l2 delim = (r3, l3, v3)" by (metis surj_pair)
      note t1 = extractTillChr_spec [OF w2 t]
      have w3: "dch_wf l3" "dch_wf v3" using t1 by simp_all
      have h: "\<not> (dch_bytes ?l2 \<noteq> [] \<and> hd (dch_bytes ?l2) = QUOTE)" using quote_test [OF w2] q by auto
      have tl: "till delim (dch_bytes ?l2) = (dch_bytes v3, dch_bytes l3)" using t1 by simp
      have out: "res" "l = l3" "n = dch_trimWS n1" "v = Some (trimTrailingWS v3)"
        using res e r q t by (auto simp: dch_extractParam_def Let_def)
      have "param_spec (dch_bytes line) delim =
              Some (trim_ws (dch_bytes n1), rtrim is_ws (dch_bytes v3), dch_bytes l3)"
        using eq h by (auto simp: param_spec_def Let_def b1 b2 tl simp del: dropWhile_eq_Nil_conv)
      then show ?thesis using out w3 wn by (simp add: wf_trimTrailingWS trimTrailingWS_spec)
    qed
  qed
qed

subsection \<open>Parameter lists\<close>

text \<open>
  The pairs visited by the loop \<open>while( dch_extractParam(&line, &name, &value, delim) )\<close>,
  which \<open>auth.c\<close>, \<open>contentpart.c\<close> and \<open>filemanager.c\<close> share.  It ends because each
  successful extraction makes the line shorter (\<open>extractParam_len\<close>).
\<close>

function dch_params :: "DataChunk \<Rightarrow> char \<Rightarrow> (DataChunk \<times> DataChunk) list" where
  "dch_params line delim =
     (case dch_extractParam line delim of
        (res, l, n, v) \<Rightarrow> if res then (n, the v) # dch_params l delim else [])"
  by pat_completeness auto
termination
  by (relation "measure (\<lambda>(d, c). dc_len d)") (auto dest: extractParam_len [OF sym] extractParam_len)

declare dch_params.simps [simp del]

lemma param_spec_len: "param_spec s delim = Some (n, v, r) \<Longrightarrow> length r < length s"
proof -
  assume a: "param_spec s delim = Some (n, v, r)"
  have tl: "length (snd (till c t)) \<le> length t" for c t
    by (auto simp: till_def split: option.splits)
  have tl2: "length (snd (till c t)) < length t" if "c \<in> set t" for c t
    using that memchr_None [of c t] by (cases t) (auto simp: till_def split: option.splits)
  let ?r = "dropWhile is_ws (snd (till (CHR ''='') s))"
  have e: "CHR ''='' \<in> set s" using a by (auto simp: param_spec_def split: if_splits)
  have r: "length ?r < length s"
    using tl2 [OF e] length_dropWhile_le le_less_trans by blast
  have "length r \<le> length ?r"
    using a e tl [of delim ?r] tl [of QUOTE "tl ?r"] tl [of delim "snd (till QUOTE (tl ?r))"]
    by (auto simp: param_spec_def Let_def split_beta split: if_splits)
  with r show ?thesis by simp
qed

function params_spec :: "bytes \<Rightarrow> char \<Rightarrow> (bytes \<times> bytes) list" where
  "params_spec s delim =
     (case param_spec s delim of None \<Rightarrow> [] | Some (n, v, r) \<Rightarrow> (n, v) # params_spec r delim)"
  by pat_completeness auto
termination
  by (relation "measure (\<lambda>(s, c). length s)") (auto dest: param_spec_len)

declare params_spec.simps [simp del]

lemma dch_params_bytes:
  "dch_wf line \<Longrightarrow>
     map (\<lambda>(n, v). (dch_bytes n, dch_bytes v)) (dch_params line delim) =
       params_spec (dch_bytes line) delim \<and>
     (\<forall>(n, v) \<in> set (dch_params line delim). dch_wf n \<and> dch_wf v)"
proof (induction line delim rule: dch_params.induct)
  case (1 line delim)
  obtain res l n v where e: "dch_extractParam line delim = (res, l, n, v)" by (metis prod_cases4)
  note r = extractParam_refines [OF 1(2) e]
  show ?case
  proof (cases res)
    case True
    then obtain w where v: "v = Some w" using r by blast
    have "dch_wf l" using r by blast
    from 1(1) [OF e [symmetric] refl refl True this] True r show ?thesis
      by (auto simp: e v dch_params.simps [of line] params_spec.simps [of "dch_bytes line"])
  next
    case False
    then have "v = None" using r by blast
    with False r show ?thesis
      by (auto simp: e dch_params.simps [of line] params_spec.simps [of "dch_bytes line"])
  qed
qed

text \<open>Printing a parameter list, the inverse of reading it.\<close>

definition print_param :: "bytes \<times> bytes \<Rightarrow> bytes" where
  "print_param p = fst p @ [CHR ''='', QUOTE] @ snd p @ [QUOTE]"

fun print_params :: "char \<Rightarrow> (bytes \<times> bytes) list \<Rightarrow> bytes" where
  "print_params delim [] = []"
| "print_params delim [p] = print_param p"
| "print_params delim (p # q # ps) = print_param p @ [delim, CHR '' ''] @ print_params delim (q # ps)"

definition param_ok :: "bytes \<times> bytes \<Rightarrow> bool" where
  "param_ok p = (CHR ''='' \<notin> set (fst p) \<and> QUOTE \<notin> set (snd p) \<and>
     (fst p = [] \<or> \<not> is_ws (hd (fst p)) \<and> \<not> is_ws (last (fst p))))"

lemma is_ws_facts [simp]:
  "is_ws (CHR '' '')" "\<not> is_ws QUOTE" "\<not> is_ws (CHR ''='')" "\<not> is_ws NUL"
  by (simp_all add: is_ws_def gWhiteSpaces_def)

lemma trim_ws_id: "s = [] \<or> \<not> is_ws (hd s) \<and> \<not> is_ws (last s) \<Longrightarrow> trim_ws s = s"
  unfolding trim_ws_def by (cases s) (auto intro: rtrim_id)

lemma trim_ws_space [simp]: "trim_ws (CHR '' '' # s) = trim_ws s"
  by (simp add: trim_ws_def)

lemma param_spec_print:
  assumes "param_ok p" and "pre = [] \<or> pre = [CHR '' '']"
  shows "param_spec (pre @ print_param p @ rest) delim =
    Some (fst p, snd p, if delim \<in> set rest then snd (till delim rest) else rest)"
proof -
  have a: "pre @ print_param p @ rest = (pre @ fst p) @ CHR ''='' # QUOTE # snd p @ QUOTE # rest"
    by (simp add: print_param_def)
  have b: "CHR ''='' \<notin> set (pre @ fst p)"
    using assms by (auto simp: param_ok_def)
  have c: "trim_ws (pre @ fst p) = fst p"
    using assms by (auto simp: param_ok_def trim_ws_id)
  show ?thesis
    using assms(1) unfolding a param_spec_def Let_def till_append [OF b]
    by (simp add: param_ok_def c)
qed

lemma params_spec_print:
  assumes "\<forall>p \<in> set ps. param_ok p" and "pre = [] \<or> pre = [CHR '' '']"
  shows "params_spec (pre @ print_params delim ps) delim = ps"
  using assms
proof (induction delim ps arbitrary: pre rule: print_params.induct)
  case (1 delim)
  then show ?case by (subst params_spec.simps) (auto simp: param_spec_def)
next
  case (2 delim p)
  have "params_spec [] delim = []" by (subst params_spec.simps) (simp add: param_spec_def)
  with 2 param_spec_print [of p pre "[]" delim] show ?case
    by (subst params_spec.simps) simp
next
  case (3 delim p q ps)
  have "params_spec ([CHR '' ''] @ print_params delim (q # ps)) delim = q # ps"
    using 3 by (intro 3(1)) auto
  with 3(2,3) param_spec_print [of p pre "[delim, CHR '' ''] @ print_params delim (q # ps)" delim]
  show ?case
    using till_append [of delim "[]"] by (subst params_spec.simps) (simp add: print_params.simps)
qed

subsection \<open>White-space words and directory names\<close>

lemma skip_while_within_len:
  "dch_wf d \<Longrightarrow> dc_len d - dc_len (skip_while P d) = length (takeWhile P (dch_bytes d))"
proof -
  assume wf: "dch_wf d"
  have "dc_len (skip_while P d) = length (dropWhile P (dch_bytes d))"
    using wf by (metis dch_bytes_length dch_bytes_skip_while wf_skip_while)
  moreover have "length (takeWhile P (dch_bytes d)) + length (dropWhile P (dch_bytes d)) = dc_len d"
    using wf by (metis dch_bytes_length length_append takeWhile_dropWhile_id)
  ultimately show ?thesis by simp
qed

lemma extractTillWS_bytes:
  assumes wf: "dch_wf d"
  shows "dch_extractTillWS d = (res, d', sub) \<Longrightarrow>
     (let t = dropWhile is_ws (dch_bytes d) in
       res = (t \<noteq> []) \<and> dch_bytes sub = takeWhile (Not \<circ> is_ws) t \<and>
       dch_bytes d' = dropWhile is_ws (dropWhile (Not \<circ> is_ws) t)) \<and>
     dch_wf d' \<and> dch_wf sub \<and> dc_len d' \<le> dc_len d \<and> (res \<longrightarrow> dc_len d' < dc_len d)"
proof -
  assume e: "dch_extractTillWS d = (res, d', sub)"
  let ?d = "skipLeadingWS d"
  have w: "dch_wf ?d" and b: "dch_bytes ?d = dropWhile is_ws (dch_bytes d)"
    and l: "dc_len ?d \<le> dc_len d"
    using wf by (auto simp: wf_intros skipLeadingWS_spec intro: skip_while_len [of is_ws d, folded skipLeadingWS_def])
  show ?thesis
  proof (cases "0 < dc_len ?d")
    case False
    then have "dch_bytes ?d = []" using w by (simp add: dch_bytes_Nil_iff)
    with False e b w l show ?thesis
      by (auto simp: dch_extractTillWS_def Let_def dch_bytes_clear simp del: dropWhile_eq_Nil_conv)
  next
    case True
    let ?n = "length (takeWhile (\<lambda>c. \<not> is_ws c) (dch_bytes ?d))"
    have ne: "dch_bytes ?d \<noteq> []" using True w by (simp add: dch_bytes_Nil_iff)
    then have "\<not> is_ws (hd (dch_bytes ?d))" by (simp add: b hd_dropWhile del: dropWhile_eq_Nil_conv)
    then have n: "0 < ?n" using ne by (cases "dch_bytes ?d") auto
    have out: "res" "d' = skipLeadingWS (skip_while (\<lambda>c. \<not> is_ws c) ?d)"
        "sub = ?d\<lparr>dc_len := ?n\<rparr>"
      using e True by (auto simp: dch_extractTillWS_def Let_def skip_while_within_len [OF w] sub_chunk_eq)
    have le: "?n \<le> dc_len ?d" using w by (metis dch_bytes_length length_takeWhile_le)
    have "dc_len d' \<le> dc_len (skip_while (\<lambda>c. \<not> is_ws c) ?d)"
      using out by (simp add: skipLeadingWS_def skip_while_len)
    moreover have "dc_len (skip_while (\<lambda>c. \<not> is_ws c) ?d) = dc_len ?d - ?n"
      using skip_while_within_len [OF w, of "\<lambda>c. \<not> is_ws c"] skip_while_len [of "\<lambda>c. \<not> is_ws c" ?d]
      by simp
    ultimately have "dc_len d' < dc_len d" using n le l by linarith
    moreover have "dch_bytes sub = takeWhile (\<lambda>c. \<not> is_ws c) (dch_bytes ?d)"
      unfolding out(3) dch_bytes_prefix [OF le] by (simp add: takeWhile_eq_take [symmetric])
    moreover have "dch_bytes d' = dropWhile is_ws (dropWhile (\<lambda>c. \<not> is_ws c) (dch_bytes ?d))"
      using w by (simp add: out skipLeadingWS_spec wf_skip_while dch_bytes_skip_while)
    ultimately show ?thesis
      using ne w out le b
      by (auto simp: Let_def comp_def wf_prefix wf_intros simp del: dropWhile_eq_Nil_conv)
  qed
qed

text \<open>The words of a string, as the loops over \<open>dch_extractTillWS\<close> visit them.\<close>

function dch_words :: "DataChunk \<Rightarrow> DataChunk list" where
  "dch_words d = (case dch_extractTillWS d of (res, d', w) \<Rightarrow>
     if res \<and> dch_wf d then w # dch_words d' else [])"
  by pat_completeness auto
termination
  by (relation "measure dc_len") (auto dest!: extractTillWS_bytes [rotated, OF sym])

declare dch_words.simps [simp del]

lemma back_while_append:
  assumes "lo \<le> length a" "\<forall>c \<in> set b. P c" "length a = lo \<or> \<not> P (last a)"
  shows "back_while P lo (a @ b @ c) (length a + length b) = length a"
  using assms(2)
proof (induction b arbitrary: c rule: rev_induct)
  case Nil
  show ?case
    using assms(1,3) by (cases a rule: rev_cases) (auto simp: back_while.simps [of P _ _ "Suc _"] back_while.simps [of P _ _ 0])
next
  case (snoc x b)
  have "back_while P lo (a @ b @ ([x] @ c)) (length a + length b) = length a"
    using snoc by (intro snoc.IH) auto
  with snoc assms(1) show ?case
    by (subst back_while.simps) (simp add: nth_append)
qed

lemma dch_dirNameOf_unfold:
  "dc_data f = Some s \<Longrightarrow> dc_len f = n \<Longrightarrow>
   dch_dirNameOf f = dch_init (Some s)
     (back_while (\<lambda>c. c = CHR ''/'') 1 s (back_while (\<lambda>c. c \<noteq> CHR ''/'') 0 s
       (back_while (\<lambda>c. c = CHR ''/'') 1 s n)))"
  by (simp add: dch_dirNameOf_def Let_def)

subsection \<open>Properties\<close>

lemma extractParam_within:
  assumes wf: "dch_wf line" and res: "dch_extractParam line delim = (res, l, n, v)"
  shows "dch_within l line \<and> dch_within n line \<and> (\<forall>w. v = Some w \<longrightarrow> dch_within w line)"
proof -
  obtain r l1 n1 where e: "dch_extractTillChr line (CHR ''='') = (r, l1, n1)" by (metis surj_pair)
  note e1 = extractTillChr_spec [OF wf e]
  let ?l2 = "skipLeadingWS l1"
  have l2: "dch_within ?l2 line" "dch_wf ?l2" and n1: "dch_within (dch_trimWS n1) line"
    using e1 within_skip_while [of is_ws l1] within_trimWS [of n1]
    by (auto intro: within_trans simp: skipLeadingWS_def wf_skip_while)
  obtain r3 l3 v3 where q: "dch_extractTillChr (dch_advance (Suc 0) ?l2) QUOTE = (r3, l3, v3)"
    by (metis surj_pair)
  obtain r4 l4 v4 where t: "dch_extractTillChr ?l2 delim = (r4, l4, v4)" by (metis surj_pair)
  note q1 = extractTillChr_spec [OF wf_advance [OF l2(2)] q] and t1 = extractTillChr_spec [OF l2(2) t]
  have a: "dch_within (snd (dch_shiftAfterChr l3 delim)) l3" using q1 shiftAfterChr_spec by blast
  have v4: "dch_within (trimTrailingWS v4) v4" by (simp add: trimTrailingWS_def within_trim_back)
  have adv: "dch_within (dch_advance (Suc 0) ?l2) ?l2" if "0 < dc_len ?l2"
    using that by (simp add: within_advance)
  show ?thesis
    using res e1 l2 n1 q1 t1 a v4 adv
    by (auto simp: dch_extractParam_def Let_def e q t dch_shift_1 split: if_splits
        intro: within_trans)
qed

text \<open>C25: Extracting a parameter (\<open>dch_extractParam\<close>) implements its contract for every line
  inside a valid object and every delimiter: it succeeds exactly when the line has a
  \<open>=\<close>; the name, the value and the rest of the line are those of the bytewise
  specification (name trimmed, value up to the closing quote or else up to the delimiter and
  trimmed at the end); every chunk returned lies inside the line; and a success makes the
  line strictly shorter, so the callers' loops end.\<close>

theorem extractParam_correct:
  assumes "dch_wf line" and "dch_extractParam line delim = (res, l, n, v)"
  shows "res = (CHR ''='' \<in> set (dch_bytes line)) \<and>
    param_spec (dch_bytes line) delim =
      (case v of None \<Rightarrow> None | Some w \<Rightarrow> Some (dch_bytes n, dch_bytes w, dch_bytes l)) \<and>
    dch_within l line \<and> dch_within n line \<and> (\<forall>w. v = Some w \<longrightarrow> dch_within w line) \<and>
    (res \<longrightarrow> dc_len l < dc_len line)"
proof -
  have "(param_spec (dch_bytes line) delim = None) = (CHR ''='' \<notin> set (dch_bytes line))"
    by (auto simp: param_spec_def Let_def split: prod.splits)
  with extractParam_refines [OF assms] extractParam_within [OF assms] extractParam_len [OF assms(2)]
  show ?thesis by (auto split: option.splits)
qed

theorem extractParam_correct_witness:
  "dch_extractParam (dch_initWithStr (Some ''a = b; c'')) (CHR '';'') =
     (True, \<lparr>dc_data = Some '' c'', dc_len = 2\<rparr>, \<lparr>dc_data = Some ''a = b; c'', dc_len = 1\<rparr>,
      Some \<lparr>dc_data = Some ''b; c'', dc_len = 1\<rparr>) \<and>
   param_spec ''a = b; c'' (CHR '';'') = Some (''a'', ''b'', '' c'')"
proof -
  let ?d = "dch_initWithStr (Some ''a = b; c'')"
  have e: "dch_extractParam ?d (CHR '';'') =
     (True, \<lparr>dc_data = Some '' c'', dc_len = 2\<rparr>, \<lparr>dc_data = Some ''a = b; c'', dc_len = 1\<rparr>,
      Some \<lparr>dc_data = Some ''b; c'', dc_len = 1\<rparr>)"
    by code_simp
  have b: "dch_bytes ?d = ''a = b; c''" by code_simp
  show ?thesis
    using extractParam_correct [OF wf_initWithStr e] e unfolding b
    by (simp add: dch_bytes_def [of "\<lparr>dc_data = _, dc_len = _\<rparr>"])
qed

text \<open>Round trip of parameter lists: whatever list of names and values is written as
  \<open>name="value"\<close> items separated by a delimiter and a space, the extraction loop over
  \<open>dch_extractParam\<close> visits exactly these pairs in this order, for any delimiter, as long
  as no name holds a \<open>=\<close> or begins or ends with white space and no value holds a quote.\<close>

theorem params_roundtrip:
  assumes "dch_wf d" and "dch_bytes d = print_params delim ps" and "\<forall>p \<in> set ps. param_ok p"
  shows "map (\<lambda>(n, v). (dch_bytes n, dch_bytes v)) (dch_params d delim) = ps"
  using dch_params_bytes [OF assms(1), of delim] params_spec_print [OF assms(3), of "[]" delim] assms(2)
  by simp

theorem params_roundtrip_witness:
  "map (\<lambda>(n, v). (dch_bytes n, dch_bytes v))
     (dch_params (dch_initWithStr (Some (print_params (CHR '','') [(''nc'', ''1''), (''uri'', ''/a=b'')]))) (CHR '',''))
   = [(''nc'', ''1''), (''uri'', ''/a=b'')]"
  by (rule params_roundtrip)
     (simp_all add: dch_bytes_initWithStr print_param_def param_ok_def is_ws_def gWhiteSpaces_def)

text \<open>\<open>dch_dirNameOf\<close> strips the trailing slashes, the last path element and the slashes
  before it, keeps the root slash, and gives the empty name (not \<open>"."\<close>) for a path without
  directory part.\<close>

theorem dirNameOf_correct:
  assumes "name \<noteq> []" and "CHR ''/'' \<notin> set name" and "dir = [] \<or> last dir \<noteq> CHR ''/''"
    and "p = dir @ replicate k (CHR ''/'') @ name @ replicate m (CHR ''/'')"
    and "dir \<noteq> [] \<longrightarrow> 0 < k"
  shows "dch_bytes (dch_dirNameOf (dch_init (Some p) (length p))) =
     (if dir \<noteq> [] then dir else if 0 < k then ''/'' else [])"
proof -
  let ?S = "CHR ''/''" and ?R = "\<lambda>k. replicate k (CHR ''/'')"
  have 1: "back_while (\<lambda>c. c = ?S) 1 p (length p) = length (dir @ ?R k @ name)"
    using back_while_append [of 1 "dir @ ?R k @ name" "?R m" "\<lambda>c. c = ?S" "[]"] assms(1,2,4)
    by (cases name rule: rev_cases) (auto simp: ac_simps)
  have 2: "back_while (\<lambda>c. c \<noteq> ?S) 0 p (length (dir @ ?R k @ name)) = length (dir @ ?R k)"
    using back_while_append [of 0 "dir @ ?R k" name "\<lambda>c. c \<noteq> ?S" "?R m"] assms(2,4,5)
    by (cases "k = 0") (auto simp: ac_simps)
  have 3: "back_while (\<lambda>c. c = ?S) 1 p (length (dir @ ?R k)) =
     (if dir \<noteq> [] then length dir else if 0 < k then 1 else 0)"
  proof (cases "dir = []")
    case False
    then show ?thesis
      using back_while_append [of 1 dir "?R k" "\<lambda>c. c = ?S" "name @ ?R m"] assms(3,4)
      by (cases dir) auto
  next
    case True
    show ?thesis
    proof (cases k)
      case 0
      with True show ?thesis by (simp add: back_while.simps [of _ _ _ 0])
    next
      case (Suc j)
      then show ?thesis
        using back_while_append [of 1 "[?S]" "?R j" "\<lambda>c. c = ?S" "name @ ?R m"] assms(4) True
        by simp
    qed
  qed
  have "dch_dirNameOf (dch_init (Some p) (length p)) =
      dch_init (Some p) (if dir \<noteq> [] then length dir else if 0 < k then 1 else 0)"
    using dch_dirNameOf_unfold [of "dch_init (Some p) (length p)" p "length p"]
    unfolding 1 2 3 by (simp add: dch_init_def)
  then show ?thesis
    using assms(4) by (cases k) (auto simp: dch_init_def dch_bytes_def)
qed

theorem dirNameOf_correct_witness:
  "dch_bytes (dch_dirNameOf (dch_init (Some ''/srv//files//'') 13)) = ''/srv''"
  using dirNameOf_correct [of "''files''" "''/srv''" "''/srv//files//''" 2 2] by (simp add: eval_nat_numeral)

end
