(* ===== verification/Membuf.thy ===== *)
theory Membuf
  imports Datachunk
begin

text \<open>
  \<open>src/membuf.c\<close>: the growing byte buffer.  \<open>mb_block\<close> is the block \<open>mb->data\<close> points
  to, all of its bytes; \<open>mb_len\<close> is the 32-bit \<open>dataLen\<close>.  Sizes are computed at the width
  the code uses, a write outside the block is \<open>Undef\<close>, a call of \<open>abort()\<close> is \<open>Abort\<close>,
  and the bytes a \<open>realloc\<close> leaves uninitialised have the arbitrary value \<open>u\<close>.  The
  allocator is assumed to succeed (the code does not test it).  The interface
  \<open>byte_buffer\<close> is what the clients of the buffer rely on: an append that keeps the
  invariant and extends the contents.
\<close>

record MemBuf =
  mb_block :: bytes
  mb_len :: u32

definition cbind :: "'a cres \<Rightarrow> ('a \<Rightarrow> 'b cres) \<Rightarrow> 'b cres" where
  "cbind r f = (case r of Ok x \<Rightarrow> f x | Abort \<Rightarrow> Abort | Undef \<Rightarrow> Undef)"

lemma cbind_simps [simp]:
  "cbind (Ok x) f = f x" "cbind Abort f = Abort" "cbind Undef f = Undef"
  by (simp_all add: cbind_def)

text \<open>The C library on blocks: \<open>realloc\<close>, \<open>memcpy\<close> to an offset.\<close>

definition realloc :: "char \<Rightarrow> bytes \<Rightarrow> nat \<Rightarrow> bytes" where
  "realloc u b n = take n b @ replicate (n - length b) u"

definition memcpy :: "bytes \<Rightarrow> nat \<Rightarrow> bytes \<Rightarrow> bytes cres" where
  "memcpy b i xs = (if i + length xs \<le> length b
     then Ok (take i b @ xs @ drop (i + length xs) b) else Undef)"

definition mb_new :: MemBuf where
  "mb_new = \<lparr>mb_block = [NUL], mb_len = 0\<rparr>"

definition mb_newIfNull :: "MemBuf option \<Rightarrow> MemBuf option" where
  "mb_newIfNull m = (case m of None \<Rightarrow> Some mb_new | Some b \<Rightarrow> Some b)"

definition mb_newWithStr :: "bytes \<Rightarrow> MemBuf" where
  "mb_newWithStr s = \<lparr>mb_block = cstr s @ [NUL], mb_len = of_nat (strlen s)\<rparr>"

definition mb_appendData :: "char \<Rightarrow> MemBuf \<Rightarrow> bytes \<Rightarrow> u32 \<Rightarrow> MemBuf cres" where
  "mb_appendData u mb d n =
     (if length d < unat n then Undef else
      cbind (memcpy (realloc u (mb_block mb) (unat (mb_len mb + n + 1))) (unat (mb_len mb))
               (take (unat n) d)) (\<lambda>b.
      cbind (memcpy b (unat (mb_len mb + n)) [NUL]) (\<lambda>b'.
      Ok \<lparr>mb_block = b', mb_len = mb_len mb + n\<rparr>)))"

definition mb_appendStr :: "char \<Rightarrow> MemBuf \<Rightarrow> bytes \<Rightarrow> MemBuf cres" where
  "mb_appendStr u mb s = mb_appendData u mb (cstr s) (of_nat (strlen s))"

text \<open>\<open>mb_appendStrL\<close>: the variadic arguments before the \<open>NULL\<close>, in order.\<close>

fun mb_appendStrL :: "char \<Rightarrow> MemBuf \<Rightarrow> bytes list \<Rightarrow> MemBuf cres" where
  "mb_appendStrL u mb [] = Ok mb"
| "mb_appendStrL u mb (s # ss) = cbind (mb_appendStr u mb s) (\<lambda>mb'. mb_appendStrL u mb' ss)"

definition mb_appendChunk :: "char \<Rightarrow> MemBuf \<Rightarrow> DataChunk \<Rightarrow> MemBuf cres" where
  "mb_appendChunk u mb dch = mb_appendData u mb (dch_bytes dch) (of_nat (dc_len dch))"

definition mb_endsWithStr :: "MemBuf \<Rightarrow> bytes \<Rightarrow> bool" where
  "mb_endsWithStr mb s = (strlen s \<le> unat (mb_len mb) \<and>
     take (strlen s) (drop (unat (mb_len mb) - strlen s) (mb_block mb)) = cstr s)"

definition mb_ensureEndsWithSlash :: "char \<Rightarrow> MemBuf \<Rightarrow> MemBuf cres" where
  "mb_ensureEndsWithSlash u mb =
     (if mb_len mb = 0 \<or> mb_block mb ! unat (mb_len mb - 1) \<noteq> CHR ''/''
      then mb_appendData u mb ''/'' 1 else Ok mb)"

definition mb_resize :: "char \<Rightarrow> MemBuf \<Rightarrow> u32 \<Rightarrow> MemBuf cres" where
  "mb_resize u mb n =
     cbind (memcpy (realloc u (mb_block mb) (unat (n + 1))) (unat n) [NUL])
       (\<lambda>b. Ok \<lparr>mb_block = b, mb_len = n\<rparr>)"

definition mb_setData :: "MemBuf \<Rightarrow> u32 \<Rightarrow> bytes \<Rightarrow> u32 \<Rightarrow> MemBuf cres" where
  "mb_setData mb off d n =
     (if off + n > mb_len mb then Abort
      else if length d < unat n then Undef
      else cbind (memcpy (mb_block mb) (unat off) (take (unat n) d))
             (\<lambda>b. Ok (mb\<lparr>mb_block := b\<rparr>)))"

definition mb_setStrEnd :: "char \<Rightarrow> MemBuf \<Rightarrow> u32 \<Rightarrow> bytes \<Rightarrow> MemBuf cres" where
  "mb_setStrEnd u mb off s =
     (let n = of_nat (strlen s + 1) :: u32; l = off + n in
      cbind (memcpy (realloc u (mb_block mb) (unat l)) (unat off) (cstr s @ [NUL]))
        (\<lambda>b. Ok \<lparr>mb_block = b, mb_len = l\<rparr>))"

text \<open>\<open>mb_readFile\<close>: \<open>got\<close> is what \<open>read()\<close> delivered (at most \<open>toRead\<close> bytes).\<close>

definition mb_readFile :: "MemBuf \<Rightarrow> u32 \<Rightarrow> u32 \<Rightarrow> bytes \<Rightarrow> MemBuf cres" where
  "mb_readFile mb off toRead got =
     (if off + toRead > mb_len mb then Abort
      else cbind (memcpy (mb_block mb) (unat off) (take (unat toRead) got))
             (\<lambda>b. Ok (mb\<lparr>mb_block := b\<rparr>)))"

definition mb_fillWithZeros :: "MemBuf \<Rightarrow> u32 \<Rightarrow> u32 \<Rightarrow> MemBuf cres" where
  "mb_fillWithZeros mb off n =
     (if off + n > mb_len mb then Abort
      else cbind (memcpy (mb_block mb) (unat off) (replicate (unat n) NUL))
             (\<lambda>b. Ok (mb\<lparr>mb_block := b\<rparr>)))"

definition mb_data :: "MemBuf \<Rightarrow> bytes" where
  "mb_data mb = mb_block mb"

definition mb_dataLen :: "MemBuf \<Rightarrow> u32" where
  "mb_dataLen mb = mb_len mb"

definition mb_unbox_free :: "MemBuf option \<Rightarrow> bytes option" where
  "mb_unbox_free m = map_option mb_block m"

subsection \<open>Invariant and contents\<close>

definition mb_wf :: "MemBuf \<Rightarrow> bool" where
  "mb_wf mb = (length (mb_block mb) = unat (mb_len mb) + 1 \<and> last (mb_block mb) = NUL \<and>
     unat (mb_len mb) + 1 < 2 ^ 32)"

definition mb_contents :: "MemBuf \<Rightarrow> bytes" where
  "mb_contents mb = take (unat (mb_len mb)) (mb_block mb)"

lemma mb_block_split: "mb_wf mb \<Longrightarrow> mb_block mb = mb_contents mb @ [NUL]"
  by (cases "mb_block mb" rule: rev_cases) (auto simp: mb_wf_def mb_contents_def)

lemma length_mb_contents: "mb_wf mb \<Longrightarrow> length (mb_contents mb) = unat (mb_len mb)"
  by (simp add: mb_wf_def mb_contents_def)

lemma mb_wf_eq: "mb_wf mb \<longleftrightarrow>
    (\<exists>c. mb_block mb = c @ [NUL] \<and> unat (mb_len mb) = length c \<and> length c + 1 < 2 ^ 32)"
  using mb_block_split length_mb_contents by (auto simp: mb_wf_def) metis

lemma wf_new [wf_intros]: "mb_wf mb_new" and contents_new [simp]: "mb_contents mb_new = []"
  by (simp_all add: mb_wf_def mb_new_def mb_contents_def)

lemma length_realloc [simp]: "length (realloc u b n) = n"
  by (simp add: realloc_def)

lemma memcpy_Ok: "memcpy b i xs = Ok c \<Longrightarrow> length c = length b"
  by (auto simp: memcpy_def split: if_splits)

lemma unat_lt32: "unat (x :: u32) < 2 ^ 32"
  using unsigned_less [of x] by simp

lemma unat_add_less:
  "unat (a::u32) + unat b < 2 ^ 32 \<Longrightarrow> unat (a + b) = unat a + unat b"
  by (simp add: unat_add_lem [THEN iffD1])

lemma unat_of_nat32: "n < 2 ^ 32 \<Longrightarrow> unat (of_nat n :: u32) = n"
  by (simp add: unat_of_nat)

lemma unat_add_mod: "unat (a + b :: u32) = (unat a + unat b) mod 2 ^ 32"
  by (simp add: unat_word_ariths)

lemma newWithStr_wf:
  "strlen s + 1 < 2 ^ 32 \<Longrightarrow> mb_wf (mb_newWithStr s) \<and> mb_contents (mb_newWithStr s) = cstr s"
  by (simp add: mb_wf_def mb_newWithStr_def mb_contents_def strlen_def unat_of_nat32)

lemma appendData_ok:
  assumes "mb_wf mb" "unat n \<le> length d" "unat (mb_len mb) + unat n + 1 < 2 ^ 32"
  shows "mb_appendData u mb d n =
    Ok \<lparr>mb_block = mb_contents mb @ take (unat n) d @ [NUL], mb_len = mb_len mb + n\<rparr>"
proof -
  have a: "unat (mb_len mb + n) = unat (mb_len mb) + unat n"
    using assms(3) by (intro unat_add_less) simp
  then have "unat (mb_len mb + n + 1) = unat (mb_len mb) + unat n + 1"
    using assms(3) unat_add_less [of "mb_len mb + n" 1] by simp
  moreover obtain c where "mb_block mb = c @ [NUL]" "unat (mb_len mb) = length c" "length c + 1 < 2 ^ 32"
    using assms(1) by (auto simp: mb_wf_eq)
  ultimately show ?thesis
    using assms(2) by (simp add: mb_appendData_def memcpy_def realloc_def a mb_contents_def)
qed

lemma appendData_overflow:
  assumes "mb_wf mb" "unat n \<le> length d" "2 ^ 32 \<le> unat (mb_len mb) + unat n + 1"
  shows "mb_appendData u mb d n = Undef"
proof -
  have "unat (mb_len mb + n + 1) = (unat (mb_len mb) + unat n + 1) mod 2 ^ 32"
    by (simp add: unat_add_mod mod_simps)
  also have "\<dots> < unat (mb_len mb) + unat n"
    using assms(3) by (simp add: le_mod_geq mod_less_divisor less_le_trans [of _ "2 ^ 32 - 1"])
  finally show ?thesis
    using assms(2) by (simp add: mb_appendData_def memcpy_def)
qed

text \<open>Appending is defined exactly when the new size still fits the 32-bit length.\<close>

lemma appendData_wf:
  assumes "mb_wf mb" "unat n \<le> length d" "mb_appendData u mb d n = Ok mb'"
  shows "mb_wf mb' \<and> mb_contents mb' = mb_contents mb @ take (unat n) d \<and>
         unat (mb_len mb') = unat (mb_len mb) + unat n"
proof -
  have lt: "unat (mb_len mb) + unat n + 1 < 2 ^ 32"
    using assms appendData_overflow [OF assms(1,2), of u] by (cases "2 ^ 32 \<le> unat (mb_len mb) + unat n + 1") auto
  then have "unat (mb_len mb + n) = unat (mb_len mb) + unat n" by (intro unat_add_less) simp
  moreover have "mb' = \<lparr>mb_block = mb_contents mb @ take (unat n) d @ [NUL], mb_len = mb_len mb + n\<rparr>"
    using appendData_ok [OF assms(1,2) lt, of u] assms(3) by simp
  ultimately show ?thesis
    using assms(2) length_mb_contents [OF assms(1)] lt
    by (auto simp: mb_wf_def mb_contents_def [of "\<lparr>mb_block = _, mb_len = _\<rparr>"])
qed

definition mb_append :: "char \<Rightarrow> MemBuf \<Rightarrow> bytes \<Rightarrow> MemBuf cres" where
  "mb_append u mb d = mb_appendData u mb d (of_nat (length d))"

subsection \<open>The interface the clients use\<close>

locale byte_buffer =
  fixes app :: "'b \<Rightarrow> bytes \<Rightarrow> 'b cres"
    and contents :: "'b \<Rightarrow> bytes"
    and inv :: "'b \<Rightarrow> bool"
    and room :: nat
  assumes app_ok: "inv b \<Longrightarrow> length (contents b) + length xs < room \<Longrightarrow>
      \<exists>b'. app b xs = Ok b' \<and> inv b' \<and> contents b' = contents b @ xs"
begin

text \<open>A sequence of appends that fits stores the concatenation.\<close>

primrec app_all :: "'b \<Rightarrow> bytes list \<Rightarrow> 'b cres" where
  "app_all b [] = Ok b"
| "app_all b (x # xs) = cbind (app b x) (\<lambda>b'. app_all b' xs)"

lemma app_all_ok:
  "inv b \<Longrightarrow> length (contents b) + length (concat xss) < room \<Longrightarrow>
     \<exists>b'. app_all b xss = Ok b' \<and> inv b' \<and> contents b' = contents b @ concat xss"
proof (induction xss arbitrary: b)
  case Nil
  then show ?case by simp
next
  case (Cons x xss)
  then obtain b1 where b1: "app b x = Ok b1" "inv b1" "contents b1 = contents b @ x"
    using app_ok [of b x] by auto
  with Cons.prems Cons.IH [of b1] show ?case by (simp add: add.assoc)
qed

lemma app_all_append: "app_all b (xs @ ys) = cbind (app_all b xs) (\<lambda>b'. app_all b' ys)"
proof (induction xs arbitrary: b)
  case (Cons x xs)
  then show ?case by (cases "app b x") simp_all
qed simp

end

lemma append_ok:
  assumes "mb_wf b" "length (mb_contents b) + length xs < 2 ^ 32 - 1"
  shows "\<exists>b'. mb_append u b xs = Ok b' \<and> mb_wf b' \<and> mb_contents b' = mb_contents b @ xs"
proof -
  have n: "unat (of_nat (length xs) :: u32) = length xs"
    using assms(2) by (intro unat_of_nat32) simp
  have "unat (mb_len b) + unat (of_nat (length xs) :: u32) + 1 < 2 ^ 32"
    using assms length_mb_contents [OF assms(1)] by (simp add: n)
  note ok = appendData_ok [OF assms(1) _ this, of xs u]
  then show ?thesis
    using appendData_wf [OF assms(1), of "of_nat (length xs)" xs u] by (simp add: n mb_append_def)
qed

interpretation membuf: byte_buffer "mb_append u" mb_contents mb_wf "2 ^ 32 - 1" for u
  by unfold_locales (rule append_ok)

lemma appendStr_append: "mb_appendStr u mb s = mb_append u mb (cstr s)"
  by (simp add: mb_appendStr_def mb_append_def strlen_def)

lemma appendStrL_app_all: "mb_appendStrL u mb ss = membuf.app_all u mb (map cstr ss)"
  by (induction ss arbitrary: mb) (simp_all add: appendStr_append)

subsection \<open>Properties\<close>

text \<open>C26: \<open>mb_appendData\<close> on a well-formed buffer is defined exactly when the old length, the
  appended length and the terminating byte fit in 32 bits; it then keeps the invariant
  (block one byte longer than \<open>dataLen\<close>, zero byte at the end) and the new contents are the
  old ones followed by the appended bytes, whatever value uninitialised memory has.\<close>

theorem appendData_correct:
  assumes "mb_wf mb" and "unat n \<le> length d"
  shows "mb_appendData u mb d n =
    (if unat (mb_len mb) + unat n + 1 < 2 ^ 32
     then Ok \<lparr>mb_block = mb_contents mb @ take (unat n) d @ [NUL], mb_len = mb_len mb + n\<rparr>
     else Undef) \<and>
    (\<forall>mb'. mb_appendData u mb d n = Ok mb' \<longrightarrow>
       mb_wf mb' \<and> mb_contents mb' = mb_contents mb @ take (unat n) d)"
proof
  show "mb_appendData u mb d n = (if unat (mb_len mb) + unat n + 1 < 2 ^ 32
     then Ok \<lparr>mb_block = mb_contents mb @ take (unat n) d @ [NUL], mb_len = mb_len mb + n\<rparr>
     else Undef)"
    using appendData_ok [OF assms] appendData_overflow [OF assms] by (simp only: not_less split: if_split) blast
  show "\<forall>mb'. mb_appendData u mb d n = Ok mb' \<longrightarrow>
      mb_wf mb' \<and> mb_contents mb' = mb_contents mb @ take (unat n) d"
    using appendData_wf [OF assms] by blast
qed

theorem appendData_correct_witness:
  "mb_appendData NUL (mb_newWithStr ''GET'') '' /x'' 2 =
     Ok \<lparr>mb_block = ''GET /'' @ [NUL], mb_len = 5\<rparr>"
proof -
  have wf: "mb_wf (mb_newWithStr ''GET'')" and c: "mb_contents (mb_newWithStr ''GET'') = ''GET''"
    using newWithStr_wf [of "''GET''"] by (simp_all add: strlen_def)
  show ?thesis
    using appendData_correct [OF wf, of 2 "'' /x''" NUL]
    by (simp add: c) (simp add: mb_newWithStr_def strlen_def)
qed

text \<open>\<open>mb_appendStrL\<close> on a well-formed buffer: when everything fits in 32 bits, the list of
  strings is appended in order, as one append of their concatenation, and the invariant is
  kept.\<close>

theorem appendStrL_correct:
  assumes "mb_wf mb" and "length (mb_contents mb) + length (concat (map cstr ss)) < 2 ^ 32 - 1"
  shows "\<exists>mb'. mb_appendStrL u mb ss = Ok mb' \<and> mb_wf mb' \<and>
    mb_contents mb' = mb_contents mb @ concat (map cstr ss)"
  unfolding appendStrL_app_all by (rule membuf.app_all_ok [OF assms])

theorem appendStrL_correct_witness:
  "\<exists>mb'. mb_appendStrL NUL mb_new [''Digest realm='', ''x''] = Ok mb' \<and> mb_wf mb' \<and>
     mb_contents mb' = ''Digest realm=x''"
  using appendStrL_correct [OF wf_new, of "[''Digest realm='', ''x'']" NUL] by simp

text \<open>\<open>mb_setData\<close> on a well-formed buffer: a range inside the buffer is overwritten; a range
  beyond its end calls \<open>abort()\<close>, except when \<open>offset + len\<close> exceeds 32 bits and wraps to
  at most the length: the test then passes and the copy leaves the block.\<close>

theorem setData_outcome:
  assumes "mb_wf mb" and "unat n \<le> length d"
  shows "mb_setData mb off d n =
    (if unat off + unat n \<le> unat (mb_len mb) then
       Ok (mb\<lparr>mb_block := take (unat off) (mb_block mb) @ take (unat n) d @
                           drop (unat off + unat n) (mb_block mb)\<rparr>)
     else if 2 ^ 32 \<le> unat off + unat n \<and> unat off + unat n - 2 ^ 32 \<le> unat (mb_len mb)
     then Undef else Abort)"
proof -
  have lt: "unat (mb_len mb) < 2 ^ 32" "unat off + unat n < 2 ^ 32 + 2 ^ 32"
    using unat_lt32 [of "mb_len mb"] unat_lt32 [of off] unat_lt32 [of n] by simp_all
  have blk: "length (mb_block mb) = unat (mb_len mb) + 1" "unat (mb_len mb) + 1 < 2 ^ 32" using assms(1) by (simp_all add: mb_wf_def del: One_nat_def)
  have sum: "unat (off + n) = (if 2 ^ 32 \<le> unat off + unat n
      then unat off + unat n - 2 ^ 32 else unat off + unat n)"
    using lt by (simp add: unat_add_mod le_mod_geq)
  show ?thesis
  proof (cases "unat off + unat n \<le> unat (mb_len mb)")
    case True
    then have "\<not> off + n > mb_len mb" using lt sum by (simp add: word_less_nat_alt not_less)
    with True blk assms(2) show ?thesis by (simp add: mb_setData_def memcpy_def)
  next
    case False
    have u: "\<not> unat off + unat n \<le> length (mb_block mb)" if "2 ^ 32 \<le> unat off + unat n" "length (mb_block mb) < 2 ^ 32 "
      using that by simp
    have "(off + n > mb_len mb) = (\<not> (2 ^ 32 \<le> unat off + unat n \<and>
        unat off + unat n - 2 ^ 32 \<le> unat (mb_len mb)))"
      using False lt sum by (auto simp: word_less_nat_alt)
    moreover have "memcpy (mb_block mb) (unat off) (take (unat n) d) = Undef"
      if "2 ^ 32 \<le> unat off + unat n" "unat off + unat n - 2 ^ 32 \<le> unat (mb_len mb)"
      using that assms(2) blk lt False unat_lt32 [of off] unat_lt32 [of n]
      by (simp add: memcpy_def)
    ultimately show ?thesis using False assms(2) by (simp add: mb_setData_def)
  qed
qed

theorem setData_outcome_witness:
  "mb_setData (mb_newWithStr ''abc'') 1 ''XY'' 2 = Ok \<lparr>mb_block = ''aXY'' @ [NUL], mb_len = 3\<rparr> \<and>
   mb_setData (mb_newWithStr ''abc'') 0xFFFFFFFF ''XY'' 2 = Undef \<and>
   mb_setData (mb_newWithStr ''abc'') 2 ''XY'' 2 = Abort"
proof -
  have wf: "mb_wf (mb_newWithStr ''abc'')"
    using newWithStr_wf [of "''abc''"] by (simp add: strlen_def)
  show ?thesis
    using setData_outcome [OF wf, of 2 "''XY''" 1] setData_outcome [OF wf, of 2 "''XY''" "0xFFFFFFFF"]
      setData_outcome [OF wf, of 2 "''XY''" 2]
    by (simp add: mb_newWithStr_def strlen_def)
qed

text \<open>\<open>mb_setStrEnd\<close> leaves the string prefix it keeps followed by the new string and its
  terminating zero byte, but counts that byte in \<open>dataLen\<close> and allocates no byte after it:
  the buffer is not well-formed afterwards (\<open>membuf.h\<close> says it is truncated at the end of
  the string and that the data always has an extra zero byte).\<close>

theorem setStrEnd_result:
  assumes "mb_wf mb" and "unat off \<le> length (mb_contents mb)"
    and "unat off + strlen s + 1 < 2 ^ 32"
  shows "mb_setStrEnd u mb off s =
    Ok \<lparr>mb_block = take (unat off) (mb_contents mb) @ cstr s @ [NUL],
        mb_len = off + of_nat (strlen s + 1)\<rparr> \<and>
    \<not> mb_wf \<lparr>mb_block = take (unat off) (mb_contents mb) @ cstr s @ [NUL],
        mb_len = off + of_nat (strlen s + 1)\<rparr>"
proof -
  have n: "unat (of_nat (strlen s + 1) :: u32) = strlen s + 1"
    using assms(3) by (intro unat_of_nat32) simp
  then have l: "unat (off + of_nat (strlen s + 1)) = unat off + strlen s + 1"
    using assms(3) unat_add_less [of off "of_nat (strlen s + 1)"] by simp
  obtain c where c: "mb_block mb = c @ [NUL]" "unat (mb_len mb) = length c" "length c + 1 < 2 ^ 32"
    using assms(1) by (auto simp: mb_wf_eq)
  then have cc: "mb_contents mb = c" by (simp add: mb_contents_def)
  have "take (unat off) (realloc u (mb_block mb) (unat off + strlen s + 1)) = take (unat off) c"
    using c cc assms(2) by (simp add: realloc_def min_def)
  then have "mb_setStrEnd u mb off s =
      Ok \<lparr>mb_block = take (unat off) (mb_contents mb) @ cstr s @ [NUL],
          mb_len = off + of_nat (strlen s + 1)\<rparr>"
    using c cc assms(2) unfolding mb_setStrEnd_def Let_def l
    by (simp add: memcpy_def strlen_def)
  moreover have "length (take (unat off) (mb_contents mb) @ cstr s @ [NUL]) = unat off + strlen s + 1"
    using assms(2) by (simp add: strlen_def)
  ultimately show ?thesis unfolding mb_wf_def by (simp only: l MemBuf.simps) simp
qed

theorem setStrEnd_result_witness:
  "mb_setStrEnd NUL (mb_newWithStr ''dir/abc'') 4 ''x'' = Ok \<lparr>mb_block = ''dir/x'' @ [NUL], mb_len = 6\<rparr>"
proof -
  have wf: "mb_wf (mb_newWithStr ''dir/abc'')" and c: "mb_contents (mb_newWithStr ''dir/abc'') = ''dir/abc''"
    using newWithStr_wf [of "''dir/abc''"] by (simp_all add: strlen_def)
  show ?thesis
    using setStrEnd_result [OF wf, of 4 "''x''" NUL] by (simp add: c strlen_def)
qed

end
