(* ===== verification/Folders.thy ===== *)
theory Folders
  imports Membuf "HOL-Library.Multiset" "HOL-Library.List_Lexorder" "HOL-Library.Product_Lexorder"
begin

text \<open>
  \<open>src/folder.c\<close>: directory listings.  The array of entries with its terminating entry is the
  list \<open>fo_entries\<close> and the number \<open>fo_alloc\<close> of entries it has room for beside the
  terminator; \<open>folder_addEntryChunk\<close> writes the new entry and the terminator after it, which
  is \<open>Undef\<close> when the array is too small.  The file system is the record \<open>FileSys\<close> of the
  answers to \<open>opendir\<close>/\<open>readdir\<close>, \<open>stat\<close> and reading a file; \<open>qsort\<close> is a parameter with
  the documented contract \<open>qsort_spec\<close> (a sorted permutation; the order of equal elements
  is unspecified).  The program sets no locale, so \<open>strcoll\<close> is \<open>strcmp\<close>.
\<close>

datatype FileKind = KindDir | KindReg | KindOther

record Stat =
  st_kind :: FileKind
  st_mode :: u32
  st_size :: u64

definition S_ISDIR :: "Stat \<Rightarrow> bool" where "S_ISDIR st = (st_kind st = KindDir)"
definition S_ISREG :: "Stat \<Rightarrow> bool" where "S_ISREG st = (st_kind st = KindReg)"

text \<open>\<open>fs_dir\<close> is \<open>Inl errno\<close> when \<open>opendir\<close> fails, else the names \<open>readdir\<close> yields.\<close>

record FileSys =
  fs_dir :: "bytes \<Rightarrow> nat + bytes list"
  fs_stat :: "bytes \<Rightarrow> Stat option"
  fs_file :: "bytes \<Rightarrow> bytes option"

record FolderEntry =
  fe_fileName :: bytes
  fe_isDir :: bool
  fe_mode :: u32
  fe_size :: u64

record Folder =
  fo_entries :: "FolderEntry list"
  fo_alloc :: nat

definition folder_new :: Folder where
  "folder_new = \<lparr>fo_entries = [], fo_alloc = 0\<rparr>"

definition folder_addEntryChunk ::
    "Folder \<Rightarrow> DataChunk \<Rightarrow> bool \<Rightarrow> u32 \<Rightarrow> u64 \<Rightarrow> Folder cres" where
  "folder_addEntryChunk fo name isDir mode size' =
     (let alloc = (if length (fo_entries fo) = fo_alloc fo
                   then (if fo_alloc fo \<noteq> 0 then 2 * fo_alloc fo else 6) + 1 else fo_alloc fo);
          fe = \<lparr>fe_fileName = cstr (dch_dupToStr name), fe_isDir = isDir,
                fe_mode = and mode 0x1FF, fe_size = size'\<rparr>
      in if length (fo_entries fo) + 1 < alloc + 1
         then Ok \<lparr>fo_entries = fo_entries fo @ [fe], fo_alloc = alloc\<rparr> else Undef)"

definition folder_addEntry :: "Folder \<Rightarrow> bytes \<Rightarrow> bool \<Rightarrow> u32 \<Rightarrow> u64 \<Rightarrow> Folder cres" where
  "folder_addEntry fo name isDir mode size' =
     folder_addEntryChunk fo (dch_init (Some name) (strlen name)) isDir mode size'"

definition folderEntCompare :: "FolderEntry \<Rightarrow> FolderEntry \<Rightarrow> int" where
  "folderEntCompare e1 e2 =
     (if fe_isDir e1 \<noteq> fe_isDir e2 then of_bool (fe_isDir e2) - of_bool (fe_isDir e1)
      else strcmp (fe_fileName e1) (fe_fileName e2))"

type_synonym qsort_fun =
  "(FolderEntry \<Rightarrow> FolderEntry \<Rightarrow> int) \<Rightarrow> FolderEntry list \<Rightarrow> FolderEntry list"

definition folder_sortEntries :: "qsort_fun \<Rightarrow> Folder \<Rightarrow> Folder" where
  "folder_sortEntries qs fo =
     (if 1 < length (fo_entries fo)
      then fo\<lparr>fo_entries := qs folderEntCompare (fo_entries fo)\<rparr> else fo)"

definition folder_getEntries :: "Folder \<Rightarrow> FolderEntry list" where
  "folder_getEntries fo = fo_entries fo"

text \<open>The directory name with a slash at its end, as \<open>filePathName\<close> holds it.\<close>

definition with_slash :: "bytes \<Rightarrow> bytes" where
  "with_slash d = (if d = [] \<or> last d \<noteq> CHR ''/'' then d @ ''/'' else d)"

fun load_entries :: "FileSys \<Rightarrow> bytes \<Rightarrow> bytes list \<Rightarrow> Folder \<Rightarrow> Folder cres" where
  "load_entries fs dirName [] fo = Ok fo"
| "load_entries fs dirName (n # ns) fo =
     (if n = ''.'' \<or> n = ''..'' then load_entries fs dirName ns fo
      else case fs_stat fs (dirName @ n) of
             None \<Rightarrow> load_entries fs dirName ns fo
           | Some st \<Rightarrow> cbind (folder_addEntry fo n (S_ISDIR st) (st_mode st) (st_size st))
                         (load_entries fs dirName ns))"

text \<open>\<open>folder_loadDir\<close>: the folder, or the error number.\<close>

definition folder_loadDir :: "qsort_fun \<Rightarrow> FileSys \<Rightarrow> bytes \<Rightarrow> (nat + Folder) cres" where
  "folder_loadDir qs fs dir =
     (case fs_dir fs dir of
        Inl errno \<Rightarrow> Ok (Inl errno)
      | Inr names \<Rightarrow> cbind (load_entries fs (with_slash dir) names folder_new)
                       (\<lambda>fo. Ok (Inr (folder_sortEntries qs fo))))"

subsection \<open>The order of the entries\<close>

text \<open>The sort key: folders before files, then the names as lists of byte values.\<close>

definition ent_key :: "FolderEntry \<Rightarrow> bool \<times> nat list" where
  "ent_key e = (\<not> fe_isDir e, map of_char (fe_fileName e))"

lemma strcmp_less: "strcmp a b < 0 \<longleftrightarrow> map (of_char :: char \<Rightarrow> nat) a < map of_char b"
  by (induction a b rule: strcmp.induct) (auto simp: Let_def)

lemma strcmp_le: "strcmp a b \<le> 0 \<longleftrightarrow> map (of_char :: char \<Rightarrow> nat) a \<le> map of_char b"
  by (induction a b rule: strcmp.induct) (auto simp: Let_def)

lemma compare_le: "folderEntCompare a b \<le> 0 \<longleftrightarrow> ent_key a \<le> ent_key b"
  by (auto simp: folderEntCompare_def ent_key_def strcmp_le)

lemma compare_less: "folderEntCompare a b < 0 \<longleftrightarrow> ent_key a < ent_key b"
  by (auto simp: folderEntCompare_def ent_key_def strcmp_less)

text \<open>
  The contract of \<open>qsort\<close>: for a comparison that is a total preorder, its result is a
  permutation of the array in which no element compares above a later one.
\<close>

definition total_preorder :: "('a \<Rightarrow> 'a \<Rightarrow> int) \<Rightarrow> bool" where
  "total_preorder cmp = (\<forall>a b c. (cmp a b < 0 \<longleftrightarrow> \<not> cmp b a \<le> 0) \<and>
     (cmp a b \<le> 0 \<longrightarrow> cmp b c \<le> 0 \<longrightarrow> cmp a c \<le> 0))"

definition qsort_spec :: "qsort_fun \<Rightarrow> bool" where
  "qsort_spec qs = (\<forall>cmp xs. total_preorder cmp \<longrightarrow>
     mset (qs cmp xs) = mset xs \<and> sorted_wrt (\<lambda>a b. cmp a b \<le> 0) (qs cmp xs))"

lemma compare_preorder: "total_preorder folderEntCompare"
  by (auto simp: total_preorder_def compare_le compare_less not_le intro: order.trans)

text \<open>An executable sort with that contract.\<close>

fun insert_by :: "('a \<Rightarrow> 'a \<Rightarrow> int) \<Rightarrow> 'a \<Rightarrow> 'a list \<Rightarrow> 'a list" where
  "insert_by cmp x [] = [x]"
| "insert_by cmp x (y # ys) = (if cmp x y \<le> 0 then x # y # ys else y # insert_by cmp x ys)"

definition insertion_sort :: "('a \<Rightarrow> 'a \<Rightarrow> int) \<Rightarrow> 'a list \<Rightarrow> 'a list" where
  "insertion_sort cmp xs = foldr (insert_by cmp) xs []"

lemma mset_insert_by [simp]: "mset (insert_by cmp x ys) = add_mset x (mset ys)"
  by (induction ys) auto

lemma set_insert_by [simp]: "set (insert_by cmp x ys) = insert x (set ys)"
  by (metis mset_insert_by set_mset_add_mset_insert set_mset_mset)

lemma sorted_insert_by:
  "total_preorder cmp \<Longrightarrow> sorted_wrt (\<lambda>a b. cmp a b \<le> 0) ys \<Longrightarrow>
     sorted_wrt (\<lambda>a b. cmp a b \<le> 0) (insert_by cmp x ys)"
  by (induction ys) (auto simp: total_preorder_def intro: less_imp_le; meson less_imp_le)+

lemma insertion_sort_spec: "qsort_spec insertion_sort"
proof -
  have "mset (insertion_sort cmp xs) = mset xs" for cmp and xs :: "FolderEntry list"
    by (induction xs) (simp_all add: insertion_sort_def)
  moreover have "sorted_wrt (\<lambda>a b. cmp a b \<le> 0) (insertion_sort cmp xs)"
    if "total_preorder cmp" for cmp and xs :: "FolderEntry list"
    using that by (induction xs) (simp_all add: insertion_sort_def sorted_insert_by)
  ultimately show ?thesis by (simp add: qsort_spec_def)
qed

lemma sorted_unique:
  assumes "mset ys = mset xs" "sorted_wrt (\<lambda>a b. folderEntCompare a b \<le> 0) ys"
    "inj_on ent_key (set xs)"
  shows "ys = sort_key ent_key xs"
proof -
  have k: "sorted (map ent_key ys)"
    using assms(2) by (simp add: compare_le sorted_wrt_map)
  have "map ent_key ys = sort (map ent_key xs)"
    by (rule properties_for_sort [symmetric]) (use assms(1) k in \<open>simp_all only: mset_map\<close>)
  moreover have "map ent_key (sort_key ent_key xs) = sort (map ent_key xs)"
    by (rule properties_for_sort [symmetric]) (simp_all only: mset_map mset_sort sorted_sort_key)
  moreover have "inj_on ent_key (set ys \<union> set (sort_key ent_key xs))"
    using assms(3) mset_eq_setD [OF assms(1)] by simp
  ultimately show ?thesis by (metis map_inj_on)
qed

lemma sortEntries_unique:
  assumes "qsort_spec qs" "inj_on ent_key (set (fo_entries fo))"
  shows "fo_entries (folder_sortEntries qs fo) = sort_key ent_key (fo_entries fo)"
proof -
  have "mset (qs folderEntCompare (fo_entries fo)) = mset (fo_entries fo)"
       "sorted_wrt (\<lambda>a b. folderEntCompare a b \<le> 0) (qs folderEntCompare (fo_entries fo))"
    using assms(1) compare_preorder by (simp_all add: qsort_spec_def)
  note q = sorted_unique [OF this assms(2)]
  have "sort_key ent_key (fo_entries fo) = fo_entries fo" if "length (fo_entries fo) \<le> 1"
    using that by (cases "fo_entries fo") simp_all
  with q show ?thesis by (auto simp: folder_sortEntries_def)
qed

subsection \<open>Loading a directory\<close>

text \<open>Room for every entry and the terminator after it.\<close>

definition fo_wf :: "Folder \<Rightarrow> bool" where
  "fo_wf fo = (length (fo_entries fo) \<le> fo_alloc fo)"

lemma wf_folder_new [wf_intros]: "fo_wf folder_new"
  by (simp add: fo_wf_def folder_new_def)

definition mk_entry :: "bytes \<Rightarrow> bool \<Rightarrow> u32 \<Rightarrow> u64 \<Rightarrow> FolderEntry" where
  "mk_entry name isDir mode size' =
     \<lparr>fe_fileName = cstr name, fe_isDir = isDir, fe_mode = and mode 0x1FF, fe_size = size'\<rparr>"

lemma addEntryChunk_ok:
  assumes "fo_wf fo"
  shows "\<exists>fo'. folder_addEntryChunk fo name isDir mode sz = Ok fo' \<and> fo_wf fo' \<and>
    fo_entries fo' = fo_entries fo @ [mk_entry (dch_bytes name) isDir mode sz]"
proof -
  have "cstr (dch_dupToStr name) = cstr (dch_bytes name)"
    by (simp add: dch_dupToStr_def cstr_until_NUL)
  then show ?thesis
    using assms by (auto simp: folder_addEntryChunk_def fo_wf_def mk_entry_def Let_def)
qed

lemma addEntry_ok:
  assumes "fo_wf fo"
  shows "\<exists>fo'. folder_addEntry fo name isDir mode sz = Ok fo' \<and> fo_wf fo' \<and>
    fo_entries fo' = fo_entries fo @ [mk_entry name isDir mode sz]"
proof -
  have "dch_bytes (dch_init (Some name) (strlen name)) = cstr name"
    by (simp add: dch_init_def dch_bytes_def strlen_def cstr_def takeWhile_eq_take [symmetric])
  then show ?thesis
    using addEntryChunk_ok [OF assms, of "dch_init (Some name) (strlen name)" isDir mode sz]
    by (simp add: folder_addEntry_def mk_entry_def)
qed

text \<open>The entries of a directory: the names but \<open>.\<close> and \<open>..\<close> for which \<open>stat\<close> succeeds.\<close>

definition dir_entries :: "FileSys \<Rightarrow> bytes \<Rightarrow> bytes list \<Rightarrow> FolderEntry list" where
  "dir_entries fs d ns = List.map_filter (\<lambda>n. if n = ''.'' \<or> n = ''..'' then None else
     map_option (\<lambda>st. mk_entry n (S_ISDIR st) (st_mode st) (st_size st)) (fs_stat fs (d @ n))) ns"

lemma load_entries_ok:
  "fo_wf fo \<Longrightarrow> \<exists>fo'. load_entries fs d ns fo = Ok fo' \<and> fo_wf fo' \<and>
     fo_entries fo' = fo_entries fo @ dir_entries fs d ns"
proof (induction ns arbitrary: fo)
  case Nil
  then show ?case by (simp add: dir_entries_def)
next
  case (Cons n ns)
  show ?case
  proof (cases "(n = ''.'' \<or> n = ''..'') \<or> fs_stat fs (d @ n) = None")
    case True
    then have "load_entries fs d (n # ns) fo = load_entries fs d ns fo"
      "dir_entries fs d (n # ns) = dir_entries fs d ns"
      by (auto simp: dir_entries_def)
    with Cons show ?thesis by simp
  next
    case False
    then obtain st where st: "fs_stat fs (d @ n) = Some st" by auto
    obtain fo1 where fo1: "folder_addEntry fo n (S_ISDIR st) (st_mode st) (st_size st) = Ok fo1"
        "fo_wf fo1" "fo_entries fo1 = fo_entries fo @ [mk_entry n (S_ISDIR st) (st_mode st) (st_size st)]"
      using addEntry_ok [OF Cons.prems] by blast
    have "load_entries fs d (n # ns) fo = load_entries fs d ns fo1"
      "dir_entries fs d (n # ns) = mk_entry n (S_ISDIR st) (st_mode st) (st_size st) # dir_entries fs d ns"
      using False fo1(1) st by (simp_all add: dir_entries_def)
    then show ?thesis using Cons.IH [OF fo1(2)] fo1(3) by simp
  qed
qed

lemma fileName_dir_entries:
  assumes "\<forall>n \<in> set ns. NUL \<notin> set n"
  shows "map fe_fileName (dir_entries fs d ns) =
    filter (\<lambda>n. n \<noteq> ''.'' \<and> n \<noteq> ''..'' \<and> fs_stat fs (d @ n) \<noteq> None) ns"
  using assms by (induction ns) (auto simp: dir_entries_def mk_entry_def)

lemma inj_ent_key: "distinct (map fe_fileName es) \<Longrightarrow> inj_on ent_key (set es)"
proof (rule inj_onI)
  fix x y assume d: "distinct (map fe_fileName es)" "x \<in> set es" "y \<in> set es" "ent_key x = ent_key y"
  have "inj (map (of_char :: char \<Rightarrow> nat))" by (intro inj_mapI inj_of_char)
  then have "fe_fileName x = fe_fileName y" using d(4) by (simp add: ent_key_def inj_eq)
  then show "x = y" using d(1-3) by (simp add: distinct_map inj_on_def)
qed

text \<open>C35: Loading a directory whose names are distinct never writes outside the array of entries,
  and its result does not depend on how \<open>qsort\<close> treats equal elements: it is the list of the
  names but \<open>.\<close> and \<open>..\<close> for which \<open>stat\<close> succeeds, each once, folders first, in the byte
  order of the names; when the directory cannot be opened the result is the error number.\<close>

theorem loadDir_correct:
  assumes "qsort_spec qs"
    and "\<And>ns. fs_dir fs dir = Inr ns \<Longrightarrow> distinct ns \<and> (\<forall>n \<in> set ns. NUL \<notin> set n)"
  shows "case fs_dir fs dir of
      Inl e \<Rightarrow> folder_loadDir qs fs dir = Ok (Inl e)
    | Inr ns \<Rightarrow> \<exists>fo. folder_loadDir qs fs dir = Ok (Inr fo) \<and>
        fo_entries fo = sort_key ent_key (dir_entries fs (with_slash dir) ns)"
proof (cases "fs_dir fs dir")
  case (Inl e)
  then show ?thesis by (simp add: folder_loadDir_def)
next
  case (Inr ns)
  obtain fo where fo: "load_entries fs (with_slash dir) ns folder_new = Ok fo"
      "fo_entries fo = dir_entries fs (with_slash dir) ns"
    using load_entries_ok [OF wf_folder_new] by (fastforce simp: folder_new_def)
  have "distinct (map fe_fileName (fo_entries fo))"
    using assms(2) [OF Inr] by (simp add: fo(2) fileName_dir_entries)
  note sortEntries_unique [OF assms(1) inj_ent_key [OF this]]
  then show ?thesis
    using fo Inr by (simp add: folder_loadDir_def)
qed

definition example_fs :: FileSys where
  "example_fs = \<lparr>fs_dir = (\<lambda>d. if d = ''/srv'' then Inr [''b.txt'', ''.'', ''z'', ''A'', ''..''] else Inl 2),
     fs_stat = (\<lambda>p. if p = ''/srv/z'' then Some \<lparr>st_kind = KindDir, st_mode = 0x41ED, st_size = 4096\<rparr>
                    else if p = ''/srv/b.txt'' \<or> p = ''/srv/A''
                    then Some \<lparr>st_kind = KindReg, st_mode = 0x81A4, st_size = 5\<rparr> else None),
     fs_file = (\<lambda>_. None)\<rparr>"

theorem loadDir_correct_witness:
  "\<exists>fo. folder_loadDir insertion_sort example_fs ''/srv'' = Ok (Inr fo) \<and>
     map fe_fileName (fo_entries fo) = [''z'', ''A'', ''b.txt'']"
proof -
  have "map fe_fileName (sort_key ent_key (dir_entries example_fs (with_slash ''/srv'')
      [''b.txt'', ''.'', ''z'', ''A'', ''..''])) = [''z'', ''A'', ''b.txt'']"
    by code_simp
  moreover have "fs_dir example_fs ''/srv'' = Inr [''b.txt'', ''.'', ''z'', ''A'', ''..'']"
    by (simp add: example_fs_def)
  ultimately show ?thesis
    using loadDir_correct [OF insertion_sort_spec, of example_fs "''/srv''"] by fastforce
qed

end
