(* ===== verification/Md5calc.thy ===== *)
theory Md5calc
  imports Prelude
begin

unbundle bit_operations_syntax

text \<open>
  \<open>src/md5calc.c\<close>: the MD5 digest as the code computes it, block by block with the padding
  written into the block buffer, and the structure of RFC 1321 (pad the message, split it into
  64-byte blocks, fold the compression function with its rotations and index tables), for any
  table of constants.  The lemmas say that the code has this structure, and what it computes for
  messages whose bit length does not fit the 32-bit expression \<open>8 * count\<close>; theory \<open>Md5rfc\<close> has the
  constants of the RFC.
\<close>

type_synonym md5state = "u32 \<times> u32 \<times> u32 \<times> u32"

definition SIN :: "u32 list" where
  "SIN = [
    0xd76aa478, 0xe8c7b756, 0x242070db, 0xc1bdceee, 0xf57c0faf, 0x4787c62a,
    0xa8304613, 0xfd469501, 0x698098d8, 0x8b44f7af, 0xffff5bb1, 0x895cd7be,
    0x6b901122, 0xfd987193, 0xa679438e, 0x49b40821, 0xf61e2562, 0xc040b340,
    0x265e5a51, 0xe9b6c7aa, 0xd62f105d, 0x2441453,  0xd8a1e681, 0xe7d3fbc8,
    0x21e1cde6, 0xc33707d6, 0xf4d50d87, 0x455a14ed, 0xa9e3e905, 0xfcefa3f8,
    0x676f02d9, 0x8d2a4c8a, 0xfffa3942, 0x8771f681, 0x6d9d6122, 0xfde5380c,
    0xa4beea44, 0x4bdecfa9, 0xf6bb4b60, 0xbebfbc70, 0x289b7ec6, 0xeaa127fa,
    0xd4ef3085, 0x4881d05,  0xd9d4d039, 0xe6db99e5, 0x1fa27cf8, 0xc4ac5665,
    0xf4292244, 0x432aff97, 0xab9423a7, 0xfc93a039, 0x655b59c3, 0x8f0ccc92,
    0xffeff47d, 0x85845dd1, 0x6fa87e4f, 0xfe2ce6e0, 0xa3014314, 0x4e0811a1,
    0xf7537e82, 0xbd3af235, 0x2ad7d2bb, 0xeb86d391]"

definition Shift :: "nat list list" where
  "Shift = [[7, 12, 17, 22], [5, 9, 14, 20], [4, 11, 16, 23], [6, 10, 15, 21]]"

definition md5_init :: md5state where
  "md5_init = (0x67452301, 0xefcdab89, 0x98badcfe, 0x10325476)"

text \<open>One step of the inner loop, for \<open>i < 64\<close>, and the 64 steps with the final additions.\<close>

definition md5_step :: "u32 list \<Rightarrow> nat \<Rightarrow> md5state \<Rightarrow> md5state" where
  "md5_step X i = (\<lambda>(A, B, C, D).
     let rol = (if i < 16 then ((B AND C) OR (NOT B AND D)) + X ! i
                else if i < 32 then ((D AND B) OR (NOT D AND C)) + X ! ((5 * i + 1) mod 16)
                else if i < 48 then (B XOR C XOR D) + X ! ((3 * i + 5) mod 16)
                else (C XOR (B OR NOT D)) + X ! ((7 * i) mod 16)) + A + SIN ! i;
         s = Shift ! (i div 16) ! (i mod 4)
     in (D, B + (push_bit s rol OR drop_bit (32 - s) rol), B, C))"

definition md5_block :: "u32 list \<Rightarrow> md5state \<Rightarrow> md5state" where
  "md5_block X Q = (case (Q, fold (md5_step X) [0..<64] Q) of
     ((q0, q1, q2, q3), (A, B, C, D)) \<Rightarrow> (q0 + A, q1 + B, q2 + C, q3 + D))"

text \<open>\<open>X[i/4] |= (unsigned char)bytes[i] << 8 * (i % 4)\<close>\<close>

definition or_byte :: "u32 list \<Rightarrow> nat \<Rightarrow> char \<Rightarrow> u32 list" where
  "or_byte X i c = X[i div 4 := (X ! (i div 4)) OR push_bit (8 * (i mod 4)) (of_char c)]"

definition md5_fill :: "bytes \<Rightarrow> nat \<Rightarrow> u32 list" where
  "md5_fill b n = fold (\<lambda>i X. or_byte X i (b ! i)) [0..<n] (replicate 16 0)"

text \<open>
  The outer loop \<open>while( bytes || count )\<close>: \<open>bs\<close> is \<open>None\<close> once \<open>bytes\<close> has been set
  to \<open>NULL\<close>.
\<close>

function md5_loop :: "u64 \<Rightarrow> bytes option \<Rightarrow> nat \<Rightarrow> md5state \<Rightarrow> md5state" where
  "md5_loop bits bs count Q =
     (if bs \<noteq> None \<or> count \<noteq> 0 then
        (let (X1, bs1, count1) =
           (case bs of
              Some b \<Rightarrow> (let X = md5_fill b (min count 64) in
                if 64 \<le> count then (X, Some (drop 64 b), count - 64)
                else (or_byte X count (CHR 0x80), None, count + 1))
            | None \<Rightarrow> (replicate 16 0, None, 0));
           (X2, count2) =
             (if bs1 = None \<and> count1 \<le> 56
              then (X1[14 := ucast bits, 15 := ucast (drop_bit 32 bits)], 0)
              else (X1, count1))
         in md5_loop bits bs1 count2 (md5_block X2 Q))
      else Q)"
  by pat_completeness auto
termination
  by (relation "measure (\<lambda>(bits, bs, count, Q).
        (case bs of None \<Rightarrow> (if count = 0 then 0 else 1) | Some _ \<Rightarrow> 2 + count))")
     (auto split: option.splits if_splits simp: Let_def)

declare md5_loop.simps [simp del]

definition hex2 :: "nat \<Rightarrow> bytes" where
  "hex2 n = [digit_char (n div 16), digit_char (n mod 16)]"

text \<open>\<open>%02x%02x%02x%02x\<close> of the four bytes of a word, lowest first.\<close>

definition hex_word :: "u32 \<Rightarrow> bytes" where
  "hex_word q = hex2 (unat (q AND 0xff)) @ hex2 (unat (drop_bit 8 q AND 0xff)) @
     hex2 (unat (drop_bit 16 q AND 0xff)) @ hex2 (unat (drop_bit 24 q AND 0xff))"

definition md5_calculate :: "bytes \<Rightarrow> u32 \<Rightarrow> bytes" where
  "md5_calculate b count =
     (case md5_loop (ucast (8 * count)) (Some b) (unat count) md5_init of
        (q0, q1, q2, q3) \<Rightarrow> hex_word q0 @ hex_word q1 @ hex_word q2 @ hex_word q3)"

subsection \<open>The structure of RFC 1321\<close>

text \<open>\<open>T\<close> is the table of the 64 constants, from index 0.\<close>

definition ref_F :: "u32 \<Rightarrow> u32 \<Rightarrow> u32 \<Rightarrow> u32" where "ref_F x y z = (x AND y) OR (NOT x AND z)"
definition ref_G :: "u32 \<Rightarrow> u32 \<Rightarrow> u32 \<Rightarrow> u32" where "ref_G x y z = (x AND z) OR (y AND NOT z)"
definition ref_H :: "u32 \<Rightarrow> u32 \<Rightarrow> u32 \<Rightarrow> u32" where "ref_H x y z = x XOR y XOR z"
definition ref_I :: "u32 \<Rightarrow> u32 \<Rightarrow> u32 \<Rightarrow> u32" where "ref_I x y z = y XOR (x OR NOT z)"

text \<open>The index of the message word used by each of the 64 operations, and its rotation.\<close>

definition ref_K :: "nat list" where
  "ref_K = [0, 1, 2, 3, 4, 5, 6, 7, 8, 9, 10, 11, 12, 13, 14, 15,
            1, 6, 11, 0, 5, 10, 15, 4, 9, 14, 3, 8, 13, 2, 7, 12,
            5, 8, 11, 14, 1, 4, 7, 10, 13, 0, 3, 6, 9, 12, 15, 2,
            0, 7, 14, 5, 12, 3, 10, 1, 8, 15, 6, 13, 4, 11, 2, 9]"

definition ref_S :: "nat list" where
  "ref_S = concat (replicate 4 [7, 12, 17, 22]) @ concat (replicate 4 [5, 9, 14, 20]) @
           concat (replicate 4 [4, 11, 16, 23]) @ concat (replicate 4 [6, 10, 15, 21])"

definition ref_op :: "(nat \<Rightarrow> u32) \<Rightarrow> u32 list \<Rightarrow> nat \<Rightarrow> md5state \<Rightarrow> md5state" where
  "ref_op T X i = (\<lambda>(a, b, c, d).
     let f = [ref_F, ref_G, ref_H, ref_I] ! (i div 16)
     in (d, b + word_rotl (ref_S ! i) (a + f b c d + X ! (ref_K ! i) + T i), b, c))"

definition ref_compress :: "(nat \<Rightarrow> u32) \<Rightarrow> u32 list \<Rightarrow> md5state \<Rightarrow> md5state" where
  "ref_compress T X Q = (case (Q, fold (ref_op T X) [0..<64] Q) of
     ((q0, q1, q2, q3), (a, b, c, d)) \<Rightarrow> (q0 + a, q1 + b, q2 + c, q3 + d))"

text \<open>The little-endian words of a 64-byte block, and the little-endian bytes of a number.\<close>

definition le_word :: "bytes \<Rightarrow> nat \<Rightarrow> u32" where
  "le_word b k = of_char (b ! k) OR push_bit 8 (of_char (b ! (k + 1))) OR
     push_bit 16 (of_char (b ! (k + 2))) OR push_bit 24 (of_char (b ! (k + 3)))"

definition words_of :: "bytes \<Rightarrow> u32 list" where
  "words_of b = map (\<lambda>j. le_word b (4 * j)) [0..<16]"

fun le_bytes :: "nat \<Rightarrow> nat \<Rightarrow> bytes" where
  "le_bytes 0 n = []"
| "le_bytes (Suc k) n = char_of n # le_bytes k (n div 256)"

definition ref_pad :: "nat \<Rightarrow> nat \<Rightarrow> bytes" where
  "ref_pad n bits = CHR 0x80 # replicate ((119 - n mod 64) mod 64) NUL @ le_bytes 8 bits"

function ref_blocks :: "(nat \<Rightarrow> u32) \<Rightarrow> bytes \<Rightarrow> md5state \<Rightarrow> md5state" where
  "ref_blocks T b Q = (if length b < 64 then Q
     else ref_blocks T (drop 64 b) (ref_compress T (words_of (take 64 b)) Q))"
  by pat_completeness auto
termination by (relation "measure (\<lambda>(T, b, Q). length b)") auto

declare ref_blocks.simps [simp del]

definition ref_hex :: "md5state \<Rightarrow> bytes" where
  "ref_hex = (\<lambda>(q0, q1, q2, q3). hex_word q0 @ hex_word q1 @ hex_word q2 @ hex_word q3)"

subsection \<open>The compression function\<close>

lemma shifts_rotate:
  assumes "0 < s" "s < 32"
  shows "push_bit s w OR drop_bit (32 - s) w = word_rotl s (w :: u32)"
proof (rule bit_word_eqI)
  fix n assume "n < LENGTH(32)"
  then have n: "n < 32" by simp
  show "bit (push_bit s w OR drop_bit (32 - s) w) n = bit (word_rotl s w) n"
  proof (cases "n < s")
    case True
    then have "(n + (32 - s)) mod 32 = 32 - s + n" using assms by simp
    with True n assms show ?thesis
      by (simp add: bit_or_iff bit_push_bit_iff bit_drop_bit_eq bit_word_rotl_iff)
  next
    case False
    then have "(n + (32 - s)) mod 32 = n - s"
      using n assms by (simp add: mod_if)
    moreover have "\<not> bit w (32 - s + n)"
      using False assms bit_imp_le_length [of w "32 - s + n"] by auto
    ultimately show ?thesis using False n assms
      by (simp add: bit_or_iff bit_push_bit_iff bit_drop_bit_eq bit_word_rotl_iff)
  qed
qed

lemma schedule_check:
  "list_all (\<lambda>i. ref_S ! i = Shift ! (i div 16) ! (i mod 4) \<and> 0 < ref_S ! i \<and> ref_S ! i < 32 \<and>
     ref_K ! i = (if i < 16 then i else if i < 32 then (5 * i + 1) mod 16
                  else if i < 48 then (3 * i + 5) mod 16 else (7 * i) mod 16)) [0..<64]"
  by code_simp

lemma step_ref_op:
  assumes "i < 64"
  shows "md5_step X i Q = ref_op ((!) SIN) X i Q"
proof -
  obtain A B C D where Q: "Q = (A, B, C, D)" by (metis prod_cases4)
  have P: "ref_S ! i = Shift ! (i div 16) ! (i mod 4) \<and> 0 < ref_S ! i \<and> ref_S ! i < 32 \<and>
     ref_K ! i = (if i < 16 then i else if i < 32 then (5 * i + 1) mod 16
                  else if i < 48 then (3 * i + 5) mod 16 else (7 * i) mod 16)"
    by (rule schedule_check [unfolded list_all_iff, THEN bspec]) (simp add: assms)
  note sch = P [THEN conjunct1, symmetric] P [THEN conjunct2, THEN conjunct1]
    P [THEN conjunct2, THEN conjunct2, THEN conjunct1]
    P [THEN conjunct2, THEN conjunct2, THEN conjunct2]
  consider "i < 16" "i div 16 = 0" | "16 \<le> i" "i < 32" "i div 16 = 1"
    | "32 \<le> i" "i < 48" "i div 16 = 2" | "48 \<le> i" "i div 16 = 3"
    using assms by linarith
  then have "(if i < 16 then ((B AND C) OR (NOT B AND D)) + X ! i
       else if i < 32 then ((D AND B) OR (NOT D AND C)) + X ! ((5 * i + 1) mod 16)
       else if i < 48 then (B XOR C XOR D) + X ! ((3 * i + 5) mod 16)
       else (C XOR (B OR NOT D)) + X ! ((7 * i) mod 16)) =
     ([ref_F, ref_G, ref_H, ref_I] ! (i div 16)) B C D + X ! (ref_K ! i)"
    by cases (simp_all add: sch(4) ref_F_def ref_G_def ref_H_def ref_I_def and.commute)
  note f = this
  show ?thesis
    unfolding Q md5_step_def ref_op_def Let_def prod.case sch(1) f shifts_rotate [OF sch(2,3)]
    by (simp add: add.commute add.left_commute)
qed

lemma block_ref_compress: "md5_block X Q = ref_compress ((!) SIN) X Q"
proof -
  have "fold (md5_step X) [0..<64] Q = fold (ref_op ((!) SIN) X) [0..<64] Q"
    by (rule fold_cong) (auto simp: step_ref_op)
  then show ?thesis by (simp add: md5_block_def ref_compress_def)
qed

subsection \<open>Blocks and padding\<close>

lemma length_le_bytes [simp]: "length (le_bytes k n) = k"
  by (induction k arbitrary: n) auto

lemma length_ref_pad: "(n + length (ref_pad n bits)) mod 64 = 0"
proof -
  define q r where "q = n div 64" and "r = n mod 64"
  have n: "n = 64 * q + r" and r: "r < 64" by (simp_all add: q_def r_def)
  have "(119 - r) mod 64 = (if r \<le> 55 then 55 - r else 119 - r)"
    using r by (simp add: mod_if)
  moreover have "length (ref_pad n bits) = 9 + (119 - r) mod 64"
    by (simp add: ref_pad_def r_def)
  ultimately have "n + length (ref_pad n bits) = 64 * (q + (if r \<le> 55 then 1 else 2))"
    using r n by (cases "r \<le> 55") simp_all
  then show ?thesis by (simp only: mod_mult_self1_is_0)
qed

lemma length_words_of [simp]: "length (words_of b) = 16"
  by (simp add: words_of_def)

lemma words_of_zero: "words_of (replicate 64 NUL) = replicate 16 0"
  by (rule nth_equalityI) (auto simp: words_of_def le_word_def)

text \<open>Writing a byte over a zero byte of the block is the OR of the code.\<close>

lemma words_of_or_byte:
  assumes "length b = 64" "i < 64" "b ! i = NUL"
  shows "words_of (b[i := c]) = or_byte (words_of b) i c"
proof (rule nth_equalityI)
  show "length (words_of (b[i := c])) = length (or_byte (words_of b) i c)"
    by (simp add: or_byte_def)
next
  fix j assume "j < length (words_of (b[i := c]))"
  then have j: "j < 16" by simp
  have w: "words_of x ! k = le_word x (4 * k)" if "k < 16" for x k
    using that by (simp add: words_of_def)
  show "words_of (b[i := c]) ! j = or_byte (words_of b) i c ! j"
  proof (cases "j = i div 4")
    case False
    then have "i \<noteq> 4 * j + r" if "r < 4" for r using that by auto
    from this [of 0] this [of 1] this [of 2] this [of 3] False j show ?thesis
      by (simp add: or_byte_def w le_word_def nth_list_update assms(1))
  next
    case True
    obtain r where i: "i = 4 * j + r" and r: "r < 4"
      using True mult_div_mod_eq [of 4 i] mod_less_divisor [of 4 i] by (metis zero_less_numeral)
    consider "r = 0" | "r = 1" | "r = 2" | "r = 3" using r by linarith
    moreover have "(4 * j + r) div 4 = j" "(4 * j + r) mod 4 = r" using r by simp_all
    ultimately show ?thesis
      using assms(1,3) j unfolding i or_byte_def
      by cases (simp_all add: w le_word_def or.assoc or.commute or.left_commute)
  qed
qed

lemma md5_fill_words:
  "n \<le> length b \<Longrightarrow> n \<le> 64 \<Longrightarrow> md5_fill b n = words_of (take n b @ replicate (64 - n) NUL)"
proof (induction n)
  case 0
  then show ?case by (simp add: md5_fill_def words_of_zero)
next
  case (Suc n)
  have "md5_fill b (Suc n) = or_byte (md5_fill b n) n (b ! n)"
    by (simp add: md5_fill_def)
  also have "\<dots> = words_of ((take n b @ replicate (64 - n) NUL)[n := b ! n])"
    using Suc by (subst words_of_or_byte) (auto simp: nth_append)
  also have "(take n b @ replicate (64 - n) NUL)[n := b ! n] = take (Suc n) b @ replicate (64 - Suc n) NUL"
    using Suc.prems by (simp add: list_update_append take_Suc_conv_app_nth Suc_diff_Suc [symmetric]
        flip: replicate_Suc) (metis Suc_diff_Suc Suc_le_lessD list_update_code(2) replicate_Suc)
  finally show ?case .
qed

subsection \<open>The length words\<close>

lemma of_char_char_of_u32: "(of_char (char_of (n :: nat)) :: u32) = of_nat (take_bit 8 n)"
proof -
  have "(of_char (char_of n) :: u32) = of_nat (of_char (char_of n) :: nat)"
    by (simp only: of_nat_of_char)
  then show ?thesis by (simp add: take_bit_eq_mod)
qed

lemma le_word_le_bytes:
  assumes "\<forall>r < 4. b ! (k + r) = char_of (n div 256 ^ r)"
  shows "le_word b k = of_nat n"
proof -
  have d: "m div 256 = drop_bit 8 m" "m div 65536 = drop_bit 16 m" "m div 16777216 = drop_bit 24 m"
    for m :: nat by (simp_all add: drop_bit_eq_div)
  have b: "b ! k = char_of n" "b ! (k + 1) = char_of (drop_bit 8 n)"
      "b ! (k + 2) = char_of (drop_bit 16 n)" "b ! (k + 3) = char_of (drop_bit 24 n)"
    using assms [rule_format, of 0] assms [rule_format, of 1] assms [rule_format, of 2]
      assms [rule_format, of 3] by (simp_all add: d)
  show ?thesis
  proof (rule bit_word_eqI)
    fix j assume "j < LENGTH(32)"
    then have j: "j < 32" by simp
    have "j < 8 \<or> 8 \<le> j \<and> j < 16 \<or> 16 \<le> j \<and> j < 24 \<or> 24 \<le> j" by linarith
    then show "bit (le_word b k) j = bit (of_nat n :: u32) j"
      using j unfolding le_word_def b of_char_char_of_u32
      by (elim disjE) (auto simp: bit_simps)
  qed
qed

lemma nth_le_bytes: "i < k \<Longrightarrow> le_bytes k n ! i = char_of (n div 256 ^ i)"
  by (induction k n arbitrary: i rule: le_bytes.induct)
     (auto simp: nth_Cons div_mult2_eq split: nat.splits)

lemma words_of_length:
  assumes "length b = 56"
  shows "words_of (b @ le_bytes 8 (unat bits)) =
    (words_of (b @ replicate 8 NUL))[14 := ucast bits, 15 := ucast (drop_bit 32 (bits :: u64))]"
proof (rule nth_equalityI)
  let ?B = "b @ le_bytes 8 (unat bits)"
  have w: "words_of x ! k = le_word x (4 * k)" if "k < 16" for x k
    using that by (simp add: words_of_def)
  have n: "?B ! (56 + r) = char_of (unat bits div 256 ^ r)" if "r < 8" for r
    using that assms by (simp add: nth_append nth_le_bytes)
  have lo: "le_word ?B 56 = ucast bits"
    using n le_word_le_bytes [of ?B 56 "unat bits"] by simp
  have "?B ! (60 + r) = char_of (unat bits div 2 ^ 32 div 256 ^ r)" if "r < 4" for r
    using n [of "4 + r"] that by (simp add: power_add div_mult2_eq)
  moreover have "unat bits div 2 ^ 32 = unat (drop_bit 32 bits)"
    by (simp only: drop_bit_eq_div unat_div) simp
  ultimately have hi: "le_word ?B 60 = ucast (drop_bit 32 bits)"
    using le_word_le_bytes [of ?B 60 "unat (drop_bit 32 bits)"] by simp
  fix j assume "j < length (words_of ?B)"
  then have j: "j < 16" by simp
  have lt: "le_word ?B (4 * j) = le_word (b @ replicate 8 NUL) (4 * j)" if "j < 14"
    using that assms by (simp add: le_word_def nth_append)
  consider "j < 14" | "j = 14" | "j = 15" using j by linarith
  then show "words_of ?B ! j = (words_of (b @ replicate 8 NUL))
      [14 := ucast bits, 15 := ucast (drop_bit 32 bits)] ! j"
    by cases (simp_all add: w lt lo hi)
qed simp

subsection \<open>The outer loop\<close>

lemma loop_done [simp]: "md5_loop bits None 0 Q = Q"
  by (simp add: md5_loop.simps)

lemma fill_or_80:
  assumes "length b < 64"
  shows "or_byte (md5_fill b (length b)) (length b) (CHR 0x80) =
     words_of (b @ CHR 0x80 # replicate (63 - length b) NUL)"
proof -
  have "or_byte (md5_fill b (length b)) (length b) (CHR 0x80) =
      words_of ((b @ replicate (64 - length b) NUL)[length b := CHR 0x80])"
    using assms by (subst words_of_or_byte) (simp_all add: md5_fill_words nth_append)
  also have "(b @ replicate (64 - length b) NUL)[length b := CHR 0x80] =
      b @ CHR 0x80 # replicate (63 - length b) NUL"
    using assms by (simp add: list_update_append Suc_diff_le [symmetric] flip: replicate_Suc)
      (simp add: numeral_eq_Suc Suc_diff_le)
  finally show ?thesis .
qed

lemma ref_blocks_64: "length x = 64 \<Longrightarrow> ref_blocks ((!) SIN) (x @ y) Q = ref_blocks ((!) SIN) y (ref_compress ((!) SIN) (words_of x) Q)"
  by (subst ref_blocks.simps) simp

lemma ref_blocks_one: "length x = 64 \<Longrightarrow> ref_blocks ((!) SIN) x Q = ref_compress ((!) SIN) (words_of x) Q"
  using ref_blocks_64 [of x "[]" Q] by (simp add: ref_blocks.simps)

lemma loop_last:
  assumes "length b < 64"
  shows "md5_loop bits (Some b) (length b) Q = ref_blocks ((!) SIN) (b @ ref_pad (length b) (unat bits)) Q"
proof (cases "length b < 56")
  case True
  let ?x = "b @ CHR 0x80 # replicate (55 - length b) NUL"
  have p: "ref_pad (length b) (unat bits) = CHR 0x80 # replicate (55 - length b) NUL @ le_bytes 8 (unat bits)"
    using True by (simp add: ref_pad_def mod_if)
  have "b @ CHR 0x80 # replicate (63 - length b) NUL = ?x @ replicate 8 NUL"
    using True by (simp flip: replicate_add)
  then have "md5_loop bits (Some b) (length b) Q =
      md5_block ((words_of (?x @ replicate 8 NUL))[14 := ucast bits, 15 := ucast (drop_bit 32 bits)]) Q"
    using True fill_or_80 [OF assms] by (subst md5_loop.simps) simp
  also have "\<dots> = ref_compress ((!) SIN) (words_of (?x @ le_bytes 8 (unat bits))) Q"
    using True words_of_length [of ?x bits] by (simp add: block_ref_compress)
  also have "\<dots> = ref_blocks ((!) SIN) (b @ ref_pad (length b) (unat bits)) Q"
    using True by (simp add: p ref_blocks_one)
  finally show ?thesis .
next
  case False
  let ?x = "b @ CHR 0x80 # replicate (63 - length b) NUL"
  have p: "b @ ref_pad (length b) (unat bits) = ?x @ (replicate 56 NUL @ le_bytes 8 (unat bits))"
  proof -
    have "(119 - length b) mod 64 = (63 - length b) + 56" using False assms by (simp add: mod_if) 
    then show ?thesis using False assms by (simp add: ref_pad_def flip: replicate_add)
  qed
  have z: "(replicate 16 0)[14 := ucast bits, 15 := ucast (drop_bit 32 bits)] =
      words_of (replicate 56 NUL @ le_bytes 8 (unat bits))"
    using words_of_length [of "replicate 56 NUL" bits] words_of_zero by (simp flip: replicate_add)
  have "md5_loop bits (Some b) (length b) Q =
      md5_loop bits None (length b + 1) (md5_block (words_of ?x) Q)"
    using False assms fill_or_80 [OF assms] by (subst md5_loop.simps) simp
  also have "\<dots> = md5_block ((replicate 16 0)[14 := ucast bits, 15 := ucast (drop_bit 32 bits)])
      (md5_block (words_of ?x) Q)"
    by (subst md5_loop.simps) simp
  also have "\<dots> = ref_blocks ((!) SIN) (b @ ref_pad (length b) (unat bits)) Q"
    using False assms ref_blocks_64 [of ?x "replicate 56 NUL @ le_bytes 8 (unat bits)" Q]
    unfolding p z block_ref_compress by (simp add: ref_blocks_one)
  finally show ?thesis .
qed

lemma ref_pad_mod: "n mod 64 = m mod 64 \<Longrightarrow> ref_pad n bits = ref_pad m bits"
  by (simp add: ref_pad_def)

lemma loop_blocks:
  "md5_loop bits (Some b) (length b) Q = ref_blocks ((!) SIN) (b @ ref_pad (length b) (unat bits)) Q"
proof (induction "length b" arbitrary: b Q rule: less_induct)
  case less
  show ?case
  proof (cases "length b < 64")
    case True
    then show ?thesis by (rule loop_last)
  next
    case False
    have pad: "ref_pad (length b) (unat bits) = ref_pad (length (drop 64 b)) (unat bits)"
      using False by (intro ref_pad_mod) (simp add: le_mod_geq)
    have "md5_loop bits (Some b) (length b) Q =
        md5_loop bits (Some (drop 64 b)) (length (drop 64 b)) (md5_block (words_of (take 64 b)) Q)"
      using False by (subst md5_loop.simps) (simp add: md5_fill_words)
    also have "\<dots> = ref_blocks ((!) SIN) (drop 64 b @ ref_pad (length (drop 64 b)) (unat bits))
        (ref_compress ((!) SIN) (words_of (take 64 b)) Q)"
      using False less [of "drop 64 b"] by (simp add: block_ref_compress)
    also have "\<dots> = ref_blocks ((!) SIN) (take 64 b @ drop 64 b @ ref_pad (length b) (unat bits)) Q"
      using False by (subst ref_blocks_64) (simp_all add: pad)
    finally show ?thesis by (simp only: append_take_drop_id flip: append_assoc)
  qed
qed

subsection \<open>The digest\<close>

lemma length_hex2 [simp]: "length (hex2 n) = 2"
  by (simp add: hex2_def)

lemma length_hex_word [simp]: "length (hex_word q) = 8"
  by (simp add: hex_word_def)

lemma length_ref_hex [simp]: "length (ref_hex Q) = 32"
  by (cases Q) (simp add: ref_hex_def)

lemma set_hex2: "n < 256 \<Longrightarrow> set (hex2 n) \<subseteq> digit_char ` {..<16}"
  by (auto simp: hex2_def)

lemma set_hex_word: "set (hex_word q) \<subseteq> digit_char ` {..<16}"
proof -
  have "unat (w AND 0xff) < 256" for w :: u32
  proof -
    have "w AND 0xff = take_bit 8 w" by (simp add: take_bit_eq_mask mask_eq_decr_exp)
    then have "unat (w AND 0xff) = take_bit 8 (unat w)" by (simp add: unsigned_take_bit_eq)
    then show ?thesis by (simp add: take_bit_eq_mod)
  qed
  then show ?thesis unfolding hex_word_def by (simp add: set_hex2)
qed

lemma set_ref_hex: "set (ref_hex Q) \<subseteq> digit_char ` {..<16}"
  using set_hex_word by (cases Q) (simp add: ref_hex_def)

lemma md5_calculate_ref_hex:
  "md5_calculate b c = ref_hex (md5_loop (ucast (8 * c)) (Some b) (unat c) md5_init)"
  by (simp add: md5_calculate_def ref_hex_def)

text \<open>The digest of a whole buffer, the way every caller of \<open>md5_calculate\<close> uses it.\<close>

definition md5_hex :: "bytes \<Rightarrow> bytes" where
  "md5_hex b = md5_calculate b (of_nat (length b))"

lemma unat_ucast_64: "unat (ucast (x :: u32) :: u64) = unat x"
  by transfer (simp add: take_bit_nat_eq [symmetric] nat_take_bit_eq [symmetric])

lemma calc_padded:
  assumes "length m < 2 ^ 32"
  shows "md5_hex m =
    ref_hex (ref_blocks ((!) SIN) (m @ ref_pad (length m) ((8 * length m) mod 2 ^ 32)) md5_init)"
proof -
  have "unat (of_nat (length m) :: u32) = length m"
    using assms by (simp add: unat_of_nat)
  moreover have "unat (8 * of_nat (length m) :: u32) = (8 * length m) mod 2 ^ 32"
  proof -
    have "(8 * of_nat (length m) :: u32) = of_nat (8 * length m)" by simp
    then show ?thesis by (simp only: unat_of_nat) simp
  qed
  ultimately show ?thesis
    by (simp add: md5_hex_def md5_calculate_ref_hex loop_blocks unat_ucast_64)
qed

text \<open>For every buffer of less than \<open>2 ^ 32\<close> bytes, \<open>md5_calculate\<close> yields the
  RFC 1321 computation on the padded message, except that the 64-bit length field holds the
  bit length modulo \<open>2 ^ 32\<close>: the C expression \<open>8 * count\<close> is evaluated in 32 bits.\<close>

theorem md5_calculate_padded:
  assumes "length m < 2 ^ 32"
  shows "md5_calculate m (of_nat (length m)) =
    ref_hex (ref_blocks ((!) SIN) (m @ ref_pad (length m) ((8 * length m) mod 2 ^ 32)) md5_init)"
  using calc_padded [OF assms] by (simp only: md5_hex_def)

theorem md5_calculate_padded_witness:
  "md5_calculate ''abc'' 3 = ref_hex (ref_blocks ((!) SIN) (''abc'' @ CHR 0x80 # replicate 52 NUL @
     [CHR 0x18, NUL, NUL, NUL, NUL, NUL, NUL, NUL]) md5_init)"
proof -
  have "ref_pad 3 24 = CHR 0x80 # replicate 52 NUL @ [CHR 0x18, NUL, NUL, NUL, NUL, NUL, NUL, NUL]"
    by code_simp
  moreover have "length ''abc'' = 3" "(8 * 3) mod 2 ^ 32 = (24 :: nat)" by simp_all
  ultimately show ?thesis
    using md5_calculate_padded [of "''abc''"] by (simp only: of_nat_numeral) simp
qed

subsection \<open>The interface the authorization code relies on\<close>

text \<open>
  What \<open>auth.c\<close> and \<open>fmconfig.c\<close> use of the digest: its result is a fixed number of
  lowercase hexadecimal digits, so it holds no separator byte, and joining two digests with
  separators can be taken apart again.
\<close>

locale digest =
  fixes md :: "bytes \<Rightarrow> bytes"
  assumes md_length: "length (md b) = 32"
    and md_hex: "c \<in> set (md b) \<Longrightarrow> c \<in> digit_char ` {..<16}"
begin

lemma md_no_sep: "c \<notin> digit_char ` {..<16} \<Longrightarrow> c \<notin> set (md b)"
  using md_hex by blast

lemma md_join:
  "md a @ x @ md b = md c @ y @ md d \<longleftrightarrow> md a = md c \<and> x = y \<and> md b = md d"
  by (simp add: md_length append_eq_append_conv)

lemma md_not_Nil: "md b \<noteq> []"
  using md_length [of b] by auto

end

lemma md5_hex_ref: "\<exists>Q. md5_hex b = ref_hex Q"
  unfolding md5_hex_def md5_calculate_ref_hex by blast

interpretation md5: digest md5_hex
  by unfold_locales (use md5_hex_ref set_ref_hex in \<open>metis length_ref_hex subsetD\<close>)+

end
