(* ===== verification/Fmconfig.thy ===== *)
theory Fmconfig
  imports Folders Md5calc
begin

text \<open>
  \<open>src/fmconfig.c\<close>: the configuration.  The static variables of the file are the record
  \<open>Config\<close>; the arrays that grow by \<open>realloc\<close> are lists (a \<open>NULL\<close> array is the empty list,
  and the terminating entry of \<open>gShares\<close> and \<open>gCredentials\<close> is the end of the list), the
  strings are their bytes.  Warnings printed on \<open>stderr\<close> are values.  \<open>fnmatch\<close> is a
  parameter \<open>fnm\<close> of its flags, the pattern and the string; the file system, \<open>qsort\<close>, the
  effective user id and the build-time directory \<open>HTMLDIR\<close> are parameters as well.
\<close>

datatype DirectoryOps = DO_NONE | DO_FILE | DO_LISTING | DO_ALL

datatype PrivilegedAction = PA_SERVE_PAGE | PA_LIST_FOLDER | PA_MODIFY

record Share =
  sh_urlpath :: bytes
  sh_syspath :: bytes

record Config =
  cf_listenPort :: u32
  cf_switchUser :: bytes
  cf_indexPatterns :: "bytes list"
  cf_cgiPatterns :: "bytes list"
  cf_shares :: "Share list"
  cf_availOps :: DirectoryOps
  cf_guestOps :: DirectoryOps
  cf_credentials :: "bytes list"
  cf_maxClients :: u32

definition config_init :: Config where
  "config_init = \<lparr>cf_listenPort = 0, cf_switchUser = ''www-data'', cf_indexPatterns = [],
     cf_cgiPatterns = [], cf_shares = [], cf_availOps = DO_ALL, cf_guestOps = DO_ALL,
     cf_credentials = [], cf_maxClients = 10\<rparr>"

text \<open>The warnings, with the line they are about.\<close>

datatype CfgWarning = WPort nat | WDirops nat | WGuestops nat | WMaxclients nat
  | WOption nat bytes | WNoEq nat | WUnreadable bytes

definition FM_REALM :: bytes where "FM_REALM = ''File Manager''"

subsection \<open>Parsing\<close>

definition dup :: "DataChunk \<Rightarrow> bytes" where
  "dup d = cstr (dch_dupToStr d)"

text \<open>The words the loops over \<open>dch_extractTillWS\<close> add; without any, the array is freed.\<close>

definition add_patterns :: "bytes list \<Rightarrow> DataChunk \<Rightarrow> bytes list" where
  "add_patterns old v = (let ws = map dup (dch_words v) in if ws = [] then [] else old @ ws)"

text \<open>The chain of tests on the option name, for a line \<open>name = value\<close>.\<close>

definition set_option ::
    "nat \<Rightarrow> DataChunk \<Rightarrow> DataChunk \<Rightarrow> Config \<Rightarrow> Config \<times> CfgWarning list" where
  "set_option lineNo name v c =
     (if dch_startsWithStr name ''/'' then
        (c\<lparr>cf_shares := cf_shares c @
             [\<lparr>sh_urlpath = dup (dch_trimTrailing name (CHR ''/'')),
               sh_syspath = dup (dch_trimTrailing v (CHR ''/''))\<rparr>]\<rparr>, [])
      else if dch_equalsStr name ''index'' then
        (c\<lparr>cf_indexPatterns := add_patterns (cf_indexPatterns c) v\<rparr>, [])
      else if dch_equalsStr name ''cgi'' then
        (c\<lparr>cf_cgiPatterns := add_patterns (cf_cgiPatterns c) v\<rparr>, [])
      else if dch_equalsStr name ''port'' then
        (case dch_toUInt v 0 of Some n \<Rightarrow> (c\<lparr>cf_listenPort := n\<rparr>, []) | None \<Rightarrow> (c, [WPort lineNo]))
      else if dch_equalsStr name ''user'' then (c\<lparr>cf_switchUser := dup v\<rparr>, [])
      else if dch_equalsStr name ''dirops'' then
        (if dch_equalsStr v ''all'' then (c\<lparr>cf_availOps := DO_ALL\<rparr>, [])
         else if dch_equalsStr v ''listing'' then (c\<lparr>cf_availOps := DO_LISTING\<rparr>, [])
         else (c\<lparr>cf_availOps := DO_NONE\<rparr>, if dch_equalsStr v ''none'' then [] else [WDirops lineNo]))
      else if dch_equalsStr name ''guestops'' then
        (if dch_equalsStr v ''all'' then (c\<lparr>cf_guestOps := DO_ALL\<rparr>, [])
         else if dch_equalsStr v ''listing'' then (c\<lparr>cf_guestOps := DO_LISTING\<rparr>, [])
         else if dch_equalsStr v ''file'' then (c\<lparr>cf_guestOps := DO_FILE\<rparr>, [])
         else (c\<lparr>cf_guestOps := DO_NONE\<rparr>, if dch_equalsStr v ''none'' then [] else [WGuestops lineNo]))
      else if dch_equalsStr name ''credentials'' then
        (c\<lparr>cf_credentials := cf_credentials c @ [dup v]\<rparr>, [])
      else if dch_equalsStr name ''maxclients'' then
        (case dch_toUInt v 0 of Some n \<Rightarrow> (c\<lparr>cf_maxClients := n\<rparr>, []) | None \<Rightarrow> (c, [WMaxclients lineNo]))
      else (c, [WOption lineNo (dch_bytes name)]))"

text \<open>One turn of the loop of \<open>parseFile\<close>, for the string \<open>fgets\<close> left in \<open>buf\<close>.\<close>

definition parse_line :: "nat \<Rightarrow> bytes \<Rightarrow> Config \<Rightarrow> Config \<times> CfgWarning list" where
  "parse_line lineNo buf c =
     (let v = dch_trimWS (dch_initWithStr (Some (buf @ [NUL]))) in
      if dc_len v = 0 \<or> dc_byte v 0 = CHR ''#'' then (c, [])
      else (let (res, v', name) = dch_extractTillChrStripWS v (CHR ''='') in
        if res then set_option lineNo name v' c else (c, [WNoEq lineNo])))"

text \<open>
  The strings successive calls of \<open>fgets\<close> with a buffer of 1024 bytes return: up to and
  including a newline, and at most 1023 bytes.
\<close>

definition fgets_len :: "bytes \<Rightarrow> nat" where
  "fgets_len s = min 1023 (case memchr LF s of Some i \<Rightarrow> i + 1 | None \<Rightarrow> length s)"

function fgets_lines :: "bytes \<Rightarrow> bytes list" where
  "fgets_lines s = (if s = [] then [] else take (fgets_len s) s # fgets_lines (drop (fgets_len s) s))"
  by pat_completeness auto
termination
  by (relation "measure length") (auto simp: fgets_len_def split: option.splits)

declare fgets_lines.simps [simp del]

fun parse_lines :: "nat \<Rightarrow> bytes list \<Rightarrow> Config \<Rightarrow> Config \<times> CfgWarning list" where
  "parse_lines n [] c = (c, [])"
| "parse_lines n (l # ls) c =
     (let (c1, w1) = parse_line (n + 1) l c; (c2, w2) = parse_lines (n + 1) ls c1 in (c2, w1 @ w2))"

definition parseFile :: "FileSys \<Rightarrow> bytes \<Rightarrow> Config \<Rightarrow> Config \<times> CfgWarning list" where
  "parseFile fs fname c =
     (case fs_file fs fname of
        Some s \<Rightarrow> parse_lines 0 (fgets_lines s) c
      | None \<Rightarrow> (c, [WUnreadable fname]))"

fun parse_files :: "FileSys \<Rightarrow> bytes list \<Rightarrow> Config \<Rightarrow> Config \<times> CfgWarning list" where
  "parse_files fs [] c = (c, [])"
| "parse_files fs (f # fs') c =
     (let (c1, w1) = parseFile fs f c; (c2, w2) = parse_files fs fs' c1 in (c2, w1 @ w2))"

text \<open>The files of a configuration directory: its entries with the suffix \<open>.conf\<close>, in order.\<close>

definition conf_files :: "bytes \<Rightarrow> FolderEntry list \<Rightarrow> bytes list" where
  "conf_files loc es = map (\<lambda>e. with_slash loc @ fe_fileName e)
     (filter (\<lambda>e. \<not> fe_isDir e \<and> ends_with (fe_fileName e) ''.conf'') es)"

definition config_parse ::
    "qsort_fun \<Rightarrow> FileSys \<Rightarrow> nat \<Rightarrow> bytes \<Rightarrow> bytes \<Rightarrow> (Config \<times> CfgWarning list) cres" where
  "config_parse qs fs euid htmldir configLoc =
     cbind (folder_loadDir qs fs configLoc) (\<lambda>r.
       (let (c, w) = (case r of
              Inr fo \<Rightarrow> parse_files fs (conf_files configLoc (folder_getEntries fo)) config_init
            | Inl _ \<Rightarrow> parseFile fs configLoc config_init);
            c1 = (if cf_shares c = [] then
                    c\<lparr>cf_shares := [\<lparr>sh_urlpath = [], sh_syspath = htmldir @ ''/welcome.html''\<rparr>]\<rparr>
                  else c);
            c2 = (if cf_listenPort c1 = 0 then
                    c1\<lparr>cf_listenPort := (if euid = 0 then 80 else 8000)\<rparr> else c1)
        in Ok (c2, w)))"

definition config_getListenPort :: "Config \<Rightarrow> u32" where
  "config_getListenPort c = cf_listenPort c"

definition config_getMaxClients :: "Config \<Rightarrow> u32" where
  "config_getMaxClients c = cf_maxClients c"

text \<open>
  \<open>config_switchToTargetUser\<close>: \<open>pw\<close> is the answer of \<open>getpwnam\<close>, \<open>setuid_ok\<close> that of
  \<open>setuid\<close> (the result of \<open>setgid\<close> only decides on a warning).
\<close>

definition config_switchToTargetUser ::
    "Config \<Rightarrow> nat \<Rightarrow> (bytes \<Rightarrow> (nat \<times> nat) option) \<Rightarrow> (nat \<Rightarrow> bool) \<Rightarrow> bool" where
  "config_switchToTargetUser c euid pw setuid_ok =
     (if cf_switchUser c \<noteq> [] \<and> euid = 0
      then (case pw (cf_switchUser c) of Some (uid, gid) \<Rightarrow> setuid_ok uid | None \<Rightarrow> False)
      else True)"

subsection \<open>Shares\<close>

text \<open>The loop of \<open>config_getSysPathForUrlPath\<close>: the best share so far with its length.\<close>

fun best_share :: "bytes \<Rightarrow> Share list \<Rightarrow> (Share \<times> nat) option \<Rightarrow> (Share \<times> nat) option" where
  "best_share u [] best = best"
| "best_share u (s # ss) best =
     (let n = length (sh_urlpath s) in
      if length u < n \<or> (case best of Some (_, m) \<Rightarrow> n \<le> m | None \<Rightarrow> False) then best_share u ss best
      else if strncmp_eq n u (sh_urlpath s) \<and> (n = length u \<or> u ! n = CHR ''/'')
      then best_share u ss (Some (s, n)) else best_share u ss best)"

definition config_getSysPathForUrlPath :: "Config \<Rightarrow> bytes \<Rightarrow> bytes option" where
  "config_getSysPathForUrlPath c urlPath =
     (let u = (if urlPath = ''/'' then [] else urlPath) in
      case best_share u (cf_shares c) None of
        None \<Rightarrow> None
      | Some (s, n) \<Rightarrow> Some (if n < length u then sh_syspath s @ drop n u
                             else if sh_syspath s = [] then ''/'' else sh_syspath s))"

definition trim_slashes :: "bytes \<Rightarrow> nat" where
  "trim_slashes u = back_while (\<lambda>c. c = CHR ''/'') 0 u (length u)"

definition add_subshare :: "FileSys \<Rightarrow> bytes \<Rightarrow> nat \<Rightarrow> Share \<Rightarrow> Folder option \<Rightarrow> Folder option cres" where
  "add_subshare fs u n s fo =
     (if strncmp_eq n u (sh_urlpath s) \<and> (sh_urlpath s @ [NUL]) ! n = CHR ''/'' then
        (let p = dch_skipLeading (dch_initWithStr (Some (drop (n + 1) (sh_urlpath s @ [NUL])))) (CHR ''/'') in
         if 0 < dc_len p then
           (let (_, p', ent) = dch_extractTillChr p (CHR ''/'');
                f = (case fo of None \<Rightarrow> folder_new | Some f \<Rightarrow> f)
            in if \<exists>fe \<in> set (folder_getEntries f). dch_equalsStr ent (fe_fileName fe) then Ok (Some f)
               else cbind (case fs_stat fs (sh_syspath s) of
                      Some st \<Rightarrow> if dc_len p' \<noteq> 0 then folder_addEntryChunk f ent True 0x1FF 0
                        else folder_addEntryChunk f ent (S_ISDIR st) (st_mode st) (st_size st)
                    | None \<Rightarrow> folder_addEntryChunk f ent True 0x1FF 0) (\<lambda>f'. Ok (Some f')))
         else Ok fo)
      else Ok fo)"

fun add_subshares :: "FileSys \<Rightarrow> bytes \<Rightarrow> nat \<Rightarrow> Share list \<Rightarrow> Folder option \<Rightarrow> Folder option cres" where
  "add_subshares fs u n [] fo = Ok fo"
| "add_subshares fs u n (s # ss) fo = cbind (add_subshare fs u n s fo) (add_subshares fs u n ss)"

definition config_getSubSharesForPath :: "qsort_fun \<Rightarrow> FileSys \<Rightarrow> Config \<Rightarrow> bytes \<Rightarrow> Folder option cres" where
  "config_getSubSharesForPath qs fs c urlPath =
     cbind (add_subshares fs urlPath (trim_slashes urlPath) (cf_shares c) None)
       (\<lambda>fo. Ok (map_option (folder_sortEntries qs) fo))"

subsection \<open>Index files and CGI patterns\<close>

definition FNM_PATHNAME :: nat where "FNM_PATHNAME = 1"
definition FNM_PERIOD :: nat where "FNM_PERIOD = 4"

type_synonym fnmatch_fun = "nat \<Rightarrow> bytes \<Rightarrow> bytes \<Rightarrow> bool"

text \<open>The first pattern below the limit that matches, else the limit.\<close>

fun match_idx :: "fnmatch_fun \<Rightarrow> bytes list \<Rightarrow> bytes \<Rightarrow> nat \<Rightarrow> nat" where
  "match_idx fnm (p # ps) name (Suc k) =
     (if fnm FNM_PERIOD p name then 0 else Suc (match_idx fnm ps name k))"
| "match_idx fnm [] name k = k"
| "match_idx fnm (p # ps) name 0 = 0"

fun index_loop ::
    "fnmatch_fun \<Rightarrow> FileSys \<Rightarrow> bytes list \<Rightarrow> bytes \<Rightarrow> bytes list \<Rightarrow> nat \<Rightarrow> bytes option \<Rightarrow> bytes option" where
  "index_loop fnm fs pats d [] best f = f"
| "index_loop fnm fs pats d (n # ns) best f =
     (if best = 0 then f
      else if n = ''.'' \<or> n = ''..'' then index_loop fnm fs pats d ns best f
      else (let m = match_idx fnm pats n best in
        if m < best \<and> (case fs_stat fs (d @ n) of Some st \<Rightarrow> \<not> S_ISDIR st | None \<Rightarrow> False)
        then index_loop fnm fs pats d ns m (Some (d @ n))
        else index_loop fnm fs pats d ns best f))"

text \<open>The index file, or none, and the value of \<open>*sysErrNo\<close>.\<close>

definition config_getIndexFile :: "fnmatch_fun \<Rightarrow> FileSys \<Rightarrow> Config \<Rightarrow> bytes \<Rightarrow> bytes option \<times> nat" where
  "config_getIndexFile fnm fs c dir =
     (case fs_dir fs dir of
        Inl errno \<Rightarrow> (None, errno)
      | Inr ns \<Rightarrow> (index_loop fnm fs (cf_indexPatterns c) (with_slash dir) ns
                     (length (cf_indexPatterns c)) None, 0))"

text \<open>
  The loop for a pattern that does not start with a slash: \<open>s\<close> is the string at \<open>subPath\<close>;
  stepping over its terminating zero byte leaves the string.
\<close>

function rel_match :: "fnmatch_fun \<Rightarrow> bytes \<Rightarrow> bytes \<Rightarrow> bool cres" where
  "rel_match fnm patt s =
     (case s of [] \<Rightarrow> Undef
      | _ # t \<Rightarrow> if fnm (FNM_PATHNAME + FNM_PERIOD) patt t then Ok True
                 else (case memchr (CHR ''/'') t of
                         None \<Rightarrow> Ok False
                       | Some i \<Rightarrow> rel_match fnm patt (drop i t)))"
  by pat_completeness auto
termination by (relation "measure (\<lambda>(fnm, patt, s). length s)") auto

declare rel_match.simps [simp del]

fun cgi_match :: "fnmatch_fun \<Rightarrow> bytes list \<Rightarrow> bytes \<Rightarrow> bool cres" where
  "cgi_match fnm [] u = Ok False"
| "cgi_match fnm (p # ps) u =
     cbind (if p \<noteq> [] \<and> hd p = CHR ''/'' then Ok (fnm (FNM_PATHNAME + FNM_PERIOD) p u)
            else rel_match fnm p u)
       (\<lambda>m. if m then Ok True else cgi_match fnm ps u)"

definition config_isCGI :: "fnmatch_fun \<Rightarrow> Config \<Rightarrow> bytes \<Rightarrow> bool cres" where
  "config_isCGI fnm c urlPath = cgi_match fnm (cf_cgiPatterns c) urlPath"

text \<open>The executable for a path: a configured regular file.\<close>

definition cgi_exe :: "FileSys \<Rightarrow> Config \<Rightarrow> bytes \<Rightarrow> bytes option" where
  "cgi_exe fs c u = (case config_getSysPathForUrlPath c u of
     Some e \<Rightarrow> (case fs_stat fs e of Some st \<Rightarrow> if S_ISREG st then Some e else None | None \<Rightarrow> None)
   | None \<Rightarrow> None)"

text \<open>The inner loop that moves \<open>slashPos\<close> back to the previous slash.\<close>

fun prev_slash :: "bytes \<Rightarrow> nat \<Rightarrow> nat option" where
  "prev_slash u 0 = None"
| "prev_slash u (Suc p) = (if u ! p = CHR ''/'' then Some p else prev_slash u p)"

lemma prev_slash_less: "prev_slash u p = Some q \<Longrightarrow> q < p"
  by (induction u p rule: prev_slash.induct) (auto split: if_splits)

function cgi_loop :: "fnmatch_fun \<Rightarrow> FileSys \<Rightarrow> Config \<Rightarrow> bytes \<Rightarrow> nat option \<Rightarrow> (bytes \<times> nat) option cres" where
  "cgi_loop fnm fs c u pos =
     (case pos of None \<Rightarrow> Ok None
      | Some p \<Rightarrow>
          (let pre = take p u in
           cbind (config_isCGI fnm c (if pre \<noteq> [] then pre else ''/'')) (\<lambda>m.
             if m \<and> cgi_exe fs c pre \<noteq> None then Ok (Some (the (cgi_exe fs c pre), p))
             else cgi_loop fnm fs c u (prev_slash u p))))"
  by pat_completeness auto
termination
  by (relation "measure (\<lambda>(fnm, fs, c, u, pos). case pos of None \<Rightarrow> 0 | Some p \<Rightarrow> Suc p)")
     (auto split: option.splits dest: prev_slash_less)

declare cgi_loop.simps [simp del]

text \<open>
  \<open>config_findCGI\<close>: its result, and the three buffers when a CGI was found (executable,
  URL part, rest of the URL path).
\<close>

definition config_findCGI ::
    "fnmatch_fun \<Rightarrow> FileSys \<Rightarrow> Config \<Rightarrow> bytes \<Rightarrow> (bool \<times> (bytes \<times> bytes \<times> bytes option) option) cres" where
  "config_findCGI fnm fs c urlPath =
     cbind (config_isCGI fnm c urlPath) (\<lambda>m.
       if m \<and> cgi_exe fs c urlPath \<noteq> None
       then Ok (False, Some (the (cgi_exe fs c urlPath), urlPath, None))
       else cbind (cgi_loop fnm fs c urlPath (strrchr (CHR ''/'') urlPath)) (\<lambda>r.
         case r of
           Some (exe, p) \<Rightarrow> Ok (True, Some (exe, take p urlPath, Some (drop p urlPath)))
         | None \<Rightarrow> Ok (False, None)))"

subsection \<open>Credentials\<close>

text \<open>
  The loop over the credentials: the one that matches with the rest after the user name.
  \<open>name\<close> are the \<open>userNameLen\<close> bytes at \<open>userName\<close>.
\<close>

fun find_cred :: "bytes list \<Rightarrow> bytes \<Rightarrow> (bytes \<times> bytes) option cres" where
  "find_cred [] name = Ok None"
| "find_cred (cr # crs) name =
     (if strncmp_eq (length name) cr name then
        (if length cr < length name then Undef
         else (let p = drop (length name) cr in
           if (p \<noteq> [] \<and> hd p = CHR '':'') \<or> (length p = 32 \<and> CHR '':'' \<notin> set p)
           then Ok (Some (cr, p)) else find_cred crs name))
      else find_cred crs name)"

definition config_getDigestAuthCredential :: "Config \<Rightarrow> bytes \<Rightarrow> bytes option cres" where
  "config_getDigestAuthCredential c name =
     cbind (find_cred (cf_credentials c) name) (\<lambda>r.
       case r of
         None \<Rightarrow> Ok None
       | Some (cr, p) \<Rightarrow>
           Ok (Some (if hd p = CHR '':''
             then md5_hex (take (length name + 1) cr @ FM_REALM @ drop (length name) cr)
             else p)))"

definition config_getCredentialsEncoded :: "bytes \<Rightarrow> bytes" where
  "config_getCredentialsEncoded up =
     (let n = strcspn up '':'' in
      take n up @ md5_hex (take (n + 1) (up @ [NUL]) @ FM_REALM @ drop n up))"

subsection \<open>Privileges\<close>

definition config_isActionAvailable :: "Config \<Rightarrow> PrivilegedAction \<Rightarrow> bool" where
  "config_isActionAvailable c pa =
     (case pa of PA_SERVE_PAGE \<Rightarrow> True
      | PA_LIST_FOLDER \<Rightarrow> cf_availOps c \<noteq> DO_NONE
      | PA_MODIFY \<Rightarrow> cf_availOps c = DO_ALL)"

definition config_isActionAllowed :: "Config \<Rightarrow> PrivilegedAction \<Rightarrow> bool \<Rightarrow> bool" where
  "config_isActionAllowed c pa isLoggedIn =
     (if \<not> config_isActionAvailable c pa then False
      else if isLoggedIn \<or> cf_guestOps c = DO_ALL then True
      else (case pa of PA_SERVE_PAGE \<Rightarrow> cf_guestOps c \<noteq> DO_NONE
            | PA_LIST_FOLDER \<Rightarrow> cf_guestOps c = DO_LISTING
            | PA_MODIFY \<Rightarrow> False))"

definition config_givesLoginMorePrivileges :: "Config \<Rightarrow> bool" where
  "config_givesLoginMorePrivileges c =
     (case cf_guestOps c of DO_ALL \<Rightarrow> False
      | DO_LISTING \<Rightarrow> cf_availOps c = DO_ALL
      | DO_FILE \<Rightarrow> cf_availOps c \<noteq> DO_NONE
      | DO_NONE \<Rightarrow> True)"

section \<open>Correctness\<close>

subsection \<open>Privileges\<close>

text \<open>The levels of \<open>dirops\<close> and \<open>guestops\<close> are ordered by what they permit.\<close>

instantiation DirectoryOps :: linorder
begin

definition ops_rank :: "DirectoryOps \<Rightarrow> nat" where
  "ops_rank o' = (case o' of DO_NONE \<Rightarrow> 0 | DO_FILE \<Rightarrow> 1 | DO_LISTING \<Rightarrow> 2 | DO_ALL \<Rightarrow> 3)"

definition less_eq_DirectoryOps :: "DirectoryOps \<Rightarrow> DirectoryOps \<Rightarrow> bool" where
  "less_eq_DirectoryOps a b = (ops_rank a \<le> ops_rank b)"

definition less_DirectoryOps :: "DirectoryOps \<Rightarrow> DirectoryOps \<Rightarrow> bool" where
  "less_DirectoryOps a b = (ops_rank a < ops_rank b)"

instance
  by intro_classes
     (auto simp: less_eq_DirectoryOps_def less_DirectoryOps_def ops_rank_def split: DirectoryOps.splits)

end

lemmas privilege_defs = config_isActionAvailable_def config_isActionAllowed_def
  config_givesLoginMorePrivileges_def

text \<open>The privileges are coherent: what is allowed is available, logging in never takes a
  privilege away, raising \<open>guestops\<close> never takes one away, and
  \<open>config_givesLoginMorePrivileges\<close> holds exactly when some action is allowed to a
  logged-in user and not to a guest.\<close>

theorem privileges_coherent:
  "(config_isActionAllowed c pa l \<longrightarrow> config_isActionAvailable c pa) \<and>
   (config_isActionAllowed c pa False \<longrightarrow> config_isActionAllowed c pa True) \<and>
   (cf_guestOps c \<le> g \<longrightarrow> config_isActionAllowed c pa l \<longrightarrow>
      config_isActionAllowed (c\<lparr>cf_guestOps := g\<rparr>) pa l) \<and>
   config_givesLoginMorePrivileges c =
     (\<exists>a. config_isActionAllowed c a True \<and> \<not> config_isActionAllowed c a False)"
proof (intro conjI impI)
  show "config_isActionAllowed c pa l \<Longrightarrow> config_isActionAvailable c pa"
    by (simp add: privilege_defs split: if_splits)
  show "config_isActionAllowed c pa False \<Longrightarrow> config_isActionAllowed c pa True"
    by (simp add: privilege_defs split: if_splits)
  show "config_isActionAllowed (c\<lparr>cf_guestOps := g\<rparr>) pa l"
    if "cf_guestOps c \<le> g" "config_isActionAllowed c pa l"
    using that by (cases g; cases "cf_guestOps c"; cases pa)
      (auto simp: privilege_defs less_eq_DirectoryOps_def ops_rank_def split: if_splits)
  have ex: "(\<exists>a. P a) \<longleftrightarrow> P PA_SERVE_PAGE \<or> P PA_LIST_FOLDER \<or> P PA_MODIFY" for P
    by (metis PrivilegedAction.exhaust)
  show "config_givesLoginMorePrivileges c =
     (\<exists>a. config_isActionAllowed c a True \<and> \<not> config_isActionAllowed c a False)"
    unfolding ex by (cases "cf_guestOps c"; cases "cf_availOps c") (simp_all add: privilege_defs)
qed

theorem privileges_coherent_witness:
  "config_givesLoginMorePrivileges (config_init\<lparr>cf_guestOps := DO_LISTING\<rparr>) \<and>
   config_isActionAllowed (config_init\<lparr>cf_guestOps := DO_ALL\<rparr>) PA_LIST_FOLDER False"
proof -
  have "config_isActionAllowed (config_init\<lparr>cf_guestOps := DO_LISTING\<rparr>) PA_LIST_FOLDER False"
    "cf_guestOps (config_init\<lparr>cf_guestOps := DO_LISTING\<rparr>) \<le> DO_ALL"
    "config_isActionAllowed (config_init\<lparr>cf_guestOps := DO_LISTING\<rparr>) PA_MODIFY True"
    "\<not> config_isActionAllowed (config_init\<lparr>cf_guestOps := DO_LISTING\<rparr>) PA_MODIFY False"
    by (simp_all add: privilege_defs config_init_def less_eq_DirectoryOps_def ops_rank_def)
  then show ?thesis
    using privileges_coherent [of "config_init\<lparr>cf_guestOps := DO_LISTING\<rparr>" PA_LIST_FOLDER False DO_ALL]
    by auto
qed

subsection \<open>Shares\<close>

lemma strncmp_eq_take:
  "NUL \<notin> set a \<Longrightarrow> NUL \<notin> set b \<Longrightarrow> n \<le> length a \<Longrightarrow> n \<le> length b \<Longrightarrow>
     strncmp_eq n a b = (take n a = take n b)"
  by (simp add: strncmp_eq_def)

text \<open>A share is above a path when its URL path is the path or an ancestor directory of it.\<close>

definition share_above :: "bytes \<Rightarrow> Share \<Rightarrow> bool" where
  "share_above u s = (\<exists>r. u = sh_urlpath s @ r \<and> (r = [] \<or> hd r = CHR ''/''))"

lemma share_above_test:
  assumes "NUL \<notin> set u" "NUL \<notin> set (sh_urlpath s)" "length (sh_urlpath s) \<le> length u"
  shows "share_above u s \<longleftrightarrow> strncmp_eq (length (sh_urlpath s)) u (sh_urlpath s) \<and>
    (length (sh_urlpath s) = length u \<or> u ! length (sh_urlpath s) = CHR ''/'')"
proof -
  have "(\<exists>r. u = p @ r \<and> (r = [] \<or> hd r = c)) \<longleftrightarrow>
      take (length p) u = p \<and> (length p = length u \<or> u ! length p = c)" (is "?L = ?R")
    if "length p \<le> length u" for p c
  proof
    show ?R if ?L
    proof -
      from that obtain r where "u = p @ r" "r = [] \<or> hd r = c" by blast
      then show ?thesis by (cases r) auto
    qed
    show ?L if r: ?R
    proof (intro exI conjI)
      have tk: "take (length p) u = p" using r by blast
      show "u = p @ drop (length p) u"
        using append_take_drop_id [of "length p" u] unfolding tk by (rule sym)
      have "length p = length u \<or> length p < length u \<and> u ! length p = c"
        using r \<open>length p \<le> length u\<close> by linarith
      then show "drop (length p) u = [] \<or> hd (drop (length p) u) = c"
        by (metis hd_drop_conv_nth drop_all order_refl)
    qed
  qed
  note eq = this [OF assms(3)]
  have st: "strncmp_eq (length (sh_urlpath s)) u (sh_urlpath s) =
      (take (length (sh_urlpath s)) u = sh_urlpath s)"
    using strncmp_eq_take [OF assms(1,2,3)] by simp
  show ?thesis unfolding share_above_def st by (rule eq)
qed

lemma share_above_len: "share_above u s \<Longrightarrow> length (sh_urlpath s) \<le> length u"
  by (auto simp: share_above_def)

definition beats :: "(Share \<times> nat) option \<Rightarrow> nat \<Rightarrow> bool" where
  "beats best n = (case best of None \<Rightarrow> True | Some (_, m) \<Rightarrow> m < n)"

lemma best_share_step:
  assumes "NUL \<notin> set u" "NUL \<notin> set (sh_urlpath s)"
  shows "best_share u (s # ss) best =
    best_share u ss (if share_above u s \<and> beats best (length (sh_urlpath s))
                     then Some (s, length (sh_urlpath s)) else best)"
proof (cases "length u < length (sh_urlpath s)")
  case True
  then have "\<not> share_above u s" using share_above_len by (metis leD)
  with True show ?thesis by (simp add: Let_def)
next
  case False
  then have "length (sh_urlpath s) \<le> length u" by simp
  note t = share_above_test [OF assms this]
  show ?thesis
    using False by (auto simp: t beats_def Let_def not_le split: option.splits)
qed

lemma best_share_spec:
  assumes "NUL \<notin> set u" "\<forall>s \<in> set ss. NUL \<notin> set (sh_urlpath s)"
  shows "(best_share u ss best = best \<and>
      (\<forall>t \<in> set ss. share_above u t \<longrightarrow> \<not> beats best (length (sh_urlpath t)))) \<or>
    (\<exists>ss1 s ss2. ss = ss1 @ s # ss2 \<and> best_share u ss best = Some (s, length (sh_urlpath s)) \<and>
       share_above u s \<and> beats best (length (sh_urlpath s)) \<and>
       (\<forall>t \<in> set ss1. share_above u t \<longrightarrow> length (sh_urlpath t) < length (sh_urlpath s)) \<and>
       (\<forall>t \<in> set ss2. share_above u t \<longrightarrow> length (sh_urlpath t) \<le> length (sh_urlpath s)))"
  using assms(2)
proof (induction ss arbitrary: best)
  case Nil
  then show ?case by simp
next
  case (Cons s ss)
  let ?n = "length (sh_urlpath s)"
  let ?b = "if share_above u s \<and> beats best ?n then Some (s, ?n) else best"
  have step: "best_share u (s # ss) best = best_share u ss ?b"
    using Cons.prems assms(1) by (intro best_share_step) auto
  have nul: "\<forall>t \<in> set ss. NUL \<notin> set (sh_urlpath t)" using Cons.prems by simp
  from Cons.IH [OF nul, of ?b] show ?case
  proof (elim disjE)
    assume a: "best_share u ss ?b = ?b \<and>
      (\<forall>t \<in> set ss. share_above u t \<longrightarrow> \<not> beats ?b (length (sh_urlpath t)))"
    show ?case
    proof (cases "share_above u s \<and> beats best ?n")
      case True
      with a step show ?thesis
        by (intro disjI2 exI [of _ "[]"] exI [of _ s] exI [of _ ss]) (auto simp: beats_def)
    next
      case False
      with a step show ?thesis by (intro disjI1) auto
    qed
  next
    assume "\<exists>ss1 x ss2. ss = ss1 @ x # ss2 \<and> best_share u ss ?b = Some (x, length (sh_urlpath x)) \<and>
       share_above u x \<and> beats ?b (length (sh_urlpath x)) \<and>
       (\<forall>t \<in> set ss1. share_above u t \<longrightarrow> length (sh_urlpath t) < length (sh_urlpath x)) \<and>
       (\<forall>t \<in> set ss2. share_above u t \<longrightarrow> length (sh_urlpath t) \<le> length (sh_urlpath x))"
    then obtain ss1 x ss2 where x: "ss = ss1 @ x # ss2"
        "best_share u ss ?b = Some (x, length (sh_urlpath x))" "share_above u x"
        "beats ?b (length (sh_urlpath x))"
        "\<forall>t \<in> set ss1. share_above u t \<longrightarrow> length (sh_urlpath t) < length (sh_urlpath x)"
        "\<forall>t \<in> set ss2. share_above u t \<longrightarrow> length (sh_urlpath t) \<le> length (sh_urlpath x)"
      by blast
    have "beats best (length (sh_urlpath x)) \<and> (share_above u s \<longrightarrow> ?n < length (sh_urlpath x))"
      using x(4) by (auto simp: beats_def split: if_splits option.splits)
    with x step show ?case
      by (intro disjI2 exI [of _ "s # ss1"] exI [of _ x] exI [of _ ss2]) auto
  qed
qed

text \<open>C23: The system path of a URL path comes from the share with the longest URL path among
  those that are the path itself or an ancestor directory of it (\<open>/ab\<close> is not above
  \<open>/abc\<close>), the first one of equal length; it is that share's directory followed by the rest of
  the path. When no share is above the path there is none.\<close>

theorem sysPath_longest_share:
  assumes "NUL \<notin> set urlPath" and "\<forall>s \<in> set (cf_shares c). NUL \<notin> set (sh_urlpath s)"
    and "u = (if urlPath = ''/'' then [] else urlPath)"
  shows "case config_getSysPathForUrlPath c urlPath of
      None \<Rightarrow> \<forall>s \<in> set (cf_shares c). \<not> share_above u s
    | Some p \<Rightarrow> \<exists>ss1 s ss2 r. cf_shares c = ss1 @ s # ss2 \<and> share_above u s \<and>
        (\<forall>t \<in> set ss1. share_above u t \<longrightarrow> length (sh_urlpath t) < length (sh_urlpath s)) \<and>
        (\<forall>t \<in> set ss2. share_above u t \<longrightarrow> length (sh_urlpath t) \<le> length (sh_urlpath s)) \<and>
        u = sh_urlpath s @ r \<and>
        p = (if r = [] \<and> sh_syspath s = [] then ''/'' else sh_syspath s @ r)"
proof -
  have u: "NUL \<notin> set u" using assms by simp
  have def: "config_getSysPathForUrlPath c urlPath = (case best_share u (cf_shares c) None of
        None \<Rightarrow> None
      | Some (s, n) \<Rightarrow> Some (if n < length u then sh_syspath s @ drop n u
                             else if sh_syspath s = [] then ''/'' else sh_syspath s))"
    by (simp only: config_getSysPathForUrlPath_def assms(3) Let_def)
  from best_share_spec [OF u assms(2), of None] show ?thesis
  proof (elim disjE exE conjE)
    assume "best_share u (cf_shares c) None = None"
      "\<forall>t \<in> set (cf_shares c). share_above u t \<longrightarrow> \<not> beats None (length (sh_urlpath t))"
    then show ?thesis by (simp add: def beats_def)
  next
    fix ss1 s ss2
    assume a: "cf_shares c = ss1 @ s # ss2"
      "best_share u (cf_shares c) None = Some (s, length (sh_urlpath s))" "share_above u s"
      "\<forall>t \<in> set ss1. share_above u t \<longrightarrow> length (sh_urlpath t) < length (sh_urlpath s)"
      "\<forall>t \<in> set ss2. share_above u t \<longrightarrow> length (sh_urlpath t) \<le> length (sh_urlpath s)"
    have v: "config_getSysPathForUrlPath c urlPath =
        Some (if length (sh_urlpath s) < length u then sh_syspath s @ drop (length (sh_urlpath s)) u
              else if sh_syspath s = [] then ''/'' else sh_syspath s)"
      by (simp only: def a(2) option.case prod.case)
    from a(3) obtain r where r: "u = sh_urlpath s @ r" by (auto simp: share_above_def)
    from v have p: "config_getSysPathForUrlPath c urlPath =
        Some (if r = [] \<and> sh_syspath s = [] then ''/'' else sh_syspath s @ r)"
      by (cases r) (simp_all add: r)
    show ?thesis unfolding p option.case using a r by blast
  qed
qed

definition example_shares :: "Share list" where
  "example_shares = [\<lparr>sh_urlpath = ''/a'', sh_syspath = ''/srv/a''\<rparr>,
     \<lparr>sh_urlpath = [], sh_syspath = []\<rparr>, \<lparr>sh_urlpath = ''/a/b'', sh_syspath = ''/mnt''\<rparr>]"

theorem sysPath_longest_share_witness:
  "\<exists>s r. s \<in> set example_shares \<and> ''/a/bc'' = sh_urlpath s @ r \<and> r = ''/bc'' \<and>
     config_getSysPathForUrlPath (config_init\<lparr>cf_shares := example_shares\<rparr>) ''/a/bc'' = Some (''/srv/a'' @ r)"
proof -
  let ?c = "config_init\<lparr>cf_shares := example_shares\<rparr>"
  have e: "config_getSysPathForUrlPath ?c ''/a/bc'' = Some ''/srv/a/bc''" by code_simp
  have p: "NUL \<notin> set ''/a/bc''" "\<forall>s \<in> set (cf_shares ?c). NUL \<notin> set (sh_urlpath s)"
    "''/a/bc'' = (if ''/a/bc'' = ''/'' then [] else ''/a/bc'')"
    by (simp_all add: example_shares_def)
  from sysPath_longest_share [OF p, unfolded e option.case]
  obtain ss1 s ss2 r where w: "cf_shares ?c = ss1 @ s # ss2" "''/a/bc'' = sh_urlpath s @ r"
    "''/srv/a/bc'' = (if r = [] \<and> sh_syspath s = [] then ''/'' else sh_syspath s @ r)"
    by blast
  have "cf_shares ?c = example_shares" by simp
  with w(1) have s: "s \<in> set example_shares" by (metis in_set_conv_decomp)
  moreover have "r = ''/bc'' \<and> ''/srv/a/bc'' = ''/srv/a'' @ r"
    using w(2,3) s by (auto simp: example_shares_def)
  ultimately show ?thesis using w(2) e by (intro exI [of _ s] exI [of _ r]) simp
qed

subsection \<open>Credentials\<close>

lemma colon_not_hex: "CHR '':'' \<notin> digit_char ` {..<16}"
proof -
  have "CHR '':'' \<notin> set (map digit_char [0..<16])" by code_simp
  then show ?thesis by (simp add: atLeast0LessThan)
qed

lemma cred_test: "NUL \<notin> set name \<Longrightarrow> strncmp_eq (length name) (name @ p) name"
  by (simp add: strncmp_eq_def cstr_append)

lemma find_cred_Some:
  assumes "NUL \<notin> set name" "(p \<noteq> [] \<and> hd p = CHR '':'') \<or> (length p = 32 \<and> CHR '':'' \<notin> set p)"
  shows "find_cred ((name @ p) # crs) name = Ok (Some (name @ p, p))"
  using assms cred_test [OF assms(1), of p] by (simp add: Let_def)

text \<open>A credential that is for another user is passed over.\<close>

lemma find_cred_append:
  assumes "\<forall>cr \<in> set crs. \<not> strncmp_eq (length name) cr name"
  shows "find_cred (crs @ crs') name = find_cred crs' name"
  using assms by (induction crs) simp_all

lemma cred_encoded:
  assumes "CHR '':'' \<notin> set name"
  shows "config_getCredentialsEncoded (name @ CHR '':'' # pw) =
    name @ md5_hex (name @ '':'' @ FM_REALM @ CHR '':'' # pw)"
proof -
  have "strcspn (name @ CHR '':'' # pw) '':'' = length name"
    using assms by (simp add: strcspn_def takeWhile_until)
  then show ?thesis by (simp add: config_getCredentialsEncoded_def Let_def)
qed

lemma cred_digest:
  assumes "NUL \<notin> set user" and "CHR '':'' \<notin> set user"
    and "\<forall>cr \<in> set crs. \<not> strncmp_eq (length user) cr user"
    and "cred = user @ CHR '':'' # pw \<or> cred = config_getCredentialsEncoded (user @ CHR '':'' # pw)"
    and "cf_credentials c = crs @ cred # crs'"
  shows "config_getDigestAuthCredential c user =
    Ok (Some (md5_hex (user @ '':'' @ FM_REALM @ '':'' @ pw)))"
proof -
  let ?d = "md5_hex (user @ '':'' @ FM_REALM @ CHR '':'' # pw)"
  have nc: "CHR '':'' \<notin> set ?d" by (rule md5.md_no_sep [OF colon_not_hex])
  have "hd ?d \<noteq> CHR '':''" using nc md5.md_not_Nil by (metis hd_in_set)
  moreover have "find_cred (cf_credentials c) user = Ok (Some (cred, drop (length user) cred))"
    using assms(1-4) nc md5.md_length
    unfolding assms(5) find_cred_append [OF assms(3)] cred_encoded [OF assms(2)]
    by (auto simp: find_cred_Some simp del: find_cred.simps)
  ultimately show ?thesis
    using assms(4) by (auto simp: config_getDigestAuthCredential_def cred_encoded [OF assms(2)])
qed

lemma strncmp_beginning:
  assumes "strncmp_eq (length s) b s" "NUL \<notin> set s"
  obtains rest where "b = s @ rest"
proof -
  have t: "take (length s) (cstr b @ [NUL]) = s" using assms by (simp add: strncmp_eq_def)
  have "length s \<le> length (cstr b)"
  proof (rule ccontr)
    assume "\<not> length s \<le> length (cstr b)"
    then have "take (length s) (cstr b @ [NUL]) = cstr b @ [NUL]" by simp
    then show False using t assms(2) by (metis in_set_conv_decomp)
  qed
  then have "take (length s) (cstr b) = s" using t by simp
  then have c: "cstr b = s @ drop (length s) (cstr b)" using append_take_drop_id [of "length s" "cstr b"] by simp
  have "b = cstr b @ dropWhile (\<lambda>c. c \<noteq> NUL) b" by (simp add: cstr_def)
  then have "b = s @ drop (length s) (cstr b) @ dropWhile (\<lambda>c. c \<noteq> NUL) b" by (subst (asm) c) simp
  then show thesis by (rule that)
qed

text \<open>
  The credentials of a list of users with their passwords, some in plain form, others in the encoded one.  That of another
  user is passed over, also when one name is the beginning of the other; of the credentials of one user the first counts.
\<close>

definition credential_of :: "bool \<times> bytes \<times> bytes \<Rightarrow> bytes" where
  "credential_of = (\<lambda>(encoded, name, pw).
     if encoded then config_getCredentialsEncoded (name @ CHR '':'' # pw) else name @ CHR '':'' # pw)"

lemma find_cred_other:
  assumes "NUL \<notin> set user" "CHR '':'' \<notin> set user" "CHR '':'' \<notin> set name" "name \<noteq> user"
  shows "find_cred (credential_of (encoded, name, pw) # crs) user = find_cred crs user"
proof (cases "strncmp_eq (length user) (credential_of (encoded, name, pw)) user")
  case True
  let ?cr = "credential_of (encoded, name, pw)"
  obtain rest where cr: "?cr = user @ rest" using strncmp_beginning [OF True assms(1)] .
  show ?thesis
  proof (cases encoded)
    case False
    then have "user @ rest = name @ CHR '':'' # pw" using cr by (simp add: credential_of_def)
    then obtain us where "name = user @ us" "rest = us @ CHR '':'' # pw"
      using assms(2) by (auto simp: append_eq_append_conv2 append_eq_Cons_conv)
    moreover have "us \<noteq> []" using calculation assms(4) by simp
    ultimately have "hd rest \<noteq> CHR '':''" "CHR '':'' \<in> set rest" using assms(3) by (cases us; auto)+
    then show ?thesis using cr by simp
  next
    case True
    let ?d = "md5_hex (name @ '':'' @ FM_REALM @ CHR '':'' # pw)"
    have r: "user @ rest = name @ ?d" using cr True by (simp add: credential_of_def cred_encoded [OF assms(3)])
    then have "CHR '':'' \<notin> set rest"
      using assms(3) md5.md_no_sep [OF colon_not_hex, of "name @ '':'' @ FM_REALM @ CHR '':'' # pw"]
      by (metis Un_iff set_append)
    moreover have "length rest \<noteq> 32"
    proof
      assume "length rest = 32"
      then have "length rest = length ?d" by (simp add: md5.md_length)
      then show False using r assms(4) by simp
    qed
    moreover have "rest \<noteq> [] \<Longrightarrow> hd rest \<noteq> CHR '':''" using calculation(1) by (metis hd_in_set)
    ultimately show ?thesis using cr by (auto simp: Let_def)
  qed
qed simp

lemma credential_of_users:
  assumes "NUL \<notin> set user" "CHR '':'' \<notin> set user" "\<forall>(encoded, name, pw) \<in> set us. CHR '':'' \<notin> set name"
    and "cf_credentials c = map credential_of us"
  shows "config_getDigestAuthCredential c user =
    Ok (map_option (\<lambda>pw. md5_hex (user @ '':'' @ FM_REALM @ '':'' @ pw)) (map_of (map snd us) user))"
proof -
  have "config_getDigestAuthCredential (c\<lparr>cf_credentials := map credential_of us\<rparr>) user =
      Ok (map_option (\<lambda>pw. md5_hex (user @ '':'' @ FM_REALM @ '':'' @ pw)) (map_of (map snd us) user))"
    using assms(3)
  proof (induction us)
    case Nil
    then show ?case by (simp add: config_getDigestAuthCredential_def)
  next
    case (Cons x us)
    obtain encoded name pw where x: "x = (encoded, name, pw)" by (cases x)
    show ?case
    proof (cases "name = user")
      case True
      have "config_getDigestAuthCredential (c\<lparr>cf_credentials := map credential_of (x # us)\<rparr>) user =
          Ok (Some (md5_hex (user @ '':'' @ FM_REALM @ '':'' @ pw)))"
        by (rule cred_digest [OF assms(1,2), of "[]" "credential_of x" pw _ "map credential_of us"])
          (simp_all add: x True credential_of_def)
      then show ?thesis by (simp add: x True)
    next
      case False
      have "find_cred (map credential_of (x # us)) user = find_cred (map credential_of us) user"
        using find_cred_other [OF assms(1,2) _ False] Cons.prems by (simp add: x del: find_cred.simps)
      then show ?thesis using Cons False by (simp add: config_getDigestAuthCredential_def x)
    qed
  qed
  moreover have "c\<lparr>cf_credentials := map credential_of us\<rparr> = c" using assms(4) by simp
  ultimately show ?thesis by simp
qed

text \<open>The two ways to configure a user agree: for a credential \<open>user:password\<close> in plain form,
  and for the form \<open>config_getCredentialsEncoded\<close> prints of it, the credential found for the
  user is the digest of \<open>user:realm:password\<close>, whatever the credentials of other users
  before and after it are.\<close>

theorem credentials_encoded:
  assumes "NUL \<notin> set user" and "CHR '':'' \<notin> set user"
    and "\<forall>cr \<in> set crs. \<not> strncmp_eq (length user) cr user"
    and "cred = user @ CHR '':'' # pw \<or> cred = config_getCredentialsEncoded (user @ CHR '':'' # pw)"
    and "cf_credentials c = crs @ cred # crs'"
  shows "config_getDigestAuthCredential c user =
    Ok (Some (md5_hex (user @ '':'' @ FM_REALM @ '':'' @ pw)))"
  by (rule cred_digest [OF assms])

theorem credentials_encoded_witness:
  "config_getDigestAuthCredential
     (config_init\<lparr>cf_credentials := [''al:x'', config_getCredentialsEncoded ''bob:secret'']\<rparr>) ''bob'' =
   Ok (Some (md5_hex ''bob:File Manager:secret''))"
proof -
  have "\<not> strncmp_eq (Suc (Suc (Suc 0))) ''al:x'' ''bob''" by code_simp
  then show ?thesis
    using credentials_encoded [of "''bob''" "[''al:x'']" "config_getCredentialsEncoded ''bob:secret''" "''secret''"
        "config_init\<lparr>cf_credentials := [''al:x'', config_getCredentialsEncoded ''bob:secret'']\<rparr>" "[]"]
    by (simp add: FM_REALM_def)
qed

subsection \<open>The parsed configuration\<close>

lemma loadDir_ok: "\<exists>r. folder_loadDir qs fs dir = Ok r"
proof (cases "fs_dir fs dir")
  case (Inl e)
  then show ?thesis by (simp add: folder_loadDir_def)
next
  case (Inr ns)
  obtain fo where "load_entries fs (with_slash dir) ns folder_new = Ok fo"
    using load_entries_ok [OF wf_folder_new] by blast
  with Inr show ?thesis by (simp add: folder_loadDir_def)
qed

text \<open>Whatever the configuration files hold, parsing them ends with a configuration that has at
  least one share and a port other than 0.\<close>

theorem parse_usable:
  "\<exists>c w. config_parse qs fs euid htmldir loc = Ok (c, w) \<and> cf_shares c \<noteq> [] \<and> cf_listenPort c \<noteq> 0"
proof -
  obtain r where "folder_loadDir qs fs loc = Ok r" using loadDir_ok by blast
  then show ?thesis by (auto simp: config_parse_def Let_def split: prod.splits)
qed

subsection \<open>Index files\<close>

definition first_match :: "fnmatch_fun \<Rightarrow> bytes list \<Rightarrow> bytes \<Rightarrow> nat" where
  "first_match fnm ps n = length (takeWhile (\<lambda>p. \<not> fnm FNM_PERIOD p n) ps)"

lemma match_idx_min: "k \<le> length ps \<Longrightarrow> match_idx fnm ps n k = min k (first_match fnm ps n)"
  by (induction fnm ps n k rule: match_idx.induct) (simp_all add: first_match_def)

text \<open>A name that may be served as index file: not \<open>.\<close> or \<open>..\<close>, and not a directory.\<close>

definition index_cand :: "FileSys \<Rightarrow> bytes \<Rightarrow> bytes \<Rightarrow> bool" where
  "index_cand fs d n = (n \<noteq> ''.'' \<and> n \<noteq> ''..'' \<and>
     (case fs_stat fs (d @ n) of Some st \<Rightarrow> \<not> S_ISDIR st | None \<Rightarrow> False))"

lemma index_loop_step:
  "best \<le> length pats \<Longrightarrow> index_loop fnm fs pats d (n # ns) best f =
     (if index_cand fs d n \<and> first_match fnm pats n < best
      then index_loop fnm fs pats d ns (first_match fnm pats n) (Some (d @ n))
      else if best = 0 then f else index_loop fnm fs pats d ns best f)"
  by (auto simp: index_cand_def match_idx_min Let_def)

lemma index_loop_spec:
  assumes "best \<le> length pats"
  shows "(index_loop fnm fs pats d ns best f = f \<and>
      (\<forall>n \<in> set ns. index_cand fs d n \<longrightarrow> best \<le> first_match fnm pats n)) \<or>
    (\<exists>n \<in> set ns. index_cand fs d n \<and> first_match fnm pats n < best \<and>
       index_loop fnm fs pats d ns best f = Some (d @ n) \<and>
       (\<forall>m \<in> set ns. index_cand fs d m \<longrightarrow> first_match fnm pats n \<le> first_match fnm pats m))"
  using assms
proof (induction ns arbitrary: best f)
  case Nil
  then show ?case by simp
next
  case (Cons n ns)
  let ?m = "first_match fnm pats n"
  consider "index_cand fs d n \<and> ?m < best" | "best = 0" | "\<not> (index_cand fs d n \<and> ?m < best)" "best \<noteq> 0"
    by auto
  then show ?case
  proof cases
    case 1
    then have "?m \<le> length pats" using Cons.prems by simp
    from Cons.IH [OF this, of "Some (d @ n)"] show ?thesis
      using 1 unfolding index_loop_step [OF Cons.prems] by (auto intro: less_imp_le less_trans)
  next
    case 2
    then show ?thesis unfolding index_loop_step [OF Cons.prems] by simp
  next
    case 3
    from Cons.IH [OF Cons.prems, of f] show ?thesis
      using 3 unfolding index_loop_step [OF Cons.prems] by (auto simp: not_less)
  qed
qed

text \<open>The index file of a directory is the name (not \<open>.\<close>, \<open>..\<close> or a directory) that
  matches the earliest pattern of the configuration any such name matches, with the directory
  in front; there is none exactly when no such name matches a pattern. When the
  directory cannot be read, there is none and the error number is passed on.\<close>

theorem indexFile_best:
  "case config_getIndexFile fnm fs c dir of (f, e) \<Rightarrow>
     (case fs_dir fs dir of
        Inl errno \<Rightarrow> f = None \<and> e = errno
      | Inr ns \<Rightarrow> e = 0 \<and>
         (let ps = cf_indexPatterns c; ok = (\<lambda>n. index_cand fs (with_slash dir) n) in
          case f of
            None \<Rightarrow> \<forall>n \<in> set ns. ok n \<longrightarrow> (\<forall>p \<in> set ps. \<not> fnm FNM_PERIOD p n)
          | Some path \<Rightarrow> \<exists>n \<in> set ns. ok n \<and> path = with_slash dir @ n \<and>
              (\<exists>ps1 p ps2. ps = ps1 @ p # ps2 \<and> fnm FNM_PERIOD p n \<and>
                 (\<forall>q \<in> set ps1. \<forall>m \<in> set ns. ok m \<longrightarrow> \<not> fnm FNM_PERIOD q m))))"
proof (cases "fs_dir fs dir")
  case (Inl e)
  then show ?thesis by (simp add: config_getIndexFile_def)
next
  case (Inr ns)
  let ?ps = "cf_indexPatterns c" and ?d = "with_slash dir"
  let ?r = "index_loop fnm fs ?ps ?d ns (length ?ps) None"
  have none: "\<forall>p \<in> set ?ps. \<not> fnm FNM_PERIOD p n" if "length ?ps \<le> first_match fnm ?ps n" for n
    using that by (metis first_match_def length_takeWhile_le le_antisym takeWhile_eq_take
        take_all set_takeWhileD order_refl)
  have some: "\<exists>ps1 p ps2. ?ps = ps1 @ p # ps2 \<and> fnm FNM_PERIOD p n \<and>
      (\<forall>q \<in> set ps1. \<forall>m \<in> set ns. index_cand fs ?d m \<longrightarrow> \<not> fnm FNM_PERIOD q m)"
    if "first_match fnm ?ps n < length ?ps"
      "\<forall>m \<in> set ns. index_cand fs ?d m \<longrightarrow> first_match fnm ?ps n \<le> first_match fnm ?ps m" for n
  proof (intro exI conjI ballI impI)
    let ?k = "first_match fnm ?ps n"
    show "?ps = take ?k ?ps @ ?ps ! ?k # drop (Suc ?k) ?ps"
      using that(1) by (rule id_take_nth_drop)
    show "fnm FNM_PERIOD (?ps ! ?k) n"
      using that(1) nth_length_takeWhile [of "\<lambda>p. \<not> fnm FNM_PERIOD p n" ?ps]
      by (simp add: first_match_def)
    fix q m assume q: "q \<in> set (take ?k ?ps)" and m: "m \<in> set ns" "index_cand fs ?d m"
    have "take ?k ?ps = take ?k (takeWhile (\<lambda>p. \<not> fnm FNM_PERIOD p m) ?ps)"
      using that(2) m by (metis first_match_def min_def take_take takeWhile_eq_take)
    then show "\<not> fnm FNM_PERIOD q m" using q by (metis in_set_takeD set_takeWhileD)
  qed
  from index_loop_spec [OF order_refl, of fnm fs ?ps ?d ns None]
  show ?thesis
    using none some by (auto simp: config_getIndexFile_def Inr Let_def split: option.splits)
qed

subsection \<open>Searching a CGI executable\<close>

lemma rel_match_total: "s \<noteq> [] \<Longrightarrow> \<exists>m. rel_match fnm patt s = Ok m"
proof (induction fnm patt s rule: rel_match.induct)
  case (1 fnm patt s)
  obtain x t where s: "s = x # t" using 1(2) by (cases s) auto
  show ?case
  proof (cases "fnm (FNM_PATHNAME + FNM_PERIOD) patt t \<or> memchr (CHR ''/'') t = None")
    case True
    then show ?thesis by (subst rel_match.simps) (auto simp: s)
  next
    case False
    then obtain i where i: "memchr (CHR ''/'') t = Some i" by auto
    then have "drop i t \<noteq> []" using memchr_Some by fastforce
    with 1(1) [OF s _ i] False show ?thesis
      by (subst rel_match.simps) (simp add: s i)
  qed
qed

lemma isCGI_total: "u \<noteq> [] \<Longrightarrow> \<exists>m. config_isCGI fnm c u = Ok m"
proof -
  assume u: "u \<noteq> []"
  have "\<exists>m. cgi_match fnm ps u = Ok m" for ps
  proof (induction ps)
    case (Cons p ps)
    then show ?case using rel_match_total [OF u, of fnm p] by fastforce
  qed (simp add: exI [of _ False])
  then show ?thesis by (simp add: config_isCGI_def)
qed

lemma prev_slash_Some:
  "prev_slash u p = Some q \<Longrightarrow> q < p \<and> u ! q = CHR ''/'' \<and> (\<forall>r. q < r \<longrightarrow> r < p \<longrightarrow> u ! r \<noteq> CHR ''/'')"
  by (induction u p rule: prev_slash.induct) (auto split: if_splits simp: less_Suc_eq)

lemma prev_slash_None: "prev_slash u p = None \<Longrightarrow> r < p \<Longrightarrow> u ! r \<noteq> CHR ''/''"
  by (induction u p rule: prev_slash.induct) (auto split: if_splits simp: less_Suc_eq)

text \<open>The first \<open>p\<close> bytes of the path name a CGI: they match a pattern and are a regular file.\<close>

definition cgi_at :: "fnmatch_fun \<Rightarrow> FileSys \<Rightarrow> Config \<Rightarrow> bytes \<Rightarrow> nat \<Rightarrow> bool" where
  "cgi_at fnm fs c u p = (cgi_exe fs c (take p u) \<noteq> None \<and>
     config_isCGI fnm c (if take p u \<noteq> [] then take p u else ''/'') = Ok True)"

definition upto_pos :: "nat option \<Rightarrow> nat \<Rightarrow> bool" where
  "upto_pos pos q = (case pos of None \<Rightarrow> False | Some p \<Rightarrow> q \<le> p)"

lemma cgi_loop_spec:
  assumes "u \<noteq> []" "case pos of None \<Rightarrow> True | Some p \<Rightarrow> p < length u \<and> u ! p = CHR ''/''"
  shows "\<exists>r. cgi_loop fnm fs c u pos = Ok r \<and>
    (case r of
       None \<Rightarrow> \<forall>q. upto_pos pos q \<longrightarrow> u ! q = CHR ''/'' \<longrightarrow> \<not> cgi_at fnm fs c u q
     | Some (exe, q) \<Rightarrow> upto_pos pos q \<and> q < length u \<and> u ! q = CHR ''/'' \<and> cgi_at fnm fs c u q \<and>
         cgi_exe fs c (take q u) = Some exe \<and>
         (\<forall>r. q < r \<longrightarrow> upto_pos pos r \<longrightarrow> u ! r = CHR ''/'' \<longrightarrow> \<not> cgi_at fnm fs c u r))"
  using assms
proof (induction fnm fs c u pos rule: cgi_loop.induct)
  case (1 fnm fs c u pos)
  show ?case
  proof (cases pos)
    case None
    then show ?thesis by (subst cgi_loop.simps) (simp add: upto_pos_def)
  next
    case (Some p)
    let ?pre = "if take p u \<noteq> [] then take p u else ''/''"
    have "?pre \<noteq> []" by simp
    then obtain m where m: "config_isCGI fnm c ?pre = Ok m" using isCGI_total by blast
    have p: "p < length u" "u ! p = CHR ''/''" using 1(3) Some by simp_all
    show ?thesis
    proof (cases "cgi_at fnm fs c u p")
      case True
      then have "cgi_loop fnm fs c u pos = Ok (Some (the (cgi_exe fs c (take p u)), p))"
        by (subst cgi_loop.simps) (simp add: Some cgi_at_def)
      with True Some p show ?thesis by (auto simp: upto_pos_def cgi_at_def)
    next
      case False
      then have g: "\<not> (m \<and> cgi_exe fs c (take p u) \<noteq> None)" using m by (auto simp: cgi_at_def)
      then have step: "cgi_loop fnm fs c u pos = cgi_loop fnm fs c u (prev_slash u p)"
        using m by (subst cgi_loop.simps) (auto simp: Some Let_def)
      have pos': "case prev_slash u p of None \<Rightarrow> True | Some q \<Rightarrow> q < length u \<and> u ! q = CHR ''/''"
        using prev_slash_Some [of u p] p(1) by (auto split: option.splits)
      have up: "upto_pos pos q \<longleftrightarrow> q = p \<or> upto_pos (prev_slash u p) q"
        if "u ! q = CHR ''/''" for q
      proof (cases "prev_slash u p")
        case None
        then show ?thesis using prev_slash_None [OF None, of q] that
          by (auto simp: Some upto_pos_def le_less)
      next
        case (Some r)
        then show ?thesis using prev_slash_Some [OF Some] that \<open>pos = Some p\<close>
          by (auto simp: upto_pos_def) (metis le_neq_implies_less not_less)
      qed
      have lt: "q < p" if "upto_pos (prev_slash u p) q" for q
        using that prev_slash_Some [of u p] by (fastforce simp: upto_pos_def split: option.splits)
      from 1(1) [OF Some refl g 1(2) pos'] obtain r where
        r: "cgi_loop fnm fs c u (prev_slash u p) = Ok r" and
        s: "case r of
           None \<Rightarrow> \<forall>q. upto_pos (prev_slash u p) q \<longrightarrow> u ! q = CHR ''/'' \<longrightarrow> \<not> cgi_at fnm fs c u q
         | Some (exe, q) \<Rightarrow> upto_pos (prev_slash u p) q \<and> q < length u \<and> u ! q = CHR ''/'' \<and>
             cgi_at fnm fs c u q \<and> cgi_exe fs c (take q u) = Some exe \<and>
             (\<forall>r. q < r \<longrightarrow> upto_pos (prev_slash u p) r \<longrightarrow> u ! r = CHR ''/'' \<longrightarrow> \<not> cgi_at fnm fs c u r)"
        by blast
      show ?thesis
        unfolding step r using s up False by (cases r) auto
    qed
  qed
qed

text \<open>C36: \<open>config_findCGI\<close> on a non-empty path is defined and finds the longest part of the path
  (the whole path, or up to a slash) that matches a CGI pattern and denotes a configured regular
  file; the executable is that file and the rest of the path, when there is any, is the
  sub-path and starts with a slash. It returns true only when there is a sub-path: a path that is
  itself a CGI is found, with the buffers filled, and the result is false.\<close>

theorem findCGI_longest:
  assumes "u \<noteq> []"
  shows "\<exists>res out. config_findCGI fnm fs c u = Ok (res, out) \<and>
    (case out of
       None \<Rightarrow> \<not> res \<and> (\<forall>q \<le> length u. q = length u \<or> u ! q = CHR ''/'' \<longrightarrow> \<not> cgi_at fnm fs c u q)
     | Some (exe, url, sub) \<Rightarrow>
         res = (sub \<noteq> None) \<and> u = url @ (case sub of None \<Rightarrow> [] | Some s \<Rightarrow> s) \<and>
         (case sub of None \<Rightarrow> True | Some s \<Rightarrow> s \<noteq> [] \<and> hd s = CHR ''/'') \<and>
         cgi_exe fs c url = Some exe \<and> cgi_at fnm fs c u (length url) \<and>
         (\<forall>q \<le> length u. length url < q \<longrightarrow> q = length u \<or> u ! q = CHR ''/'' \<longrightarrow> \<not> cgi_at fnm fs c u q))"
proof -
  obtain m where m: "config_isCGI fnm c u = Ok m" using isCGI_total [OF assms] by blast
  have whole: "cgi_at fnm fs c u (length u) \<longleftrightarrow> m \<and> cgi_exe fs c u \<noteq> None"
    using assms m by (auto simp: cgi_at_def)
  show ?thesis
  proof (cases "m \<and> cgi_exe fs c u \<noteq> None")
    case True
    then have "config_findCGI fnm fs c u = Ok (False, Some (the (cgi_exe fs c u), u, None))"
      using m by (simp add: config_findCGI_def)
    with True whole show ?thesis by auto
  next
    case False
    let ?pos = "strrchr (CHR ''/'') u"
    have p: "case ?pos of None \<Rightarrow> True | Some p \<Rightarrow> p < length u \<and> u ! p = CHR ''/''"
      using strrchr_Some [of "CHR ''/''" u] by (auto split: option.splits)
    have up: "upto_pos ?pos q" if "q < length u" "u ! q = CHR ''/''" for q
    proof (cases ?pos)
      case None
      then show ?thesis using that strrchr_None by (metis nth_mem)
    next
      case (Some p)
      have "CHR ''/'' \<notin> set (drop (Suc p) u)" using strrchr_Some [OF Some] by blast
      moreover have "u ! q \<in> set (drop (Suc p) u)" if "p < q"
        using that \<open>q < length u\<close> nth_mem [of "q - Suc p" "drop (Suc p) u"] by simp
      ultimately have "\<not> p < q" using that by metis
      with Some show ?thesis by (simp add: upto_pos_def)
    qed
    from cgi_loop_spec [OF assms p] obtain r where r: "cgi_loop fnm fs c u ?pos = Ok r" and
      s: "case r of
       None \<Rightarrow> \<forall>q. upto_pos ?pos q \<longrightarrow> u ! q = CHR ''/'' \<longrightarrow> \<not> cgi_at fnm fs c u q
     | Some (exe, q) \<Rightarrow> upto_pos ?pos q \<and> q < length u \<and> u ! q = CHR ''/'' \<and> cgi_at fnm fs c u q \<and>
         cgi_exe fs c (take q u) = Some exe \<and>
         (\<forall>r. q < r \<longrightarrow> upto_pos ?pos r \<longrightarrow> u ! r = CHR ''/'' \<longrightarrow> \<not> cgi_at fnm fs c u r)"
      by blast
    have f: "config_findCGI fnm fs c u = Ok (case r of
           Some (exe, p) \<Rightarrow> (True, Some (exe, take p u, Some (drop p u))) | None \<Rightarrow> (False, None))"
      using False m r by (auto simp: config_findCGI_def split: option.splits)
    show ?thesis
    proof (cases r)
      case None
      with f s False whole up show ?thesis by (auto simp: le_less)
    next
      case (Some x)
      obtain exe q where x: "x = (exe, q)" by (cases x)
      with Some f s False whole up show ?thesis
        by (auto simp: le_less hd_drop_conv_nth min_def)
    qed
  qed
qed

definition example_fnm :: fnmatch_fun where
  "example_fnm fl p s = ((p = ''*.cgi'' \<and> ends_with s ''.cgi'' \<and> CHR ''/'' \<notin> set s) \<or>
     (p = ''index.*'' \<and> take 6 s = ''index.''))"

definition example_cgi_fs :: FileSys where
  "example_cgi_fs = \<lparr>fs_dir = (\<lambda>d. Inr [''a.txt'', ''index.htm'', ''index.cgi'']),
     fs_stat = (\<lambda>p. if ends_with p ''.cgi'' \<or> ends_with p ''.htm'' then Some \<lparr>st_kind = KindReg, st_mode = 0x1ED, st_size = 9\<rparr> else None),
     fs_file = (\<lambda>_. None)\<rparr>"

theorem findCGI_longest_witness:
  "\<exists>q. config_findCGI example_fnm example_cgi_fs
       (config_init\<lparr>cf_shares := [\<lparr>sh_urlpath = [], sh_syspath = ''/srv''\<rparr>], cf_cgiPatterns := [''*.cgi'']\<rparr>)
       ''/x.cgi/ab'' = Ok (True, Some (''/srv/x.cgi'', take q ''/x.cgi/ab'', Some ''/ab'')) \<and> q = 6"
proof -
  let ?c = "config_init\<lparr>cf_shares := [\<lparr>sh_urlpath = [], sh_syspath = ''/srv''\<rparr>], cf_cgiPatterns := [''*.cgi'']\<rparr>"
  have e: "config_findCGI example_fnm example_cgi_fs ?c ''/x.cgi/ab'' =
      Ok (True, Some (''/srv/x.cgi'', ''/x.cgi'', Some ''/ab''))" by code_simp
  have "\<exists>res out. Ok (True, Some (''/srv/x.cgi'', ''/x.cgi'', Some ''/ab'')) = Ok (res, out) \<and>
      (case out of Some (exe, url, sub) \<Rightarrow> ''/x.cgi/ab'' = url @ (case sub of None \<Rightarrow> [] | Some s \<Rightarrow> s)
       | None \<Rightarrow> \<not> res)"
    using findCGI_longest [of "''/x.cgi/ab''" example_fnm example_cgi_fs ?c, unfolded e]
    by (auto split: option.splits)
  then show ?thesis unfolding e by (intro exI [of _ 6]) simp
qed

theorem indexFile_best_witness:
  "config_getIndexFile example_fnm example_cgi_fs
     (config_init\<lparr>cf_indexPatterns := [''*.cgi'', ''index.*'']\<rparr>) ''/srv'' = (Some ''/srv/index.cgi'', 0)"
proof -
  let ?c = "config_init\<lparr>cf_indexPatterns := [''*.cgi'', ''index.*'']\<rparr>"
  have n: "example_fnm FNM_PERIOD ''*.cgi'' ''index.cgi''" "\<not> example_fnm FNM_PERIOD ''*.cgi'' ''index.htm''"
    "\<not> example_fnm FNM_PERIOD ''*.cgi'' ''a.txt''" "index_cand example_cgi_fs ''/srv/'' ''index.cgi''"
    "with_slash ''/srv'' = ''/srv/''"
    by code_simp+
  have i: "cf_indexPatterns ?c = ''*.cgi'' # [''index.*'']" by simp
  have d: "fs_dir example_cgi_fs ''/srv'' = Inr [''a.txt'', ''index.htm'', ''index.cgi'']"
    by (simp add: example_cgi_fs_def)
  obtain f e where fe: "config_getIndexFile example_fnm example_cgi_fs ?c ''/srv'' = (f, e)" by fastforce
  note t = indexFile_best [where fnm = example_fnm and fs = example_cgi_fs and c = ?c and dir = "''/srv''",
      unfolded fe d prod.case sum.case Let_def i n(5)]
  then have e: "e = 0" by blast
  show ?thesis
  proof (cases f)
    case None
    then show ?thesis using t n by auto
  next
    case (Some path)
    with t obtain m ps1 p ps2 where m: "m \<in> {''a.txt'', ''index.htm'', ''index.cgi''}"
        "path = ''/srv/'' @ m" "[''*.cgi'', ''index.*''] = ps1 @ p # ps2" "example_fnm FNM_PERIOD p m"
        "\<forall>q \<in> set ps1. \<forall>m \<in> {''a.txt'', ''index.htm'', ''index.cgi''}.
           index_cand example_cgi_fs ''/srv/'' m \<longrightarrow> \<not> example_fnm FNM_PERIOD q m"
      by auto
    have "ps1 = []" using m(3,5) n by (cases ps1) auto
    then have "m = ''index.cgi''" using m(1,3,4) n by auto
    then show ?thesis using fe e Some m(2) by simp
  qed
qed

end
