(* ===== verification/Auth.thy ===== *)
theory Auth
  imports Fmconfig
begin

text \<open>
  \<open>src/auth.c\<close>: the challenge sent with a 401 response and the check of a client's
  \<open>Authorization\<close> header (RFC 2617, digest scheme).  The static variable \<open>nextNonce\<close> is
  passed in and returned, the clock is the argument \<open>now\<close>; the digest slot of the
  response buffer that \<open>mb_resize\<close> leaves uninitialised has the arbitrary value \<open>u\<close>.
\<close>

definition nonce_step :: "u64 \<Rightarrow> u64 \<Rightarrow> u64" where
  "nonce_step now nextNonce = (if nextNonce = 0 then now * 1000 else nextNonce + 1)"

text \<open>The header and the new value of \<open>nextNonce\<close>.\<close>

definition auth_getAuthResponseHeader :: "u64 \<Rightarrow> u64 \<Rightarrow> bytes \<times> u64" where
  "auth_getAuthResponseHeader now nextNonce =
     (let n = nonce_step now nextNonce; nonce = to_base 16 (unat n) in
      (concat [''Digest realm='', [QUOTE], FM_REALM, [QUOTE], '', '', ''nonce='', [QUOTE], nonce,
         [QUOTE], '', '', ''qop='', [QUOTE], ''auth'', [QUOTE]], n))"

text \<open>The chunks the parameter loop sets; a wrong realm ends the function.\<close>

record AuthParams =
  ap_username :: DataChunk
  ap_nonce :: DataChunk
  ap_uri :: DataChunk
  ap_response :: DataChunk
  ap_nc :: DataChunk
  ap_cnonce :: DataChunk

definition ap_clear :: AuthParams where
  "ap_clear = \<lparr>ap_username = dch_clear, ap_nonce = dch_clear, ap_uri = dch_clear,
     ap_response = dch_clear, ap_nc = dch_clear, ap_cnonce = dch_clear\<rparr>"

fun auth_params :: "(DataChunk \<times> DataChunk) list \<Rightarrow> AuthParams \<Rightarrow> AuthParams option" where
  "auth_params [] ap = Some ap"
| "auth_params ((n, v) # ps) ap =
     (if dch_equalsStr n ''username'' then auth_params ps (ap\<lparr>ap_username := v\<rparr>)
      else if dch_equalsStr n ''realm'' then
        (if dch_equalsStr v FM_REALM then auth_params ps ap else None)
      else if dch_equalsStr n ''nonce'' then auth_params ps (ap\<lparr>ap_nonce := v\<rparr>)
      else if dch_equalsStr n ''uri'' then auth_params ps (ap\<lparr>ap_uri := v\<rparr>)
      else if dch_equalsStr n ''response'' then auth_params ps (ap\<lparr>ap_response := v\<rparr>)
      else if dch_equalsStr n ''nc'' then auth_params ps (ap\<lparr>ap_nc := v\<rparr>)
      else if dch_equalsStr n ''cnonce'' then auth_params ps (ap\<lparr>ap_cnonce := v\<rparr>)
      else auth_params ps ap)"

text \<open>The contents of the buffer \<open>response\<close> before the digest of A1 is written at its start.\<close>

definition auth_response :: "char \<Rightarrow> AuthParams \<Rightarrow> bytes \<Rightarrow> bytes" where
  "auth_response u ap requestMethod =
     replicate 32 u @ '':'' @ dch_bytes (ap_nonce ap) @ '':'' @ dch_bytes (ap_nc ap) @ '':'' @
     dch_bytes (ap_cnonce ap) @ '':auth:'' @ md5_hex (requestMethod @ '':'' @ dch_bytes (ap_uri ap))"

definition auth_isClientAuthorized :: "char \<Rightarrow> Config \<Rightarrow> bytes \<Rightarrow> bytes \<Rightarrow> bool cres" where
  "auth_isClientAuthorized u c authorization requestMethod =
     (let (res, line, name) = dch_extractTillWS (dch_initWithStr (Some (authorization @ [NUL]))) in
      if \<not> res \<or> \<not> dch_equalsStrIgnoreCase name ''Digest'' then Ok False
      else case auth_params (dch_params line (CHR '','')) ap_clear of
          None \<Rightarrow> Ok False
        | Some ap \<Rightarrow>
            cbind (config_getDigestAuthCredential c (dch_bytes (ap_username ap))) (\<lambda>r.
              case r of
                None \<Rightarrow> Ok False
              | Some md5sum \<Rightarrow>
                  (let response = take 32 md5sum @ drop 32 (auth_response u ap requestMethod)
                   in Ok (dch_equalsStr (ap_response ap) (md5_hex response)))))"

subsection \<open>The parameters, on bytes\<close>

text \<open>The value of the last parameter with a name, empty when there is none.\<close>

definition last_param :: "bytes \<Rightarrow> (bytes \<times> bytes) list \<Rightarrow> bytes" where
  "last_param n ps = (case map_of (rev ps) n of Some v \<Rightarrow> v | None \<Rightarrow> [])"

lemma last_param_simps:
  "last_param n [] = []"
  "last_param n (ps @ [(m, v)]) = (if m = n then v else last_param n ps)"
  by (simp_all add: last_param_def)

definition ap_wf :: "AuthParams \<Rightarrow> bool" where
  "ap_wf ap = list_all dch_wf [ap_username ap, ap_nonce ap, ap_uri ap, ap_response ap, ap_nc ap, ap_cnonce ap]"

definition ap_is :: "AuthParams \<Rightarrow> (bytes \<times> bytes) list \<Rightarrow> bool" where
  "ap_is ap ps = (ap_wf ap \<and> dch_bytes (ap_username ap) = last_param ''username'' ps \<and>
     dch_bytes (ap_nonce ap) = last_param ''nonce'' ps \<and>
     dch_bytes (ap_uri ap) = last_param ''uri'' ps \<and>
     dch_bytes (ap_response ap) = last_param ''response'' ps \<and>
     dch_bytes (ap_nc ap) = last_param ''nc'' ps \<and>
     dch_bytes (ap_cnonce ap) = last_param ''cnonce'' ps)"

abbreviation pbytes :: "DataChunk \<times> DataChunk \<Rightarrow> bytes \<times> bytes" where
  "pbytes \<equiv> (\<lambda>(n, v). (dch_bytes n, dch_bytes v))"

text \<open>The assignment one parameter causes.\<close>

definition ap_set :: "DataChunk \<Rightarrow> DataChunk \<Rightarrow> AuthParams \<Rightarrow> AuthParams" where
  "ap_set n v ap =
     (let b = dch_bytes n in
      if b = ''username'' then ap\<lparr>ap_username := v\<rparr> else if b = ''nonce'' then ap\<lparr>ap_nonce := v\<rparr>
      else if b = ''uri'' then ap\<lparr>ap_uri := v\<rparr> else if b = ''response'' then ap\<lparr>ap_response := v\<rparr>
      else if b = ''nc'' then ap\<lparr>ap_nc := v\<rparr> else if b = ''cnonce'' then ap\<lparr>ap_cnonce := v\<rparr> else ap)"

lemma auth_params_Cons:
  assumes "dch_wf n" "dch_wf v"
  shows "auth_params ((n, v) # qs) ap =
    (if dch_bytes n = ''realm'' \<and> dch_bytes v \<noteq> FM_REALM then None else auth_params qs (ap_set n v ap))"
  by (simp add: ap_set_def Let_def dch_equalsStr_bytes [OF assms(1)] dch_equalsStr_bytes [OF assms(2)])

lemma ap_is_set:
  assumes "ap_is ap ps" "dch_wf v"
  shows "ap_is (ap_set n v ap) (ps @ [(dch_bytes n, dch_bytes v)])"
proof -
  have f: "dch_bytes n = x \<Longrightarrow> ap_is (ap_set n v ap) (ps @ [(dch_bytes n, dch_bytes v)])"
    if "x \<in> {''username'', ''nonce'', ''uri'', ''response'', ''nc'', ''cnonce''}" for x
    using that assms by (elim insertE) (simp_all add: ap_set_def ap_is_def ap_wf_def last_param_simps)
  have g: "ap_is (ap_set n v ap) (ps @ [(dch_bytes n, dch_bytes v)])"
    if "dch_bytes n \<notin> {''username'', ''nonce'', ''uri'', ''response'', ''nc'', ''cnonce''}"
    using that assms by (simp add: ap_set_def ap_is_def ap_wf_def last_param_simps Let_def)
  from f [OF _ refl] g show ?thesis by blast
qed

lemma auth_params_spec:
  "ap_is ap ps \<Longrightarrow> \<forall>(n, v) \<in> set qs. dch_wf n \<and> dch_wf v \<Longrightarrow>
   (case auth_params qs ap of
      None \<Rightarrow> \<exists>v. (''realm'', v) \<in> set (map pbytes qs) \<and> v \<noteq> FM_REALM
    | Some ap' \<Rightarrow> ap_is ap' (ps @ map pbytes qs) \<and>
        (\<forall>v. (''realm'', v) \<in> set (map pbytes qs) \<longrightarrow> v = FM_REALM))"
proof (induction qs arbitrary: ap ps)
  case Nil
  then show ?case by simp
next
  case (Cons q qs)
  obtain n v where q: "q = (n, v)" by (cases q)
  have wf: "dch_wf n" "dch_wf v" "\<forall>(n, v) \<in> set qs. dch_wf n \<and> dch_wf v" using Cons.prems(2) q by auto
  note IH = Cons.IH [OF ap_is_set [OF Cons.prems(1) wf(2), of n] wf(3)]
  show ?case
  proof (cases "dch_bytes n = ''realm'' \<and> dch_bytes v \<noteq> FM_REALM")
    case True
    then show ?thesis unfolding q auth_params_Cons [OF wf(1,2)] by auto
  next
    case False
    then have eq: "auth_params (q # qs) ap = auth_params qs (ap_set n v ap)"
      unfolding q auth_params_Cons [OF wf(1,2)] by (rule if_not_P)
    have m: "map pbytes (q # qs) = (dch_bytes n, dch_bytes v) # map pbytes qs" by (simp add: q)
    show ?thesis
    proof (cases "auth_params qs (ap_set n v ap)")
      case None
      then show ?thesis using IH unfolding eq m by (simp only: option.case list.set) blast
    next
      case (Some ap')
      then show ?thesis using IH False unfolding eq m by (simp only: option.case list.set append_assoc append.simps) auto
    qed
  qed
qed

subsection \<open>Properties\<close>

text \<open>The check of RFC 2617 on the bytes of the header: scheme, realm, and the digest response.\<close>

definition rfc_response :: "bytes \<Rightarrow> bytes \<Rightarrow> (bytes \<times> bytes) list \<Rightarrow> bytes" where
  "rfc_response ha1 requestMethod ps =
     md5_hex (ha1 @ '':'' @ last_param ''nonce'' ps @ '':'' @ last_param ''nc'' ps @ '':'' @
       last_param ''cnonce'' ps @ '':auth:'' @ md5_hex (requestMethod @ '':'' @ last_param ''uri'' ps))"

definition scheme_of :: "bytes \<Rightarrow> bytes" where
  "scheme_of h = takeWhile (Not \<circ> is_ws) (dropWhile is_ws h)"

definition params_of :: "bytes \<Rightarrow> (bytes \<times> bytes) list" where
  "params_of h = params_spec (dropWhile is_ws (dropWhile (Not \<circ> is_ws) (dropWhile is_ws h))) (CHR '','')"

definition auth_spec :: "Config \<Rightarrow> bytes \<Rightarrow> bytes \<Rightarrow> bool cres" where
  "auth_spec c h requestMethod =
     (let ps = params_of h in
      if \<not> strcasecmp_eq (scheme_of h) ''Digest'' \<or> (\<exists>(n, v) \<in> set ps. n = ''realm'' \<and> v \<noteq> FM_REALM)
      then Ok False
      else cbind (config_getDigestAuthCredential c (last_param ''username'' ps)) (\<lambda>r. Ok (case r of
        None \<Rightarrow> False
      | Some ha1 \<Rightarrow> last_param ''response'' ps = rfc_response ha1 requestMethod ps)))"

text \<open>Credentials are 32 bytes long, so they fill the slot left for them.\<close>

lemma find_cred_rest:
  "find_cred crs name = Ok (Some (cr, p)) \<Longrightarrow> hd p = CHR '':'' \<or> length p = 32"
  by (induction crs) (auto simp: Let_def split: if_splits)

lemma credential_length:
  "config_getDigestAuthCredential c name = Ok (Some d) \<Longrightarrow> length d = 32"
  using find_cred_rest [of "cf_credentials c" name] md5.md_length
  by (cases "find_cred (cf_credentials c) name")
     (auto simp: config_getDigestAuthCredential_def split: option.splits if_splits)

lemma isClientAuthorized_spec:
  assumes "NUL \<notin> set h"
  shows "auth_isClientAuthorized u c h requestMethod = auth_spec c h requestMethod"
proof -
  let ?d = "dch_initWithStr (Some (h @ [NUL]))"
  obtain res line name where e: "dch_extractTillWS ?d = (res, line, name)" by (metis prod_cases3)
  have b: "dch_bytes ?d = h" using assms by (simp add: dch_bytes_initWithStr cstr_append_NUL)
  note x = extractTillWS_bytes [OF wf_initWithStr e, unfolded b Let_def]
  have wf: "dch_wf line" "dch_wf name" using x by blast+
  have sch: "(\<not> res \<or> \<not> dch_equalsStrIgnoreCase name ''Digest'') = (\<not> strcasecmp_eq (scheme_of h) ''Digest'')"
    using x by (auto simp: dch_equalsStrIgnoreCase_bytes [OF wf(2)] scheme_of_def strcasecmp_eq_def
        simp del: dropWhile_eq_Nil_conv)
  have ps: "map pbytes (dch_params line (CHR '','')) = params_of h"
      "\<forall>(n, v) \<in> set (dch_params line (CHR '','')). dch_wf n \<and> dch_wf v"
    using dch_params_bytes [OF wf(1), of "CHR '',''"] x by (simp_all add: params_of_def)
  have c0: "ap_is ap_clear []"
    by (simp add: ap_is_def ap_clear_def ap_wf_def last_param_simps dch_bytes_clear)
  show ?thesis
  proof (cases "auth_params (dch_params line (CHR '','')) ap_clear")
    case None
    then have "\<exists>(n, v) \<in> set (params_of h). n = ''realm'' \<and> v \<noteq> FM_REALM"
      using auth_params_spec [OF c0 ps(2)] ps(1) by fastforce
    then show ?thesis
      unfolding auth_isClientAuthorized_def e auth_spec_def Let_def prod.case sch None by simp
  next
    case (Some ap)
    then have ap: "ap_is ap (params_of h)"
      and realm: "\<not> (\<exists>(n, v) \<in> set (params_of h). n = ''realm'' \<and> v \<noteq> FM_REALM)"
      using auth_params_spec [OF c0 ps(2)] ps(1) by auto
    have eq: "dch_equalsStr (ap_response ap) s = (last_param ''response'' (params_of h) = s)" for s
      using ap by (simp add: ap_is_def ap_wf_def dch_equalsStr_bytes)
    have user: "dch_bytes (ap_username ap) = last_param ''username'' (params_of h)"
      using ap by (simp add: ap_is_def)
    have resp: "md5_hex (take 32 d @ drop 32 (auth_response u ap requestMethod)) =
        rfc_response d requestMethod (params_of h)"
      if "config_getDigestAuthCredential c (last_param ''username'' (params_of h)) = Ok (Some d)" for d
      using ap credential_length [OF that] by (simp add: ap_is_def auth_response_def rfc_response_def)
    show ?thesis
      unfolding auth_isClientAuthorized_def e auth_spec_def Let_def prod.case sch Some option.case eq user
      using realm resp
      by (cases "config_getDigestAuthCredential c (last_param ''username'' (params_of h))")
         (auto split: option.splits)
  qed
qed

text \<open>C3: \<open>auth_isClientAuthorized\<close> implements the digest check of RFC 2617 on the bytes of the
  header: it holds exactly when the scheme is \<open>Digest\<close>, no realm other than the server's is
  given, there is a credential for the (last) user name and the (last) response parameter is the
  digest of the credential, nonce, count, client nonce and the digest of method and URI;
  the uninitialised bytes of the response buffer play no part. (Neither the nonce nor the
  URI parameter is compared with anything.)\<close>

theorem isClientAuthorized_rfc2617:
  assumes "NUL \<notin> set h"
  shows "auth_isClientAuthorized u c h requestMethod =
    (let ps = params_of h in
     if \<not> strcasecmp_eq (scheme_of h) ''Digest'' \<or> (\<exists>(n, v) \<in> set ps. n = ''realm'' \<and> v \<noteq> FM_REALM)
     then Ok False
     else cbind (config_getDigestAuthCredential c (last_param ''username'' ps)) (\<lambda>r. Ok (case r of
       None \<Rightarrow> False
     | Some ha1 \<Rightarrow> last_param ''response'' ps = rfc_response ha1 requestMethod ps)))"
  using isClientAuthorized_spec [OF assms] by (simp only: auth_spec_def)

theorem isClientAuthorized_rfc2617_witness:
  "auth_isClientAuthorized (CHR ''?'') config_init ''Basic QWxhZGRpbg=='' ''GET'' = Ok False"
proof -
  have "\<not> strcasecmp_eq (scheme_of ''Basic QWxhZGRpbg=='') ''Digest''" by code_simp
  then show ?thesis
    using isClientAuthorized_rfc2617 [of "''Basic QWxhZGRpbg==''" "CHR ''?''" config_init "''GET''"]
    by (simp add: Let_def)
qed

text \<open>The parameters of a client's header, in one usual order.\<close>

definition client_params :: "bytes \<Rightarrow> bytes \<Rightarrow> bytes \<Rightarrow> bytes \<Rightarrow> bytes \<Rightarrow> bytes \<Rightarrow> (bytes \<times> bytes) list" where
  "client_params user nonce uri nc cnonce r =
     [(''username'', user), (''realm'', FM_REALM), (''nonce'', nonce), (''uri'', uri),
      (''response'', r), (''qop'', ''auth''), (''nc'', nc), (''cnonce'', cnonce)]"

lemma params_of_client:
  assumes "\<forall>p \<in> set ps. param_ok p" "ps \<noteq> []" "fst (hd ps) \<noteq> []" "\<not> is_ws (hd (fst (hd ps)))"
  shows "params_of (''Digest '' @ print_params (CHR '','') ps) = ps \<and>
    scheme_of (''Digest '' @ print_params (CHR '','') ps) = ''Digest''"
proof -
  have "\<not> is_ws (hd (print_params (CHR '','') ps))" "print_params (CHR '','') ps \<noteq> []"
    using assms(2-4) by (cases "(CHR '','', ps)" rule: print_params.cases; auto simp: print_param_def)+
  then have d: "dropWhile is_ws (print_params (CHR '','') ps) = print_params (CHR '','') ps"
    by (cases "print_params (CHR '','') ps") simp_all
  have l: "\<not> is_ws (CHR ''D'')" "\<not> is_ws (CHR ''i'')" "\<not> is_ws (CHR ''g'')" "\<not> is_ws (CHR ''e'')"
    "\<not> is_ws (CHR ''s'')" "\<not> is_ws (CHR ''t'')" by code_simp+
  show ?thesis
    using params_spec_print [OF assms(1), of "[]" "CHR '',''"] d
    by (simp add: params_of_def scheme_of_def l)
qed

text \<open>C37: A client that knows its password is authorized, and one that does not is not.  The configuration holds the credentials of
  any users, in plain form or in the encoded one, in any order, also of users whose names begin alike; their names have
  no colon.  For the header with the usual parameters in quotes the result is true exactly when the user is configured and
  the response parameter is the RFC 2617 response for \<open>user:realm:password\<close>, with the password of the first credential of
  the user (a second credential of the same user grants nothing, although \<open>default.conf\<close> says so).\<close>

theorem client_authorized:
  assumes "cf_credentials c = map credential_of us" and "\<forall>(encoded, name, pw) \<in> set us. CHR '':'' \<notin> set name"
    and "CHR '':'' \<notin> set user"
    and "\<forall>b \<in> {user, nonce, uri, r, nc, cnonce}. QUOTE \<notin> set b \<and> NUL \<notin> set b"
  shows "auth_isClientAuthorized u c
      (''Digest '' @ print_params (CHR '','') (client_params user nonce uri nc cnonce r)) requestMethod =
    Ok (case map_of (map snd us) user of
          None \<Rightarrow> False
        | Some pw \<Rightarrow> r = md5_hex (md5_hex (user @ '':'' @ FM_REALM @ '':'' @ pw) @ '':'' @ nonce @ '':'' @ nc @ '':'' @
            cnonce @ '':auth:'' @ md5_hex (requestMethod @ '':'' @ uri)))"
proof -
  let ?ps = "client_params user nonce uri nc cnonce r"
  let ?h = "''Digest '' @ print_params (CHR '','') ?ps"
  have ok: "\<forall>p \<in> set ?ps. param_ok p"
    using assms(4) by (simp add: client_params_def param_ok_def is_ws_def gWhiteSpaces_def FM_REALM_def)
  have h: "params_of ?h = ?ps \<and> scheme_of ?h = ''Digest''"
    by (rule params_of_client [OF ok]) (simp_all add: client_params_def is_ws_def gWhiteSpaces_def)
  have nul: "NUL \<notin> set ?h" "NUL \<notin> set user"
    using assms(4) by (simp_all add: client_params_def print_param_def FM_REALM_def)
  have get: "last_param ''username'' ?ps = user" "last_param ''nonce'' ?ps = nonce" "last_param ''uri'' ?ps = uri"
    "last_param ''response'' ?ps = r" "last_param ''nc'' ?ps = nc" "last_param ''cnonce'' ?ps = cnonce"
    by (simp_all add: client_params_def last_param_def)
  have realm: "\<not> (\<exists>(n, v) \<in> set ?ps. n = ''realm'' \<and> v \<noteq> FM_REALM)"
    by (simp add: client_params_def)
  show ?thesis
    unfolding isClientAuthorized_spec [OF nul(1)] auth_spec_def h [THEN conjunct1] h [THEN conjunct2]
      Let_def get credential_of_users [OF nul(2) assms(3,2,1)] rfc_response_def
    using realm by (simp add: strcasecmp_eq_def get split: option.splits)
qed

text \<open>The user \<open>bob\<close> behind \<open>bobby\<close>, with a second credential that does not count.\<close>

theorem client_authorized_witness:
  "auth_isClientAuthorized (CHR ''?'') (config_init\<lparr>cf_credentials := [''bobby:other'', ''bob:secret'', ''bob:second'']\<rparr>)
     (''Digest '' @ print_params (CHR '','') (client_params ''bob'' ''12ab'' ''/'' ''00000001'' ''53a7'' ''wrong''))
     ''GET'' =
   Ok (''wrong'' = md5_hex (md5_hex ''bob:File Manager:secret'' @ '':12ab:00000001:53a7:auth:'' @ md5_hex ''GET:/''))"
  using client_authorized [of "config_init\<lparr>cf_credentials := [''bobby:other'', ''bob:secret'', ''bob:second'']\<rparr>"
      "[(False, ''bobby'', ''other''), (False, ''bob'', ''secret''), (False, ''bob'', ''second'')]"
      "''bob''" "''12ab''" "''/''" "''wrong''" "''00000001''" "''53a7''" "CHR ''?''" "''GET''"]
  by (simp add: FM_REALM_def credential_of_def)

subsection \<open>The check never leaves memory\<close>

lemma find_cred_total:
  assumes "NUL \<notin> set name"
  shows "\<exists>r. find_cred crs name = Ok r"
proof (induction crs)
  case (Cons cr crs)
  have "length name \<le> length cr" if "strncmp_eq (length name) cr name"
  proof (rule ccontr)
    assume lt: "\<not> length name \<le> length cr"
    have "take (length name) (cstr cr @ [NUL]) = name"
      using that assms by (simp add: strncmp_eq_def)
    moreover have "take (length name) (cstr cr @ [NUL]) = cstr cr @ [NUL]"
      using lt length_cstr [of cr] by simp
    ultimately have "NUL \<in> set name" by (metis in_set_conv_decomp)
    with assms show False by simp
  qed
  with Cons show ?case by (auto simp: Let_def)
qed simp

lemma credential_total: "NUL \<notin> set name \<Longrightarrow> \<exists>r. config_getDigestAuthCredential c name = Ok r"
  using find_cred_total [of name "cf_credentials c"]
  by (auto simp: config_getDigestAuthCredential_def split: option.splits)

lemma set_till: "set (fst (till c s)) \<subseteq> set s" "set (snd (till c s)) \<subseteq> set s"
  by (auto simp: till_def dest: in_set_takeD in_set_dropD split: option.splits)

lemma set_rtrim: "set (rtrim P s) \<subseteq> set s"
  by (metis rtrim_prefix set_append Un_upper1)

lemma set_tl: "set (tl x) \<subseteq> set x"
  by (cases x) auto

lemma param_spec_set:
  assumes "param_spec s delim = Some (n, v, r)"
  shows "set v \<subseteq> set s \<and> set r \<subseteq> set s"
proof -
  let ?r = "dropWhile is_ws (snd (till (CHR ''='') s))"
  have r: "set ?r \<subseteq> set s" using set_till(2) set_dropWhileD by (metis subset_iff)
  have tl: "set (tl ?r) \<subseteq> set s" using r set_tl [of ?r] by (rule order_trans [rotated])
  have t: "set (fst (till c x)) \<subseteq> set s" "set (snd (till c x)) \<subseteq> set s" if "set x \<subseteq> set s" for c x
    using that set_till by blast+
  show ?thesis
    using assms t [OF r, of delim] t [OF tl, of QUOTE] t [OF t(2) [OF tl, of QUOTE], of delim]
      set_rtrim [of is_ws "fst (till delim ?r)"]
    unfolding param_spec_def Let_def split_beta by (auto split: if_splits)
qed

lemma params_spec_set: "(n, v) \<in> set (params_spec s delim) \<Longrightarrow> set v \<subseteq> set s"
proof (induction s delim rule: params_spec.induct)
  case (1 s delim)
  show ?case
  proof (cases "param_spec s delim")
    case None
    then show ?thesis using 1(2) by (subst (asm) params_spec.simps) simp
  next
    case (Some q)
    obtain n' v' r where q: "q = (n', v', r)" by (cases q)
    note ps = param_spec_set [OF Some [unfolded q]]
    from 1(2) have "(n, v) = (n', v') \<or> (n, v) \<in> set (params_spec r delim)"
      by (subst (asm) params_spec.simps) (simp add: Some q)
    then show ?thesis
      using ps 1(1) [OF Some q [symmetric] refl] by auto
  qed
qed

lemma last_param_in: "last_param n ps = [] \<or> (n, last_param n ps) \<in> set ps"
  by (auto simp: last_param_def dest: map_of_SomeD split: option.splits)

lemma auth_total:
  assumes "NUL \<notin> set h"
  shows "\<exists>b. auth_isClientAuthorized u c h requestMethod = Ok b"
proof -
  have "NUL \<notin> set (last_param ''username'' (params_of h))"
  proof -
    have "set (dropWhile is_ws (dropWhile (Not \<circ> is_ws) (dropWhile is_ws h))) \<subseteq> set h"
      by (meson set_dropWhileD subsetI)
    then have "set v \<subseteq> set h" if "(n, v) \<in> set (params_of h)" for n v
      using params_spec_set that unfolding params_of_def by blast
    then show ?thesis using assms last_param_in [of "''username''" "params_of h"] by auto
  qed
  then obtain r where "config_getDigestAuthCredential c (last_param ''username'' (params_of h)) = Ok r"
    using credential_total by blast
  then show ?thesis
    by (simp add: isClientAuthorized_spec [OF assms] auth_spec_def Let_def ex_bool_eq)
qed

subsection \<open>Nonces\<close>

text \<open>The headers of a series of 401 responses, one for each clock value.\<close>

fun challenges :: "u64 list \<Rightarrow> u64 \<Rightarrow> bytes list" where
  "challenges [] n = []"
| "challenges (t # ts) n =
     (let (h, n') = auth_getAuthResponseHeader t n in h # challenges ts n')"

lemma to_base_inj: "to_base 16 a = to_base 16 b \<Longrightarrow> a = b"
  using digits_to_base [of 16] by (metis numeral_le_iff order_refl semiring_norm(68) semiring_norm(71))

lemma header_inj: "fst (auth_getAuthResponseHeader t a) = fst (auth_getAuthResponseHeader s b) \<longleftrightarrow>
    nonce_step t a = nonce_step s b"
  using to_base_inj [of "unat (nonce_step t a)" "unat (nonce_step s b)"]
  by (auto simp: auth_getAuthResponseHeader_def Let_def word_unat_eq_iff)

lemma challenge_nonces:
  "0 < unat n \<Longrightarrow> unat n + length ts < 2 ^ 64 \<Longrightarrow> i < length ts \<Longrightarrow>
   \<exists>t m. challenges ts n ! i = fst (auth_getAuthResponseHeader t m) \<and>
     unat (nonce_step t m) = unat n + Suc i"
proof (induction ts arbitrary: n i)
  case (Cons t ts)
  have s: "unat (nonce_step t n) = unat n + 1"
    using Cons.prems(1,2) by (auto simp: nonce_step_def unat_word_ariths)
  have c: "challenges (t # ts) n = fst (auth_getAuthResponseHeader t n) # challenges ts (nonce_step t n)"
    by (simp add: auth_getAuthResponseHeader_def Let_def)
  show ?case
  proof (cases i)
    case 0
    then show ?thesis unfolding c using s by auto
  next
    case (Suc j)
    then show ?thesis
      unfolding c using Cons.IH [of "nonce_step t n" j] Cons.prems s by auto
  qed
qed simp

text \<open>Every 401 response carries its own nonce: the challenges of a series of responses are
  pairwise different, as long as the 64-bit counter, which starts at the time of the first
  response in milliseconds, does not wrap.\<close>

theorem challenges_distinct:
  assumes "0 < unat n" and "unat n + length ts < 2 ^ 64"
  shows "distinct (challenges ts n)"
proof -
  have len: "length (challenges ts n) = length ts" for n
    by (induction ts arbitrary: n) (auto simp: Let_def split: prod.splits)
  show ?thesis
    unfolding distinct_conv_nth len
  proof (intro allI impI)
    fix i j assume ij: "i < length ts" "j < length ts" "i \<noteq> j"
    obtain t m where i: "challenges ts n ! i = fst (auth_getAuthResponseHeader t m)"
        "unat (nonce_step t m) = unat n + Suc i"
      using challenge_nonces [OF assms ij(1)] by blast
    obtain t' m' where j: "challenges ts n ! j = fst (auth_getAuthResponseHeader t' m')"
        "unat (nonce_step t' m') = unat n + Suc j"
      using challenge_nonces [OF assms ij(2)] by blast
    show "challenges ts n ! i \<noteq> challenges ts n ! j"
      unfolding i(1) j(1) header_inj using i(2) j(2) ij(3) by auto
  qed
qed

theorem challenges_distinct_witness: "distinct (challenges [7, 7, 9] 1700000000000)"
  by (rule challenges_distinct) simp_all

end
