(* ===== verification/Dataheader.thy ===== *)
theory Dataheader
  imports Auth
begin

text \<open>
  \<open>src/dataheader.c\<close>: the header lines of a CGI response or of a part of a multipart body,
  collected from data that arrives in pieces.  The incomplete last line is \<open>dh_cur\<close>.
  \<open>line_loop\<close> is the loop over the lines of the data, which \<open>requestheader.c\<close> contains as
  well: the function \<open>proc\<close> is what each does with a complete line.  The length of the
  incomplete line is taken with \<open>strlen\<close>, so that a zero byte in the data truncates
  it when more data arrives.  The interface \<open>chunked_consumer\<close> states what the users of such a
  component rely on: that it does not matter how the data is cut into pieces.
\<close>

definition chop_cr :: "bytes \<Rightarrow> bytes" where
  "chop_cr b = (if b \<noteq> [] \<and> last b = CR then butlast b else b)"

definition is_empty_line :: "bytes \<Rightarrow> bool" where
  "is_empty_line b = (b = [] \<or> hd b = NUL)"

text \<open>
  The loop of \<open>appendData\<close>. \<open>proc\<close> gets the state and the complete line and returns the new
  state, the new incomplete line and whether the header is finished. The result is the state, the
  incomplete line and, when finished, the number of bytes consumed.
\<close>

function line_loop ::
    "('s \<Rightarrow> bytes \<Rightarrow> ('s \<times> bytes \<times> bool) cres) \<Rightarrow> 's \<times> bytes \<Rightarrow> bytes \<Rightarrow> (('s \<times> bytes) \<times> nat option) cres" where
  "line_loop proc st data =
     (if data = [] then Ok (st, None)
      else case memchr LF data of
        None \<Rightarrow> Ok ((fst st, cstr (snd st) @ data), None)
      | Some i \<Rightarrow>
          cbind (proc (fst st) (chop_cr (cstr (snd st) @ take i data))) (\<lambda>(s, cur, fin).
            if fin then Ok ((s, cur), Some (i + 1))
            else cbind (line_loop proc (s, cur) (drop (i + 1) data)) (\<lambda>(st', r).
              Ok (st', map_option ((+) (i + 1)) r))))"
  by pat_completeness auto
termination by (relation "measure (\<lambda>(proc, st, data). length data)") auto

declare line_loop.simps [simp del]

record DataHeader =
  dh_lines :: "bytes list"
  dh_cur :: bytes

definition datahdr_new :: DataHeader where
  "datahdr_new = \<lparr>dh_lines = [], dh_cur = []\<rparr>"

text \<open>A stored line is the name, a zero byte in place of the colon, and the value.\<close>

definition line_name :: "bytes \<Rightarrow> bytes" where
  "line_name l = cstr l"

definition line_from :: "bytes \<Rightarrow> nat \<Rightarrow> bytes" where
  "line_from l n = cstr (drop n l)"

definition datahdr_getHeaderLineAt :: "DataHeader \<Rightarrow> nat \<Rightarrow> (bytes \<times> bytes) option" where
  "datahdr_getHeaderLineAt hdr idx =
     (if length (dh_lines hdr) \<le> idx then None
      else (let l = dh_lines hdr ! idx in Some (line_name l, line_from l (strlen l + 1))))"

definition skip_blanks :: "bytes \<Rightarrow> bytes" where
  "skip_blanks v = drop (strspn v ('' '' @ [TAB])) v"

fun header_val :: "bytes list \<Rightarrow> bytes \<Rightarrow> bytes option" where
  "header_val [] name = None"
| "header_val (l # ls) name =
     (if strcasecmp_eq (line_name l) name then Some (skip_blanks (line_from l (length name + 1)))
      else header_val ls name)"

definition datahdr_getHeaderVal :: "DataHeader \<Rightarrow> bytes \<Rightarrow> bytes option" where
  "datahdr_getHeaderVal hdr headerName = header_val (dh_lines hdr) headerName"

definition datahdr_line :: "bytes list \<Rightarrow> bytes \<Rightarrow> (bytes list \<times> bytes \<times> bool) cres" where
  "datahdr_line lines line =
     (if is_empty_line line then Ok (lines, line, True)
      else case memchr (CHR '':'') (cstr line) of
          Some j \<Rightarrow> Ok (lines @ [line[j := NUL]], [], False)
        | None \<Rightarrow> Ok (lines, [], False))"

text \<open>The header, and the number of bytes consumed once it is complete (\<open>None\<close> for -1).\<close>

definition datahdr_appendData :: "DataHeader \<Rightarrow> bytes \<Rightarrow> (DataHeader \<times> nat option) cres" where
  "datahdr_appendData hdr data =
     cbind (line_loop datahdr_line (dh_lines hdr, dh_cur hdr) data) (\<lambda>((ls, cur), r).
       Ok (\<lparr>dh_lines = ls, dh_cur = cur\<rparr>, r))"

subsection \<open>Feeding data in pieces\<close>

text \<open>Feeding a list of pieces until the component is done: the state and the total consumed.\<close>

fun feed_pieces :: "('s \<Rightarrow> bytes \<Rightarrow> ('s \<times> nat option) cres) \<Rightarrow> 's \<Rightarrow> bytes list \<Rightarrow> ('s \<times> nat option) cres" where
  "feed_pieces feed s [] = Ok (s, None)"
| "feed_pieces feed s (xs # xss) = cbind (feed s xs) (\<lambda>(t, r).
     case r of Some n \<Rightarrow> Ok (t, Some n)
     | None \<Rightarrow> cbind (feed_pieces feed t xss) (\<lambda>(u, r). Ok (u, map_option ((+) (length xs)) r)))"

locale chunked_consumer =
  fixes feed :: "'s \<Rightarrow> bytes \<Rightarrow> ('s \<times> nat option) cres"
    and inv :: "'s \<Rightarrow> bool"
    and ok :: "bytes \<Rightarrow> bool"
  assumes feed_nil: "inv s \<Longrightarrow> feed s [] = Ok (s, None)"
    and ok_split: "ok (xs @ ys) = (ok xs \<and> ok ys)"
    and feed_inv: "inv s \<Longrightarrow> ok xs \<Longrightarrow> feed s xs = Ok (t, None) \<Longrightarrow> inv t"
    and feed_defined: "inv s \<Longrightarrow> ok xs \<Longrightarrow> \<exists>r. feed s xs = Ok r"
    and feed_done: "inv s \<Longrightarrow> ok xs \<Longrightarrow> feed s xs = Ok (t, Some n) \<Longrightarrow>
        n \<le> length xs \<and> feed s (xs @ ys) = Ok (t, Some n)"
    and feed_more: "inv s \<Longrightarrow> ok xs \<Longrightarrow> feed s xs = Ok (t, None) \<Longrightarrow>
        feed s (xs @ ys) = cbind (feed t ys) (\<lambda>(u, r). Ok (u, map_option ((+) (length xs)) r))"
begin

lemma feed_pieces_concat: "inv s \<Longrightarrow> ok (concat xss) \<Longrightarrow> feed_pieces feed s xss = feed s (concat xss)"
proof (induction xss arbitrary: s)
  case Nil
  then show ?case by (simp add: feed_nil)
next
  case (Cons xs xss)
  then have okx: "ok xs" "ok (concat xss)" "ok (xs @ concat xss)" by (simp_all add: ok_split)
  obtain t r where f: "feed s xs = Ok (t, r)"
    using feed_defined [OF Cons.prems(1) okx(1)] by auto
  show ?case
  proof (cases r)
    case (Some n)
    then show ?thesis using f feed_done [OF Cons.prems(1) okx(1)] by simp
  next
    case None
    then show ?thesis
      using f feed_more [OF Cons.prems(1) okx(1), of t] feed_inv [OF Cons.prems(1) okx(1)] Cons.IH okx(2)
      by simp
  qed
qed

text \<open>
  When a sequence of bytes completes the component, every way to cut it, and whatever follows
  it, into pieces does so in the same state and with the same number of bytes consumed.
\<close>

lemma feed_pieces_done:
  "inv s \<Longrightarrow> ok hdr \<Longrightarrow> feed s hdr = Ok (t, Some n) \<Longrightarrow> concat xss = hdr @ rest \<Longrightarrow>
     feed_pieces feed s xss = Ok (t, Some n)"
proof (induction xss arbitrary: s hdr n)
  case Nil
  then show ?case by (simp add: feed_nil)
next
  case (Cons xs xss)
  from Cons.prems(4) have eq: "xs @ concat xss = hdr @ rest" by simp
  consider ys where "xs = hdr @ ys" | ys where "hdr = xs @ ys" "concat xss = ys @ rest"
    using eq by (auto simp: append_eq_append_conv2)
  then show ?case
  proof cases
    case 1
    then show ?thesis using feed_done [OF Cons.prems(1,2,3)] by simp
  next
    case 2
    then have okx: "ok xs" "ok ys" using Cons.prems(2) by (simp_all add: ok_split)
    obtain u r where f: "feed s xs = Ok (u, r)"
      using feed_defined [OF Cons.prems(1) okx(1)] by auto
    show ?thesis
    proof (cases r)
      case (Some m)
      then have "feed s hdr = Ok (u, Some m)" using f feed_done [OF Cons.prems(1) okx(1)] 2(1) by simp
      with Some f Cons.prems(3) show ?thesis by simp
    next
      case None
      then have m: "cbind (feed u ys) (\<lambda>(v, r). Ok (v, map_option ((+) (length xs)) r)) = Ok (t, Some n)"
        using f feed_more [OF Cons.prems(1) okx(1), of u ys] 2(1) Cons.prems(3) by simp
      have "inv u" using f None feed_inv [OF Cons.prems(1) okx(1)] by simp
      obtain v q where v: "feed u ys = Ok (v, q)" using feed_defined [OF \<open>inv u\<close> okx(2)] by auto
      with m obtain k where k: "feed u ys = Ok (t, Some k)" "n = length xs + k"
        by (cases q) auto
      with Cons.IH [OF \<open>inv u\<close> okx(2) k(1) 2(2)] f None show ?thesis by simp
    qed
  qed
qed

end

definition no_nul :: "bytes \<Rightarrow> bool" where
  "no_nul b = (NUL \<notin> set b)"

text \<open>The laws of the interface, together, for a component.\<close>

definition consumer_laws :: "('s \<Rightarrow> bytes \<Rightarrow> ('s \<times> nat option) cres) \<Rightarrow> ('s \<Rightarrow> bool) \<Rightarrow> bool" where
  "consumer_laws feed I = (\<forall>s xs. I s \<longrightarrow> no_nul xs \<longrightarrow>
     (\<exists>t r. feed s xs = Ok (t, r) \<and>
      (case r of
         None \<Rightarrow> I t \<and> (\<forall>ys. feed s (xs @ ys) =
              cbind (feed t ys) (\<lambda>(u, r). Ok (u, map_option ((+) (length xs)) r)))
       | Some n \<Rightarrow> n \<le> length xs \<and> (\<forall>ys. feed s (xs @ ys) = Ok (t, Some n)))))"

text \<open>The laws for the line loop, for any function that keeps the incomplete line free of zeros.\<close>

definition proc_ok :: "('s \<Rightarrow> bool) \<Rightarrow> ('s \<Rightarrow> bytes \<Rightarrow> ('s \<times> bytes \<times> bool) cres) \<Rightarrow> bool" where
  "proc_ok P proc = (\<forall>s line. P s \<longrightarrow> no_nul line \<longrightarrow>
     (\<exists>s' cur fin. proc s line = Ok (s', cur, fin) \<and> (\<not> fin \<longrightarrow> P s' \<and> no_nul cur)))"

lemma no_nul_simps [simp]:
  "no_nul []" "no_nul (xs @ ys) = (no_nul xs \<and> no_nul ys)" "no_nul (c # xs) = (c \<noteq> NUL \<and> no_nul xs)"
  by (auto simp: no_nul_def)

lemma no_nul_take [simp]: "no_nul xs \<Longrightarrow> no_nul (take n xs)"
  and no_nul_drop [simp]: "no_nul xs \<Longrightarrow> no_nul (drop n xs)"
  by (auto simp: no_nul_def dest: in_set_takeD in_set_dropD)

lemma cstr_no_nul [simp]: "no_nul xs \<Longrightarrow> cstr xs = xs"
  by (simp add: no_nul_def)

lemma no_nul_chop_cr [simp]: "no_nul xs \<Longrightarrow> no_nul (chop_cr xs)"
  by (auto simp: no_nul_def chop_cr_def dest: in_set_butlastD)

lemma no_nul_memchr: "no_nul xs \<Longrightarrow> memchr LF xs = Some i \<Longrightarrow> no_nul (drop (Suc i) xs)"
  by simp

lemma line_loop_Nil [simp]: "line_loop proc st [] = Ok (st, None)"
  by (subst line_loop.simps) simp

lemma cbind_shift_0: "cbind q (\<lambda>(st, r). Ok (st, map_option ((+) (0::nat)) r)) = q"
proof -
  have "map_option ((+) 0) r = r" for r :: "nat option" by (cases r) simp_all
  then show ?thesis by (cases q) auto
qed

lemma cbind_shift_shift:
  "cbind (cbind q (\<lambda>(st, r). Ok (st, map_option ((+) b) r))) (\<lambda>(st, r). Ok (st, map_option ((+) a) r)) =
     cbind q (\<lambda>(st, r). Ok (st, map_option ((+) (a + b :: nat)) r))"
proof -
  have "map_option ((+) a) (map_option ((+) b) r) = map_option ((+) (a + b)) r" for r
    by (cases r) simp_all
  then show ?thesis by (cases q) auto
qed

lemma line_loop_Some:
  assumes "memchr LF xs = Some i"
  shows "line_loop proc (s, cur) xs =
    cbind (proc s (chop_cr (cstr cur @ take i xs))) (\<lambda>(s, cur, fin).
      if fin then Ok ((s, cur), Some (i + 1))
      else cbind (line_loop proc (s, cur) (drop (i + 1) xs)) (\<lambda>(st', r).
        Ok (st', map_option ((+) (i + 1)) r)))"
proof -
  have "xs \<noteq> []" using assms by auto
  with assms show ?thesis by (subst line_loop.simps) simp
qed

lemma line_loop_no_LF:
  assumes "no_nul cur" "no_nul xs" "LF \<notin> set xs"
  shows "line_loop proc (s, cur) (xs @ ys) =
    cbind (line_loop proc (s, cur @ xs) ys) (\<lambda>(st, r). Ok (st, map_option ((+) (length xs)) r))"
proof (cases "xs = [] \<or> ys = []")
  case True
  moreover have "line_loop proc (s, cur) xs = Ok ((s, cur @ xs), None)"
    using assms memchr_None [of LF xs] by (subst line_loop.simps) simp
  ultimately show ?thesis by (auto simp: cbind_shift_0)
next
  case False
  show ?thesis
  proof (cases "memchr LF ys")
    case None
    then have "memchr LF (xs @ ys) = None" using assms(3) memchr_None by (metis Un_iff set_append)
    with None False assms show ?thesis
      by (subst (1 2) line_loop.simps) simp
  next
    case (Some i)
    then have m: "memchr LF (xs @ ys) = Some (length xs + i)"
      using assms(3) memchr_None [of LF xs] by (simp add: memchr_append_iff)
    have c: "cstr cur @ take (length xs + i) (xs @ ys) = cstr (cur @ xs) @ take i ys"
      "drop (length xs + i + 1) (xs @ ys) = drop (i + 1) ys"
      using assms(1,2) by simp_all
    show ?thesis
      unfolding line_loop_Some [OF m] line_loop_Some [OF Some] c
    proof (cases "proc s (chop_cr (cstr (cur @ xs) @ take i ys))")
      case (Ok x)
      obtain s' cur' fin where x: "x = (s', cur', fin)" by (cases x)
      show "cbind (proc s (chop_cr (cstr (cur @ xs) @ take i ys))) (\<lambda>(s, cur, fin).
          if fin then Ok ((s, cur), Some (length xs + i + 1))
          else cbind (line_loop proc (s, cur) (drop (i + 1) ys)) (\<lambda>(st', r).
            Ok (st', map_option ((+) (length xs + i + 1)) r))) =
        cbind (cbind (proc s (chop_cr (cstr (cur @ xs) @ take i ys))) (\<lambda>(s, cur, fin).
          if fin then Ok ((s, cur), Some (i + 1))
          else cbind (line_loop proc (s, cur) (drop (i + 1) ys)) (\<lambda>(st', r).
            Ok (st', map_option ((+) (i + 1)) r)))) (\<lambda>(st, r). Ok (st, map_option ((+) (length xs)) r))"
        unfolding Ok x by (cases fin) (simp_all only: cbind_simps prod.case if_True if_False
            cbind_shift_shift option.map add.assoc)
    qed simp_all
  qed
qed

lemma line_loop_step:
  assumes "memchr LF xs = Some i"
  shows "line_loop proc (s, cur) (xs @ ys) =
    cbind (proc s (chop_cr (cstr cur @ take i xs))) (\<lambda>(s, cur, fin).
      if fin then Ok ((s, cur), Some (i + 1))
      else cbind (line_loop proc (s, cur) (drop (i + 1) xs @ ys)) (\<lambda>(st', r).
        Ok (st', map_option ((+) (i + 1)) r)))"
proof -
  have i: "i < length xs" using memchr_Some [OF assms] by simp
  have m: "memchr LF (xs @ ys) = Some i" using assms by (simp add: memchr_append_iff)
  have d: "drop (i + 1) (xs @ ys) = drop (i + 1) xs @ ys" "take i (xs @ ys) = take i xs" using i by simp_all
  show ?thesis unfolding line_loop_Some [OF m] d ..
qed

lemma line_loop_laws:
  assumes "proc_ok P proc"
  shows "P s \<Longrightarrow> no_nul cur \<Longrightarrow> no_nul xs \<Longrightarrow>
    \<exists>st r. line_loop proc (s, cur) xs = Ok (st, r) \<and>
      (case r of
         None \<Rightarrow> P (fst st) \<and> no_nul (snd st) \<and>
           (\<forall>ys. line_loop proc (s, cur) (xs @ ys) =
              cbind (line_loop proc st ys) (\<lambda>(st', r). Ok (st', map_option ((+) (length xs)) r)))
       | Some n \<Rightarrow> n \<le> length xs \<and> (\<forall>ys. line_loop proc (s, cur) (xs @ ys) = Ok (st, Some n)))"
proof (induction "length xs" arbitrary: s cur xs rule: less_induct)
  case less
  show ?case
  proof (cases "memchr LF xs")
    case None
    then have n: "LF \<notin> set xs" by (simp add: memchr_None)
    then have "line_loop proc (s, cur) xs = Ok ((s, cur @ xs), None)"
      using line_loop_no_LF [OF less(3,4) n, of proc s "[]"] by simp
    then show ?thesis
      using less(2-4) by (intro exI [of _ "(s, cur @ xs)"] exI [of _ None])
        (auto simp: line_loop_no_LF [OF less(3,4) n])
  next
    case (Some i)
    note step = line_loop_step [OF Some, of proc s cur]
    have i: "i < length xs" using memchr_Some [OF Some] by simp
    have "no_nul (chop_cr (cstr cur @ take i xs))" using less(3,4) by simp
    then obtain s' cur' fin where p: "proc s (chop_cr (cstr cur @ take i xs)) = Ok (s', cur', fin)"
        "\<not> fin \<longrightarrow> P s' \<and> no_nul cur'"
      using assms less(2) unfolding proc_ok_def by blast
    show ?thesis
    proof (cases fin)
      case True
      then show ?thesis
        using step [of "[]"] step p i by (intro exI [of _ "(s', cur')"] exI [of _ "Some (i + 1)"]) simp
    next
      case False
      with p have p': "P s'" "no_nul cur'" by auto
      have "length (drop (i + 1) xs) < length xs" "no_nul (drop (i + 1) xs)" using i less(4) by simp_all
      from less(1) [OF this(1) p' this(2)] obtain st r where
        r: "line_loop proc (s', cur') (drop (i + 1) xs) = Ok (st, r)" and
        l: "case r of
         None \<Rightarrow> P (fst st) \<and> no_nul (snd st) \<and>
           (\<forall>ys. line_loop proc (s', cur') (drop (i + 1) xs @ ys) =
              cbind (line_loop proc st ys) (\<lambda>(st', r). Ok (st', map_option ((+) (length (drop (i + 1) xs))) r)))
       | Some n \<Rightarrow> n \<le> length (drop (i + 1) xs) \<and>
           (\<forall>ys. line_loop proc (s', cur') (drop (i + 1) xs @ ys) = Ok (st, Some n))"
        by blast
      have e: "line_loop proc (s, cur) (xs @ ys) =
          cbind (line_loop proc (s', cur') (drop (i + 1) xs @ ys)) (\<lambda>(st', r).
            Ok (st', map_option ((+) (i + 1)) r))" for ys
        using step [of ys] p(1) False by simp
      have z: "line_loop proc (s, cur) xs = Ok (st, map_option ((+) (i + 1)) r)"
        using e [of "[]"] r by simp
      have sum: "i + 1 + length (drop (i + 1) xs) = length xs" using i by simp
      show ?thesis
      proof (cases r)
        case (Some n)
        with z e l i show ?thesis
          by (intro exI [of _ st] exI [of _ "Some (i + 1 + n)"]) auto
      next
        case None
        have sh: "cbind (cbind q (\<lambda>(st', r). Ok (st', map_option ((+) (length (drop (i + 1) xs))) r)))
            (\<lambda>(st', r). Ok (st', map_option ((+) (i + 1)) r)) =
          cbind q (\<lambda>(st', r). Ok (st', map_option ((+) (length xs)) r))"
          for q :: "(('a \<times> bytes) \<times> nat option) cres"
          unfolding cbind_shift_shift sum ..
        have "line_loop proc (s, cur) (xs @ ys) =
            cbind (line_loop proc st ys) (\<lambda>(st', r). Ok (st', map_option ((+) (length xs)) r))" for ys
          unfolding e using None l by (simp only: option.case sh)
        then show ?thesis
          using None z l by (intro exI [of _ st] exI [of _ None]) simp
      qed
    qed
  qed
qed

text \<open>
  The same for a component that keeps the state and the incomplete line of the loop in a
  record, with \<open>get\<close> and \<open>put\<close> between the two.
\<close>

lemma line_consumer_laws:
  assumes "proc_ok P proc"
    and feed: "\<And>h xs. feed h xs = cbind (line_loop proc (get h) xs) (\<lambda>(st, r). Ok (put st, r))"
    and dest: "\<And>h. I h \<Longrightarrow> P (fst (get h)) \<and> no_nul (snd (get h))"
    and put_get: "\<And>st. P (fst st) \<Longrightarrow> no_nul (snd st) \<Longrightarrow> I (put st) \<and> get (put st) = st"
  shows "consumer_laws feed I"
  unfolding consumer_laws_def
proof (intro allI impI)
  fix h xs assume h: "I h" "no_nul xs"
  obtain s cur where g: "get h = (s, cur)" by (cases "get h")
  then have "P s" "no_nul cur" using dest [OF h(1)] by simp_all
  from line_loop_laws [OF assms(1) this h(2)] obtain st r where
    l: "line_loop proc (get h) xs = Ok (st, r)" and
    m: "case r of
       None \<Rightarrow> P (fst st) \<and> no_nul (snd st) \<and>
         (\<forall>ys. line_loop proc (get h) (xs @ ys) =
            cbind (line_loop proc st ys) (\<lambda>(st', r). Ok (st', map_option ((+) (length xs)) r)))
     | Some n \<Rightarrow> n \<le> length xs \<and> (\<forall>ys. line_loop proc (get h) (xs @ ys) = Ok (st, Some n))"
    unfolding g by blast
  have c: "cbind (cbind q (\<lambda>(st', r). Ok (st', map_option ((+) (length xs)) r))) (\<lambda>(st, r). Ok (put st, r)) =
    cbind (cbind q (\<lambda>(st, r). Ok (put st, r))) (\<lambda>(u, r). Ok (u, map_option ((+) (length xs)) r))" for q
    by (cases q) auto
  show "\<exists>t r. feed h xs = Ok (t, r) \<and>
      (case r of
         None \<Rightarrow> I t \<and> (\<forall>ys. feed h (xs @ ys) =
              cbind (feed t ys) (\<lambda>(u, r). Ok (u, map_option ((+) (length xs)) r)))
       | Some n \<Rightarrow> n \<le> length xs \<and> (\<forall>ys. feed h (xs @ ys) = Ok (t, Some n)))"
  proof (intro exI conjI)
    show "feed h xs = Ok (put st, r)" by (simp add: feed l)
    show "case r of
         None \<Rightarrow> I (put st) \<and> (\<forall>ys. feed h (xs @ ys) =
              cbind (feed (put st) ys) (\<lambda>(u, r). Ok (u, map_option ((+) (length xs)) r)))
       | Some n \<Rightarrow> n \<le> length xs \<and> (\<forall>ys. feed h (xs @ ys) = Ok (put st, Some n))"
    proof (cases r)
      case None
      with m have "I (put st)" "get (put st) = st" using put_get by auto
      with None m show ?thesis by (simp add: feed c)
    next
      case (Some n)
      with m show ?thesis by (simp add: feed)
    qed
  qed
qed

lemma consumer_lawsD:
  assumes "consumer_laws feed I" "I s" "no_nul xs"
  shows "\<exists>r. feed s xs = Ok r"
    and "feed s xs = Ok (t, None) \<Longrightarrow> I t"
    and "feed s xs = Ok (t, Some n) \<Longrightarrow> n \<le> length xs \<and> feed s (xs @ ys) = Ok (t, Some n)"
    and "feed s xs = Ok (t, None) \<Longrightarrow>
      feed s (xs @ ys) = cbind (feed t ys) (\<lambda>(u, r). Ok (u, map_option ((+) (length xs)) r))"
  using assms(1) [unfolded consumer_laws_def, rule_format, OF assms(2,3)] by auto

subsection \<open>The data header\<close>

definition datahdr_inv :: "DataHeader \<Rightarrow> bool" where
  "datahdr_inv h = no_nul (dh_cur h)"

lemma datahdr_line_ok: "proc_ok (\<lambda>_. True) datahdr_line"
  by (auto simp: proc_ok_def datahdr_line_def is_empty_line_def split: option.splits)

lemma datahdr_laws:
  "consumer_laws datahdr_appendData datahdr_inv"
proof (rule line_consumer_laws [OF datahdr_line_ok])
  show "datahdr_appendData h xs = cbind (line_loop datahdr_line (dh_lines h, dh_cur h) xs)
      (\<lambda>(st, r). Ok ((\<lambda>(ls, cur). \<lparr>dh_lines = ls, dh_cur = cur\<rparr>) st, r))" for h xs
    by (simp add: datahdr_appendData_def split_def)
qed (auto simp: datahdr_inv_def)

interpretation datahdr: chunked_consumer datahdr_appendData datahdr_inv no_nul
proof unfold_locales
  fix s t xs ys n
  show "datahdr_inv s \<Longrightarrow> datahdr_appendData s [] = Ok (s, None)"
    by (simp add: datahdr_appendData_def)
  show "no_nul (xs @ ys) = (no_nul xs \<and> no_nul ys)" by simp
qed (rule consumer_lawsD [OF datahdr_laws], assumption+)+

subsection \<open>Printing and reading header lines\<close>

definition print_header :: "bytes \<times> bytes \<Rightarrow> bytes" where
  "print_header h = fst h @ '':'' @ snd h @ CRLF"

definition header_ok :: "bytes \<times> bytes \<Rightarrow> bool" where
  "header_ok h = (no_nul (fst h) \<and> no_nul (snd h) \<and> LF \<notin> set (fst h) \<and> LF \<notin> set (snd h) \<and>
     CHR '':'' \<notin> set (fst h))"

text \<open>A header as the line it is stored as.\<close>

definition stored_header :: "bytes \<times> bytes \<Rightarrow> bytes" where
  "stored_header h = fst h @ NUL # snd h"

lemma chop_cr_snoc [simp]: "chop_cr (l @ [CR]) = l"
  by (simp add: chop_cr_def)

lemma line_loop_line:
  assumes "no_nul l" "LF \<notin> set l"
  shows "line_loop proc (s, []) (l @ CRLF @ rest) =
    cbind (proc s l) (\<lambda>(s, cur, fin).
      if fin then Ok ((s, cur), Some (length l + 2))
      else cbind (line_loop proc (s, cur) rest) (\<lambda>(st', r).
        Ok (st', map_option ((+) (length l + 2)) r)))"
proof -
  have "memchr LF ((l @ [CR]) @ LF # rest) = Some (length (l @ [CR]))"
    using assms(2) by (intro memchr_append) auto
  then have m: "memchr LF (l @ CRLF @ rest) = Some (length l + 1)" by simp
  have "cstr [] @ take (length l + 1) (l @ CRLF @ rest) = l @ [CR]"
    "length l + 1 + 1 = length l + 2" "drop (length l + 2) (l @ CRLF @ rest) = rest"
    by simp_all
  note c = this
  show ?thesis unfolding line_loop_Some [OF m] c chop_cr_snoc ..
qed

lemma memchr_colon: "CHR '':'' \<notin> set n \<Longrightarrow> memchr (CHR '':'') (n @ CHR '':'' # v) = Some (length n)"
  by (rule memchr_append)

lemma colon_replaced: "(n @ CHR '':'' # v)[length n := NUL] = n @ NUL # v"
  by simp

lemma datahdr_line_header:
  assumes "header_ok h"
  shows "datahdr_line ls (fst h @ '':'' @ snd h) = Ok (ls @ [stored_header h], [], False)"
proof -
  have n: "no_nul (fst h @ '':'' @ snd h)" using assms by (simp add: header_ok_def)
  then have e: "\<not> is_empty_line (fst h @ '':'' @ snd h)"
    by (cases "fst h") (auto simp: is_empty_line_def)
  show ?thesis
    using assms n e unfolding datahdr_line_def cstr_no_nul [OF n]
    by (simp add: header_ok_def memchr_colon stored_header_def)
qed

lemma datahdr_loop_headers:
  assumes "\<forall>h \<in> set hs. header_ok h"
  shows "line_loop datahdr_line (ls, []) (concat (map print_header hs) @ CRLF @ rest) =
    Ok ((ls @ map stored_header hs, []), Some (length (concat (map print_header hs)) + 2))"
  using assms
proof (induction hs arbitrary: ls)
  case Nil
  have e: "datahdr_line ls [] = Ok (ls, [], True)" by (simp add: datahdr_line_def is_empty_line_def)
  show ?case
    using line_loop_line [of "[]" datahdr_line ls rest] by (simp add: e)
next
  case (Cons h hs)
  let ?l = "fst h @ '':'' @ snd h"
  have ok: "header_ok h" using Cons.prems by simp
  then have l: "no_nul ?l" "LF \<notin> set ?l" by (auto simp: header_ok_def)
  have p: "concat (map print_header (h # hs)) @ CRLF @ rest =
      ?l @ CRLF @ (concat (map print_header hs) @ CRLF @ rest)"
    by (simp add: print_header_def)
  have len: "length (concat (map print_header (h # hs))) = length ?l + 2 + length (concat (map print_header hs))"
    by (simp add: print_header_def)
  have IH: "line_loop datahdr_line (ls @ [stored_header h], []) (concat (map print_header hs) @ CRLF @ rest) =
      Ok (((ls @ [stored_header h]) @ map stored_header hs, []),
        Some (length (concat (map print_header hs)) + 2))"
    using Cons.prems by (intro Cons.IH) simp
  show ?case
    unfolding p len line_loop_line [OF l] datahdr_line_header [OF ok]
    by (simp only: cbind_simps prod.case if_False IH) simp
qed

lemma datahdr_append_headers:
  assumes "\<forall>h \<in> set hs. header_ok h"
  shows "datahdr_appendData datahdr_new (concat (map print_header hs) @ CRLF) =
    Ok (\<lparr>dh_lines = map stored_header hs, dh_cur = []\<rparr>, Some (length (concat (map print_header hs)) + 2))"
  using datahdr_loop_headers [OF assms, of "[]" "[]"]
  by (simp add: datahdr_appendData_def datahdr_new_def)

lemma no_nul_headers: "\<forall>h \<in> set hs. header_ok h \<Longrightarrow> no_nul (concat (map print_header hs) @ CRLF)"
  by (induction hs) (simp_all add: print_header_def header_ok_def)

lemma stored_header_name: "no_nul (fst h) \<Longrightarrow> line_name (stored_header h) = fst h"
  by (simp add: line_name_def stored_header_def cstr_until_NUL)

lemma stored_header_value: "no_nul (snd h) \<Longrightarrow> line_from (stored_header h) (length (fst h) + 1) = snd h"
  by (simp add: line_from_def stored_header_def)

text \<open>The value of the first header with a name, without regard to the case of the name.\<close>

definition first_header :: "bytes \<Rightarrow> (bytes \<times> bytes) list \<Rightarrow> bytes option" where
  "first_header name hs = map_option snd (find (\<lambda>h. strcasecmp_eq (fst h) name) hs)"

lemma header_val_stored:
  "\<forall>h \<in> set hs. header_ok h \<Longrightarrow>
     header_val (map stored_header hs) name = map_option skip_blanks (first_header name hs)"
proof (induction hs)
  case Nil
  then show ?case by (simp add: first_header_def)
next
  case (Cons h hs)
  have n: "no_nul (fst h)" "no_nul (snd h)" using Cons.prems by (simp_all add: header_ok_def)
  have "strcasecmp_eq (fst h) name \<Longrightarrow> length name = length (fst h)"
    by (metis length_map strcasecmp_eq_def)
  with Cons n show ?case
    using stored_header_value [OF n(2)] by (auto simp: stored_header_name first_header_def)
qed

subsection \<open>Properties\<close>

text \<open>A printed header is read back whatever pieces the data arrives in: for any cut of the
  printed lines, the empty line and any following bytes into pieces, the component reports
  completion with exactly the bytes of the header consumed, holds the lines in order, and a
  look-up gives the value of the first line with the name (in any case) without leading
  blanks.\<close>

theorem datahdr_roundtrip:
  assumes "\<forall>h \<in> set hs. header_ok h"
    and "concat pieces = concat (map print_header hs) @ CRLF @ body"
  shows "\<exists>hdr. feed_pieces datahdr_appendData datahdr_new pieces =
      Ok (hdr, Some (length (concat (map print_header hs)) + 2)) \<and>
    (\<forall>i < length hs. datahdr_getHeaderLineAt hdr i = Some (hs ! i)) \<and>
    datahdr_getHeaderLineAt hdr (length hs) = None \<and>
    datahdr_getHeaderVal hdr name = map_option skip_blanks (first_header name hs)"
proof -
  let ?hdr = "\<lparr>dh_lines = map stored_header hs, dh_cur = []\<rparr>"
  have inv: "datahdr_inv datahdr_new" by (simp add: datahdr_inv_def datahdr_new_def)
  have c: "concat pieces = (concat (map print_header hs) @ CRLF) @ body" using assms(2) by simp
  have "feed_pieces datahdr_appendData datahdr_new pieces =
      Ok (?hdr, Some (length (concat (map print_header hs)) + 2))"
    by (rule datahdr.feed_pieces_done [OF inv no_nul_headers [OF assms(1)] datahdr_append_headers [OF assms(1)] c])
  moreover have "datahdr_getHeaderLineAt ?hdr i = Some (hs ! i)" if "i < length hs" for i
  proof -
    have h: "header_ok (hs ! i)" using assms(1) that by simp
    then have n: "no_nul (fst (hs ! i))" "no_nul (snd (hs ! i))" by (simp_all add: header_ok_def)
    have "strlen (stored_header (hs ! i)) = length (fst (hs ! i))"
      using stored_header_name [OF n(1)] by (simp add: strlen_def line_name_def)
    then show ?thesis
      using that stored_header_name [OF n(1)] stored_header_value [OF n(2)]
      by (simp add: datahdr_getHeaderLineAt_def)
  qed
  ultimately show ?thesis
    using header_val_stored [OF assms(1), of name]
    by (intro exI [of _ ?hdr]) (simp add: datahdr_getHeaderLineAt_def datahdr_getHeaderVal_def)
qed

theorem datahdr_roundtrip_witness:
  "\<exists>hdr. feed_pieces datahdr_appendData datahdr_new
       [''Conte'', ''nt-Type: text/plain'' @ [CR], LF # ''X:1'' @ CRLF @ CRLF @ ''body'' @ [NUL]] = Ok (hdr, Some 33) \<and>
     datahdr_getHeaderVal hdr ''content-TYPE'' = Some ''text/plain''"
proof -
  let ?hs = "[(''Content-Type'', '' text/plain''), (''X'', ''1'')]"
  let ?p = "[''Conte'', ''nt-Type: text/plain'' @ [CR], LF # ''X:1'' @ CRLF @ CRLF @ ''body'' @ [NUL]]"
  have v: "first_header ''content-TYPE'' ?hs = Some '' text/plain''"
    "skip_blanks '' text/plain'' = ''text/plain''" by code_simp+
  have ok: "\<forall>h \<in> set ?hs. header_ok h" by (simp add: header_ok_def)
  have c: "concat ?p = concat (map print_header ?hs) @ CRLF @ ''body'' @ [NUL]"
    by (simp add: print_header_def)
  have n: "length (concat (map print_header ?hs)) + 2 = 33" by (simp add: print_header_def)
  obtain hdr where "feed_pieces datahdr_appendData datahdr_new ?p = Ok (hdr, Some 33)"
      "datahdr_getHeaderVal hdr ''content-TYPE'' = map_option skip_blanks (first_header ''content-TYPE'' ?hs)"
    using datahdr_roundtrip [OF ok c, of "''content-TYPE''", unfolded n] by blast
  then show ?thesis unfolding v by (intro exI [of _ hdr]) (simp only: option.map v)
qed

end
