(* ===== verification/Requestheader.thy ===== *)
theory Requestheader
  imports Dataheader
begin

text \<open>
  \<open>src/requestheader.c\<close>: the request line and the header lines of an HTTP request, collected
  from the pieces the connection delivers, with percent decoding of the path and the login state
  from the \<open>Authorization\<close> header.  \<open>rq_cur\<close> is the buffer being filled: the request line
  until it is complete (\<open>headerCount == -1\<close>, here \<open>rq_inRequest\<close>), then the incomplete
  header line. The pointers into the request line are the strings they point to.
\<close>

datatype LoginState = LS_LOGGED_OUT | LS_LOGGED_IN | LS_LOGIN_FAIL

record RequestHeader =
  rq_request :: bytes
  rq_path :: "bytes option"
  rq_query :: "bytes option"
  rq_version :: bytes
  rq_headers :: "bytes list"
  rq_inRequest :: bool
  rq_loginState :: LoginState
  rq_cur :: bytes

definition reqhdr_new :: RequestHeader where
  "reqhdr_new = \<lparr>rq_request = [], rq_path = None, rq_query = None, rq_version = [], rq_headers = [],
     rq_inRequest = True, rq_loginState = LS_LOGGED_OUT, rq_cur = []\<rparr>"

definition reqhdr_getMethod :: "RequestHeader \<Rightarrow> bytes" where
  "reqhdr_getMethod req = cstr (if rq_inRequest req then rq_cur req else rq_request req)"

definition reqhdr_getPath :: "RequestHeader \<Rightarrow> bytes option" where
  "reqhdr_getPath req = rq_path req"

definition reqhdr_getQuery :: "RequestHeader \<Rightarrow> bytes option" where
  "reqhdr_getQuery req = rq_query req"

definition reqhdr_getVersion :: "RequestHeader \<Rightarrow> bytes" where
  "reqhdr_getVersion req = rq_version req"

definition reqhdr_getHeaderAt :: "RequestHeader \<Rightarrow> nat \<Rightarrow> (bytes \<times> bytes) option" where
  "reqhdr_getHeaderAt req idx =
     (if length (rq_headers req) \<le> idx then None
      else (let l = rq_headers req ! idx in Some (line_name l, skip_blanks (line_from l (strlen l + 1)))))"

definition reqhdr_getHeaderVal :: "RequestHeader \<Rightarrow> bytes \<Rightarrow> bytes option" where
  "reqhdr_getHeaderVal req headerName = header_val (rq_headers req) headerName"

text \<open>The loop of \<open>reqhdr_isChunkedTransferEncoding\<close> from the current position in the value.\<close>

function chunked_loop :: "bytes \<Rightarrow> bool" where
  "chunked_loop val =
     (let v = drop (strspn val ('', '' @ [TAB])) val in
      if strncasecmp_eq 7 v ''chunked'' then True
      else case memchr (CHR '','') v of None \<Rightarrow> False | Some i \<Rightarrow> chunked_loop (drop i v))"
  by pat_completeness auto
termination
proof (relation "measure length", goal_cases)
  case (2 val v i)
  have i: "i < length v" "v ! i = CHR '',''" using memchr_Some [OF 2(3)] by auto
  have "v = dropWhile (\<lambda>c. c \<in> set ('', '' @ [TAB])) val"
    unfolding 2(1) strspn_def by (simp add: dropWhile_eq_drop)
  then have "hd v \<notin> set ('', '' @ [TAB])" using i(1) hd_dropWhile [of _ val]
    by (metis (no_types, lifting) length_0_conv not_less_zero)
  then have "i \<noteq> 0" using i by (cases v; cases i) auto
  then show ?case using i(1) 2(1) by simp
qed simp

declare chunked_loop.simps [simp del]

definition reqhdr_isChunkedTransferEncoding :: "RequestHeader \<Rightarrow> bool" where
  "reqhdr_isChunkedTransferEncoding req =
     (case reqhdr_getHeaderVal req ''Transfer-Encoding'' of None \<Rightarrow> False | Some v \<Rightarrow> chunked_loop v)"

definition reqhdr_getLoginState :: "RequestHeader \<Rightarrow> LoginState" where
  "reqhdr_getLoginState req = rq_loginState req"

definition reqhdr_isWorthPuttingLogOnButton :: "Config \<Rightarrow> RequestHeader \<Rightarrow> bool" where
  "reqhdr_isWorthPuttingLogOnButton c req =
     (rq_loginState req = LS_LOGGED_OUT \<and> config_givesLoginMorePrivileges c)"

definition reqhdr_isActionAllowed :: "Config \<Rightarrow> RequestHeader \<Rightarrow> PrivilegedAction \<Rightarrow> bool" where
  "reqhdr_isActionAllowed c req pa = config_isActionAllowed c pa (rq_loginState req = LS_LOGGED_IN)"

subsection \<open>The request line\<close>

text \<open>The byte a percent escape stands for, from the (at most two) characters after the sign.\<close>

definition escape_value :: "bytes \<Rightarrow> char" where
  "escape_value num = char_of (fst (strtoul 16 num) mod 256)"

text \<open>The decoding loop: the bytes written at \<open>dest\<close> and what is left at \<open>src\<close>.\<close>

fun decode_path :: "bytes \<Rightarrow> bytes \<times> bytes" where
  "decode_path [] = ([], [])"
| "decode_path (c # s) =
     (if c = CHR '' '' \<or> c = CHR ''?'' then ([], c # s)
      else if c = CHR ''%'' then
        (case s of
           [] \<Rightarrow> ([escape_value []], [])
         | [a] \<Rightarrow> ([escape_value [a]], [])
         | a # b # s' \<Rightarrow> (let (d, r) = decode_path s' in (escape_value [a, b] # d, r)))
      else (let (d, r) = decode_path s in (c # d, r)))"

text \<open>\<open>line\<close> is the request line, as a C string.\<close>

definition decodeRequestStartLine :: "RequestHeader \<Rightarrow> bytes \<Rightarrow> RequestHeader" where
  "decodeRequestStartLine req line =
     (case memchr (CHR '' '') line of
        None \<Rightarrow> req\<lparr>rq_request := line, rq_path := Some ''/''\<rparr>
      | Some i \<Rightarrow>
          (let (path, src) = decode_path (drop (i + 1) line);
               query = (if src \<noteq> [] \<and> hd src = CHR ''?'' then Some (take (strcspn (tl src) '' '') (tl src)) else None);
               src' = (if src \<noteq> [] \<and> hd src = CHR ''?'' then drop (strcspn (tl src) '' '') (tl src) else src);
               version = (if src' \<noteq> [] \<and> hd src' = CHR '' '' \<and> strncmp_eq 5 (tl src') ''HTTP/''
                          then drop 6 src' else rq_version req)
           in req\<lparr>rq_request := take i line, rq_path := Some (cstr path), rq_query := query,
                  rq_version := version\<rparr>))"

subsection \<open>Header lines\<close>

text \<open>\<open>checkAuthorization\<close>, for the stored line \<open>h\<close> with the zero byte at the colon.\<close>

definition checkAuthorization :: "char \<Rightarrow> Config \<Rightarrow> RequestHeader \<Rightarrow> bytes \<Rightarrow> RequestHeader cres" where
  "checkAuthorization u c req h =
     (if rq_loginState req = LS_LOGGED_OUT \<and> strcasecmp_eq (line_name h) ''Authorization'' then
        cbind (auth_isClientAuthorized u c (line_from h 14) (reqhdr_getMethod req)) (\<lambda>ok.
          Ok (req\<lparr>rq_loginState := (if ok then LS_LOGGED_IN else LS_LOGIN_FAIL)\<rparr>))
      else Ok req)"

definition reqhdr_line :: "char \<Rightarrow> Config \<Rightarrow> RequestHeader \<Rightarrow> bytes \<Rightarrow> (RequestHeader \<times> bytes \<times> bool) cres" where
  "reqhdr_line u c req line =
     (if is_empty_line line then Ok (req, line, \<not> rq_inRequest req)
      else if \<not> rq_inRequest req then
        (case memchr (CHR '':'') (cstr line) of
           Some j \<Rightarrow> cbind (checkAuthorization u c req (line[j := NUL])) (\<lambda>req'.
             Ok (req'\<lparr>rq_headers := rq_headers req' @ [line[j := NUL]]\<rparr>, [], False))
         | None \<Rightarrow> Ok (req, [], False))
      else Ok ((decodeRequestStartLine req (cstr line))\<lparr>rq_inRequest := False\<rparr>, [], False))"

definition reqhdr_appendData ::
    "char \<Rightarrow> Config \<Rightarrow> RequestHeader \<Rightarrow> bytes \<Rightarrow> (RequestHeader \<times> nat option) cres" where
  "reqhdr_appendData u c req data =
     cbind (line_loop (reqhdr_line u c) (req\<lparr>rq_cur := []\<rparr>, rq_cur req) data) (\<lambda>((req', cur), r).
       Ok (req'\<lparr>rq_cur := cur\<rparr>, r))"

subsection \<open>Feeding data in pieces\<close>

definition reqhdr_inv :: "RequestHeader \<Rightarrow> bool" where
  "reqhdr_inv req = no_nul (rq_cur req)"

lemma no_nul_cstr [simp]: "no_nul (cstr b)"
  by (simp add: no_nul_def)

lemma checkAuthorization_total:
  "\<exists>l. checkAuthorization u c req h = Ok (req\<lparr>rq_loginState := l\<rparr>)"
proof -
  have "NUL \<notin> set (line_from h 14)" by (simp add: line_from_def)
  then obtain b where "auth_isClientAuthorized u c (line_from h 14) (reqhdr_getMethod req) = Ok b"
    using auth_total by blast
  moreover have "\<exists>l. req = req\<lparr>rq_loginState := l\<rparr>" by (intro exI [of _ "rq_loginState req"]) simp
  ultimately show ?thesis by (auto simp: checkAuthorization_def)
qed

lemma decode_keeps [simp]:
  "rq_cur (decodeRequestStartLine req line) = rq_cur req"
  "rq_headers (decodeRequestStartLine req line) = rq_headers req"
  "rq_loginState (decodeRequestStartLine req line) = rq_loginState req"
  by (simp_all add: decodeRequestStartLine_def Let_def split: option.split prod.split)

text \<open>What each line keeps: the incomplete line is outside the record during the loop.\<close>

lemma reqhdr_line_ok: "proc_ok (\<lambda>req. rq_cur req = []) (reqhdr_line u c)"
  unfolding proc_ok_def
proof (intro allI impI)
  fix req :: RequestHeader and line assume r: "rq_cur req = []" and l: "no_nul line"
  show "\<exists>s' cur fin. reqhdr_line u c req line = Ok (s', cur, fin) \<and> (\<not> fin \<longrightarrow> rq_cur s' = [] \<and> no_nul cur)"
  proof (cases "memchr (CHR '':'') (cstr line)")
    case None
    with r l show ?thesis by (simp add: reqhdr_line_def ex_bool_eq)
  next
    case (Some j)
    obtain s where "checkAuthorization u c req (line[j := NUL]) = Ok (req\<lparr>rq_loginState := s\<rparr>)"
      using checkAuthorization_total by blast
    with Some r l show ?thesis by (simp add: reqhdr_line_def ex_bool_eq)
  qed
qed

lemma reqhdr_laws: "consumer_laws (reqhdr_appendData u c) reqhdr_inv"
proof (rule line_consumer_laws [OF reqhdr_line_ok])
  show "reqhdr_appendData u c h xs =
      cbind (line_loop (reqhdr_line u c) ((\<lambda>req. (req\<lparr>rq_cur := []\<rparr>, rq_cur req)) h) xs)
        (\<lambda>(st, r). Ok ((\<lambda>(req', cur). req'\<lparr>rq_cur := cur\<rparr>) st, r))" for h xs
    by (simp add: reqhdr_appendData_def split_def)
qed (auto simp: reqhdr_inv_def)

interpretation reqhdr: chunked_consumer "reqhdr_appendData u c" reqhdr_inv no_nul for u c
proof unfold_locales
  fix s t xs ys n
  show "reqhdr_inv s \<Longrightarrow> reqhdr_appendData u c s [] = Ok (s, None)"
    by (simp add: reqhdr_appendData_def)
  show "no_nul (xs @ ys) = (no_nul xs \<and> no_nul ys)" by simp
qed (rule consumer_lawsD [OF reqhdr_laws], assumption+)+

text \<open>The request header does not depend on how the network cuts the data: for data free of zero
  bytes, feeding any pieces gives the header, and the number of bytes consumed, that feeding
  the data at once gives; the component never leaves its memory on such data.\<close>

theorem reqhdr_pieces:
  assumes "no_nul (concat pieces)"
  shows "feed_pieces (reqhdr_appendData u c) reqhdr_new pieces = reqhdr_appendData u c reqhdr_new (concat pieces) \<and>
    (\<exists>req n. reqhdr_appendData u c reqhdr_new (concat pieces) = Ok (req, n))"
proof -
  have inv: "reqhdr_inv reqhdr_new" by (simp add: reqhdr_inv_def reqhdr_new_def)
  show ?thesis
    using reqhdr.feed_pieces_concat [OF inv assms] reqhdr.feed_defined [OF inv assms] by auto
qed

theorem reqhdr_pieces_witness:
  "feed_pieces (reqhdr_appendData NUL config_init) reqhdr_new [''GET / HT'', ''TP/1.1'' @ [CR], [LF, CR], [LF]] =
   reqhdr_appendData NUL config_init reqhdr_new (''GET / HTTP/1.1'' @ CRLF @ CRLF)"
  using reqhdr_pieces [of "[''GET / HT'', ''TP/1.1'' @ [CR], [LF, CR], [LF]]" NUL config_init] by simp

subsection \<open>The login state\<close>

text \<open>A login state that the stored headers account for.\<close>

definition login_sound :: "char \<Rightarrow> Config \<Rightarrow> RequestHeader \<Rightarrow> bool" where
  "login_sound u c req =
     (case rq_loginState req of
        LS_LOGGED_OUT \<Rightarrow> \<forall>l \<in> set (rq_headers req). \<not> strcasecmp_eq (line_name l) ''Authorization''
      | LS_LOGGED_IN \<Rightarrow> \<exists>ls1 l ls2. rq_headers req = ls1 @ l # ls2 \<and> strcasecmp_eq (line_name l) ''Authorization'' \<and>
          (\<forall>k \<in> set ls1. \<not> strcasecmp_eq (line_name k) ''Authorization'') \<and> \<not> rq_inRequest req \<and>
          auth_isClientAuthorized u c (line_from l 14) (cstr (rq_request req)) = Ok True
      | LS_LOGIN_FAIL \<Rightarrow> \<exists>l \<in> set (rq_headers req). strcasecmp_eq (line_name l) ''Authorization'')"

lemma line_loop_invariant:
  assumes "\<And>s line s' cur fin. Q s \<Longrightarrow> proc s line = Ok (s', cur, fin) \<Longrightarrow> Q s'"
  shows "Q s \<Longrightarrow> line_loop proc (s, cur) xs = Ok (st, r) \<Longrightarrow> Q (fst st)"
proof (induction "length xs" arbitrary: s cur xs r rule: less_induct)
  case less
  show ?case
  proof (cases "memchr LF xs")
    case None
    then show ?thesis using less(2,3) by (subst (asm) line_loop.simps) (auto split: if_splits)
  next
    case (Some i)
    then obtain s' cur' fin where p: "proc s (chop_cr (cstr cur @ take i xs)) = Ok (s', cur', fin)"
      using less(3) unfolding line_loop_Some [OF Some]
      by (cases "proc s (chop_cr (cstr cur @ take i xs))") auto
    have q: "Q s'" by (rule assms [OF less(2) p])
    show ?thesis
    proof (cases fin)
      case True
      then show ?thesis using q less(3) p unfolding line_loop_Some [OF Some] by auto
    next
      case False
      obtain r' where "line_loop proc (s', cur') (drop (i + 1) xs) = Ok (st, r')"
        using less(3) p False unfolding line_loop_Some [OF Some]
        by (cases "line_loop proc (s', cur') (drop (i + 1) xs)") auto
      moreover have "length (drop (i + 1) xs) < length xs" using memchr_Some [OF Some] by auto
      ultimately show ?thesis using less(1) q by blast
    qed
  qed
qed

lemma login_sound_line:
  assumes "login_sound u c req" "reqhdr_line u c req line = Ok (req', cur, fin)"
  shows "login_sound u c req'"
proof (cases "is_empty_line line \<or> rq_inRequest req \<or> memchr (CHR '':'') (cstr line) = None")
  case True
  then show ?thesis
    using assms by (auto simp: reqhdr_line_def login_sound_def split: if_splits LoginState.splits)
next
  case False
  then obtain j where j: "memchr (CHR '':'') (cstr line) = Some j" by auto
  let ?h = "line[j := NUL]"
  obtain req1 where c: "checkAuthorization u c req ?h = Ok req1"
      and req': "req' = req1\<lparr>rq_headers := rq_headers req1 @ [?h]\<rparr>"
    using assms(2) False j by (cases "checkAuthorization u c req ?h") (auto simp: reqhdr_line_def)
  show ?thesis
  proof (cases "rq_loginState req = LS_LOGGED_OUT \<and> strcasecmp_eq (line_name ?h) ''Authorization''")
    case False
    then have "req1 = req" using c by (simp add: checkAuthorization_def split: if_splits)
    with False assms(1) req' show ?thesis
      by (cases "rq_loginState req") (auto simp: login_sound_def, metis append_Cons append_assoc)
  next
    case True
    then obtain ok where ok: "auth_isClientAuthorized u c (line_from ?h 14) (reqhdr_getMethod req) = Ok ok"
        "req1 = req\<lparr>rq_loginState := (if ok then LS_LOGGED_IN else LS_LOGIN_FAIL)\<rparr>"
      using c by (cases "auth_isClientAuthorized u c (line_from ?h 14) (reqhdr_getMethod req)")
        (auto simp: checkAuthorization_def)
    have m: "reqhdr_getMethod req = cstr (rq_request req)" using \<open>\<not> (is_empty_line line \<or> _ \<or> _)\<close>
      by (simp add: reqhdr_getMethod_def)
    have none: "\<forall>l \<in> set (rq_headers req). \<not> strcasecmp_eq (line_name l) ''Authorization''"
      using assms(1) True by (simp add: login_sound_def)
    have in1: "\<not> rq_inRequest req" using \<open>\<not> (is_empty_line line \<or> _ \<or> _)\<close> by simp
    show ?thesis
    proof (cases ok)
      case True
      have "\<exists>ls1 l ls2. rq_headers req @ [?h] = ls1 @ l # ls2 \<and> strcasecmp_eq (line_name l) ''Authorization'' \<and>
          (\<forall>k \<in> set ls1. \<not> strcasecmp_eq (line_name k) ''Authorization'') \<and>
          auth_isClientAuthorized u c (line_from l 14) (cstr (rq_request req)) = Ok True"
        using \<open>rq_loginState req = LS_LOGGED_OUT \<and> _\<close> ok(1) True none m
        by (intro exI [of _ "rq_headers req"] exI [of _ ?h] exI [of _ "[]"]) simp
      then show ?thesis using True ok(2) in1 by (simp add: req' login_sound_def)
    next
      case False
      then show ?thesis using \<open>rq_loginState req = LS_LOGGED_OUT \<and> _\<close> ok(2) by (simp add: req' login_sound_def)
    qed
  qed
qed

lemma login_sound_append:
  assumes "login_sound u c req" "reqhdr_appendData u c req xs = Ok (req', r)"
  shows "login_sound u c req'"
proof -
  obtain req1 cur where l: "line_loop (reqhdr_line u c) (req\<lparr>rq_cur := []\<rparr>, rq_cur req) xs = Ok ((req1, cur), r)"
      "req' = req1\<lparr>rq_cur := cur\<rparr>"
    using assms(2)
    by (cases "line_loop (reqhdr_line u c) (req\<lparr>rq_cur := []\<rparr>, rq_cur req) xs")
       (auto simp: reqhdr_appendData_def)
  have cur: "login_sound u c (r'\<lparr>rq_cur := b\<rparr>) = login_sound u c r'" for r' b
    by (cases "rq_loginState r'") (simp_all add: login_sound_def)
  have "login_sound u c (req\<lparr>rq_cur := []\<rparr>)" using assms(1) by (simp only: cur)
  from line_loop_invariant [where Q = "login_sound u c", OF login_sound_line this l(1)]
  have "login_sound u c req1" by simp
  then show ?thesis by (simp only: l(2) cur)
qed

text \<open>C16: Nobody is logged in without a valid \<open>Authorization\<close> header: whatever the client sends, in
  whatever pieces, zero bytes included, when the login state is \<open>LS_LOGGED_IN\<close> the first
  stored \<open>Authorization\<close> header is one \<open>auth_isClientAuthorized\<close> accepts for the method of
  the request; later headers of that name cannot change the outcome, and without one the
  state is \<open>LS_LOGGED_OUT\<close>.\<close>

theorem login_state_sound:
  assumes "feed_pieces (reqhdr_appendData u c) reqhdr_new pieces = Ok (req, r)"
  shows "case reqhdr_getLoginState req of
      LS_LOGGED_OUT \<Rightarrow> \<forall>l \<in> set (rq_headers req). \<not> strcasecmp_eq (line_name l) ''Authorization''
    | LS_LOGGED_IN \<Rightarrow> \<exists>ls1 l ls2. rq_headers req = ls1 @ l # ls2 \<and> strcasecmp_eq (line_name l) ''Authorization'' \<and>
        (\<forall>k \<in> set ls1. \<not> strcasecmp_eq (line_name k) ''Authorization'') \<and>
        auth_isClientAuthorized u c (line_from l 14) (reqhdr_getMethod req) = Ok True
    | LS_LOGIN_FAIL \<Rightarrow> \<exists>l \<in> set (rq_headers req). strcasecmp_eq (line_name l) ''Authorization''"
proof -
  have "login_sound u c req0 \<Longrightarrow> feed_pieces (reqhdr_appendData u c) req0 pieces = Ok (req, r) \<Longrightarrow>
      login_sound u c req" for req0
  proof (induction pieces arbitrary: req0 r)
    case (Cons xs pieces)
    obtain req1 q where a: "reqhdr_appendData u c req0 xs = Ok (req1, q)"
      using Cons.prems(2) by (cases "reqhdr_appendData u c req0 xs") auto
    note s = login_sound_append [OF Cons.prems(1) a]
    show ?case
    proof (cases q)
      case (Some n)
      then show ?thesis using a s Cons.prems(2) by simp
    next
      case None
      then obtain r' where "feed_pieces (reqhdr_appendData u c) req1 pieces = Ok (req, r')"
        using a Cons.prems(2) by (cases "feed_pieces (reqhdr_appendData u c) req1 pieces") auto
      with Cons.IH s show ?thesis by blast
    qed
  qed simp
  moreover have "login_sound u c reqhdr_new" by (simp add: login_sound_def reqhdr_new_def)
  ultimately have "login_sound u c req" using assms by blast
  then show ?thesis
    by (auto simp: login_sound_def reqhdr_getLoginState_def reqhdr_getMethod_def split: LoginState.splits)
qed

theorem login_state_sound_witness:
  "\<exists>req. feed_pieces (reqhdr_appendData NUL config_init) reqhdr_new
      [''GET / HTTP/1.1'' @ CRLF @ ''Authorization: Basic eA=='' @ CRLF @ CRLF] = Ok (req, Some 45) \<and>
    (\<exists>l \<in> set (rq_headers req). strcasecmp_eq (line_name l) ''Authorization'')"
proof -
  let ?p = "[''GET / HTTP/1.1'' @ CRLF @ ''Authorization: Basic eA=='' @ CRLF @ CRLF]"
  have "case feed_pieces (reqhdr_appendData NUL config_init) reqhdr_new ?p of
      Ok (req, r) \<Rightarrow> r = Some 45 \<and> reqhdr_getLoginState req = LS_LOGIN_FAIL | _ \<Rightarrow> False"
    by code_simp
  then obtain req where r: "feed_pieces (reqhdr_appendData NUL config_init) reqhdr_new ?p = Ok (req, Some 45)"
      "reqhdr_getLoginState req = LS_LOGIN_FAIL" by (auto split: cres.splits prod.splits)
  then show ?thesis using login_state_sound [OF r(1)] by auto
qed

subsection \<open>Printing and reading a request\<close>

text \<open>Percent encoding of the bytes a set of characters holds; \<open>hex2\<close> are two hexadecimal digits.\<close>

definition percent_encode :: "(char \<Rightarrow> bool) \<Rightarrow> bytes \<Rightarrow> bytes" where
  "percent_encode P p = concat (map (\<lambda>c. if P c then CHR ''%'' # hex2 (of_char c) else [c]) p)"

lemma hex_digit_check:
  "list_all (\<lambda>v. \<not> is_space (digit_char v) \<and> digit_char v \<notin> set [CHR ''-'', CHR ''+'', NUL, LF, CHR '' ''] \<and>
     digit_val 16 (digit_char v) = Some v) [0..<16]"
  by code_simp

lemma escape_value_digits:
  assumes "a < 16" "b < 16"
  shows "escape_value [digit_char a, digit_char b] = char_of (16 * a + b)"
proof -
  have d: "\<not> is_space (digit_char v)" "digit_char v \<noteq> CHR ''-''" "digit_char v \<noteq> CHR ''+''"
      "digit_val 16 (digit_char v) = Some v" if "v < 16" for v
    using hex_digit_check that by (simp_all add: list_all_iff)
  have "16 * a + b < 256" using assms by simp
  then have "\<not> 2 ^ 64 \<le> 16 * a + b" "(16 * a + b) mod 256 = 16 * a + b" by simp_all
  then show ?thesis
    using d [OF assms(1)] d [OF assms(2)]
    by (simp add: escape_value_def strtoul_def num_of_def Let_def)
qed

lemma escape_hex2:
  "escape_value (hex2 (of_char c)) = c \<and> no_nul (hex2 (of_char c)) \<and> LF \<notin> set (hex2 (of_char c)) \<and>
   CHR '' '' \<notin> set (hex2 (of_char c))"
proof -
  let ?n = "of_char c :: nat"
  have "?n < 256" by (rule nat_of_char_less_256)
  then have ab: "?n div 16 < 16" "?n mod 16 < 16" by (auto simp: div_less_iff_less_mult)
  have "digit_char v \<notin> set [NUL, LF, CHR '' '']" if "v < 16" for v
    using hex_digit_check that by (simp add: list_all_iff)
  from this [OF ab(1)] this [OF ab(2)] show ?thesis
    using escape_value_digits [OF ab] by (auto simp: hex2_def)
qed

lemma decode_encode:
  assumes "P (CHR '' '')" "P (CHR ''?'')" "P (CHR ''%'')" "c = CHR '' '' \<or> c = CHR ''?''"
  shows "decode_path (percent_encode P p @ c # rest) = (p, c # rest)"
proof (induction p)
  case Nil
  then show ?case using assms(4) by (simp add: percent_encode_def)
next
  case (Cons x p)
  show ?case
  proof (cases "P x")
    case True
    obtain a b where h: "hex2 (of_char x) = [a, b]" by (simp add: hex2_def)
    have "percent_encode P (x # p) @ c # rest = CHR ''%'' # a # b # (percent_encode P p @ c # rest)"
      using True h by (simp add: percent_encode_def)
    then show ?thesis using Cons escape_hex2 [of x] h by simp
  next
    case False
    have "percent_encode P (x # p) @ c # rest = x # (percent_encode P p @ c # rest)"
      using False by (simp add: percent_encode_def)
    moreover have "x \<noteq> CHR '' ''" "x \<noteq> CHR ''?''" "x \<noteq> CHR ''%''" using False assms by auto
    ultimately show ?thesis using Cons by simp
  qed
qed

lemma encode_chars:
  assumes "P (CHR '' '')" "P LF" "no_nul p"
  shows "no_nul (percent_encode P p) \<and> LF \<notin> set (percent_encode P p)"
  using assms(3) escape_hex2 assms(1,2)
  by (induction p) (auto simp: percent_encode_def no_nul_def)

definition print_query :: "bytes option \<Rightarrow> bytes" where
  "print_query q = (case q of None \<Rightarrow> [] | Some s \<Rightarrow> ''?'' @ s)"

definition request_line :: "(char \<Rightarrow> bool) \<Rightarrow> bytes \<Rightarrow> bytes \<Rightarrow> bytes option \<Rightarrow> bytes \<Rightarrow> bytes" where
  "request_line P m p q v = m @ '' '' @ percent_encode P p @ print_query q @ '' HTTP/'' @ v"

definition print_request ::
    "(char \<Rightarrow> bool) \<Rightarrow> bytes \<Rightarrow> bytes \<Rightarrow> bytes option \<Rightarrow> bytes \<Rightarrow> (bytes \<times> bytes) list \<Rightarrow> bytes" where
  "print_request P m p q v hs = request_line P m p q v @ CRLF @ concat (map print_header hs) @ CRLF"

text \<open>The bytes that must be escaped, and the strings a request can hold.\<close>

definition request_ok :: "(char \<Rightarrow> bool) \<Rightarrow> bytes \<Rightarrow> bytes \<Rightarrow> bytes option \<Rightarrow> bytes \<Rightarrow> bool" where
  "request_ok P m p q v = (P (CHR '' '') \<and> P (CHR ''?'') \<and> P (CHR ''%'') \<and> P LF \<and>
     no_nul m \<and> LF \<notin> set m \<and> CHR '' '' \<notin> set m \<and> no_nul p \<and> no_nul v \<and> LF \<notin> set v \<and>
     (\<forall>s. q = Some s \<longrightarrow> no_nul s \<and> LF \<notin> set s \<and> CHR '' '' \<notin> set s))"

lemma decode_request_line:
  assumes "request_ok P m p q v" "rq_version req = []"
  shows "decodeRequestStartLine req (request_line P m p q v) =
    req\<lparr>rq_request := m, rq_path := Some p, rq_query := q, rq_version := v\<rparr>"
proof -
  let ?t = "percent_encode P p @ print_query q @ '' HTTP/'' @ v"
  have m: "memchr (CHR '' '') (request_line P m p q v) = Some (length m)"
    using assms(1) unfolding request_line_def request_ok_def
    by (simp add: memchr_append)
  have t: "drop (length m + 1) (request_line P m p q v) = ?t" "take (length m) (request_line P m p q v) = m"
    by (simp_all add: request_line_def)
  have v: "strncmp_eq 5 (''HTTP/'' @ v) ''HTTP/''" using assms(1)
    by (simp add: strncmp_eq_def request_ok_def)
  have p: "cstr p = p" using assms(1) by (simp add: request_ok_def)
  show ?thesis
  proof (cases q)
    case None
    have "decode_path ?t = (p, '' HTTP/'' @ v)"
      using assms(1) decode_encode [of P "CHR '' ''" p "''HTTP/'' @ v"]
      by (simp add: None print_query_def request_ok_def)
    then show ?thesis
      unfolding decodeRequestStartLine_def m option.case t Let_def
      using v p assms(2) None by simp
  next
    case (Some s)
    have s: "CHR '' '' \<notin> set s" using assms(1) Some by (simp add: request_ok_def)
    have d: "decode_path ?t = (p, ''?'' @ s @ '' HTTP/'' @ v)"
      using assms(1) decode_encode [of P "CHR ''?''" p "s @ '' HTTP/'' @ v"]
      by (simp add: Some print_query_def request_ok_def)
    have n: "strcspn (s @ '' HTTP/'' @ v) '' '' = length s"
      using s by (simp add: strcspn_def takeWhile_until)
    show ?thesis
      unfolding decodeRequestStartLine_def m option.case t Let_def d prod.case
      using v p Some n by simp
  qed
qed

lemma request_line_chars:
  "request_ok P m p q v \<Longrightarrow> no_nul (request_line P m p q v) \<and> LF \<notin> set (request_line P m p q v)"
  using encode_chars [of P p]
  by (cases q) (auto simp: request_ok_def request_line_def print_query_def)

text \<open>The login state the headers lead to.\<close>

definition login_of :: "char \<Rightarrow> Config \<Rightarrow> bytes \<Rightarrow> LoginState \<Rightarrow> (bytes \<times> bytes) list \<Rightarrow> LoginState" where
  "login_of u c m l hs = (if l \<noteq> LS_LOGGED_OUT then l
     else case first_header ''Authorization'' hs of
         None \<Rightarrow> LS_LOGGED_OUT
       | Some v \<Rightarrow> if auth_isClientAuthorized u c v m = Ok True then LS_LOGGED_IN else LS_LOGIN_FAIL)"

lemma reqhdr_line_header:
  assumes "header_ok h" "\<not> rq_inRequest req" "no_nul (rq_request req)"
  shows "reqhdr_line u c req (fst h @ '':'' @ snd h) =
    Ok (req\<lparr>rq_headers := rq_headers req @ [stored_header h],
            rq_loginState := login_of u c (rq_request req) (rq_loginState req) [h]\<rparr>, [], False)"
proof -
  have n: "no_nul (fst h @ '':'' @ snd h)" using assms by (simp add: header_ok_def)
  then have e: "\<not> is_empty_line (fst h @ '':'' @ snd h)"
    by (cases "fst h") (auto simp: is_empty_line_def)
  have m: "memchr (CHR '':'') (fst h @ '':'' @ snd h) = Some (length (fst h))"
    using assms(1) by (simp add: header_ok_def memchr_colon)
  have st: "(fst h @ '':'' @ snd h)[length (fst h) := NUL] = stored_header h"
    by (simp add: stored_header_def)
  have nn: "no_nul (fst h)" "no_nul (snd h)" using assms(1) by (simp_all add: header_ok_def)
  have name: "line_name (stored_header h) = fst h" by (rule stored_header_name [OF nn(1)])
  have val: "line_from (stored_header h) 14 = snd h" if "strcasecmp_eq (fst h) ''Authorization''"
  proof -
    have "length (map c_tolower (fst h)) = 13" using that by (simp add: strcasecmp_eq_def)
    then show ?thesis using stored_header_value [OF nn(2)] by simp
  qed
  have meth: "reqhdr_getMethod req = rq_request req" using assms by (simp add: reqhdr_getMethod_def)
  have "NUL \<notin> set (snd h)" using nn(2) by (simp add: no_nul_def)
  then obtain b where b: "auth_isClientAuthorized u c (snd h) (rq_request req) = Ok b"
    using auth_total by blast
  have "checkAuthorization u c req (stored_header h) =
      Ok (req\<lparr>rq_loginState := login_of u c (rq_request req) (rq_loginState req) [h]\<rparr>)"
    using b val by (auto simp: checkAuthorization_def name meth login_of_def first_header_def)
  then show ?thesis
    using assms(2) e by (simp add: reqhdr_line_def cstr_no_nul [OF n] m st del: append.simps append_Cons)
qed

lemma login_of_Cons: "login_of u c m (login_of u c m l [h]) hs = login_of u c m l (h # hs)"
  by (auto simp: login_of_def first_header_def)

lemma reqhdr_loop_headers:
  assumes "\<forall>h \<in> set hs. header_ok h" "\<not> rq_inRequest req" "no_nul (rq_request req)"
  shows "line_loop (reqhdr_line u c) (req, []) (concat (map print_header hs) @ CRLF @ rest) =
    Ok ((req\<lparr>rq_headers := rq_headers req @ map stored_header hs,
             rq_loginState := login_of u c (rq_request req) (rq_loginState req) hs\<rparr>, []),
        Some (length (concat (map print_header hs)) + 2))"
  using assms
proof (induction hs arbitrary: req)
  case Nil
  have "reqhdr_line u c req [] = Ok (req, [], True)"
    using Nil by (simp add: reqhdr_line_def is_empty_line_def)
  moreover have "login_of u c (rq_request req) (rq_loginState req) [] = rq_loginState req"
    by (simp add: login_of_def first_header_def)
  ultimately show ?case using line_loop_line [of "[]" "reqhdr_line u c" req rest] by simp
next
  case (Cons h hs)
  let ?l = "fst h @ '':'' @ snd h"
  let ?r = "req\<lparr>rq_headers := rq_headers req @ [stored_header h],
            rq_loginState := login_of u c (rq_request req) (rq_loginState req) [h]\<rparr>"
  have ok: "header_ok h" using Cons.prems by simp
  then have l: "no_nul ?l" "LF \<notin> set ?l" by (auto simp: header_ok_def)
  have p: "concat (map print_header (h # hs)) @ CRLF @ rest =
      ?l @ CRLF @ (concat (map print_header hs) @ CRLF @ rest)"
    by (simp add: print_header_def)
  have len: "length (concat (map print_header (h # hs))) = length ?l + 2 + length (concat (map print_header hs))"
    by (simp add: print_header_def)
  have IH: "line_loop (reqhdr_line u c) (?r, []) (concat (map print_header hs) @ CRLF @ rest) =
      Ok ((?r\<lparr>rq_headers := rq_headers ?r @ map stored_header hs,
              rq_loginState := login_of u c (rq_request ?r) (rq_loginState ?r) hs\<rparr>, []),
          Some (length (concat (map print_header hs)) + 2))"
    using Cons.prems by (intro Cons.IH) simp_all
  show ?case
    unfolding p len line_loop_line [OF l] reqhdr_line_header [OF ok Cons.prems(2,3)]
    by (simp only: cbind_simps prod.case if_False IH) (simp add: login_of_Cons)
qed

lemma reqhdr_append_request:
  assumes "request_ok P m p q v" "\<forall>h \<in> set hs. header_ok h"
  shows "reqhdr_appendData u c reqhdr_new (print_request P m p q v hs) =
    Ok (\<lparr>rq_request = m, rq_path = Some p, rq_query = q, rq_version = v, rq_headers = map stored_header hs,
         rq_inRequest = False, rq_loginState = login_of u c m LS_LOGGED_OUT hs, rq_cur = []\<rparr>,
        Some (length (print_request P m p q v hs)))"
proof -
  let ?l = "request_line P m p q v"
  let ?hs = "concat (map print_header hs)"
  have l: "no_nul ?l" "LF \<notin> set ?l" using request_line_chars [OF assms(1)] by blast+
  have "?l \<noteq> []" by (simp add: request_line_def)
  then have e: "\<not> is_empty_line ?l" using l(1) by (cases ?l) (auto simp: is_empty_line_def)
  let ?r = "reqhdr_new\<lparr>rq_request := m, rq_path := Some p, rq_query := q, rq_version := v, rq_inRequest := False\<rparr>"
  have "reqhdr_line u c reqhdr_new ?l = Ok ((decodeRequestStartLine reqhdr_new ?l)\<lparr>rq_inRequest := False\<rparr>, [], False)"
    using e by (simp add: reqhdr_line_def cstr_no_nul [OF l(1)]) (simp add: reqhdr_new_def)
  also have "(decodeRequestStartLine reqhdr_new ?l)\<lparr>rq_inRequest := False\<rparr> = ?r"
    by (subst decode_request_line [OF assms(1)]) (simp_all add: reqhdr_new_def)
  finally have line: "reqhdr_line u c reqhdr_new ?l = Ok (?r, [], False)" .
  have "no_nul (rq_request ?r)" "\<not> rq_inRequest ?r" using assms(1) by (simp_all add: request_ok_def)
  note hdrs = reqhdr_loop_headers [OF assms(2) this(2,1), of u c "[]"]
  have "line_loop (reqhdr_line u c) (reqhdr_new, []) (?l @ CRLF @ (?hs @ CRLF @ [])) =
      Ok ((?r\<lparr>rq_headers := rq_headers ?r @ map stored_header hs,
               rq_loginState := login_of u c (rq_request ?r) (rq_loginState ?r) hs\<rparr>, []),
          Some (length ?l + 2 + (length ?hs + 2)))"
    unfolding line_loop_line [OF l] line by (simp only: cbind_simps prod.case if_False hdrs) simp
  then show ?thesis
    by (simp add: reqhdr_appendData_def print_request_def) (simp add: reqhdr_new_def)
qed

text \<open>C15: Round trip of requests: a request line with the path percent-encoded (any set of
  bytes that includes blank, \<open>?\<close>, \<open>%\<close> and newline may be escaped), an optional query, the
  version and header lines is read back whatever pieces it arrives in and whatever follows it:
  the consumed length is exact, method, decoded path, undecoded query, version and headers
  are the ones printed, a look-up finds the first header of a name, and the login state is decided by the
  first \<open>Authorization\<close> header.\<close>

theorem reqhdr_roundtrip:
  assumes "request_ok P m p q v" and "\<forall>h \<in> set hs. header_ok h"
    and "concat pieces = print_request P m p q v hs @ body"
  shows "\<exists>req. feed_pieces (reqhdr_appendData u c) reqhdr_new pieces =
      Ok (req, Some (length (print_request P m p q v hs))) \<and>
    reqhdr_getMethod req = m \<and> reqhdr_getPath req = Some p \<and> reqhdr_getQuery req = q \<and>
    reqhdr_getVersion req = v \<and>
    (\<forall>i < length hs. reqhdr_getHeaderAt req i = Some (fst (hs ! i), skip_blanks (snd (hs ! i)))) \<and>
    reqhdr_getHeaderAt req (length hs) = None \<and>
    reqhdr_getHeaderVal req name = map_option skip_blanks (first_header name hs) \<and>
    reqhdr_getLoginState req = login_of u c m LS_LOGGED_OUT hs"
proof -
  let ?req = "\<lparr>rq_request = m, rq_path = Some p, rq_query = q, rq_version = v, rq_headers = map stored_header hs,
     rq_inRequest = False, rq_loginState = login_of u c m LS_LOGGED_OUT hs, rq_cur = []\<rparr>"
  have inv: "reqhdr_inv reqhdr_new" by (simp add: reqhdr_inv_def reqhdr_new_def)
  have nn: "no_nul (print_request P m p q v hs)"
    using request_line_chars [OF assms(1)] no_nul_headers [OF assms(2)]
    by (simp add: print_request_def)
  have "feed_pieces (reqhdr_appendData u c) reqhdr_new pieces = Ok (?req, Some (length (print_request P m p q v hs)))"
    by (rule reqhdr.feed_pieces_done [OF inv nn reqhdr_append_request [OF assms(1,2)] assms(3)])
  moreover have "reqhdr_getHeaderAt ?req i = Some (fst (hs ! i), skip_blanks (snd (hs ! i)))" if "i < length hs" for i
  proof -
    have h: "header_ok (hs ! i)" using assms(2) that by simp
    then have n: "no_nul (fst (hs ! i))" "no_nul (snd (hs ! i))" by (simp_all add: header_ok_def)
    have "strlen (stored_header (hs ! i)) = length (fst (hs ! i))"
      using stored_header_name [OF n(1)] by (simp add: strlen_def line_name_def)
    then show ?thesis
      using that stored_header_name [OF n(1)] stored_header_value [OF n(2)]
      by (simp add: reqhdr_getHeaderAt_def)
  qed
  moreover have "no_nul m" using assms(1) by (simp add: request_ok_def)
  ultimately show ?thesis
    using header_val_stored [OF assms(2), of name]
    by (intro exI [of _ ?req]) (simp add: reqhdr_getHeaderAt_def reqhdr_getHeaderVal_def
        reqhdr_getMethod_def reqhdr_getPath_def reqhdr_getQuery_def reqhdr_getVersion_def reqhdr_getLoginState_def)
qed

theorem reqhdr_roundtrip_witness:
  "\<exists>req. feed_pieces (reqhdr_appendData NUL config_init) reqhdr_new
      [''GET /a%20b%3'', ''f?x=%20 HTTP/1.1'' @ [CR], LF # ''Host: h'' @ CRLF @ CRLF @ [NUL, NUL]] = Ok (req, Some 41) \<and>
     reqhdr_getPath req = Some ''/a b?'' \<and> reqhdr_getQuery req = Some ''x=%20'' \<and>
     reqhdr_getVersion req = ''1.1'' \<and> reqhdr_getHeaderVal req ''HOST'' = Some ''h'' \<and>
     reqhdr_getLoginState req = LS_LOGGED_OUT"
proof -
  let ?P = "\<lambda>c. c \<in> set ('' ?%'' @ [LF])"
  let ?hs = "[(''Host'', '' h'')]"
  let ?p = "[''GET /a%20b%3'', ''f?x=%20 HTTP/1.1'' @ [CR], LF # ''Host: h'' @ CRLF @ CRLF @ [NUL, NUL]]"
  have ok: "request_ok ?P ''GET'' ''/a b?'' (Some ''x=%20'') ''1.1''" by (simp add: request_ok_def)
  have h: "\<forall>h \<in> set ?hs. header_ok h" by (simp add: header_ok_def)
  have e: "percent_encode ?P ''/a b?'' = ''/a%20b%3f''" by code_simp
  have pr: "print_request ?P ''GET'' ''/a b?'' (Some ''x=%20'') ''1.1'' ?hs =
      ''GET /a%20b%3f?x=%20 HTTP/1.1'' @ CRLF @ ''Host: h'' @ CRLF @ CRLF"
    by (simp only: print_request_def request_line_def e) (simp add: print_query_def print_header_def)
  have c: "concat ?p = print_request ?P ''GET'' ''/a b?'' (Some ''x=%20'') ''1.1'' ?hs @ [NUL, NUL]"
    unfolding pr by simp
  have n: "length (print_request ?P ''GET'' ''/a b?'' (Some ''x=%20'') ''1.1'' ?hs) = 41" unfolding pr by simp
  have v: "first_header ''HOST'' ?hs = Some '' h''" "skip_blanks '' h'' = ''h''"
    "login_of NUL config_init ''GET'' LS_LOGGED_OUT ?hs = LS_LOGGED_OUT" by code_simp+
  show ?thesis
    using reqhdr_roundtrip [OF ok h c, of NUL config_init "''HOST''", unfolded n v] v(2)
    by (auto simp del: append.simps)
qed

end
