(* ===== verification/Contentpart.thy ===== *)
theory Contentpart
  imports Dataheader
begin

text \<open>
  \<open>src/contentpart.c\<close>: one part of a multipart body, stored in memory or, when its
  \<open>Content-Disposition\<close> names a file, in a file.  \<open>cp_file\<close> is the content written to the open
  file so far (\<open>None\<close> for descriptor -1).  The answers of the file system are arguments: of
  \<open>open\<close>, \<open>mkstemp\<close>, \<open>link\<close> and \<open>rename\<close> functions of their names, of \<open>write\<close> a list that is
  used up call by call (a \<open>write\<close> beyond its end stores everything).  \<open>cp_calls\<close> records the
  calls that change the file system, in order.
\<close>

datatype FsCall = FsCreate bytes | FsUnlink bytes | FsLink bytes bytes | FsRename bytes bytes |
  FsMkdir bytes | FsRmdir bytes | FsChmod bytes nat

text \<open>\<open>Some errno\<close> is a failure; \<open>mkstemp\<close> gives \<open>Inl errno\<close> or the name it created.\<close>

record UploadFs =
  uf_open :: "bytes \<Rightarrow> nat option"
  uf_mkstemp :: "bytes \<Rightarrow> nat + bytes"
  uf_link :: "bytes \<Rightarrow> bytes \<Rightarrow> nat option"
  uf_rename :: "bytes \<Rightarrow> bytes \<Rightarrow> nat option"

record ContentPart =
  cp_header :: DataHeader
  cp_destDir :: "bytes option"
  cp_filePathName :: "bytes option"
  cp_name :: "bytes option"
  cp_fileName :: "bytes option"
  cp_file :: "bytes option"
  cp_sysErrNo :: nat
  cp_body :: "bytes option"
  cp_calls :: "FsCall list"

definition cpart_new :: "bytes option \<Rightarrow> ContentPart" where
  "cpart_new destDir = \<lparr>cp_header = datahdr_new, cp_destDir = destDir, cp_filePathName = None,
     cp_name = None, cp_fileName = None, cp_file = None, cp_sysErrNo = 0, cp_body = None, cp_calls = []\<rparr>"

text \<open>The loop over the parameters of \<open>Content-Disposition\<close>.\<close>

fun cp_params :: "(DataChunk \<times> DataChunk) list \<Rightarrow> ContentPart \<Rightarrow> ContentPart" where
  "cp_params [] cp = cp"
| "cp_params ((n, v) # ps) cp =
     (if dch_equalsStrIgnoreCase n ''name'' then cp_params ps (cp\<lparr>cp_name := Some (dup v)\<rparr>)
      else if dch_equalsStrIgnoreCase n ''filename'' \<and> dc_len v \<noteq> 0
      then cp_params ps (cp\<lparr>cp_fileName := Some (dup v)\<rparr>)
      else cp_params ps cp)"

definition cp_disposition :: "ContentPart \<Rightarrow> ContentPart" where
  "cp_disposition cp =
     (case datahdr_getHeaderVal (cp_header cp) ''Content-Disposition'' of
        None \<Rightarrow> cp
      | Some v \<Rightarrow>
          (let (found, d) = dch_shiftAfterChr (dch_initWithStr (Some (v @ [NUL]))) (CHR '';'') in
           if found then cp_params (dch_params d (CHR '';'')) cp else cp))"

text \<open>Opening the output file, for the file name \<open>f\<close>.\<close>

definition cp_open :: "UploadFs \<Rightarrow> ContentPart \<Rightarrow> bytes \<Rightarrow> ContentPart" where
  "cp_open fs cp f =
     (case cp_destDir cp of
        None \<Rightarrow> cp
      | Some d \<Rightarrow>
          (let path = with_slash d @ f in
           case uf_open fs path of
             None \<Rightarrow> cp\<lparr>cp_filePathName := Some path, cp_file := Some [], cp_calls := cp_calls cp @ [FsCreate path]\<rparr>
           | Some e \<Rightarrow>
               (if e = EEXIST then
                  (case uf_mkstemp fs (with_slash d @ ''fmgrXXXXXX'') of
                     Inr tmp \<Rightarrow> cp\<lparr>cp_filePathName := Some tmp, cp_file := Some [],
                                   cp_calls := cp_calls cp @ [FsCreate tmp]\<rparr>
                   | Inl e' \<Rightarrow> cp\<lparr>cp_filePathName := Some (with_slash d @ ''fmgrXXXXXX''), cp_sysErrNo := e'\<rparr>)
                else cp\<lparr>cp_filePathName := Some path, cp_sysErrNo := e\<rparr>)))"

text \<open>What happens once the header is complete.\<close>

definition cp_start :: "UploadFs \<Rightarrow> ContentPart \<Rightarrow> ContentPart" where
  "cp_start fs cp =
     (let cp1 = cp_disposition cp in
      case cp_fileName cp1 of
        Some f \<Rightarrow> cp_open fs cp1 f
      | None \<Rightarrow> cp1\<lparr>cp_body := Some []\<rparr>)"

text \<open>The loop over \<open>write\<close>; an error closes and removes the file.\<close>

fun cp_write :: "WriteAns list \<Rightarrow> ContentPart \<Rightarrow> bytes \<Rightarrow> ContentPart \<times> WriteAns list" where
  "cp_write as cp data =
     (case cp_file cp of
        None \<Rightarrow> (cp, as)
      | Some c \<Rightarrow>
          (if data = [] then (cp, as)
           else case as of
               [] \<Rightarrow> (cp\<lparr>cp_file := Some (c @ data)\<rparr>, [])
             | WErr e # as' \<Rightarrow>
                 (cp\<lparr>cp_file := None, cp_sysErrNo := e,
                     cp_calls := cp_calls cp @ [FsUnlink (the (cp_filePathName cp))]\<rparr>, as')
             | Wrote n # as' \<Rightarrow> cp_write as' (cp\<lparr>cp_file := Some (c @ take n data)\<rparr>) (drop n data)))"

declare cp_write.simps [simp del]

definition cp_store :: "WriteAns list \<Rightarrow> ContentPart \<Rightarrow> bytes \<Rightarrow> (ContentPart \<times> WriteAns list) cres" where
  "cp_store as cp rest =
     (case cp_fileName cp of
        Some _ \<Rightarrow> Ok (cp_write as cp rest)
      | None \<Rightarrow> (case cp_body cp of
          None \<Rightarrow> Undef
        | Some b \<Rightarrow> Ok (cp\<lparr>cp_body := Some (b @ rest)\<rparr>, as)))"

definition cpart_appendData ::
    "UploadFs \<Rightarrow> WriteAns list \<Rightarrow> ContentPart \<Rightarrow> bytes \<Rightarrow> (ContentPart \<times> WriteAns list) cres" where
  "cpart_appendData fs as cp data =
     (if cp_fileName cp = None \<and> cp_body cp = None then
        cbind (datahdr_appendData (cp_header cp) data) (\<lambda>(h, r).
          case r of
            None \<Rightarrow> Ok (cp\<lparr>cp_header := h\<rparr>, as)
          | Some n \<Rightarrow> cp_store as (cp_start fs (cp\<lparr>cp_header := h\<rparr>)) (drop n data))
      else cp_store as cp data)"

definition cpart_getName :: "ContentPart \<Rightarrow> bytes option" where
  "cpart_getName cp = cp_name cp"

definition cpart_nameEquals :: "ContentPart \<Rightarrow> bytes \<Rightarrow> bool" where
  "cpart_nameEquals cp name = (cp_name cp = Some name)"

definition cpart_getFileName :: "ContentPart \<Rightarrow> bytes option" where
  "cpart_getFileName cp = cp_fileName cp"

definition cpart_getFilePathName :: "ContentPart \<Rightarrow> bytes option" where
  "cpart_getFilePathName cp = cp_filePathName cp"

definition cpart_getDataStr :: "ContentPart option \<Rightarrow> bytes option" where
  "cpart_getDataStr cp = (case cp of None \<Rightarrow> None | Some c \<Rightarrow> map_option cstr (cp_body c))"

text \<open>\<open>cpart_finishUpload\<close>: the part, the result and, when it is false, the error number.\<close>

definition cpart_finishUpload ::
    "UploadFs \<Rightarrow> ContentPart \<Rightarrow> bytes option \<Rightarrow> bool \<Rightarrow> ContentPart \<times> bool \<times> nat option" where
  "cpart_finishUpload fs cp targetName replaceIfExists =
     (case cp_file cp of
        None \<Rightarrow> (cp, False, Some (cp_sysErrNo cp))
      | Some c \<Rightarrow>
          (let t0 = (case targetName of Some t \<Rightarrow> t | None \<Rightarrow> the (cp_fileName cp));
               t = (if t0 = [] \<or> hd t0 \<noteq> CHR ''/'' then with_slash (the (cp_destDir cp)) @ t0 else t0);
               path = the (cp_filePathName cp)
           in if path = t then (cp\<lparr>cp_file := None\<rparr>, True, None)
              else if replaceIfExists then
                (let cp1 = cp\<lparr>cp_calls := cp_calls cp @ [FsRename path t]\<rparr> in
                 case uf_rename fs path t of
                   None \<Rightarrow> (cp1\<lparr>cp_file := None\<rparr>, True, None)
                 | Some e \<Rightarrow> (cp1\<lparr>cp_sysErrNo := e\<rparr>, False, Some e))
              else
                (case uf_link fs path t of
                   None \<Rightarrow> (cp\<lparr>cp_file := None, cp_calls := cp_calls cp @ [FsLink path t, FsUnlink path]\<rparr>, True, None)
                 | Some e \<Rightarrow> (cp\<lparr>cp_calls := cp_calls cp @ [FsLink path t], cp_sysErrNo := e\<rparr>, False, Some e))))"

text \<open>\<open>cpart_free\<close>: the calls made by the object over its life.\<close>

definition cpart_free :: "ContentPart \<Rightarrow> FsCall list" where
  "cpart_free cp = cp_calls cp @
     (case cp_file cp of None \<Rightarrow> [] | Some _ \<Rightarrow> [FsUnlink (the (cp_filePathName cp))])"

subsection \<open>Correctness\<close>

text \<open>Feeding a part piece by piece, as the multipart parser does.\<close>

fun feed_part :: "UploadFs \<Rightarrow> WriteAns list \<Rightarrow> ContentPart \<Rightarrow> bytes list \<Rightarrow> (ContentPart \<times> WriteAns list) cres" where
  "feed_part fs as cp [] = Ok (cp, as)"
| "feed_part fs as cp (p # ps) =
     cbind (cpart_appendData fs as cp p) (\<lambda>(cp', as'). feed_part fs as' cp' ps)"

text \<open>The header is complete.\<close>

definition cp_ready :: "ContentPart \<Rightarrow> bool" where
  "cp_ready cp = (cp_fileName cp \<noteq> None \<or> cp_body cp \<noteq> None)"

definition no_errors :: "WriteAns list \<Rightarrow> bool" where
  "no_errors as = (\<forall>a \<in> set as. \<exists>n. a = Wrote n)"

lemma cp_write_stores:
  "no_errors as \<Longrightarrow> \<exists>as'. no_errors as' \<and>
     cp_write as cp data = (cp\<lparr>cp_file := map_option (\<lambda>c. c @ data) (cp_file cp)\<rparr>, as')"
proof (induction as cp data rule: cp_write.induct)
  case (1 as cp data)
  show ?case
  proof (cases "cp_file cp = None \<or> data = []")
    case True
    then have "cp\<lparr>cp_file := map_option (\<lambda>c. c @ data) (cp_file cp)\<rparr> = cp"
      by (cases "cp_file cp"; cases cp) auto
    with True 1(2) show ?thesis by (subst cp_write.simps) (auto split: option.splits)
  next
    case False
    then obtain c where c: "cp_file cp = Some c" and d: "data \<noteq> []" by auto
    show ?thesis
    proof (cases as)
      case Nil
      with c d 1(2) show ?thesis by (subst cp_write.simps) simp
    next
      case (Cons a as')
      then obtain n where n: "a = Wrote n" and as': "no_errors as'"
        using 1(2) by (auto simp: no_errors_def)
      from 1(1) [OF c d Cons n as'] obtain as2 where
        "no_errors as2" "cp_write as' (cp\<lparr>cp_file := Some (c @ take n data)\<rparr>) (drop n data) =
          ((cp\<lparr>cp_file := Some (c @ take n data)\<rparr>)\<lparr>cp_file := map_option (\<lambda>c. c @ drop n data) (Some (c @ take n data))\<rparr>, as2)"
        by auto
      then show ?thesis
        using c d Cons n by (subst cp_write.simps) simp
    qed
  qed
qed

text \<open>The part with more data stored.\<close>

definition cp_stored :: "ContentPart \<Rightarrow> bytes \<Rightarrow> ContentPart" where
  "cp_stored cp d = (if cp_fileName cp \<noteq> None then cp\<lparr>cp_file := map_option (\<lambda>c. c @ d) (cp_file cp)\<rparr>
     else cp\<lparr>cp_body := map_option (\<lambda>b. b @ d) (cp_body cp)\<rparr>)"

lemma cp_stored_simps [simp]:
  "cp_fileName (cp_stored cp d) = cp_fileName cp" "cp_ready (cp_stored cp d) = cp_ready cp"
  "cp_stored (cp_stored cp d) e = cp_stored cp (d @ e)"
  by (auto simp: cp_stored_def cp_ready_def option.map_comp comp_def)

lemma cp_stored_Nil: "cp_ready cp \<Longrightarrow> cp_stored cp [] = cp"
  by (cases "cp_file cp"; cases "cp_body cp"; cases cp) (auto simp: cp_stored_def)

lemma cp_store_ok:
  assumes "cp_ready cp" "no_errors as"
  shows "\<exists>as'. no_errors as' \<and> cp_store as cp d = Ok (cp_stored cp d, as')"
proof (cases "cp_fileName cp")
  case None
  then obtain b where "cp_body cp = Some b" using assms(1) by (auto simp: cp_ready_def)
  with None assms(2) show ?thesis by (auto simp: cp_store_def cp_stored_def)
next
  case (Some f)
  then show ?thesis using cp_write_stores [OF assms(2), of cp d]
    by (auto simp: cp_store_def cp_stored_def)
qed

lemma feed_part_ready:
  "cp_ready cp \<Longrightarrow> no_errors as \<Longrightarrow>
     \<exists>as'. no_errors as' \<and> feed_part fs as cp ps = Ok (cp_stored cp (concat ps), as')"
proof (induction ps arbitrary: cp as)
  case Nil
  then show ?case by (simp add: cp_stored_Nil)
next
  case (Cons p ps)
  obtain as1 where s: "no_errors as1" "cp_store as cp p = Ok (cp_stored cp p, as1)"
    using cp_store_ok [OF Cons.prems] by blast
  then have "cpart_appendData fs as cp p = Ok (cp_stored cp p, as1)"
    using Cons.prems(1) by (auto simp: cpart_appendData_def cp_ready_def)
  moreover have "cp_ready (cp_stored cp p)" using Cons.prems(1) by simp
  ultimately show ?case using Cons.IH [of "cp_stored cp p" as1] s(1) by simp
qed

lemma cp_start_ready: "cp_ready (cp_start fs cp)"
  by (auto simp: cp_start_def cp_ready_def cp_open_def Let_def split: option.splits sum.splits)

lemma datahdr_line_total: "\<exists>r. datahdr_line ls line = Ok r"
  by (cases "is_empty_line line"; cases "memchr (CHR '':'') (cstr line)") (auto simp: datahdr_line_def)

lemma line_loop_total:
  assumes "\<And>s line. \<exists>r. proc s line = Ok r"
  shows "\<exists>r. line_loop proc st xs = Ok r"
proof (induction "length xs" arbitrary: st xs rule: less_induct)
  case less
  show ?case
  proof (cases "memchr LF xs")
    case None
    then show ?thesis by (subst line_loop.simps) simp
  next
    case (Some i)
    obtain s' cur' fin where p: "proc (fst st) (chop_cr (cstr (snd st) @ take i xs)) = Ok (s', cur', fin)"
      using assms by (metis prod_cases3)
    have "length (drop (i + 1) xs) < length xs" using memchr_Some [OF Some] by auto
    from less [OF this, of "(s', cur')"] obtain r where "line_loop proc (s', cur') (drop (i + 1) xs) = Ok r"
      by blast
    then show ?thesis using line_loop_Some [OF Some, of proc "fst st" "snd st"] p
      by (cases r) simp
  qed
qed

lemma cp_store_none: "cp_ready cp \<Longrightarrow> cp_store [] cp d = Ok (cp_stored cp d, [])"
  using cp_store_ok [of cp "[]" d]
  by (auto simp: cp_store_def cp_write.simps no_errors_def split: option.splits if_splits)

text \<open>Without write errors the part does not depend on how \<open>write\<close> splits the data up.\<close>

lemma cpart_appendData_split:
  assumes "no_errors as"
  shows "\<exists>cp' as'. cpart_appendData fs as cp d = Ok (cp', as') \<and> no_errors as' \<and>
    cpart_appendData fs [] cp d = Ok (cp', [])"
proof (cases "cp_ready cp")
  case True
  then show ?thesis using cp_store_ok [OF True assms, of d] cp_store_none [OF True, of d]
    by (auto simp: cpart_appendData_def cp_ready_def)
next
  case False
  obtain h r where h: "datahdr_appendData (cp_header cp) d = Ok (h, r)"
    using line_loop_total [where proc = datahdr_line and xs = d and
      st = "(dh_lines (cp_header cp), dh_cur (cp_header cp))", OF datahdr_line_total]
    by (auto simp: datahdr_appendData_def)
  show ?thesis
  proof (cases r)
    case None
    then show ?thesis using False h assms by (auto simp: cpart_appendData_def cp_ready_def)
  next
    case (Some n)
    show ?thesis
      using False h Some cp_store_ok [OF cp_start_ready assms, of fs "cp\<lparr>cp_header := h\<rparr>" "drop n d"]
        cp_store_none [OF cp_start_ready, of fs "cp\<lparr>cp_header := h\<rparr>" "drop n d"]
      by (auto simp: cpart_appendData_def cp_ready_def)
  qed
qed

lemma feed_part_append:
  "feed_part fs as cp (ps @ qs) = cbind (feed_part fs as cp ps) (\<lambda>(cp', as'). feed_part fs as' cp' qs)"
proof (induction ps arbitrary: as cp)
  case Nil
  show ?case by simp
next
  case (Cons p ps)
  then show ?case by (cases "cpart_appendData fs as cp p") auto
qed

lemma feed_part_header:
  assumes "cp_fileName cp = None" "cp_body cp = None" "no_errors as"
  shows "datahdr_inv (cp_header cp) \<Longrightarrow> no_nul hdr \<Longrightarrow>
    datahdr_appendData (cp_header cp) hdr = Ok (t, Some (length hdr)) \<Longrightarrow> concat ps = hdr @ body \<Longrightarrow>
    \<exists>as'. feed_part fs as cp ps = Ok (cp_stored (cp_start fs (cp\<lparr>cp_header := t\<rparr>)) body, as')"
  using assms
proof (induction ps arbitrary: cp hdr)
  case Nil
  then have "hdr = []" by simp
  with Nil show ?case using datahdr.feed_nil by fastforce
next
  case (Cons p ps)
  from Cons.prems(4) have eq: "p @ concat ps = hdr @ body" by simp
  consider ys where "p = hdr @ ys" "body = ys @ concat ps" | ys where "hdr = p @ ys" "concat ps = ys @ body" "ys \<noteq> []"
    using eq by (auto simp: append_eq_append_conv2) (metis append_Nil2 self_append_conv2)+
  then show ?case
  proof cases
    case 1
    let ?cp = "cp_start fs (cp\<lparr>cp_header := t\<rparr>)"
    have "datahdr_appendData (cp_header cp) p = Ok (t, Some (length hdr))"
      using datahdr.feed_done [OF Cons.prems(1-3)] 1(1) by simp
    then have a: "cpart_appendData fs as cp p = cp_store as ?cp ys"
      using Cons.prems(5,6) 1(1) by (simp add: cpart_appendData_def)
    obtain as1 where s: "no_errors as1" "cp_store as ?cp ys = Ok (cp_stored ?cp ys, as1)"
      using cp_store_ok [OF cp_start_ready Cons.prems(7)] by blast
    have "cp_ready (cp_stored ?cp ys)" using cp_start_ready by simp
    from feed_part_ready [OF this s(1), of fs ps] show ?thesis
      using a s 1(2) by auto
  next
    case 2
    have okp: "no_nul p" "no_nul ys" using Cons.prems(2) 2(1) by simp_all
    obtain u r where f: "datahdr_appendData (cp_header cp) p = Ok (u, r)"
      using datahdr.feed_defined [OF Cons.prems(1) okp(1)] by auto
    have "r = None"
    proof (rule ccontr)
      assume "r \<noteq> None"
      then obtain m where "r = Some m" by auto
      then have "m \<le> length p" "datahdr_appendData (cp_header cp) hdr = Ok (u, Some m)"
        using datahdr.feed_done [OF Cons.prems(1) okp(1)] f 2(1) by auto
      then show False using Cons.prems(3) 2(1,3) by simp
    qed
    with f have f: "datahdr_appendData (cp_header cp) p = Ok (u, None)" by simp
    have a: "cpart_appendData fs as cp p = Ok (cp\<lparr>cp_header := u\<rparr>, as)"
      using Cons.prems(5,6) f by (simp add: cpart_appendData_def)
    have inv: "datahdr_inv u" using datahdr.feed_inv [OF Cons.prems(1) okp(1) f] .
    have "datahdr_appendData u ys = Ok (t, Some (length ys))"
    proof -
      obtain v q where v: "datahdr_appendData u ys = Ok (v, q)"
        using datahdr.feed_defined [OF inv okp(2)] by auto
      have "cbind (datahdr_appendData u ys) (\<lambda>(w, r). Ok (w, map_option ((+) (length p)) r)) = Ok (t, Some (length hdr))"
        using datahdr.feed_more [OF Cons.prems(1) okp(1) f, of ys] Cons.prems(3) 2(1) by simp
      then show ?thesis using v 2(1) by (cases q) auto
    qed
    then show ?thesis
      using Cons.IH [of "cp\<lparr>cp_header := u\<rparr>" ys] inv okp(2) 2(2) Cons.prems(5-7) a by simp
  qed
qed

text \<open>The control name and the file name of a part, from the parameters of its disposition.\<close>

definition part_name :: "(bytes \<times> bytes) list \<Rightarrow> bytes option" where
  "part_name ps = map_option snd (find (\<lambda>p. strcasecmp_eq (fst p) ''name'') (rev ps))"

definition part_file :: "(bytes \<times> bytes) list \<Rightarrow> bytes option" where
  "part_file ps = map_option snd (find (\<lambda>p. strcasecmp_eq (fst p) ''filename'' \<and> snd p \<noteq> []) (rev ps))"

lemma find_append: "find P (xs @ ys) = (case find P xs of Some x \<Rightarrow> Some x | None \<Rightarrow> find P ys)"
  by (induction xs) auto

lemma part_simps:
  "part_name [] = None" "part_file [] = None"
  "part_name ((n, v) # ps) = (case part_name ps of Some x \<Rightarrow> Some x | None \<Rightarrow>
     if strcasecmp_eq n ''name'' then Some v else None)"
  "part_file ((n, v) # ps) = (case part_file ps of Some x \<Rightarrow> Some x | None \<Rightarrow>
     if strcasecmp_eq n ''filename'' \<and> v \<noteq> [] then Some v else None)"
  by (auto simp: part_name_def part_file_def find_append split: option.splits)

lemma name_not_filename: "strcasecmp_eq n ''name'' \<Longrightarrow> \<not> strcasecmp_eq n ''filename''"
proof -
  assume "strcasecmp_eq n ''name''"
  then have "length n = 4" unfolding strcasecmp_eq_def by (drule_tac map_eq_imp_length_eq) simp
  then show ?thesis unfolding strcasecmp_eq_def by (auto dest: map_eq_imp_length_eq)
qed

lemma cp_params_bytes:
  "\<forall>(n, v) \<in> set qs. dch_wf n \<and> dch_wf v \<and> no_nul (dch_bytes v) \<Longrightarrow>
   cp_params qs cp = (let ps = map pbytes qs in
     cp\<lparr>cp_name := (case part_name ps of Some x \<Rightarrow> Some x | None \<Rightarrow> cp_name cp),
        cp_fileName := (case part_file ps of Some x \<Rightarrow> Some x | None \<Rightarrow> cp_fileName cp)\<rparr>)"
proof (induction qs cp rule: cp_params.induct)
  case (1 cp)
  then show ?case by (simp add: part_simps)
next
  case (2 n v qs cp)
  have wf: "dch_wf n" "dch_wf v" "no_nul (dch_bytes v)" using 2(4) by auto
  have rest: "\<forall>(n, v) \<in> set qs. dch_wf n \<and> dch_wf v \<and> no_nul (dch_bytes v)" using 2(4) by auto
  have d: "dup v = dch_bytes v"
    using wf(3) by (simp add: dup_def dch_dupToStr_def cstr_append_NUL no_nul_def)
  have l: "dc_len v \<noteq> 0 \<longleftrightarrow> dch_bytes v \<noteq> []" using dch_bytes_Nil_iff [OF wf(2)] by simp
  note eq = dch_equalsStrIgnoreCase_bytes [OF wf(1)]
  have map: "map pbytes ((n, v) # qs) = (dch_bytes n, dch_bytes v) # map pbytes qs" by simp
  consider (nm) "strcasecmp_eq (dch_bytes n) ''name''"
    | (fn) "\<not> strcasecmp_eq (dch_bytes n) ''name''" "strcasecmp_eq (dch_bytes n) ''filename''" "dch_bytes v \<noteq> []"
    | (no) "\<not> strcasecmp_eq (dch_bytes n) ''name''" "\<not> (strcasecmp_eq (dch_bytes n) ''filename'' \<and> dch_bytes v \<noteq> [])"
    by blast
  then show ?case
  proof cases
    case nm
    have "cp_params ((n, v) # qs) cp = cp_params qs (cp\<lparr>cp_name := Some (dch_bytes v)\<rparr>)"
      using nm by (simp add: eq d)
    also have "\<dots> = (let ps = map pbytes qs in (cp\<lparr>cp_name := Some (dch_bytes v)\<rparr>)
        \<lparr>cp_name := (case part_name ps of Some x \<Rightarrow> Some x | None \<Rightarrow> Some (dch_bytes v)),
         cp_fileName := (case part_file ps of Some x \<Rightarrow> Some x | None \<Rightarrow> cp_fileName cp)\<rparr>)"
      using 2(1) [unfolded eq d, OF nm rest] by (simp cong: option.case_cong)
    finally show ?thesis
      using nm name_not_filename [OF nm] by (simp add: map part_simps Let_def split: option.split)
  next
    case fn
    have "cp_params ((n, v) # qs) cp = cp_params qs (cp\<lparr>cp_fileName := Some (dch_bytes v)\<rparr>)"
      using fn l by (simp add: eq d)
    also have "\<dots> = (let ps = map pbytes qs in (cp\<lparr>cp_fileName := Some (dch_bytes v)\<rparr>)
        \<lparr>cp_name := (case part_name ps of Some x \<Rightarrow> Some x | None \<Rightarrow> cp_name cp),
         cp_fileName := (case part_file ps of Some x \<Rightarrow> Some x | None \<Rightarrow> Some (dch_bytes v))\<rparr>)"
      using 2(2) [unfolded eq d l, OF fn(1) _ rest] fn by (simp cong: option.case_cong)
    finally show ?thesis using fn by (simp add: map part_simps Let_def split: option.split)
  next
    case no
    have "cp_params ((n, v) # qs) cp = cp_params qs cp" using no l by (auto simp: eq)
    also have "\<dots> = (let ps = map pbytes qs in
        cp\<lparr>cp_name := (case part_name ps of Some x \<Rightarrow> Some x | None \<Rightarrow> cp_name cp),
           cp_fileName := (case part_file ps of Some x \<Rightarrow> Some x | None \<Rightarrow> cp_fileName cp)\<rparr>)"
      using 2(3) [unfolded eq l, OF no rest] by simp
    moreover have "part_name ((dch_bytes n, dch_bytes v) # map pbytes qs) = part_name (map pbytes qs)"
      "part_file ((dch_bytes n, dch_bytes v) # map pbytes qs) = part_file (map pbytes qs)"
      using no by (auto simp: part_simps split: option.split)
    ultimately show ?thesis by (simp only: map Let_def)
  qed
qed

text \<open>The parameters of a disposition value: what follows its first semicolon.\<close>

definition disp_params :: "bytes \<Rightarrow> (bytes \<times> bytes) list" where
  "disp_params v = (if CHR '';'' \<in> set v then params_spec (snd (till (CHR '';'') v)) (CHR '';'') else [])"

definition header_params :: "(bytes \<times> bytes) list \<Rightarrow> (bytes \<times> bytes) list" where
  "header_params hs = (case first_header ''Content-Disposition'' hs of
     None \<Rightarrow> [] | Some v \<Rightarrow> disp_params (skip_blanks v))"

lemma first_header_ok:
  assumes "first_header name hs = Some v" "\<forall>h \<in> set hs. header_ok h"
  shows "no_nul v"
proof -
  obtain h where "find (\<lambda>h. strcasecmp_eq (fst h) name) hs = Some h" "v = snd h"
    using assms(1) by (auto simp: first_header_def)
  then have "h \<in> set hs" by (auto simp: find_Some_iff)
  then show ?thesis using assms(2) \<open>v = snd h\<close> by (simp add: header_ok_def)
qed

lemma cp_disposition_bytes:
  assumes "cp_header cp = \<lparr>dh_lines = map stored_header hs, dh_cur = []\<rparr>" "\<forall>h \<in> set hs. header_ok h"
    "cp_name cp = None" "cp_fileName cp = None"
  shows "cp_disposition cp = cp\<lparr>cp_name := part_name (header_params hs), cp_fileName := part_file (header_params hs)\<rparr>"
proof -
  have hv: "datahdr_getHeaderVal (cp_header cp) ''Content-Disposition'' =
      map_option skip_blanks (first_header ''Content-Disposition'' hs)"
    using header_val_stored [OF assms(2)] by (simp add: datahdr_getHeaderVal_def assms(1))
  have id: "cp\<lparr>cp_name := None, cp_fileName := None\<rparr> = cp" using assms(3,4) by (cases cp) simp
  show ?thesis
  proof (cases "first_header ''Content-Disposition'' hs")
    case None
    then show ?thesis by (simp add: cp_disposition_def hv header_params_def part_simps id)
  next
    case (Some w)
    let ?v = "skip_blanks w"
    let ?d = "dch_initWithStr (Some (?v @ [NUL]))"
    have n: "no_nul ?v" using first_header_ok [OF Some assms(2)] by (simp add: skip_blanks_def)
    then have b: "dch_bytes ?d = ?v" by (simp add: dch_bytes_initWithStr cstr_append_NUL no_nul_def)
    obtain found d where s: "dch_shiftAfterChr ?d (CHR '';'') = (found, d)" by fastforce
    note sp = shiftAfterChr_spec [OF wf_initWithStr, of "Some (?v @ [NUL])" "CHR '';''", unfolded s b]
    show ?thesis
    proof (cases "CHR '';'' \<in> set ?v")
      case False
      then show ?thesis using sp id
        by (simp add: cp_disposition_def hv Some s header_params_def disp_params_def part_simps)
    next
      case True
      then have f: "found" "dch_wf d" "dch_bytes d = snd (till (CHR '';'') ?v)" using sp by simp_all
      have ps: "map pbytes (dch_params d (CHR '';'')) = disp_params ?v"
        and wf: "\<forall>(n, v) \<in> set (dch_params d (CHR '';'')). dch_wf n \<and> dch_wf v"
        using dch_params_bytes [OF f(2), of "CHR '';''"] f(3) True by (simp_all add: disp_params_def)
      have "no_nul (dch_bytes y)" if "(x, y) \<in> set (dch_params d (CHR '';''))" for x y
      proof -
        have "(dch_bytes x, dch_bytes y) \<in> set (disp_params ?v)"
          using that unfolding ps [symmetric] by force
        then have "set (dch_bytes y) \<subseteq> set (snd (till (CHR '';'') ?v))"
          using True params_spec_set by (simp add: disp_params_def)
        then show ?thesis using n set_till(2) by (fastforce simp: no_nul_def)
      qed
      with wf have wf': "\<forall>(n, v) \<in> set (dch_params d (CHR '';'')). dch_wf n \<and> dch_wf v \<and> no_nul (dch_bytes v)"
        by blast
      show ?thesis
        using f(1) cp_params_bytes [OF wf', of cp] unfolding ps Let_def
        by (simp add: cp_disposition_def hv Some s header_params_def assms(3,4) option.case_eq_if)
    qed
  qed
qed

lemma with_slash_not_Nil: "with_slash d \<noteq> []"
  by (simp add: with_slash_def)

text \<open>
  What a part with the headers \<open>hs\<close> and the body \<open>body\<close> must become: the name is the one of the
  disposition; without a file name the body is kept in memory; with one, and a destination
  directory, the file is created under its name, or under a name \<open>mkstemp\<close> chooses when it
  exists, and holds the body; when it cannot be created the error number is kept.
\<close>

definition part_outcome ::
    "UploadFs \<Rightarrow> bytes option \<Rightarrow> (bytes \<times> bytes) list \<Rightarrow> bytes \<Rightarrow> ContentPart \<Rightarrow> bool" where
  "part_outcome fs dest hs body cp =
     (cpart_getName cp = part_name (header_params hs) \<and>
      cpart_getFileName cp = part_file (header_params hs) \<and>
      (case part_file (header_params hs) of
         None \<Rightarrow> cp_body cp = Some body \<and> cp_calls cp = []
       | Some f \<Rightarrow> cp_body cp = None \<and>
          (case dest of
             None \<Rightarrow> cp_file cp = None \<and> cp_calls cp = []
           | Some d \<Rightarrow>
               (case uf_open fs (with_slash d @ f) of
                  None \<Rightarrow> cp_file cp = Some body \<and> cpart_getFilePathName cp = Some (with_slash d @ f) \<and>
                    cp_calls cp = [FsCreate (with_slash d @ f)]
                | Some e \<Rightarrow>
                    (if e = EEXIST then
                       (case uf_mkstemp fs (with_slash d @ ''fmgrXXXXXX'') of
                          Inr tmp \<Rightarrow> cp_file cp = Some body \<and> cpart_getFilePathName cp = Some tmp \<and>
                            cp_calls cp = [FsCreate tmp]
                        | Inl e' \<Rightarrow> cp_file cp = None \<and> cp_sysErrNo cp = e' \<and> cp_calls cp = [])
                     else cp_file cp = None \<and> cp_sysErrNo cp = e \<and> cp_calls cp = [])))))"

lemma feed_part_outcome:
  assumes "\<forall>h \<in> set hs. header_ok h" and "no_errors as"
    and "concat pieces = concat (map print_header hs) @ CRLF @ body"
  shows "\<exists>cp as'. feed_part fs as (cpart_new dest) pieces = Ok (cp, as') \<and> part_outcome fs dest hs body cp"
proof -
  let ?h = "\<lparr>dh_lines = map stored_header hs, dh_cur = []\<rparr>"
  let ?cp0 = "(cpart_new dest)\<lparr>cp_header := ?h\<rparr>"
  have c0: "concat pieces = (concat (map print_header hs) @ CRLF) @ body" using assms(3) by simp
  have "datahdr_appendData (cp_header (cpart_new dest)) (concat (map print_header hs) @ CRLF) =
      Ok (?h, Some (length (concat (map print_header hs) @ CRLF)))"
    using datahdr_append_headers [OF assms(1)] by (simp add: cpart_new_def)
  from feed_part_header [OF _ _ assms(2) _ no_nul_headers [OF assms(1)] this c0, of fs]
  obtain as' where f: "feed_part fs as (cpart_new dest) pieces = Ok (cp_stored (cp_start fs ?cp0) body, as')"
    by (auto simp: cpart_new_def datahdr_inv_def datahdr_new_def)
  have d: "cp_disposition ?cp0 = ?cp0\<lparr>cp_name := part_name (header_params hs),
      cp_fileName := part_file (header_params hs)\<rparr>"
    by (rule cp_disposition_bytes [OF _ assms(1)]) (simp_all add: cpart_new_def)
  show ?thesis
    unfolding f cp_start_def d Let_def part_outcome_def
    by (cases "part_file (header_params hs)")
       (auto simp: cpart_new_def cp_open_def cp_stored_def cpart_getName_def cpart_getFileName_def
         cpart_getFilePathName_def Let_def split: option.splits sum.splits)
qed

text \<open>C18: A part of a multipart body is stored whole whatever pieces it arrives in: with a
  printed header, the empty line and any body bytes (zero bytes included) cut anywhere, the part
  becomes what \<open>part_outcome\<close> says, however \<open>write\<close> splits its body up, as long as no
  \<open>write\<close> fails.\<close>

theorem part_stored:
  assumes "\<forall>h \<in> set hs. header_ok h" and "no_errors as"
    and "concat pieces = concat (map print_header hs) @ CRLF @ body"
  shows "\<exists>cp as'. feed_part fs as (cpart_new dest) pieces = Ok (cp, as') \<and> part_outcome fs dest hs body cp"
  by (rule feed_part_outcome [OF assms])

definition example_upload_fs :: UploadFs where
  "example_upload_fs = \<lparr>uf_open = (\<lambda>p. if p = ''/srv/old.txt'' then Some EEXIST else None),
     uf_mkstemp = (\<lambda>t. Inr ''/srv/fmgrAb12Cd''), uf_link = (\<lambda>a b. if b = ''/srv/old.txt'' then Some EEXIST else None),
     uf_rename = (\<lambda>a b. None)\<rparr>"

theorem part_stored_witness:
  "\<exists>cp as'. feed_part example_upload_fs [Wrote 1, Wrote 0] (cpart_new (Some ''/srv''))
      [''Content-Disposition: form-data; name='' @ [QUOTE] @ ''file'' @ [QUOTE],
       ''; filename='' @ [QUOTE] @ ''a.txt'' @ [QUOTE] @ CRLF @ [CR], [LF, CHR ''x''], [NUL], ''yz''] = Ok (cp, as') \<and>
     cpart_getName cp = Some ''file'' \<and> cp_file cp = Some ([CHR ''x'', NUL] @ ''yz'') \<and>
     cpart_getFilePathName cp = Some ''/srv/a.txt''"
proof -
  let ?v = "'' form-data; name='' @ [QUOTE] @ ''file'' @ [QUOTE] @ ''; filename='' @ [QUOTE] @ ''a.txt'' @ [QUOTE]"
  let ?hs = "[(''Content-Disposition'', ?v)]"
  let ?p = "[''Content-Disposition: form-data; name='' @ [QUOTE] @ ''file'' @ [QUOTE],
       ''; filename='' @ [QUOTE] @ ''a.txt'' @ [QUOTE] @ CRLF @ [CR], [LF, CHR ''x''], [NUL], ''yz'']"
  have ok: "\<forall>h \<in> set ?hs. header_ok h" by (simp add: header_ok_def)
  have c: "concat ?p = concat (map print_header ?hs) @ CRLF @ ([CHR ''x'', NUL] @ ''yz'')"
    by (simp add: print_header_def)
  have ps: "header_params ?hs = [(''name'', ''file''), (''filename'', ''a.txt'')]" by code_simp
  have f: "part_file (header_params ?hs) = Some ''a.txt''" "part_name (header_params ?hs) = Some ''file''"
    unfolding ps by code_simp+
  have e: "no_errors [Wrote 1, Wrote 0]" by (simp add: no_errors_def)
  have o': "uf_open example_upload_fs ''/srv/a.txt'' = None" "with_slash ''/srv'' = ''/srv/''"
    by (simp_all add: example_upload_fs_def with_slash_def)
  obtain cp as' where r: "feed_part example_upload_fs [Wrote 1, Wrote 0] (cpart_new (Some ''/srv'')) ?p = Ok (cp, as')"
    and outcome: "part_outcome example_upload_fs (Some ''/srv'') ?hs ([CHR ''x'', NUL] @ ''yz'') cp"
    using part_stored [OF ok e c] by blast
  have "cpart_getName cp = Some ''file'' \<and> cp_file cp = Some ([CHR ''x'', NUL] @ ''yz'') \<and>
     cpart_getFilePathName cp = Some ''/srv/a.txt''"
    using outcome o' unfolding part_outcome_def f by simp
  with r show ?thesis by blast
qed

text \<open>C19: Finishing an upload never replaces an existing file unless asked to: it succeeds exactly when
  the output file is open and either already has the target name, or is renamed (only with
  \<open>replaceIfExists\<close>) or linked to it (\<open>link\<close> fails on an existing name) without an error. On success
  the object's destruction removes nothing more; on failure the error number is returned and the
  destruction removes the uploaded file. A relative target is placed in the destination directory.\<close>

theorem finishUpload_outcome:
  assumes "cp_file cp = Some c" and "cp_filePathName cp = Some path" and "cp_destDir cp = Some d"
    and "cp_fileName cp = Some f"
    and "t0 = (case targetName of Some t \<Rightarrow> t | None \<Rightarrow> f)"
    and "t = (if t0 = [] \<or> hd t0 \<noteq> CHR ''/'' then with_slash d @ t0 else t0)"
    and "cpart_finishUpload fs cp targetName replaceIfExists = (cp', res, err)"
  shows "res = (path = t \<or> (if replaceIfExists then uf_rename fs path t = None else uf_link fs path t = None)) \<and>
    (res \<longrightarrow> cpart_free cp' = cp_calls cp @
       (if path = t then [] else if replaceIfExists then [FsRename path t] else [FsLink path t, FsUnlink path])) \<and>
    (\<not> res \<longrightarrow> err = (if replaceIfExists then uf_rename fs path t else uf_link fs path t) \<and>
       cpart_free cp' = cp_calls cp @ [if replaceIfExists then FsRename path t else FsLink path t, FsUnlink path])"
proof -
  note r = assms(7) [unfolded cpart_finishUpload_def assms(1-4) option.case option.sel
    assms(5) [symmetric] Let_def, folded assms(6)]
  consider "path = t" | "path \<noteq> t" "replaceIfExists" | "path \<noteq> t" "\<not> replaceIfExists" by blast
  then show ?thesis
  proof cases
    case 1
    then show ?thesis using r by (auto simp: cpart_free_def assms(1,2))
  next
    case 2
    note b = this
    show ?thesis
    proof (cases "uf_rename fs path t")
      case None
      then show ?thesis using b r by (auto simp: cpart_free_def assms(1,2))
    next
      case (Some e)
      then have "cp' = cp\<lparr>cp_calls := cp_calls cp @ [FsRename path t], cp_sysErrNo := e\<rparr>" "\<not> res" "err = Some e"
        using b r by auto
      then show ?thesis using b Some by (simp add: cpart_free_def assms(1,2))
    qed
  next
    case 3
    note b = this
    show ?thesis
    proof (cases "uf_link fs path t")
      case None
      then show ?thesis using b r by (auto simp: cpart_free_def assms(1,2))
    next
      case (Some e)
      then have "cp' = cp\<lparr>cp_calls := cp_calls cp @ [FsLink path t], cp_sysErrNo := e\<rparr>" "\<not> res" "err = Some e"
        using b r by auto
      then show ?thesis using b Some by (simp add: cpart_free_def assms(1,2))
    qed
  qed
qed

theorem finishUpload_outcome_witness:
  "case cpart_finishUpload example_upload_fs
      ((cpart_new (Some ''/srv''))\<lparr>cp_file := Some ''x'', cp_filePathName := Some ''/srv/fmgrAb12Cd'',
         cp_fileName := Some ''old.txt''\<rparr>) None False of
    (cp', res, err) \<Rightarrow> \<not> res \<and> err = Some EEXIST \<and>
      cpart_free cp' = [FsLink ''/srv/fmgrAb12Cd'' ''/srv/old.txt'', FsUnlink ''/srv/fmgrAb12Cd'']"
proof -
  let ?cp = "(cpart_new (Some ''/srv''))\<lparr>cp_file := Some ''x'', cp_filePathName := Some ''/srv/fmgrAb12Cd'',
         cp_fileName := Some ''old.txt''\<rparr>"
  obtain cp' res err where r: "cpart_finishUpload example_upload_fs ?cp None False = (cp', res, err)"
    by (metis prod_cases3)
  have t: "''/srv/old.txt'' = (if ''old.txt'' = [] \<or> hd ''old.txt'' \<noteq> CHR ''/'' then with_slash ''/srv'' @ ''old.txt'' else ''old.txt'')"
    by (simp add: with_slash_def)
  have "uf_link example_upload_fs ''/srv/fmgrAb12Cd'' ''/srv/old.txt'' = Some EEXIST"
    by (simp add: example_upload_fs_def)
  then show ?thesis
    using finishUpload_outcome [OF _ _ _ _ _ t r, of "''x''" "''/srv/fmgrAb12Cd''"]
    unfolding r prod.case by (simp add: cpart_new_def)
qed

end
