(* ===== verification/Multipartdata.thy ===== *)
theory Multipartdata
  imports Contentpart "HOL-Library.Sublist"
begin

text \<open>
  \<open>src/multipartdata.c\<close>: cutting a \<open>multipart/form-data\<close> body into its parts.  The answers of
  the file system for the part number \<open>k\<close> are \<open>fs k\<close> (a part opens its file at most once); those
  of \<open>write\<close> are one list for all parts.  \<open>mp_delim\<close> is \<open>None\<close> once the closing delimiter was
  seen.
\<close>

datatype ParsePosition = PP_BODY | PP_GOT_BOUNDARY | PP_GOT_WS

record MultipartData =
  mp_delim :: "bytes option"
  mp_destDir :: "bytes option"
  mp_parsePos :: ParsePosition
  mp_match :: nat
  mp_parts :: "ContentPart list"

definition mpdata_new :: "bytes \<Rightarrow> bytes option \<Rightarrow> MultipartData" where
  "mpdata_new boundary destDir =
     \<lparr>mp_delim = Some (CRLF @ ''--'' @ boundary), mp_destDir = destDir, mp_parsePos = PP_BODY,
      mp_match = 2, mp_parts = []\<rparr>"

text \<open>Data for the last part, when there is one.\<close>

definition mp_give ::
    "(nat \<Rightarrow> UploadFs) \<Rightarrow> WriteAns list \<Rightarrow> MultipartData \<Rightarrow> bytes \<Rightarrow> (MultipartData \<times> WriteAns list) cres" where
  "mp_give fs as mp d =
     (if mp_parts mp = [] then Ok (mp, as)
      else cbind (cpart_appendData (fs (length (mp_parts mp) - 1)) as (last (mp_parts mp)) d)
        (\<lambda>(cp, as'). Ok (mp\<lparr>mp_parts := butlast (mp_parts mp) @ [cp]\<rparr>, as')))"

text \<open>
  The search for the delimiter, or for a beginning of it at the end of the data: the position
  of \<open>partEnd\<close>.
\<close>

fun find_part_end :: "bytes \<Rightarrow> bytes \<Rightarrow> nat" where
  "find_part_end delim [] = 0"
| "find_part_end delim (c # cs) =
     (let n = min (length delim) (length (c # cs))
      in if c = CR \<and> take n (c # cs) = take n delim then 0 else Suc (find_part_end delim cs))"

text \<open>In a boundary line, the data behind its line feed; \<open>None\<close> when it is not reached.\<close>

definition mp_line :: "ParsePosition \<Rightarrow> bytes \<Rightarrow> bytes option" where
  "mp_line pos data =
     (if pos \<noteq> PP_BODY then map_option (\<lambda>i. drop (Suc i) data) (memchr LF data) else Some data)"

lemma mp_line_length:
  "mp_line pos data = Some d \<Longrightarrow> length d \<le> length data \<and> (pos \<noteq> PP_BODY \<longrightarrow> length d < length data)"
  by (auto simp: mp_line_def split: if_splits dest: memchr_Some)

text \<open>
  The loop of \<open>mpdata_appendData\<close>.  At the first character after a boundary string it reaches the
  epilogue or begins a part; in a boundary line it goes on behind its line feed.
\<close>

function mp_loop ::
    "(nat \<Rightarrow> UploadFs) \<Rightarrow> bytes \<Rightarrow> WriteAns list \<Rightarrow> MultipartData \<Rightarrow> bytes \<Rightarrow> (MultipartData \<times> WriteAns list) cres" where
  "mp_loop fs delim as mp data =
     (if data = [] then Ok (mp, as)
      else if mp_parsePos mp = PP_GOT_BOUNDARY \<and> hd data = CHR ''-'' then Ok (mp\<lparr>mp_delim := None\<rparr>, as)
      else
        (let mp1 = (if mp_parsePos mp = PP_GOT_BOUNDARY
                    then mp\<lparr>mp_parts := mp_parts mp @ [cpart_new (mp_destDir mp)]\<rparr> else mp)
         in case mp_line (mp_parsePos mp1) data of
              None \<Rightarrow> Ok (mp1, as)
            | Some d \<Rightarrow>
                (let mp2 = mp1\<lparr>mp_parsePos := PP_BODY\<rparr> in
                 if d = [] then Ok (mp2, as)
                 else
                   (let n = find_part_end delim d in
                    cbind (mp_give fs as mp2 (take n d)) (\<lambda>(mp3, as').
                      if length d - n < length delim
                      then Ok (mp3\<lparr>mp_match := length d - n\<rparr>, as')
                      else mp_loop fs delim as' (mp3\<lparr>mp_parsePos := PP_GOT_BOUNDARY\<rparr>)
                             (drop (n + length delim) d))))))"
  by pat_completeness auto
termination
proof (relation "measure (\<lambda>(fs, delim, as, mp, data).
    2 * length data + (if mp_parsePos mp = PP_GOT_BOUNDARY then 0 else 1))", goal_cases)
  case 1
  show ?case by simp
next
  case 2
  then show ?case by (auto split: if_splits dest!: mp_line_length)
qed

declare mp_loop.simps [simp del]

definition mpdata_appendData ::
    "(nat \<Rightarrow> UploadFs) \<Rightarrow> WriteAns list \<Rightarrow> MultipartData \<Rightarrow> bytes \<Rightarrow> (MultipartData \<times> WriteAns list) cres" where
  "mpdata_appendData fs as mp data =
     (case mp_delim mp of
        None \<Rightarrow> Ok (mp, as)
      | Some delim \<Rightarrow>
          (if 0 < mp_match mp then
             (let rest = drop (mp_match mp) delim; n = min (length rest) (length data) in
              if take n data \<noteq> take n rest then
                cbind (mp_give fs as mp (take (mp_match mp) delim)) (\<lambda>(mp1, as').
                  mp_loop fs delim as' (mp1\<lparr>mp_match := 0\<rparr>) data)
              else if length data < length rest then
                Ok (mp\<lparr>mp_match := mp_match mp + length data\<rparr>, as)
              else mp_loop fs delim as (mp\<lparr>mp_match := 0, mp_parsePos := PP_GOT_BOUNDARY\<rparr>)
                     (drop (length rest) data))
           else mp_loop fs delim as mp data))"

definition mpdata_getPart :: "MultipartData \<Rightarrow> nat \<Rightarrow> ContentPart option" where
  "mpdata_getPart mp partNum =
     (if partNum < length (mp_parts mp) then Some (mp_parts mp ! partNum) else None)"

text \<open>The index of the part is returned, since the caller changes the part.\<close>

definition mpdata_getPartByName :: "MultipartData \<Rightarrow> bytes \<Rightarrow> nat option" where
  "mpdata_getPartByName mp name =
     find (\<lambda>i. cpart_nameEquals (mp_parts mp ! i) name) [0..<length (mp_parts mp)]"

definition mpdata_containsPartWithName :: "MultipartData \<Rightarrow> bytes \<Rightarrow> bool" where
  "mpdata_containsPartWithName mp name = (mpdata_getPartByName mp name \<noteq> None)"

text \<open>\<open>mpdata_free\<close>: the calls that all parts make over their life.\<close>

definition mpdata_free :: "MultipartData \<Rightarrow> FsCall list" where
  "mpdata_free mp = concat (map cpart_free (mp_parts mp))"

subsection \<open>The reference reader\<close>

text \<open>
  Reading a multipart body byte by byte: in the text of a part (or the preamble) with the first
  \<open>m\<close> bytes of the delimiter seen, right behind a delimiter, in the rest of a boundary line, or in
  the epilogue; and the bytes of the parts so far.
\<close>

datatype Mode = InText nat | AfterDelim | InLine | Epilogue

definition give :: "bytes list \<Rightarrow> bytes \<Rightarrow> bytes list" where
  "give cs d = (if cs = [] then [] else butlast cs @ [last cs @ d])"

fun read_byte :: "bytes \<Rightarrow> Mode \<times> bytes list \<Rightarrow> char \<Rightarrow> Mode \<times> bytes list" where
  "read_byte delim (InText m, cs) c =
     (if c = delim ! m then (if Suc m = length delim then AfterDelim else InText (Suc m), cs)
      else if c = CR then (InText 1, give cs (take m delim))
      else (InText 0, give cs (take m delim @ [c])))"
| "read_byte delim (AfterDelim, cs) c =
     (if c = CHR ''-'' then (Epilogue, cs) else (if c = LF then InText 0 else InLine, cs @ [[]]))"
| "read_byte delim (InLine, cs) c = (if c = LF then InText 0 else InLine, cs)"
| "read_byte delim (Epilogue, cs) c = (Epilogue, cs)"

definition read_all :: "bytes \<Rightarrow> Mode \<times> bytes list \<Rightarrow> bytes \<Rightarrow> Mode \<times> bytes list" where
  "read_all delim = foldl (read_byte delim)"

lemma read_all_simps [simp]:
  "read_all delim st [] = st" "read_all delim st (c # cs) = read_all delim (read_byte delim st c) cs"
  by (simp_all add: read_all_def)

lemma read_all_append: "read_all delim st (xs @ ys) = read_all delim (read_all delim st xs) ys"
  by (simp add: read_all_def)

lemma read_all_Epilogue [simp]: "read_all delim (Epilogue, cs) xs = (Epilogue, cs)"
  by (induction xs) auto

lemma read_all_InLine:
  "read_all delim (InLine, cs) xs =
     (case memchr LF xs of None \<Rightarrow> (InLine, cs) | Some i \<Rightarrow> read_all delim (InText 0, cs) (drop (Suc i) xs))"
  by (induction xs) (auto split: option.splits)

lemma read_all_AfterDelim:
  "xs \<noteq> [] \<Longrightarrow> hd xs \<noteq> CHR ''-'' \<Longrightarrow> read_all delim (AfterDelim, cs) xs =
     (case memchr LF xs of None \<Rightarrow> (InLine, cs @ [[]])
      | Some i \<Rightarrow> read_all delim (InText 0, cs @ [[]]) (drop (Suc i) xs))"
  by (cases xs) (auto simp: read_all_InLine split: option.splits)

lemma give_simps [simp]:
  "give cs [] = cs" "give (give cs a) b = give cs (a @ b)" "(give cs a = []) = (cs = [])"
  "give [] a = []"
  by (auto simp: give_def)

text \<open>A delimiter: a carriage return, and more bytes that are not carriage returns.\<close>

definition delim_ok :: "bytes \<Rightarrow> bool" where
  "delim_ok delim = (2 \<le> length delim \<and> hd delim = CR \<and> CR \<notin> set (tl delim))"

lemma delim_nth: "delim_ok delim \<Longrightarrow> m < length delim \<Longrightarrow> delim ! m = CR \<longleftrightarrow> m = 0"
  by (cases delim) (auto simp: delim_ok_def nth_Cons split: nat.splits dest: nth_mem)

lemma delim_cases:
  assumes "delim_ok delim" obtains d ds where "delim = CR # d # ds" "CR \<notin> set (d # ds)"
  using assms by (cases delim; cases "tl delim") (auto simp: delim_ok_def)

text \<open>Data that goes on with the delimiter, and data that does not.\<close>

lemma read_match:
  "m < length delim \<Longrightarrow> take (length xs) (drop m delim) = xs \<Longrightarrow>
     read_all delim (InText m, cs) xs =
       (if m + length xs = length delim then AfterDelim else InText (m + length xs), cs)"
proof (induction xs arbitrary: m)
  case Nil
  then show ?case by simp
next
  case (Cons c xs)
  then have c: "c = delim ! m" "take (length xs) (drop (Suc m) delim) = xs"
    by (auto simp: Cons_nth_drop_Suc [symmetric])
  show ?case
  proof (cases "Suc m = length delim")
    case True
    then have "xs = []" using c(2) by simp
    with True c show ?thesis by simp
  next
    case False
    with Cons.prems(1) Cons.IH [of "Suc m"] c show ?thesis by simp
  qed
qed

lemma read_mismatch:
  assumes "delim_ok delim"
  shows "0 < m \<Longrightarrow> m < length delim \<Longrightarrow> n = min (length delim - m) (length xs) \<Longrightarrow>
     take n xs \<noteq> take n (drop m delim) \<Longrightarrow>
     read_all delim (InText m, cs) xs = read_all delim (InText 0, give cs (take m delim)) xs"
proof (induction xs arbitrary: m n)
  case Nil
  then show ?case by simp
next
  case (Cons c xs)
  note m0 = delim_nth [OF assms, of 0] delim_nth [OF assms, of m]
  have len: "0 < length delim" "Suc 0 \<noteq> length delim" using assms by (auto simp: delim_ok_def)
  show ?case
  proof (cases "c = delim ! m")
    case True
    then have ne: "c \<noteq> CR" using m0 Cons.prems(1,2) by simp
    obtain k where k: "n = Suc k" "k = min (length delim - Suc m) (length xs)"
      using Cons.prems(2,3) by (cases n) auto
    have d: "drop m delim = c # drop (Suc m) delim" using True Cons.prems(2) by (simp add: Cons_nth_drop_Suc)
    have mis: "take k xs \<noteq> take k (drop (Suc m) delim)" using Cons.prems(4) k d by simp
    then have m': "Suc m < length delim" using Cons.prems(2) k(2) by (cases "Suc m = length delim") auto
    have "read_all delim (InText m, cs) (c # xs) = read_all delim (InText (Suc m), cs) xs"
      using True m' by simp
    also have "\<dots> = read_all delim (InText 0, give cs (take (Suc m) delim)) xs"
      using Cons.IH [OF _ m' k(2) mis] by simp
    also have "\<dots> = read_all delim (InText 0, give cs (take m delim)) (c # xs)"
      using True ne m0(1) len Cons.prems(2) by (auto simp: take_Suc_conv_app_nth)
    finally show ?thesis .
  next
    case False
    then show ?thesis using m0 len by auto
  qed
qed

text \<open>The search for the end of a part finds what the reader finds.\<close>

lemma read_scan:
  assumes "delim_ok delim"
  shows "n = find_part_end delim xs \<Longrightarrow> n \<le> length xs \<and> read_all delim (InText 0, cs) xs =
     (if length xs - n < length delim then (InText (length xs - n), give cs (take n xs))
      else read_all delim (AfterDelim, give cs (take n xs)) (drop (n + length delim) xs))"
proof (induction xs arbitrary: cs n)
  case Nil
  then show ?case using assms by (auto simp: delim_ok_def)
next
  case (Cons c xs)
  let ?k = "min (length delim) (length (c # xs))"
  have len: "0 < length delim" "Suc 0 < length delim" using assms by (auto simp: delim_ok_def)
  have d0: "delim ! 0 = CR" using delim_nth [OF assms, of 0] len by simp
  show ?case
  proof (cases "c = CR \<and> take ?k (c # xs) = take ?k delim")
    case hit: True
    then have n: "n = 0" using Cons.prems by (auto simp: Let_def)
    show ?thesis
    proof (cases "length (c # xs) < length delim")
      case True
      then have "take (length (c # xs)) (drop 0 delim) = c # xs" using hit by auto
      from read_match [OF len(1) this, of cs] True n show ?thesis by auto
    next
      case False
      then have t: "take (length delim) (c # xs) = delim" using hit by auto
      then have "take (length (take (length delim) (c # xs))) (drop 0 delim) = take (length delim) (c # xs)" by simp
      from read_match [OF len(1) this, of cs] have
        "read_all delim (InText 0, cs) (take (length delim) (c # xs)) = (AfterDelim, cs)"
        using False by simp
      then have "read_all delim (InText 0, cs) (take (length delim) (c # xs) @ drop (length delim) (c # xs)) =
          read_all delim (AfterDelim, cs) (drop (length delim) (c # xs))"
        by (simp add: read_all_append del: append_take_drop_id)
      with False n show ?thesis by simp
    qed
  next
    case False
    then have n: "n = Suc (find_part_end delim xs)" using Cons.prems by (auto simp: Let_def)
    have s: "read_all delim (InText 0, cs) (c # xs) = read_all delim (InText 0, give cs [c]) xs"
    proof (cases "c = CR")
      case True
      have "take (?k - 1) xs \<noteq> take (?k - 1) (drop 1 delim)"
        using False True len d0 by (cases delim) (auto simp: take_Cons' min_def split: if_splits)
      moreover have "?k - 1 = min (length delim - 1) (length xs)" by simp
      ultimately have "read_all delim (InText 1, cs) xs = read_all delim (InText 0, give cs (take 1 delim)) xs"
        using read_mismatch [OF assms, of 1 "?k - 1" xs cs] len by simp
      moreover have "take 1 delim = [c]" using True d0 len by (cases delim) auto
      ultimately show ?thesis using True d0 len by simp
    qed (use d0 in auto)
    show ?thesis
      using Cons.IH [OF refl, of "give cs [c]"] unfolding s n by auto
  qed
qed

subsection \<open>The implementation follows the reader\<close>

text \<open>A part that was fed the bytes \<open>d\<close>, in whatever pieces; the parts that were fed \<open>cs\<close>.\<close>

definition part_fed :: "UploadFs \<Rightarrow> bytes option \<Rightarrow> ContentPart \<Rightarrow> bytes \<Rightarrow> bool" where
  "part_fed fs dest cp d = (\<exists>ps. concat ps = d \<and> feed_part fs [] (cpart_new dest) ps = Ok (cp, []))"

definition parts_fed :: "(nat \<Rightarrow> UploadFs) \<Rightarrow> bytes option \<Rightarrow> ContentPart list \<Rightarrow> bytes list \<Rightarrow> bool" where
  "parts_fed fs dest parts cs = (length parts = length cs \<and>
     (\<forall>k < length cs. part_fed (fs k) dest (parts ! k) (cs ! k)))"

definition mode_abs :: "bytes \<Rightarrow> MultipartData \<Rightarrow> Mode \<Rightarrow> bool" where
  "mode_abs delim mp mode = (case mode of
     InText m \<Rightarrow> mp_delim mp = Some delim \<and> mp_parsePos mp = PP_BODY \<and> mp_match mp = m \<and> m < length delim
   | AfterDelim \<Rightarrow> mp_delim mp = Some delim \<and> mp_parsePos mp = PP_GOT_BOUNDARY \<and> mp_match mp = 0
   | InLine \<Rightarrow> False
   | Epilogue \<Rightarrow> mp_delim mp = None)"

definition mp_abs :: "(nat \<Rightarrow> UploadFs) \<Rightarrow> bytes \<Rightarrow> MultipartData \<Rightarrow> Mode \<times> bytes list \<Rightarrow> bool" where
  "mp_abs fs delim mp st = (mode_abs delim mp (fst st) \<and> parts_fed fs (mp_destDir mp) (mp_parts mp) (snd st))"

lemma part_fed_new: "part_fed fs dest (cpart_new dest) []"
  unfolding part_fed_def by (intro exI [of _ "[]"]) simp

lemma parts_fed_new:
  "parts_fed fs dest parts cs \<Longrightarrow> parts_fed fs dest (parts @ [cpart_new dest]) (cs @ [[]])"
  using part_fed_new by (auto simp: parts_fed_def nth_append less_Suc_eq)

lemma part_fed_more:
  assumes "part_fed fs dest cp d" "cpart_appendData fs [] cp e = Ok (cp', [])"
  shows "part_fed fs dest cp' (d @ e)"
proof -
  obtain ps where "concat ps = d" "feed_part fs [] (cpart_new dest) ps = Ok (cp, [])"
    using assms(1) by (auto simp: part_fed_def)
  then show ?thesis using assms(2)
    unfolding part_fed_def by (intro exI [of _ "ps @ [e]"]) (simp add: feed_part_append)
qed

lemma mp_give_fed:
  assumes "parts_fed fs dest (mp_parts mp) cs" "no_errors as"
  shows "\<exists>parts as'. mp_give fs as mp d = Ok (mp\<lparr>mp_parts := parts\<rparr>, as') \<and> no_errors as' \<and>
    parts_fed fs dest parts (give cs d)"
proof (cases cs rule: rev_cases)
  case Nil
  then show ?thesis using assms by (intro exI [of _ "[]"] exI [of _ as]) (simp add: mp_give_def parts_fed_def)
next
  case (snoc cs0 c)
  then obtain ps p where ps: "mp_parts mp = ps @ [p]" "length ps = length cs0"
    using assms(1) by (cases "mp_parts mp" rule: rev_cases) (auto simp: parts_fed_def)
  have p: "part_fed (fs (length cs0)) dest p c"
    using assms(1) snoc ps by (auto simp: parts_fed_def)
      (metis lessI nth_append_length)
  obtain p' as' where a: "cpart_appendData (fs (length cs0)) as p d = Ok (p', as')" "no_errors as'"
      "cpart_appendData (fs (length cs0)) [] p d = Ok (p', [])"
    using cpart_appendData_split [OF assms(2)] by blast
  have "parts_fed fs dest (ps @ [p']) (cs0 @ [c @ d])"
    using assms(1) snoc ps part_fed_more [OF p a(3)]
    by (auto simp: parts_fed_def nth_append less_Suc_eq)
  then show ?thesis using a(1,2) ps snoc by (auto simp: mp_give_def give_def)
qed

lemma mp_loop_text:
  "mp_parsePos mp = PP_BODY \<Longrightarrow> mp_loop fs delim as mp data =
     (if data = [] then Ok (mp, as)
      else let n = find_part_end delim data in
        cbind (mp_give fs as mp (take n data)) (\<lambda>(mp3, as').
          if length data - n < length delim then Ok (mp3\<lparr>mp_match := length data - n\<rparr>, as')
          else mp_loop fs delim as' (mp3\<lparr>mp_parsePos := PP_GOT_BOUNDARY\<rparr>) (drop (n + length delim) data)))"
proof -
  assume b: "mp_parsePos mp = PP_BODY"
  then have same: "mp\<lparr>mp_parsePos := PP_BODY\<rparr> = mp" by (cases mp) simp
  show ?thesis by (subst mp_loop.simps) (simp add: mp_line_def Let_def b same)
qed

lemma mp_loop_boundary:
  assumes "mp_parsePos mp = PP_GOT_BOUNDARY" "data \<noteq> []" "hd data \<noteq> CHR ''-''" "memchr LF data = Some i"
  shows "mp_loop fs delim as mp data =
    mp_loop fs delim as (mp\<lparr>mp_parts := mp_parts mp @ [cpart_new (mp_destDir mp)], mp_parsePos := PP_BODY\<rparr>)
      (drop (Suc i) data)"
proof -
  let ?mp = "mp\<lparr>mp_parts := mp_parts mp @ [cpart_new (mp_destDir mp)], mp_parsePos := PP_BODY\<rparr>"
  have "mp_parsePos ?mp = PP_BODY" by simp
  from mp_loop_text [OF this] show ?thesis
    using assms by (subst mp_loop.simps) (simp add: mp_line_def Let_def)
qed

lemma mp_loop_sim:
  assumes "delim_ok delim"
  shows "mp_abs fs delim mp (mode, cs) \<Longrightarrow> mode = InText 0 \<or> mode = AfterDelim \<Longrightarrow> no_errors as \<Longrightarrow>
    fst (read_all delim (mode, cs) xs) \<noteq> InLine \<Longrightarrow>
    \<exists>mp' as'. mp_loop fs delim as mp xs = Ok (mp', as') \<and> no_errors as' \<and> mp_destDir mp' = mp_destDir mp \<and>
      mp_abs fs delim mp' (read_all delim (mode, cs) xs)"
proof (induction "2 * length xs + (if mode = AfterDelim then 0 else 1)" arbitrary: mp mode cs as xs rule: less_induct)
  case less
  have len: "0 < length delim" using assms by (auto simp: delim_ok_def)
  show ?case
  proof (cases "xs = []")
    case True
    then show ?thesis using less.prems by (auto simp: mp_loop.simps)
  next
    case ne: False
    consider (intext) "mode = InText 0" 
      | (closing) "mode = AfterDelim" "hd xs = CHR ''-''"
      | (newpart) "mode = AfterDelim" "hd xs \<noteq> CHR ''-''" using less.prems(2) by blast
    then show ?thesis
    proof cases
      case closing
      have "read_all delim (mode, cs) xs = (Epilogue, cs)" using closing ne by (cases xs) auto
      moreover have "mp_loop fs delim as mp xs = Ok (mp\<lparr>mp_delim := None\<rparr>, as)"
        using less.prems(1) closing ne by (subst mp_loop.simps) (simp add: mp_abs_def mode_abs_def)
      ultimately show ?thesis using less.prems(1,3) by (simp add: mp_abs_def mode_abs_def)
    next
      case newpart
      let ?mp = "mp\<lparr>mp_parts := mp_parts mp @ [cpart_new (mp_destDir mp)], mp_parsePos := PP_BODY\<rparr>"
      obtain i where i: "memchr LF xs = Some i"
        using less.prems(4) read_all_AfterDelim [OF ne newpart(2), of delim cs] newpart(1)
        by (cases "memchr LF xs") auto
      have r: "read_all delim (mode, cs) xs = read_all delim (InText 0, cs @ [[]]) (drop (Suc i) xs)"
        using read_all_AfterDelim [OF ne newpart(2), of delim cs] newpart(1) i by simp
      have l: "mp_loop fs delim as mp xs = mp_loop fs delim as ?mp (drop (Suc i) xs)"
        using less.prems(1) newpart ne i
        by (intro mp_loop_boundary) (simp_all add: mp_abs_def mode_abs_def)
      have a: "mp_abs fs delim ?mp (InText 0, cs @ [[]])"
        using less.prems(1) newpart(1) parts_fed_new len by (simp add: mp_abs_def mode_abs_def)
      have "length (drop (Suc i) xs) < length xs" using memchr_Some [OF i] by auto
      then show ?thesis
        using less.hyps [OF _ a _ less.prems(3), of "drop (Suc i) xs"] less.prems(4) newpart(1) unfolding r l by simp
    next
      case intext
      define n where "n = find_part_end delim xs"
      note sc = read_scan [OF assms n_def, of cs]
      have mp: "mp_parsePos mp = PP_BODY" "mp_delim mp = Some delim" "parts_fed fs (mp_destDir mp) (mp_parts mp) cs"
        using less.prems(1) intext by (simp_all add: mp_abs_def mode_abs_def)
      obtain parts as1 where g: "mp_give fs as mp (take n xs) = Ok (mp\<lparr>mp_parts := parts\<rparr>, as1)"
          "no_errors as1" "parts_fed fs (mp_destDir mp) parts (give cs (take n xs))"
        using mp_give_fed [OF mp(3) less.prems(3)] by blast
      show ?thesis
      proof (cases "length xs - n < length delim")
        case True
        then show ?thesis
          using mp g ne sc intext unfolding mp_loop_text [OF mp(1)] n_def [symmetric] Let_def
          by (simp add: mp_abs_def mode_abs_def)
      next
        case False
        let ?mp = "mp\<lparr>mp_parts := parts, mp_parsePos := PP_GOT_BOUNDARY\<rparr>"
        have a: "mp_abs fs delim ?mp (AfterDelim, give cs (take n xs))"
          using mp g less.prems(1) intext by (simp add: mp_abs_def mode_abs_def)
        have "length (drop (n + length delim) xs) < length xs" using ne len by (cases xs) auto
        then show ?thesis
          using less.hyps [OF _ a _ g(2), of "drop (n + length delim) xs"] less.prems(4) intext g(1) False ne sc
          unfolding mp_loop_text [OF mp(1)] n_def [symmetric] Let_def by simp
      qed
    qed
  qed
qed

lemma mpdata_appendData_sim:
  assumes "delim_ok delim" "mp_abs fs delim mp (mode, cs)" "no_errors as"
    "fst (read_all delim (mode, cs) xs) \<noteq> InLine"
  shows "\<exists>mp' as'. mpdata_appendData fs as mp xs = Ok (mp', as') \<and> no_errors as' \<and>
    mp_destDir mp' = mp_destDir mp \<and> mp_abs fs delim mp' (read_all delim (mode, cs) xs)"
proof -
  consider (plain) "mode = InText 0 \<or> mode = AfterDelim" | (epilogue) "mode = Epilogue"
    | (partial) m where "mode = InText m" "0 < m"
    using assms(2) by (cases mode) (auto simp: mp_abs_def mode_abs_def)
  then show ?thesis
  proof cases
    case plain
    then have "mpdata_appendData fs as mp xs = mp_loop fs delim as mp xs"
      using assms(2) by (auto simp: mpdata_appendData_def mp_abs_def mode_abs_def)
    then show ?thesis using mp_loop_sim [OF assms(1,2) plain assms(3,4)] by simp
  next
    case epilogue
    then show ?thesis using assms(2,3) by (simp add: mpdata_appendData_def mp_abs_def mode_abs_def)
  next
    case (partial m)
    define n where "n = min (length delim - m) (length xs)"
    have mp: "mp_parsePos mp = PP_BODY" "mp_delim mp = Some delim" "mp_match mp = m" "m < length delim"
        "parts_fed fs (mp_destDir mp) (mp_parts mp) cs"
      using assms(2) partial by (simp_all add: mp_abs_def mode_abs_def)
    have len: "0 < length delim" using mp(4) by auto
    show ?thesis
    proof (cases "take n xs = take n (drop m delim)")
      case False
      have r: "read_all delim (mode, cs) xs = read_all delim (InText 0, give cs (take m delim)) xs"
        using read_mismatch [OF assms(1) partial(2) mp(4) n_def False] partial(1) by simp
      obtain parts as1 where g: "mp_give fs as mp (take m delim) = Ok (mp\<lparr>mp_parts := parts\<rparr>, as1)"
          "no_errors as1" "parts_fed fs (mp_destDir mp) parts (give cs (take m delim))"
        using mp_give_fed [OF mp(5) assms(3)] by blast
      let ?mp = "mp\<lparr>mp_parts := parts, mp_match := 0\<rparr>"
      have "mp_abs fs delim ?mp (InText 0, give cs (take m delim))"
        using mp g(3) len by (simp add: mp_abs_def mode_abs_def)
      then have "\<exists>mp' as'. mp_loop fs delim as1 ?mp xs = Ok (mp', as') \<and> no_errors as' \<and>
          mp_destDir mp' = mp_destDir mp \<and> mp_abs fs delim mp' (read_all delim (mode, cs) xs)"
        using mp_loop_sim [OF assms(1) _ _ g(2), of fs ?mp "InText 0" "give cs (take m delim)" xs] assms(4)
        unfolding r by simp
      moreover have "mpdata_appendData fs as mp xs = mp_loop fs delim as1 ?mp xs"
        using False mp g(1) partial(2) by (simp add: mpdata_appendData_def Let_def n_def)
      ultimately show ?thesis by simp
    next
      case match: True
      show ?thesis
      proof (cases "length xs < length delim - m")
        case True
        then have "take (length xs) (drop m delim) = xs" using match by (simp add: n_def)
        then have "read_all delim (mode, cs) xs = (InText (m + length xs), cs)"
          using read_match [OF mp(4)] partial(1) True by simp
        moreover have "mpdata_appendData fs as mp xs = Ok (mp\<lparr>mp_match := m + length xs\<rparr>, as)"
          using match mp True partial(2) by (simp add: mpdata_appendData_def Let_def n_def)
        ultimately show ?thesis using mp True assms(3) by (simp add: mp_abs_def mode_abs_def)
      next
        case False
        let ?k = "length delim - m" and ?mp = "mp\<lparr>mp_match := 0, mp_parsePos := PP_GOT_BOUNDARY\<rparr>"
        have t: "take ?k xs = drop m delim" using match False by (simp add: n_def)
        have "read_all delim (mode, cs) (take ?k xs) = (AfterDelim, cs)"
          using read_match [OF mp(4), of "take ?k xs" cs] t partial(1) False mp(4) by simp
        then have r: "read_all delim (mode, cs) xs = read_all delim (AfterDelim, cs) (drop ?k xs)"
          by (metis append_take_drop_id read_all_append)
        have "mp_abs fs delim ?mp (AfterDelim, cs)" using mp by (simp add: mp_abs_def mode_abs_def)
        then have "\<exists>mp' as'. mp_loop fs delim as ?mp (drop ?k xs) = Ok (mp', as') \<and> no_errors as' \<and>
            mp_destDir mp' = mp_destDir mp \<and> mp_abs fs delim mp' (read_all delim (mode, cs) xs)"
          using mp_loop_sim [OF assms(1) _ _ assms(3), of fs ?mp AfterDelim cs "drop ?k xs"] assms(4)
          unfolding r by simp
        moreover have "mpdata_appendData fs as mp xs = mp_loop fs delim as ?mp (drop ?k xs)"
          using match mp False partial(2) by (simp add: mpdata_appendData_def Let_def n_def)
        ultimately show ?thesis by simp
      qed
    qed
  qed
qed

fun feed_multipart ::
    "(nat \<Rightarrow> UploadFs) \<Rightarrow> WriteAns list \<Rightarrow> MultipartData \<Rightarrow> bytes list \<Rightarrow> (MultipartData \<times> WriteAns list) cres" where
  "feed_multipart fs as mp [] = Ok (mp, as)"
| "feed_multipart fs as mp (p # ps) =
     cbind (mpdata_appendData fs as mp p) (\<lambda>(mp', as'). feed_multipart fs as' mp' ps)"

text \<open>The delimiter for a boundary string, and the reader of a whole body.\<close>

definition delim_of :: "bytes \<Rightarrow> bytes" where
  "delim_of boundary = CRLF @ ''--'' @ boundary"

definition read_body :: "bytes \<Rightarrow> bytes \<Rightarrow> Mode \<times> bytes list" where
  "read_body boundary = read_all (delim_of boundary) (InText 2, [])"

text \<open>No piece ends inside the rest of a boundary line.\<close>

definition cut_ok :: "bytes \<Rightarrow> bytes list \<Rightarrow> bool" where
  "cut_ok boundary pieces =
     list_all (\<lambda>k. fst (read_body boundary (concat (take k pieces))) \<noteq> InLine) [0..<Suc (length pieces)]"

lemma delim_of_ok: "CR \<notin> set boundary \<Longrightarrow> delim_ok (delim_of boundary)"
  by (simp add: delim_ok_def delim_of_def)

lemma feed_multipart_sim:
  assumes "delim_ok delim"
  shows "mp_abs fs delim mp st \<Longrightarrow> no_errors as \<Longrightarrow>
    \<forall>k \<le> length ps. fst (read_all delim st (concat (take k ps))) \<noteq> InLine \<Longrightarrow>
    \<exists>mp' as'. feed_multipart fs as mp ps = Ok (mp', as') \<and> mp_destDir mp' = mp_destDir mp \<and>
      mp_abs fs delim mp' (read_all delim st (concat ps))"
proof (induction ps arbitrary: mp st as)
  case Nil
  then show ?case by simp
next
  case (Cons p ps)
  obtain mode cs where st: "st = (mode, cs)" by (cases st)
  have "fst (read_all delim (mode, cs) p) \<noteq> InLine" using Cons.prems(3) st
    by (auto simp: read_all_append dest: spec [of _ 1])
  from mpdata_appendData_sim [OF assms Cons.prems(1) [unfolded st] Cons.prems(2) this]
  obtain mp1 as1 where a: "mpdata_appendData fs as mp p = Ok (mp1, as1)" "no_errors as1"
      "mp_destDir mp1 = mp_destDir mp" "mp_abs fs delim mp1 (read_all delim (mode, cs) p)"
    by blast
  have "fst (read_all delim (read_all delim st p) (concat (take k ps))) \<noteq> InLine" if "k \<le> length ps" for k
    using Cons.prems(3) that by (auto simp: read_all_append dest: spec [of _ "Suc k"])
  from Cons.IH [OF a(4) a(2)] this a(1,3) st show ?case by (simp add: read_all_append)
qed

text \<open>C9: Where no piece ends inside a boundary line, \<open>mpdata_appendData\<close> follows the byte-by-byte reader: for a boundary
  without a carriage return, a body in pieces of which none ends inside the rest of a boundary line (\<open>cut_ok\<close>; for other pieces
  it is false, see \<open>boundary_line_cut_adds_part\<close>), and as long as no \<open>write\<close> fails, the parser stays inside its
  memory, has a part for each part the reader saw, fed with exactly its bytes, and is in the reader's state.\<close>

theorem multipart_follows_reader:
  assumes "CR \<notin> set boundary" and "no_errors as" and "cut_ok boundary pieces"
  shows "\<exists>mp as'. feed_multipart fs as (mpdata_new boundary dest) pieces = Ok (mp, as') \<and>
    parts_fed fs dest (mp_parts mp) (snd (read_body boundary (concat pieces))) \<and>
    mode_abs (delim_of boundary) mp (fst (read_body boundary (concat pieces)))"
proof -
  have a: "mp_abs fs (delim_of boundary) (mpdata_new boundary dest) (InText 2, [])"
    by (simp add: mp_abs_def mode_abs_def mpdata_new_def delim_of_def parts_fed_def)
  have "\<forall>k \<le> length pieces. fst (read_all (delim_of boundary) (InText 2, []) (concat (take k pieces))) \<noteq> InLine"
    using assms(3) by (auto simp: cut_ok_def list_all_iff read_body_def)
  from feed_multipart_sim [OF delim_of_ok [OF assms(1)] a assms(2) this]
  show ?thesis by (auto simp: mp_abs_def read_body_def mpdata_new_def)
qed

definition example_boundary :: bytes where "example_boundary = ''XyZ''"

definition example_parts :: "((bytes \<times> bytes) list \<times> bytes) list" where
  "example_parts =
     [([(''Content-Disposition'', '' form-data; name=do_add'')], ''Add''),
      ([(''Content-Disposition'', '' form-data; name=file; filename=a.txt'')], [CR, NUL] @ ''--XyZ'' @ CRLF)]"

definition example_pieces :: "bytes list" where
  "example_pieces =
     [''--X'', ''yZ'', CRLF @ ''Content-Disposition: form-data; name=do_add'' @ CRLF @ CRLF @ ''Add'' @ CRLF @ ''--Xy'',
      ''Z'' @ CRLF @ ''Content-Disposition: form-data; name=file; filename=a.txt'' @ CRLF @ CRLF @ [CR],
      NUL # ''--XyZ'' @ CRLF @ [CR], [LF], ''--XyZ--'' @ CRLF]"

lemma example_cut: "cut_ok example_boundary example_pieces"
  by code_simp

theorem multipart_follows_reader_witness:
  "\<exists>mp as'. feed_multipart (\<lambda>k. example_upload_fs) [Wrote 2] (mpdata_new example_boundary None) example_pieces = Ok (mp, as') \<and>
     length (mp_parts mp) = 2 \<and> mp_delim mp = None"
proof -
  have b: "CR \<notin> set example_boundary" by (simp add: example_boundary_def)
  have e: "no_errors [Wrote 2]" by (simp add: no_errors_def)
  have r: "length (snd (read_body example_boundary (concat example_pieces))) = 2"
    "fst (read_body example_boundary (concat example_pieces)) = Epilogue" by code_simp+
  show ?thesis
    using multipart_follows_reader [OF b e example_cut, of "\<lambda>k. example_upload_fs" None] r
    by (auto simp: parts_fed_def mode_abs_def)
qed

subsection \<open>Reading a printed body\<close>

definition print_part :: "(bytes \<times> bytes) list \<times> bytes \<Rightarrow> bytes" where
  "print_part p = concat (map print_header (fst p)) @ CRLF @ snd p"

definition print_multipart ::
    "bytes \<Rightarrow> bytes option \<Rightarrow> ((bytes \<times> bytes) list \<times> bytes) list \<Rightarrow> bytes \<Rightarrow> bytes" where
  "print_multipart boundary preamble parts epilogue =
     (case preamble of None \<Rightarrow> [] | Some t \<Rightarrow> t @ CRLF) @
     concat (map (\<lambda>p. ''--'' @ boundary @ CRLF @ print_part p @ CRLF) parts) @
     ''--'' @ boundary @ ''--'' @ epilogue"

lemma find_part_end_text:
  assumes "delim_ok delim" "\<not> sublist delim t"
  shows "find_part_end delim (t @ delim @ rest) = length t"
  using assms(2)
proof (induction t)
  case Nil
  obtain d ds where d: "delim = CR # d # ds" using delim_cases [OF assms(1)] by blast
  show ?case by (simp add: d)
next
  case (Cons c t)
  have no: "\<not> sublist delim t" using Cons.prems by (simp add: sublist_Cons_right)
  let ?s = "(c # t) @ delim @ rest"
  have k: "min (length delim) (length ?s) = length delim" by simp
  have "\<not> (c = CR \<and> take (length delim) ?s = take (length delim) delim)"
  proof (intro notI, elim conjE)
    assume hit: "take (length delim) ?s = take (length delim) delim"
    show False
    proof (cases "length delim \<le> length (c # t)")
      case True
      then have "take (length delim) ?s = take (length delim) (c # t)" unfolding take_append by simp
      then have "take (length delim) (c # t) = delim" using hit by simp
      then show False using Cons.prems by (metis sublist_take)
    next
      case False
      define i where "i = length (c # t)"
      have i: "0 < i" "i < length delim" using False by (auto simp: i_def)
      have "delim ! i = take (length delim) ?s ! i" using hit by simp
      also have "\<dots> = ?s ! i" using i by simp
      also have "\<dots> = delim ! 0" using i by (cases delim) (simp_all add: nth_append i_def)
      finally have "delim ! i = delim ! 0" .
      moreover have "0 < length delim" using i by linarith
      ultimately show False using delim_nth [OF assms(1), of i] delim_nth [OF assms(1), of 0] i by simp
    qed
  qed
  then have "find_part_end delim (c # (t @ delim @ rest)) = Suc (find_part_end delim (t @ delim @ rest))"
    using k by (auto simp: Let_def)
  then show ?case using Cons.IH [OF no] by simp
qed

lemma read_text:
  assumes "delim_ok delim" "\<not> sublist delim t"
  shows "read_all delim (InText 0, cs) (t @ delim @ rest) = read_all delim (AfterDelim, give cs t) rest"
  using read_scan [OF assms(1) find_part_end_text [OF assms, symmetric], of rest cs] by simp

lemma read_parts:
  assumes "delim_ok delim" "\<forall>p \<in> set parts. \<not> sublist delim (print_part p)"
  shows "read_all delim (AfterDelim, cs) (concat (map (\<lambda>p. CRLF @ print_part p @ delim) parts) @ ''--'' @ epi) =
    (Epilogue, cs @ map print_part parts)"
  using assms(2)
proof (induction parts arbitrary: cs)
  case Nil
  show ?case by simp
next
  case (Cons p parts)
  let ?rest = "concat (map (\<lambda>p. CRLF @ print_part p @ delim) parts) @ ''--'' @ epi"
  have "read_all delim (AfterDelim, cs) (CRLF @ print_part p @ delim @ ?rest) =
      read_all delim (InText 0, cs @ [[]]) (print_part p @ delim @ ?rest)" by simp
  also have "\<dots> = read_all delim (AfterDelim, cs @ [print_part p]) ?rest"
    using read_text [OF assms(1), of "print_part p" "cs @ [[]]" ?rest] Cons.prems by (simp add: give_def)
  finally show ?case using Cons.IH [of "cs @ [print_part p]"] Cons.prems by simp
qed

lemma print_multipart_delim:
  "CRLF @ print_multipart boundary preamble parts epilogue =
     (case preamble of None \<Rightarrow> [] | Some t \<Rightarrow> CRLF @ t) @ delim_of boundary @
     concat (map (\<lambda>p. CRLF @ print_part p @ delim_of boundary) parts) @ ''--'' @ epilogue"
proof -
  have "CRLF @ concat (map (\<lambda>p. ''--'' @ boundary @ CRLF @ print_part p @ CRLF) parts) @ ''--'' @ boundary @ x =
      delim_of boundary @ concat (map (\<lambda>p. CRLF @ print_part p @ delim_of boundary) parts) @ x" for x
    by (induction parts) (simp_all add: delim_of_def)
  from this [of "''--'' @ epilogue"] show ?thesis
    by (cases preamble) (simp_all add: print_multipart_def)
qed

lemma read_body_start: "read_body boundary xs = read_all (delim_of boundary) (InText 0, []) (CRLF @ xs)"
  by (simp add: read_body_def delim_of_def numeral_2_eq_2)

lemma read_printed:
  assumes "CR \<notin> set boundary" "\<forall>p \<in> set parts. \<not> sublist (delim_of boundary) (print_part p)"
    "\<forall>t. preamble = Some t \<longrightarrow> \<not> sublist (delim_of boundary) (CRLF @ t)"
  shows "read_body boundary (print_multipart boundary preamble parts epilogue) = (Epilogue, map print_part parts)"
proof -
  let ?pre = "case preamble of None \<Rightarrow> [] | Some t \<Rightarrow> CRLF @ t"
  have ok: "delim_ok (delim_of boundary)" using delim_of_ok [OF assms(1)] .
  have "\<not> sublist (delim_of boundary) ?pre"
    using assms(3) by (auto simp: delim_of_def split: option.split)
  from read_text [OF ok this] show ?thesis
    unfolding read_body_start print_multipart_delim
    using read_parts [OF ok assms(2), of "[]" epilogue] by simp
qed

lemma parts_fed_outcome:
  assumes "parts_fed fs dest ps (map print_part parts)" "\<forall>p \<in> set parts. \<forall>h \<in> set (fst p). header_ok h"
    "k < length parts"
  shows "part_outcome (fs k) dest (fst (parts ! k)) (snd (parts ! k)) (ps ! k)"
proof -
  obtain pcs where "concat pcs = print_part (parts ! k)" "feed_part (fs k) [] (cpart_new dest) pcs = Ok (ps ! k, [])"
    using assms(1,3) by (auto simp: parts_fed_def part_fed_def)
  moreover have "\<forall>h \<in> set (fst (parts ! k)). header_ok h" using assms(2,3) nth_mem by blast
  ultimately show ?thesis
    using feed_part_outcome [of "fst (parts ! k)" "[]" pcs "snd (parts ! k)" "fs k" dest]
    by (auto simp: no_errors_def print_part_def)
qed

text \<open>C17: A printed multipart body is read back: with any preamble and epilogue and parts that do not
  contain the delimiter, cut into pieces anywhere but inside the rest of a boundary line, every part
  becomes what \<open>part_outcome\<close> says, the closing delimiter is recognised, and looking a part up by
  name finds the first one whose disposition has that name.\<close>

theorem multipart_roundtrip:
  assumes "CR \<notin> set boundary" and "no_errors as" and "cut_ok boundary pieces"
    and "concat pieces = print_multipart boundary preamble parts epilogue"
    and "\<forall>p \<in> set parts. \<not> sublist (delim_of boundary) (print_part p) \<and> (\<forall>h \<in> set (fst p). header_ok h)"
    and "\<forall>t. preamble = Some t \<longrightarrow> \<not> sublist (delim_of boundary) (CRLF @ t)"
  shows "\<exists>mp as'. feed_multipart fs as (mpdata_new boundary dest) pieces = Ok (mp, as') \<and>
    mp_delim mp = None \<and> length (mp_parts mp) = length parts \<and>
    (\<forall>k < length parts. part_outcome (fs k) dest (fst (parts ! k)) (snd (parts ! k)) (mp_parts mp ! k)) \<and>
    (\<forall>name. mpdata_getPartByName mp name =
       find (\<lambda>k. part_name (header_params (fst (parts ! k))) = Some name) [0..<length parts])"
proof -
  have r: "read_body boundary (concat pieces) = (Epilogue, map print_part parts)"
    unfolding assms(4) using assms(1,5,6) by (intro read_printed) auto
  have a: "mp_abs fs (delim_of boundary) (mpdata_new boundary dest) (InText 2, [])"
    by (simp add: mp_abs_def mode_abs_def mpdata_new_def delim_of_def parts_fed_def)
  have "\<forall>k \<le> length pieces. fst (read_all (delim_of boundary) (InText 2, []) (concat (take k pieces))) \<noteq> InLine"
    using assms(3) by (auto simp: cut_ok_def list_all_iff read_body_def)
  from feed_multipart_sim [OF delim_of_ok [OF assms(1)] a assms(2) this]
  obtain mp as' where f: "feed_multipart fs as (mpdata_new boundary dest) pieces = Ok (mp, as')"
      "mp_destDir mp = dest" "mp_abs fs (delim_of boundary) mp (Epilogue, map print_part parts)"
    using r by (auto simp: read_body_def mpdata_new_def)
  then have p: "parts_fed fs dest (mp_parts mp) (map print_part parts)" "mp_delim mp = None"
    by (auto simp: mp_abs_def mode_abs_def)
  have l: "length (mp_parts mp) = length parts" using p(1) by (simp add: parts_fed_def)
  have o': "part_outcome (fs k) dest (fst (parts ! k)) (snd (parts ! k)) (mp_parts mp ! k)" if "k < length parts" for k
    using parts_fed_outcome [OF p(1) _ that] assms(5) by blast
  have "mpdata_getPartByName mp name =
      find (\<lambda>k. part_name (header_params (fst (parts ! k))) = Some name) [0..<length parts]" for name
    unfolding mpdata_getPartByName_def l
    by (rule find_cong [OF refl]) (use o' in \<open>simp add: part_outcome_def cpart_nameEquals_def cpart_getName_def\<close>)
  with f(1) p(2) l o' show ?thesis by blast
qed

theorem multipart_roundtrip_witness:
  "\<exists>mp as'. feed_multipart (\<lambda>k. example_upload_fs) [Wrote 2] (mpdata_new example_boundary (Some ''/srv'')) example_pieces = Ok (mp, as') \<and>
     cp_body (mp_parts mp ! 0) = Some ''Add'' \<and> cp_file (mp_parts mp ! 1) = Some ([CR, NUL] @ ''--XyZ'' @ CRLF) \<and>
     mpdata_getPartByName mp ''file'' = Some 1"
proof -
  have b: "CR \<notin> set example_boundary" by (simp add: example_boundary_def)
  have e: "no_errors [Wrote 2]" by (simp add: no_errors_def)
  have c: "concat example_pieces = print_multipart example_boundary None example_parts CRLF" by code_simp
  have ok: "\<forall>p \<in> set example_parts. \<not> sublist (delim_of example_boundary) (print_part p) \<and> (\<forall>h \<in> set (fst p). header_ok h)"
    by code_simp
  have ps: "part_file (header_params (fst (example_parts ! 0))) = None"
      "part_file (header_params (fst (example_parts ! 1))) = Some ''a.txt''"
      "find (\<lambda>k. part_name (header_params (fst (example_parts ! k))) = Some ''file'') [0..<length example_parts] = Some 1"
      "length example_parts = 2" "snd (example_parts ! 0) = ''Add''"
      "snd (example_parts ! 1) = [CR, NUL] @ ''--XyZ'' @ CRLF"
      "uf_open example_upload_fs (with_slash ''/srv'' @ ''a.txt'') = None"
    by code_simp+
  obtain mp as' where f: "feed_multipart (\<lambda>k. example_upload_fs) [Wrote 2] (mpdata_new example_boundary (Some ''/srv'')) example_pieces = Ok (mp, as')"
    and o': "\<And>k. k < 2 \<Longrightarrow> part_outcome example_upload_fs (Some ''/srv'') (fst (example_parts ! k)) (snd (example_parts ! k)) (mp_parts mp ! k)"
    and n: "mpdata_getPartByName mp ''file'' = Some 1"
    using multipart_roundtrip [OF b e example_cut c ok, of "\<lambda>k. example_upload_fs" "Some ''/srv''"] ps by auto
  have "cp_body (mp_parts mp ! 0) = Some ''Add''" "cp_file (mp_parts mp ! 1) = Some ([CR, NUL] @ ''--XyZ'' @ CRLF)"
    using o' [of 0] o' [of 1] ps by (simp_all add: part_outcome_def)
  with f n show ?thesis by blast
qed

text \<open>C38: When a piece ends inside the rest of a boundary line, the parser creates a part too many:
  behind a delimiter, the rest \<open>l @ l' @ [LF]\<close> of the line in one piece adds one part, and cut
  after \<open>l\<close> it adds two, the first of them without any data.\<close>

theorem boundary_line_cut_adds_part:
  assumes "mode_abs delim mp AfterDelim" and "l \<noteq> []" and "LF \<notin> set l" and "LF \<notin> set l'"
    and "hd l \<noteq> CHR ''-''" and "hd (l' @ [LF]) \<noteq> CHR ''-''"
  shows "(\<exists>mp1. feed_multipart fs as mp [l @ l' @ [LF]] = Ok (mp1, as) \<and>
      mp_parts mp1 = mp_parts mp @ [cpart_new (mp_destDir mp)]) \<and>
    (\<exists>mp2. feed_multipart fs as mp [l, l' @ [LF]] = Ok (mp2, as) \<and>
      mp_parts mp2 = mp_parts mp @ [cpart_new (mp_destDir mp), cpart_new (mp_destDir mp)])"
proof -
  have line: "\<exists>mp1. mpdata_appendData fs as m (x @ [LF]) = Ok (mp1, as) \<and>
      mp_parts mp1 = mp_parts m @ [cpart_new (mp_destDir m)]"
    if m: "mode_abs delim m AfterDelim" and x: "LF \<notin> set x" "hd (x @ [LF]) \<noteq> CHR ''-''" for m x
  proof -
    have "mpdata_appendData fs as m (x @ [LF]) = mp_loop fs delim as m (x @ [LF])"
      using m by (simp add: mpdata_appendData_def mode_abs_def)
    also have "\<dots> = mp_loop fs delim as (m\<lparr>mp_parts := mp_parts m @ [cpart_new (mp_destDir m)], mp_parsePos := PP_BODY\<rparr>)
        (drop (Suc (length x)) (x @ [LF]))"
      using m x memchr_append [of LF x "[]"] by (intro mp_loop_boundary) (simp_all add: mode_abs_def)
    also have "\<dots> = Ok (m\<lparr>mp_parts := mp_parts m @ [cpart_new (mp_destDir m)], mp_parsePos := PP_BODY\<rparr>, as)"
      by (subst mp_loop.simps) simp
    finally show ?thesis by simp
  qed
  let ?mp = "mp\<lparr>mp_parts := mp_parts mp @ [cpart_new (mp_destDir mp)]\<rparr>"
  have "memchr LF l = None" using assms(3) by (simp add: memchr_None)
  then have "mp_loop fs delim as mp l = Ok (?mp, as)"
    using assms(1,2,5) by (subst mp_loop.simps) (simp add: mp_line_def mode_abs_def)
  then have first: "mpdata_appendData fs as mp l = Ok (?mp, as)"
    using assms(1) by (simp add: mpdata_appendData_def mode_abs_def)
  have m: "mode_abs delim ?mp AfterDelim" using assms(1) by (simp add: mode_abs_def)
  have "\<exists>mp1. mpdata_appendData fs as mp (l @ l' @ [LF]) = Ok (mp1, as) \<and>
      mp_parts mp1 = mp_parts mp @ [cpart_new (mp_destDir mp)]"
    using line [OF assms(1), of "l @ l'"] assms(2-5) by simp
  then show ?thesis using first line [OF m assms(4,6)] by auto
qed

theorem boundary_line_cut_adds_part_witness:
  "\<exists>mp2. feed_multipart (\<lambda>k. example_upload_fs) []
      \<lparr>mp_delim = Some (delim_of ''b''), mp_destDir = None, mp_parsePos = PP_GOT_BOUNDARY, mp_match = 0, mp_parts = []\<rparr>
      [[CR], [LF]] = Ok (mp2, []) \<and> length (mp_parts mp2) = 2"
proof -
  let ?mp = "\<lparr>mp_delim = Some (delim_of ''b''), mp_destDir = None, mp_parsePos = PP_GOT_BOUNDARY, mp_match = 0, mp_parts = []\<rparr>"
  have m: "mode_abs (delim_of ''b'') ?mp AfterDelim" by (simp add: mode_abs_def)
  show ?thesis
    using boundary_line_cut_adds_part [OF m, of "[CR]" "[]" "\<lambda>k. example_upload_fs" "[]"] by auto
qed

end
