(* ===== verification/Filemanager.thy ===== *)
theory Filemanager
  imports Requestheader Multipartdata "HOL-Library.Sublist"
begin

text \<open>
  \<open>src/filemanager.c\<close> without the listing page (theory \<open>Folderpage\<close>): the changes a posted
  form makes to a folder.  The answers of the system are the record \<open>FmSys\<close> (the failing calls give
  \<open>errno\<close>), those for the uploaded parts the functions \<open>fs k\<close> of theory \<open>Multipartdata\<close>.
  Every operation returns its error message, if any, and the calls it made that change the
  file system.  A null pointer that the code reads through is \<open>Undef\<close>.
\<close>

record FmSys =
  fms_rename :: "bytes \<Rightarrow> bytes option \<Rightarrow> nat option"
  fms_mkdir :: "bytes \<Rightarrow> nat option"
  fms_unlink :: "bytes \<Rightarrow> nat option"
  fms_rmdir :: "bytes \<Rightarrow> nat option"
  fms_opendir :: "bytes \<Rightarrow> nat + bytes list"
  fms_chmod :: "bytes \<Rightarrow> nat \<Rightarrow> nat option"
  fms_access :: "bytes \<Rightarrow> bool"
  fms_strerror :: "nat \<Rightarrow> bytes"

record FileManager =
  fm_sysPath :: "bytes option"
  fm_body :: "MultipartData option"
  fm_opErrorMsg :: "bytes option"

text \<open>\<open>format_path\<close>: the byte before an empty root directory is outside the string.\<close>

definition format_path :: "bytes option \<Rightarrow> bytes \<Rightarrow> bytes cres" where
  "format_path rootdir subdir =
     (case rootdir of
        None \<Rightarrow> Undef
      | Some r \<Rightarrow>
          (if r = [] then Undef
           else Ok ((if last r \<noteq> CHR ''/'' then r @ ''/'' else r) @
                    (if subdir \<noteq> [] \<and> hd subdir = CHR ''/'' then tl subdir else subdir))))"

definition filemgr_getLoginForm :: bytes where
  "filemgr_getLoginForm =
   ''<form style='' @ [APOS] @ ''display: inline'' @ [APOS] @ '' method='' @ [QUOTE] @ ''POST'' @ [QUOTE] @
   '' enctype='' @ [QUOTE] @ ''multipart/form-data'' @ [QUOTE] @ ''>'' @ [LF] @ ''<input type='' @ [QUOTE] @
   ''submit'' @ [QUOTE] @ '' name='' @ [QUOTE] @ ''do_login'' @ [QUOTE] @ '' value='' @ [QUOTE] @ ''Login'' @
   [QUOTE] @ ''></input>'' @ [LF] @ ''</form>'' @ [LF]"

definition fmtError :: "FmSys \<Rightarrow> nat \<Rightarrow> bytes list \<Rightarrow> bytes" where
  "fmtError sys sysErrno strs =
     concat strs @ (if sysErrno \<noteq> 0 then '': '' @ fms_strerror sys sysErrno else [])"

text \<open>The tables of the permissions: \<open>gFilePermDisp\<close> and the bits of the three groups.\<close>

definition gFilePermDisp :: "bytes list" where
  "gFilePermDisp = [''---'', ''r--'', ''-w-'', ''rw-'', ''--x'', ''r-x'', ''-wx'', ''rwx'']"

record FilePerm =
  fp_name :: bytes
  fp_mask :: nat
  fp_value :: "nat list"

definition gFilePerm :: "FilePerm list" where
  "gFilePerm =
     [\<lparr>fp_name = ''user'', fp_mask = 448, fp_value = [0, 256, 128, 384, 64, 320, 192, 448]\<rparr>,
      \<lparr>fp_name = ''group'', fp_mask = 56, fp_value = [0, 32, 16, 48, 8, 40, 24, 56]\<rparr>,
      \<lparr>fp_name = ''others'', fp_mask = 7, fp_value = [0, 4, 2, 6, 1, 5, 3, 7]\<rparr>]"

subsection \<open>The operations\<close>

text \<open>A part of the form: its index, or a null pointer.\<close>

definition add_new_file ::
    "FmSys \<Rightarrow> (nat \<Rightarrow> UploadFs) \<Rightarrow> MultipartData \<Rightarrow> nat option \<Rightarrow> (MultipartData \<times> bytes option) cres" where
  "add_new_file sys fs mp part =
     (case part of
        None \<Rightarrow> Undef
      | Some k \<Rightarrow>
          (case cpart_getFileName (mp_parts mp ! k) of
             None \<Rightarrow> Ok (mp, Some (fmtError sys 0 [''unable to add: no file chosen'']))
           | Some fname \<Rightarrow>
               (let (cp, res, err) = cpart_finishUpload (fs k) (mp_parts mp ! k) None False
                in Ok (mp\<lparr>mp_parts := (mp_parts mp)[k := cp]\<rparr>,
                       if res then None else Some (fmtError sys (the err) [''unable to store '', fname])))))"

definition replace_file ::
    "FmSys \<Rightarrow> (nat \<Rightarrow> UploadFs) \<Rightarrow> MultipartData \<Rightarrow> bytes option \<Rightarrow> bytes option \<Rightarrow> nat option \<Rightarrow>
     (MultipartData \<times> bytes option) cres" where
  "replace_file sys fs mp sysPath fname part =
     (case part of
        None \<Rightarrow> Undef
      | Some k \<Rightarrow>
          (case (fname, cpart_getFilePathName (mp_parts mp ! k)) of
             (Some f, Some _) \<Rightarrow>
               cbind (format_path sysPath f) (\<lambda>filePath.
                 let (cp, res, err) = cpart_finishUpload (fs k) (mp_parts mp ! k) (Some filePath) True
                 in Ok (mp\<lparr>mp_parts := (mp_parts mp)[k := cp]\<rparr>,
                        if res then None else Some (fmtError sys (the err) [''unable to store '', f])))
           | _ \<Rightarrow> Ok (mp, Some (fmtError sys 0 [''unable to replace: no file chosen'']))))"

definition rename_file ::
    "FmSys \<Rightarrow> Config \<Rightarrow> bytes option \<Rightarrow> bytes option \<Rightarrow> bytes option \<Rightarrow> bytes option \<Rightarrow>
     (FsCall list \<times> bytes option) cres" where
  "rename_file sys c sysPath oldName newDir newName =
     (case (oldName, newDir, newName) of
        (Some old, Some dir, Some new) \<Rightarrow>
          (if old = [] \<or> dir = [] \<or> hd dir \<noteq> CHR ''/'' \<or> new = []
           then Ok ([], Some (fmtError sys 0 [''rename: bad parameters'']))
           else if CHR ''/'' \<in> set new
           then Ok ([], Some (fmtError sys 0 [''rename: slash in name disallowed'']))
           else cbind (format_path sysPath old) (\<lambda>oldpath.
                cbind (format_path (Some dir) new) (\<lambda>newUrlPath.
                let newSysPath = config_getSysPathForUrlPath c newUrlPath in
                Ok ((case newSysPath of Some p \<Rightarrow> [FsRename oldpath p] | None \<Rightarrow> []),
                    case fms_rename sys oldpath newSysPath of
                      None \<Rightarrow> None | Some e \<Rightarrow> Some (fmtError sys e [old, '' rename failed''])))))
      | _ \<Rightarrow> Ok ([], Some (fmtError sys 0 [''rename: bad parameters''])))"

definition create_newdir :: "FmSys \<Rightarrow> bytes option \<Rightarrow> bytes option \<Rightarrow> (FsCall list \<times> bytes option) cres" where
  "create_newdir sys sysPath newDir =
     (case newDir of
        None \<Rightarrow> Ok ([], Some (fmtError sys 0 [''create dir: bad parameters'']))
      | Some d \<Rightarrow>
          (if d = [] then Ok ([], Some (fmtError sys 0 [''create dir: bad parameters'']))
           else if CHR ''/'' \<in> set d
           then Ok ([], Some (fmtError sys 0 [''create dir: slash in name disallowed'']))
           else cbind (format_path sysPath d) (\<lambda>path.
                Ok ([FsMkdir path], case fms_mkdir sys path of None \<Rightarrow> None
                    | Some e \<Rightarrow> Some (fmtError sys e
                        [''unable to create directory '' @ [QUOTE], d, [QUOTE]])))))"

text \<open>
  \<open>del_recursive\<close> with fuel for the depth of the directory tree (\<open>None\<close> when it runs out): the
  calls, and \<open>errno\<close> when the result is not 0.
\<close>

fun del_recursive :: "nat \<Rightarrow> FmSys \<Rightarrow> bytes \<Rightarrow> (FsCall list \<times> nat option) option"
and del_children :: "nat \<Rightarrow> FmSys \<Rightarrow> bytes \<Rightarrow> bytes list \<Rightarrow> (FsCall list \<times> nat option) option" where
  "del_recursive 0 sys path = None"
| "del_recursive (Suc n) sys path =
     (case fms_unlink sys path of
        None \<Rightarrow> Some ([FsUnlink path], None)
      | Some e \<Rightarrow>
          (if e = EISDIR then
             (case fms_opendir sys path of
                Inl e' \<Rightarrow> Some ([FsUnlink path], Some e')
              | Inr names \<Rightarrow>
                  (case del_children n sys (with_slash path) names of
                     None \<Rightarrow> None
                   | Some (calls, Some e') \<Rightarrow> Some (FsUnlink path # calls, Some e')
                   | Some (calls, None) \<Rightarrow>
                       Some (FsUnlink path # calls @ [FsRmdir path], fms_rmdir sys path)))
           else Some ([FsUnlink path], if e = ENOENT then None else Some e)))"
| "del_children n sys dir [] = Some ([], None)"
| "del_children n sys dir (d # ds) =
     (if d = ''.'' \<or> d = ''..'' then del_children n sys dir ds
      else case del_recursive n sys (dir @ d) of
          None \<Rightarrow> None
        | Some (calls, Some e) \<Rightarrow> Some (calls, Some e)
        | Some (calls, None) \<Rightarrow>
            (case del_children n sys dir ds of
               None \<Rightarrow> None
             | Some (calls', r) \<Rightarrow> Some (calls @ calls', r)))"

text \<open>\<open>delete_file\<close>: \<open>None\<close> when the fuel for \<open>del_recursive\<close> runs out.\<close>

definition delete_file ::
    "nat \<Rightarrow> FmSys \<Rightarrow> bytes option \<Rightarrow> bytes option \<Rightarrow> bool \<Rightarrow> (FsCall list \<times> bytes option) cres option" where
  "delete_file n sys sysPath fname recursively =
     (case fname of
        None \<Rightarrow> Some (Ok ([], Some (fmtError sys 0 [''delete: bad parameters''])))
      | Some f \<Rightarrow>
          (if f = [] then Some (Ok ([], Some (fmtError sys 0 [''delete: bad parameters''])))
           else case format_path sysPath f of
               Abort \<Rightarrow> Some Abort
             | Undef \<Rightarrow> Some Undef
             | Ok path \<Rightarrow>
                 (let report = (\<lambda>err. map_option (\<lambda>e. fmtError sys e [f, '' delete failed'']) err) in
                  if recursively then
                    (case del_recursive n sys path of
                       None \<Rightarrow> None
                     | Some (calls, err) \<Rightarrow> Some (Ok (calls, report err)))
                  else
                    (case fms_unlink sys path of
                       None \<Rightarrow> Some (Ok ([FsUnlink path], None))
                     | Some e \<Rightarrow>
                         (if e = EISDIR
                          then Some (Ok ([FsUnlink path, FsRmdir path], report (fms_rmdir sys path)))
                          else Some (Ok ([FsUnlink path], report (Some e))))))))"

text \<open>The loop of \<open>chmod_file\<close>: the mode of the displayed permissions of the groups.\<close>

fun perm_index :: "bytes list \<Rightarrow> bytes \<Rightarrow> nat" where
  "perm_index [] p = 0"
| "perm_index (d # ds) p = (if p = d then 0 else Suc (perm_index ds p))"

fun perm_mode :: "FilePerm list \<Rightarrow> bytes list \<Rightarrow> nat \<Rightarrow> nat option" where
  "perm_mode (g # gs) (p # ps) mode =
     (let j = perm_index gFilePermDisp p in
      if j < length gFilePermDisp then perm_mode gs ps (or mode (fp_value g ! j)) else None)"
| "perm_mode _ _ mode = Some mode"

definition chmod_file ::
    "FmSys \<Rightarrow> bytes option \<Rightarrow> bytes option \<Rightarrow> bytes option \<Rightarrow> bytes option \<Rightarrow> bytes option \<Rightarrow>
     (FsCall list \<times> bytes option) cres" where
  "chmod_file sys sysPath fname puser pgroup pothers =
     (case (fname, puser, pgroup, pothers) of
        (Some f, Some u, Some g, Some o') \<Rightarrow>
          (case perm_mode gFilePerm [u, g, o'] 0 of
             None \<Rightarrow> Ok ([], Some (fmtError sys 0 [''invalid parameters'']))
           | Some mode \<Rightarrow>
               cbind (format_path sysPath f) (\<lambda>path.
                 Ok ([FsChmod path mode], case fms_chmod sys path mode of None \<Rightarrow> None
                     | Some e \<Rightarrow> Some (fmtError sys e [''change permissions of '', f, '' failed'']))))
      | _ \<Rightarrow> Ok ([], Some (fmtError sys 0 [''invalid parameters''])))"

subsection \<open>Posted forms\<close>

datatype PostingResult = PR_PROCESSED | PR_REQUIRE_AUTH

text \<open>The data of the part with a name, as \<open>cpart_getDataStr(mpdata_getPartByName(...))\<close>.\<close>

definition form_value :: "MultipartData \<Rightarrow> bytes \<Rightarrow> bytes option" where
  "form_value mp name = cpart_getDataStr (map_option (\<lambda>k. mp_parts mp ! k) (mpdata_getPartByName mp name))"

text \<open>
  The dispatch on the button of the form: the parts afterwards, the calls and the error message.
\<close>

definition post_action ::
    "nat \<Rightarrow> FmSys \<Rightarrow> (nat \<Rightarrow> UploadFs) \<Rightarrow> Config \<Rightarrow> bytes option \<Rightarrow> MultipartData \<Rightarrow>
     (MultipartData \<times> FsCall list \<times> bytes option) cres option" where
  "post_action n sys fs c sysPath mp =
     (let keep = (\<lambda>r. cbind r (\<lambda>(calls, err). Ok (mp, calls, err)));
          upload = (\<lambda>r. cbind r (\<lambda>(mp', err). Ok (mp', [], err)));
          file = form_value mp ''file'' in
      if mpdata_containsPartWithName mp ''do_add''
      then Some (upload (add_new_file sys fs mp (mpdata_getPartByName mp ''file'')))
      else if mpdata_containsPartWithName mp ''do_rename''
      then Some (keep (rename_file sys c sysPath file (form_value mp ''new_dir'') (form_value mp ''new_name'')))
      else if mpdata_containsPartWithName mp ''do_newdir''
      then Some (keep (create_newdir sys sysPath (form_value mp ''new_dir'')))
      else if mpdata_containsPartWithName mp ''do_replace''
      then Some (upload (replace_file sys fs mp sysPath file (mpdata_getPartByName mp ''new_cont'')))
      else if mpdata_containsPartWithName mp ''do_delete''
      then map_option keep (delete_file n sys sysPath file (mpdata_getPartByName mp ''del_recursive'' \<noteq> None))
      else if mpdata_containsPartWithName mp ''do_perm''
      then Some (keep (chmod_file sys sysPath file (form_value mp ''puser'') (form_value mp ''pgroup'')
                        (form_value mp ''pothers'')))
      else Some (Ok (mp, [], None)))"

text \<open>
  \<open>filemgr_processPost\<close>: the file manager, the result, and the calls: those of the
  operation, and all that the parts of the form made until they are freed.
\<close>

definition filemgr_processPost ::
    "nat \<Rightarrow> FmSys \<Rightarrow> (nat \<Rightarrow> UploadFs) \<Rightarrow> Config \<Rightarrow> FileManager \<Rightarrow> RequestHeader \<Rightarrow>
     (FileManager \<times> PostingResult \<times> FsCall list \<times> FsCall list) cres option" where
  "filemgr_processPost n sys fs c fm rhdr =
     (case fm_body fm of
        None \<Rightarrow> Some (Ok (fm, PR_PROCESSED, [], []))
      | Some mp \<Rightarrow>
          (let finish = (\<lambda>requireAuth (mp', calls, err).
             Ok (fm\<lparr>fm_body := None, fm_opErrorMsg := err\<rparr>,
                 if requireAuth then PR_REQUIRE_AUTH else PR_PROCESSED, calls, mpdata_free mp'))
           in if mpdata_containsPartWithName mp ''do_login''
              then Some (finish (reqhdr_getLoginState rhdr \<noteq> LS_LOGGED_IN) (mp, [], None))
              else if config_isActionAvailable c PA_MODIFY then
                (if \<not> reqhdr_isActionAllowed c rhdr PA_MODIFY then Some (finish True (mp, [], None))
                 else map_option (\<lambda>r. cbind r (finish False)) (post_action n sys fs c (fm_sysPath fm) mp))
              else Some (finish False (mp, [], Some (fmtError sys 0 [''unrecognized request''])))))"

text \<open>The boundary of a \<open>multipart/form-data\<close> content type: the last one given.\<close>

fun boundary_param :: "(DataChunk \<times> DataChunk) list \<Rightarrow> bytes option \<Rightarrow> bytes option" where
  "boundary_param [] b = b"
| "boundary_param ((n, v) # ps) b =
     boundary_param ps (if dch_equalsStrIgnoreCase n ''boundary'' then Some (dup v) else b)"

definition filemgr_new :: "FmSys \<Rightarrow> Config \<Rightarrow> bytes option \<Rightarrow> RequestHeader \<Rightarrow> FileManager" where
  "filemgr_new sys c sysPath rhdr =
     (let (boundary, opErr) =
        (case reqhdr_getHeaderVal rhdr ''Content-Type'' of
           None \<Rightarrow> (None, None)
         | Some contentType \<Rightarrow>
             (let (res, d, name) = dch_extractTillChrStripWS (dch_initWithStr (Some (contentType @ [NUL]))) (CHR '';'')
              in if \<not> dch_equalsStr name ''multipart/form-data''
                 then (None, Some (fmtError sys 0 [''bad content type: '', contentType]))
                 else (boundary_param (dch_params d (CHR '';'')) None, None)))
      in \<lparr>fm_sysPath = sysPath,
          fm_body = map_option (\<lambda>b. mpdata_new b (if reqhdr_isActionAllowed c rhdr PA_MODIFY then sysPath else None)) boundary,
          fm_opErrorMsg = opErr\<rparr>)"

definition filemgr_consumeBodyBytes ::
    "(nat \<Rightarrow> UploadFs) \<Rightarrow> WriteAns list \<Rightarrow> FileManager \<Rightarrow> bytes \<Rightarrow> (FileManager \<times> WriteAns list) cres" where
  "filemgr_consumeBodyBytes fs as fm data =
     (case fm_body fm of
        None \<Rightarrow> Ok (fm, as)
      | Some mp \<Rightarrow> cbind (mpdata_appendData fs as mp data) (\<lambda>(mp', as'). Ok (fm\<lparr>fm_body := Some mp'\<rparr>, as')))"

text \<open>\<open>filemgr_free\<close>: the calls of a body that was never processed.\<close>

definition filemgr_free :: "FileManager option \<Rightarrow> FsCall list" where
  "filemgr_free fm = (case fm of None \<Rightarrow> []
     | Some f \<Rightarrow> (case fm_body f of None \<Rightarrow> [] | Some mp \<Rightarrow> mpdata_free mp))"

subsection \<open>Who may change the folder\<close>

text \<open>A part that stores nothing: without a directory, no file was opened.\<close>

definition part_idle :: "ContentPart \<Rightarrow> bool" where
  "part_idle cp = (cp_destDir cp = None \<and> cp_file cp = None \<and> cp_calls cp = [])"

definition body_idle :: "MultipartData \<Rightarrow> bool" where
  "body_idle mp = (mp_destDir mp = None \<and> (\<forall>cp \<in> set (mp_parts mp). part_idle cp))"

lemma part_idle_params: "part_idle cp \<Longrightarrow> part_idle (cp_params ps cp)"
  by (induction ps cp rule: cp_params.induct) (auto simp: part_idle_def)

lemma part_idle_start: "part_idle cp \<Longrightarrow> part_idle (cp_start fs cp)"
proof -
  assume "part_idle cp"
  then have "part_idle (cp_disposition cp)"
    by (auto simp: cp_disposition_def part_idle_params split: option.splits prod.splits)
  then show ?thesis
    by (auto simp: cp_start_def cp_open_def part_idle_def Let_def split: option.splits)
qed

lemma part_idle_store: "part_idle cp \<Longrightarrow> cp_store as cp d = Ok (cp', as') \<Longrightarrow> part_idle cp'"
  by (auto simp: cp_store_def cp_write.simps part_idle_def split: option.splits)

lemma cp_store_total: "cp_ready cp \<Longrightarrow> \<exists>r. cp_store as cp d = Ok r"
  by (auto simp: cp_store_def cp_ready_def split: option.splits)

text \<open>Bytes for a part are always taken, whatever the file system answers.\<close>

lemma cpart_appendData_total:
  "\<exists>cp' as'. cpart_appendData fs as cp d = Ok (cp', as') \<and> (part_idle cp \<longrightarrow> part_idle cp')"
proof (cases "cp_ready cp")
  case True
  then obtain cp' as' where "cp_store as cp d = Ok (cp', as')" using cp_store_total [OF True, of as d] by auto
  with True part_idle_store show ?thesis by (fastforce simp: cpart_appendData_def cp_ready_def)
next
  case False
  obtain h r where h: "datahdr_appendData (cp_header cp) d = Ok (h, r)"
    using line_loop_total [where proc = datahdr_line and xs = d and
      st = "(dh_lines (cp_header cp), dh_cur (cp_header cp))", OF datahdr_line_total]
    by (auto simp: datahdr_appendData_def)
  have idle: "part_idle cp \<Longrightarrow> part_idle (cp\<lparr>cp_header := h\<rparr>)" by (simp add: part_idle_def)
  show ?thesis
  proof (cases r)
    case None
    then show ?thesis using False h idle by (auto simp: cpart_appendData_def cp_ready_def)
  next
    case (Some n)
    obtain cp' as' where s: "cp_store as (cp_start fs (cp\<lparr>cp_header := h\<rparr>)) (drop n d) = Ok (cp', as')"
      using cp_store_total [OF cp_start_ready] by (metis prod.exhaust)
    then have "part_idle cp \<Longrightarrow> part_idle cp'"
      using part_idle_store [OF part_idle_start [OF idle]] by blast
    with False h Some s show ?thesis by (auto simp: cpart_appendData_def cp_ready_def)
  qed
qed

lemma mp_give_total:
  "\<exists>mp' as'. mp_give fs as mp d = Ok (mp', as') \<and> (body_idle mp \<longrightarrow> body_idle mp')"
proof (cases "mp_parts mp = []")
  case False
  obtain cp' as' where "cpart_appendData (fs (length (mp_parts mp) - 1)) as (last (mp_parts mp)) d = Ok (cp', as')"
      "part_idle (last (mp_parts mp)) \<longrightarrow> part_idle cp'"
    using cpart_appendData_total by blast
  with False show ?thesis by (auto simp: mp_give_def body_idle_def dest: in_set_butlastD)
qed (simp add: mp_give_def)

lemma body_idle_upd [simp]:
  "body_idle (mp\<lparr>mp_parsePos := q\<rparr>) = body_idle mp" "body_idle (mp\<lparr>mp_match := m\<rparr>) = body_idle mp"
  "body_idle (mp\<lparr>mp_delim := x\<rparr>) = body_idle mp"
  by (simp_all add: body_idle_def)

lemma mp_loop_total:
  "\<exists>mp' as'. mp_loop fs delim as mp data = Ok (mp', as') \<and> (body_idle mp \<longrightarrow> body_idle mp')"
proof (induction fs delim as mp data rule: mp_loop.induct)
  case (1 fs delim as mp data)
  let ?mp1 = "if mp_parsePos mp = PP_GOT_BOUNDARY
      then mp\<lparr>mp_parts := mp_parts mp @ [cpart_new (mp_destDir mp)]\<rparr> else mp"
  have idle: "body_idle mp \<Longrightarrow> body_idle ?mp1"
    by (auto simp: body_idle_def part_idle_def cpart_new_def)
  show ?case
  proof (cases "data = [] \<or> mp_parsePos mp = PP_GOT_BOUNDARY \<and> hd data = CHR ''-''")
    case True
    then show ?thesis by (subst mp_loop.simps) auto
  next
    case go: False
    show ?thesis
    proof (cases "mp_line (mp_parsePos ?mp1) data")
      case None
      with go idle show ?thesis by (subst mp_loop.simps) (simp add: Let_def del: if_split)
    next
      case (Some d)
      let ?n = "find_part_end delim d"
      obtain mp3 as' where g: "mp_give fs as (?mp1\<lparr>mp_parsePos := PP_BODY\<rparr>) (take ?n d) = Ok (mp3, as')"
          "body_idle ?mp1 \<longrightarrow> body_idle mp3"
        using mp_give_total [of fs as "?mp1\<lparr>mp_parsePos := PP_BODY\<rparr>" "take ?n d"] by auto
      show ?thesis
      proof (cases "d = [] \<or> length d - ?n < length delim")
        case True
        with go idle Some g show ?thesis
          by (subst mp_loop.simps) (auto simp: Let_def simp del: if_split)
      next
        case False
        then have "\<exists>mp' as''. mp_loop fs delim as' (mp3\<lparr>mp_parsePos := PP_GOT_BOUNDARY\<rparr>)
            (drop (?n + length delim) d) = Ok (mp', as'') \<and>
            (body_idle (mp3\<lparr>mp_parsePos := PP_GOT_BOUNDARY\<rparr>) \<longrightarrow> body_idle mp')"
          using go Some by (intro 1) auto
        with go idle Some g False show ?thesis
          by (subst mp_loop.simps) (auto simp: Let_def simp del: if_split)
      qed
    qed
  qed
qed

lemma mpdata_appendData_total:
  "\<exists>mp' as'. mpdata_appendData fs as mp data = Ok (mp', as') \<and> (body_idle mp \<longrightarrow> body_idle mp')"
proof (cases "mp_delim mp")
  case (Some delim)
  let ?rest = "drop (mp_match mp) delim"
  obtain mp1 as1 where g: "mp_give fs as mp (take (mp_match mp) delim) = Ok (mp1, as1)"
      "body_idle mp \<longrightarrow> body_idle mp1"
    using mp_give_total by blast
  have l1: "\<exists>mp' as'. mp_loop fs delim as1 (mp1\<lparr>mp_match := 0\<rparr>) data = Ok (mp', as') \<and>
      (body_idle mp \<longrightarrow> body_idle mp')"
    using mp_loop_total [of fs delim as1 "mp1\<lparr>mp_match := 0\<rparr>" data] g(2) by auto
  have l2: "\<exists>mp' as'. mp_loop fs delim as (mp\<lparr>mp_match := 0, mp_parsePos := PP_GOT_BOUNDARY\<rparr>)
      (drop (length ?rest) data) = Ok (mp', as') \<and> (body_idle mp \<longrightarrow> body_idle mp')"
    using mp_loop_total [of fs delim as "mp\<lparr>mp_match := 0, mp_parsePos := PP_GOT_BOUNDARY\<rparr>"] by simp
  show ?thesis
    using Some g(1) l1 l2 mp_loop_total [of fs delim as mp data] unfolding mpdata_appendData_def Let_def
    by auto
qed (simp add: mpdata_appendData_def)

lemma body_idle_free: "body_idle mp \<Longrightarrow> mpdata_free mp = []"
  by (auto simp: body_idle_def part_idle_def mpdata_free_def cpart_free_def)

text \<open>The body of a request, fed in pieces.\<close>

fun feed_body ::
    "(nat \<Rightarrow> UploadFs) \<Rightarrow> WriteAns list \<Rightarrow> FileManager \<Rightarrow> bytes list \<Rightarrow> (FileManager \<times> WriteAns list) cres" where
  "feed_body fs as fm [] = Ok (fm, as)"
| "feed_body fs as fm (p # ps) =
     cbind (filemgr_consumeBodyBytes fs as fm p) (\<lambda>(fm', as'). feed_body fs as' fm' ps)"

definition fm_idle :: "FileManager \<Rightarrow> bool" where
  "fm_idle fm = (case fm_body fm of None \<Rightarrow> True | Some mp \<Rightarrow> body_idle mp)"

lemma feed_body_total:
  "\<exists>fm' as'. feed_body fs as fm ps = Ok (fm', as') \<and> (fm_idle fm \<longrightarrow> fm_idle fm') \<and>
     (fm_body fm' = None \<longleftrightarrow> fm_body fm = None) \<and> fm_sysPath fm' = fm_sysPath fm"
proof (induction ps arbitrary: as fm)
  case (Cons p ps)
  show ?case
  proof (cases "fm_body fm")
    case None
    then show ?thesis using Cons [of as fm] by (simp add: filemgr_consumeBodyBytes_def)
  next
    case (Some mp)
    obtain mp' as' where m: "mpdata_appendData fs as mp p = Ok (mp', as')" "body_idle mp \<longrightarrow> body_idle mp'"
      using mpdata_appendData_total by blast
    then have "filemgr_consumeBodyBytes fs as fm p = Ok (fm\<lparr>fm_body := Some mp'\<rparr>, as')"
      using Some by (simp add: filemgr_consumeBodyBytes_def)
    then show ?thesis
      using Cons [of as' "fm\<lparr>fm_body := Some mp'\<rparr>"] m(2) Some by (auto simp: fm_idle_def)
  qed
qed simp

lemma filemgr_new_idle:
  "\<not> reqhdr_isActionAllowed c rhdr PA_MODIFY \<Longrightarrow> fm_idle (filemgr_new sys c sysPath rhdr)"
  by (auto simp: filemgr_new_def fm_idle_def body_idle_def mpdata_new_def Let_def
      split: option.splits prod.splits)

text \<open>C11: a request without the privilege to modify changes nothing.  For every configuration,
  header, boundary, way the body is cut into pieces, answer of the file system and of \<open>write\<close>:
  the body is taken without an error, processing the form does not reach any operation (no
  file of an upload is created either), and freeing the file manager before the form is
  processed makes no call.  When the action could be available to a client that logs in, the
  answer to a form that is not a login asks for the authorization.\<close>

theorem post_needs_privilege:
  assumes "\<not> reqhdr_isActionAllowed c rhdr PA_MODIFY"
  shows "\<exists>fm as' fm' res. feed_body fs as (filemgr_new sys c sysPath rhdr) pieces = Ok (fm, as') \<and>
    filemgr_free (Some fm) = [] \<and>
    filemgr_processPost n sys fs c fm rhdr = Some (Ok (fm', res, [], [])) \<and>
    (\<forall>mp. fm_body fm = Some mp \<longrightarrow> \<not> mpdata_containsPartWithName mp ''do_login'' \<longrightarrow>
       res = (if config_isActionAvailable c PA_MODIFY then PR_REQUIRE_AUTH else PR_PROCESSED))"
proof -
  obtain fm as' where f: "feed_body fs as (filemgr_new sys c sysPath rhdr) pieces = Ok (fm, as')" "fm_idle fm"
    using feed_body_total filemgr_new_idle [OF assms] by blast
  show ?thesis
  proof (cases "fm_body fm")
    case None
    with f(1) show ?thesis by (simp add: filemgr_processPost_def filemgr_free_def)
  next
    case (Some mp)
    then have free: "mpdata_free mp = []" using f(2) by (simp add: fm_idle_def body_idle_free)
    then have "\<exists>fm' res. filemgr_processPost n sys fs c fm rhdr = Some (Ok (fm', res, [], [])) \<and>
        (\<not> mpdata_containsPartWithName mp ''do_login'' \<longrightarrow>
          res = (if config_isActionAvailable c PA_MODIFY then PR_REQUIRE_AUTH else PR_PROCESSED))"
      using Some assms by (simp add: filemgr_processPost_def Let_def)
    with f(1) Some free show ?thesis by (auto simp: filemgr_free_def)
  qed
qed

definition example_post :: RequestHeader where
  "example_post = reqhdr_new\<lparr>rq_headers := [''Content-Type'' @ [NUL] @ '' multipart/form-data; boundary=XyZ'']\<rparr>"

definition listing_only :: Config where
  "listing_only = config_init\<lparr>cf_guestOps := DO_LISTING\<rparr>"

definition example_sys :: FmSys where
  "example_sys = \<lparr>fms_rename = (\<lambda>p q. None), fms_mkdir = (\<lambda>p. None), fms_unlink = (\<lambda>p. None),
     fms_rmdir = (\<lambda>p. None), fms_opendir = (\<lambda>p. Inl ENOENT), fms_chmod = (\<lambda>p m. None),
     fms_access = (\<lambda>p. True), fms_strerror = (\<lambda>e. ''error'')\<rparr>"

theorem post_needs_privilege_witness:
  "fm_body (filemgr_new example_sys listing_only (Some ''/srv'') example_post) \<noteq> None \<and>
   (\<exists>fm as' fm' res.
     feed_body (\<lambda>k. example_upload_fs) [] (filemgr_new example_sys listing_only (Some ''/srv'') example_post)
       [''--XyZ'' @ CRLF, ''Content-Disposition: form-data; name=do_delete'' @ CRLF] = Ok (fm, as') \<and>
     filemgr_processPost 3 example_sys (\<lambda>k. example_upload_fs) listing_only fm example_post =
       Some (Ok (fm', res, [], [])))"
proof -
  have p: "\<not> reqhdr_isActionAllowed listing_only example_post PA_MODIFY"
    by (simp add: reqhdr_isActionAllowed_def example_post_def reqhdr_new_def config_isActionAllowed_def
        config_init_def listing_only_def config_isActionAvailable_def)
  have b: "fm_body (filemgr_new example_sys listing_only (Some ''/srv'') example_post) \<noteq> None"
    by code_simp
  show ?thesis using post_needs_privilege [OF p] b by blast
qed

subsection \<open>Permissions\<close>

text \<open>What the listing page selects for a mode: the displayed permissions of each group.\<close>

definition shown_perms :: "nat \<Rightarrow> bytes list" where
  "shown_perms mode = map (\<lambda>g. gFilePermDisp ! the (find (\<lambda>j. fp_value g ! j = and mode (fp_mask g)) [0..<8])) gFilePerm"

lemma and_or_distrib: "and m (or a b) = or (and m a) (and m (b :: nat))"
  by (rule bit_eqI) (auto simp: bit_simps)

lemma and_push: "and m (push_bit k 7) = push_bit k (take_bit 3 (drop_bit k (m :: nat)))"
proof -
  have "(7 :: nat) = mask 3" by (simp add: mask_eq_exp_minus_1)
  then show ?thesis by (auto intro!: bit_eqI simp only: bit_simps) auto
qed

lemma group_bits:
  fixes m :: nat
  shows "and m 448 \<in> (\<lambda>x. x * 64) ` {..<8}" "and m 56 \<in> (\<lambda>x. x * 8) ` {..<8}" "and m 7 \<in> {..<8}"
proof -
  have *: "and m (push_bit k 7) \<in> (\<lambda>x. x * 2 ^ k) ` {..<8}" for k
    using take_bit_nat_less_exp [of 3 "drop_bit k m"] unfolding and_push by (auto simp: push_bit_eq_mult)
  from * [of 6] * [of 3] * [of 0] show "and m 448 \<in> (\<lambda>x. x * 64) ` {..<8}"
    "and m 56 \<in> (\<lambda>x. x * 8) ` {..<8}" "and m 7 \<in> {..<8}" by (simp_all add: push_bit_eq_mult)
qed

lemma group_shown:
  assumes "g \<in> set gFilePerm"
  shows "\<exists>j < 8. find (\<lambda>j. fp_value g ! j = and m (fp_mask g)) [0..<8] = Some j \<and>
    fp_value g ! j = and m (fp_mask g)"
proof -
  have less8: "{..<8} = {0, 1, 2, 3, 4, 5, 6, 7 :: nat}" by auto
  have "and m (fp_mask g) \<in> set (fp_value g)"
  proof -
    have "list_all (\<lambda>g.
        fp_mask g = 448 \<and> list_all (\<lambda>x. x * 64 \<in> set (fp_value g)) [0, 1, 2, 3, 4, 5, 6, 7] \<or>
        fp_mask g = 56 \<and> list_all (\<lambda>x. x * 8 \<in> set (fp_value g)) [0, 1, 2, 3, 4, 5, 6, 7] \<or>
        fp_mask g = 7 \<and> list_all (\<lambda>x. x \<in> set (fp_value g)) [0, 1, 2, 3, 4, 5, 6, 7]) gFilePerm"
      by (simp add: gFilePerm_def)
    then have "fp_mask g = 448 \<and> (\<lambda>x. x * 64) ` {..<8} \<subseteq> set (fp_value g) \<or>
      fp_mask g = 56 \<and> (\<lambda>x. x * 8) ` {..<8} \<subseteq> set (fp_value g) \<or>
      fp_mask g = 7 \<and> {..<8} \<subseteq> set (fp_value g)"
      using assms unfolding list_all_iff less8 by (simp only: list.set image_insert image_empty) blast
    with group_bits [of m] show ?thesis by auto
  qed
  moreover have "length (fp_value g) = 8" using assms by (auto simp: gFilePerm_def)
  ultimately have "\<exists>j < 8. fp_value g ! j = and m (fp_mask g)" by (auto simp: in_set_conv_nth)
  then obtain i where i: "find (\<lambda>j. fp_value g ! j = and m (fp_mask g)) [0..<8] = Some i"
    by (cases "find (\<lambda>j. fp_value g ! j = and m (fp_mask g)) [0..<8]") (auto simp: find_None_iff)
  then show ?thesis by (fastforce simp: find_Some_iff)
qed

lemma perm_index_nth: "j < 8 \<Longrightarrow> perm_index gFilePermDisp (gFilePermDisp ! j) = j"
  by (auto simp: gFilePermDisp_def numeral_eq_Suc less_Suc_eq)

text \<open>The permissions of a file survive the form: for each of the 512 modes, the page selects one entry
  per group of users, the three entries are among those \<open>chmod_file\<close> knows, and posting them back
  sets exactly this mode.\<close>

theorem chmod_mode_roundtrip:
  "\<forall>mode < 512. case shown_perms mode of
     [u, g, o'] \<Rightarrow> set [u, g, o'] \<subseteq> set gFilePermDisp \<and>
       chmod_file sys (Some ''/d'') (Some ''f'') (Some u) (Some g) (Some o') =
         Ok ([FsChmod ''/d/f'' mode], case fms_chmod sys ''/d/f'' mode of None \<Rightarrow> None
              | Some e \<Rightarrow> Some (fmtError sys e [''change permissions of '', ''f'', '' failed'']))
   | _ \<Rightarrow> False"
proof (intro allI impI)
  fix mode :: nat
  assume "mode < 512"
  obtain a b c' where g: "gFilePerm = [a, b, c']" "fp_mask a = 448" "fp_mask b = 56" "fp_mask c' = 7"
    by (simp add: gFilePerm_def)
  have s: "\<exists>j < 8. find (\<lambda>j. fp_value p ! j = and mode (fp_mask p)) [0..<8] = Some j \<and>
      fp_value p ! j = and mode (fp_mask p)" if "p \<in> {a, b, c'}" for p
    using group_shown [of p mode] that by (auto simp only: g(1) list.set)
  obtain i j k where i: "i < 8" "find (\<lambda>j. fp_value a ! j = and mode (fp_mask a)) [0..<8] = Some i" "fp_value a ! i = and mode 448"
    and j: "j < 8" "find (\<lambda>j. fp_value b ! j = and mode (fp_mask b)) [0..<8] = Some j" "fp_value b ! j = and mode 56"
    and k: "k < 8" "find (\<lambda>j. fp_value c' ! j = and mode (fp_mask c')) [0..<8] = Some k" "fp_value c' ! k = and mode 7"
    using s [of a] s [of b] s [of c'] g(2-4) by auto
  have len: "length gFilePermDisp = 8" by (simp add: gFilePermDisp_def)
  have "shown_perms mode = map ((!) gFilePermDisp) [i, j, k]"
    by (simp add: shown_perms_def g(1) i(2) j(2) k(2))
  moreover have "perm_mode gFilePerm (map ((!) gFilePermDisp) [i, j, k]) 0 = Some mode"
  proof -
    have "or (or (and mode 448) (and mode 56)) (and mode 7) = and mode 511"
      by (simp flip: and_or_distrib)
    also have "\<dots> = mode" using \<open>mode < 512\<close> take_bit_eq_mask [of 9 mode] mask_eq_exp_minus_1 [of 9, where 'a = nat]
      by (simp add: take_bit_nat_eq_self)
    finally show ?thesis using i j k by (simp add: g(1) perm_index_nth len Let_def)
  qed
  ultimately show "case shown_perms mode of
     [u, g, o'] \<Rightarrow> set [u, g, o'] \<subseteq> set gFilePermDisp \<and>
       chmod_file sys (Some ''/d'') (Some ''f'') (Some u) (Some g) (Some o') =
         Ok ([FsChmod ''/d/f'' mode], case fms_chmod sys ''/d/f'' mode of None \<Rightarrow> None
              | Some e \<Rightarrow> Some (fmtError sys e [''change permissions of '', ''f'', '' failed'']))
   | _ \<Rightarrow> False"
    using i(1) j(1) k(1) len by (simp add: chmod_file_def format_path_def)
qed

theorem chmod_mode_roundtrip_witness:
  "chmod_file example_sys (Some ''/d'') (Some ''f'') (Some ''rw-'') (Some ''r--'') (Some ''r--'') =
     Ok ([FsChmod ''/d/f'' 420], None)"
proof -
  have s: "shown_perms 420 = [''rw-'', ''r--'', ''r--'']"
    by (simp add: shown_perms_def gFilePerm_def gFilePermDisp_def upt_conv_Cons)
  have "fms_chmod example_sys ''/d/f'' 420 = None" by (simp add: example_sys_def)
  with chmod_mode_roundtrip [of example_sys, rule_format, of 420] show ?thesis by (simp add: s)
qed

subsection \<open>Removing a directory\<close>

text \<open>
  A state of the file system: which paths exist, and whether they are directories; the effect
  of the removing calls on it, as the system documents it.
\<close>

type_synonym fsmap = "bytes \<Rightarrow> bool option"

definition below :: "bytes \<Rightarrow> bytes \<Rightarrow> bool" where
  "below p q = prefix (p @ ''/'') (q @ ''/'')"

definition strictly_below :: "bytes \<Rightarrow> bytes \<Rightarrow> bool" where
  "strictly_below p q = prefix (p @ ''/'') q"

definition fs_apply :: "FsCall \<Rightarrow> fsmap \<Rightarrow> fsmap" where
  "fs_apply call m =
     (case call of
        FsUnlink p \<Rightarrow> (if m p = Some False then m(p := None) else m)
      | FsRmdir p \<Rightarrow> (if m p = Some True \<and> (\<forall>q. strictly_below p q \<longrightarrow> m q = None) then m(p := None) else m)
      | _ \<Rightarrow> m)"

text \<open>A tree of files and directories, its place in a state, and a system that shows it.\<close>

datatype FsTree = File | Dir "(bytes \<times> FsTree) list"

fun tree_height :: "FsTree \<Rightarrow> nat" where
  "tree_height File = 1"
| "tree_height (Dir ts) = Suc (foldr max (map (\<lambda>(n, t). tree_height t) ts) 0)"

definition name_ok :: "bytes \<Rightarrow> bool" where
  "name_ok n = (n \<noteq> [] \<and> CHR ''/'' \<notin> set n \<and> n \<noteq> ''.'' \<and> n \<noteq> ''..'')"

fun sys_shows :: "FmSys \<Rightarrow> bytes \<Rightarrow> FsTree \<Rightarrow> bool" where
  "sys_shows sys p File = (fms_unlink sys p = None)"
| "sys_shows sys p (Dir ts) =
     (fms_unlink sys p = Some EISDIR \<and> fms_rmdir sys p = None \<and>
      (\<exists>names. fms_opendir sys p = Inr names \<and>
         filter (\<lambda>n. n \<noteq> ''.'' \<and> n \<noteq> ''..'') names = map fst ts) \<and>
      distinct (map fst ts) \<and> (\<forall>(n, t) \<in> set ts. name_ok n \<and> sys_shows sys (p @ ''/'' @ n) t))"

fun tree_at :: "fsmap \<Rightarrow> bytes \<Rightarrow> FsTree \<Rightarrow> bool" where
  "tree_at m p File = (m p = Some False \<and> (\<forall>q. strictly_below p q \<longrightarrow> m q = None))"
| "tree_at m p (Dir ts) =
     (m p = Some True \<and> (\<forall>(n, t) \<in> set ts. tree_at m (p @ ''/'' @ n) t) \<and>
      (\<forall>q. strictly_below p q \<longrightarrow> (\<forall>n \<in> fst ` set ts. \<not> below (p @ ''/'' @ n) q) \<longrightarrow> m q = None))"

definition child :: "bytes \<Rightarrow> bytes \<Rightarrow> bytes" where
  "child p n = p @ ''/'' @ n"

lemma below_strict: "below p q \<longleftrightarrow> q = p \<or> strictly_below p q"
  by (auto simp: below_def strictly_below_def)

lemma below_child: "below (child p n) q \<Longrightarrow> strictly_below p q"
  unfolding below_strict by (auto simp: child_def strictly_below_def prefix_def)

lemma child_not_parent: "below (child p n) q \<Longrightarrow> q \<noteq> p"
  by (auto dest!: below_child simp: strictly_below_def prefix_def)

lemma below_trans: "below (child p n) q \<Longrightarrow> below q r \<Longrightarrow> below (child p n) r"
  unfolding below_def by (meson prefix_order.trans)

text \<open>Entries with different names have nothing in common.\<close>

lemma children_disjoint:
  assumes "CHR ''/'' \<notin> set n" "CHR ''/'' \<notin> set n'" "below (child p n) q" "below (child p n') q"
  shows "n = n'"
proof -
  obtain r r' where "q @ ''/'' = (p @ ''/'' @ n @ ''/'') @ r" "q @ ''/'' = (p @ ''/'' @ n' @ ''/'') @ r'"
    using assms(3,4) unfolding below_def child_def prefix_def by auto
  then have "n @ CHR ''/'' # r = n' @ CHR ''/'' # r'" by simp
  then have "takeWhile (\<lambda>c. c \<noteq> CHR ''/'') (n @ CHR ''/'' # r) = takeWhile (\<lambda>c. c \<noteq> CHR ''/'') (n' @ CHR ''/'' # r')"
    by simp
  then show ?thesis using assms(1,2)
    by (subst (asm) (1 2) takeWhile_append2) (auto simp del: takeWhile_append2)
qed

lemma tree_at_cong: "tree_at m p t \<Longrightarrow> (\<And>q. below p q \<Longrightarrow> m' q = m q) \<Longrightarrow> tree_at m' p t"
proof (induction m p t rule: tree_at.induct)
  case (1 m p)
  then show ?case by (simp add: below_strict)
next
  case (2 m p ts)
  have "tree_at m' (p @ ''/'' @ n) t" if nt: "(n, t) \<in> set ts" for n t
  proof (rule 2(1) [OF nt refl])
    show "tree_at m (p @ ''/'' @ n) t" using 2(2) nt by auto
    show "m' q = m q" if "below (p @ ''/'' @ n) q" for q
      using that below_child [of p n q] by (intro 2(3)) (simp add: child_def below_strict [of p])
  qed
  then show ?case using 2(2,3) by (auto simp: below_strict [of p])
qed

definition remove_all :: "bytes set \<Rightarrow> fsmap \<Rightarrow> fsmap" where
  "remove_all ps m = (\<lambda>q. if \<exists>p \<in> ps. below p q then None else m q)"

definition run_calls :: "FsCall list \<Rightarrow> fsmap \<Rightarrow> fsmap" where
  "run_calls calls m = foldl (\<lambda>m c. fs_apply c m) m calls"

lemma run_calls_simps [simp]:
  "run_calls [] m = m" "run_calls (c # cs) m = run_calls cs (fs_apply c m)"
  "run_calls (cs @ cs') m = run_calls cs' (run_calls cs m)"
  by (simp_all add: run_calls_def)

lemma remove_all_Un: "remove_all A (remove_all B m) = remove_all (B \<union> A) m"
  by (auto simp: remove_all_def fun_eq_iff)

lemma remove_all_unlink:
  "tree_at m p File \<Longrightarrow> fs_apply (FsUnlink p) m = remove_all {p} m"
  by (auto simp: fs_apply_def remove_all_def below_strict fun_eq_iff)

lemma unlink_dir: "tree_at m p (Dir ts) \<Longrightarrow> fs_apply (FsUnlink p) m = m"
  by (simp add: fs_apply_def)

text \<open>Once all entries are gone, the directory goes.\<close>

lemma remove_all_rmdir:
  assumes "tree_at m p (Dir ts)"
  shows "fs_apply (FsRmdir p) (remove_all (child p ` fst ` set ts) m) = remove_all {p} m"
proof -
  let ?m = "remove_all (child p ` fst ` set ts) m"
  have p: "?m p = Some True"
    using assms child_not_parent [of p] by (auto simp: remove_all_def)
  have q: "?m q = None" if "strictly_below p q" for q
    using assms that by (auto simp: remove_all_def child_def)
  have "?m q = m q" if "\<not> strictly_below p q" for q
    using that below_child [of p] by (auto simp: remove_all_def)
  with p q show ?thesis by (auto simp: fs_apply_def remove_all_def below_strict fun_eq_iff)
qed

text \<open>The entries of a directory, given the theorem for each of them.\<close>

lemma del_children_removes:
  assumes "\<And>n t. (n, t) \<in> set ts \<Longrightarrow> name_ok n \<and> (\<exists>calls. del_recursive k sys (child p n) = Some (calls, None) \<and>
        (\<forall>m. tree_at m (child p n) t \<longrightarrow> run_calls calls m = remove_all {child p n} m))"
    and "filter (\<lambda>n. n \<noteq> ''.'' \<and> n \<noteq> ''..'') names = map fst ts" "distinct (map fst ts)"
  shows "\<exists>calls. del_children k sys (p @ ''/'') names = Some (calls, None) \<and>
    (\<forall>m. (\<forall>(n, t) \<in> set ts. tree_at m (child p n) t) \<longrightarrow>
       run_calls calls m = remove_all (child p ` fst ` set ts) m)"
  using assms
proof (induction names arbitrary: ts)
  case Nil
  then show ?case by (simp add: remove_all_def)
next
  case (Cons d names)
  show ?case
  proof (cases "d = ''.'' \<or> d = ''..''")
    case True
    then show ?thesis using Cons.IH [of ts] Cons.prems by auto
  next
    case False
    then obtain t ts' where ts: "ts = (d, t) # ts'" "filter (\<lambda>n. n \<noteq> ''.'' \<and> n \<noteq> ''..'') names = map fst ts'"
      using Cons.prems(2) by (cases ts) auto
    obtain c1 where c1: "del_recursive k sys (child p d) = Some (c1, None)"
        "\<And>m. tree_at m (child p d) t \<Longrightarrow> run_calls c1 m = remove_all {child p d} m"
      using Cons.prems(1) [of d t] ts by auto
    obtain c2 where c2: "del_children k sys (p @ ''/'') names = Some (c2, None)"
        "\<And>m. \<forall>(n, t) \<in> set ts'. tree_at m (child p n) t \<Longrightarrow>
           run_calls c2 m = remove_all (child p ` fst ` set ts') m"
      using Cons.IH [OF _ ts(2)] Cons.prems(1,3) ts(1) by auto
    have "run_calls (c1 @ c2) m = remove_all (child p ` fst ` set ts) m"
      if m: "\<forall>(n, t) \<in> set ts. tree_at m (child p n) t" for m
    proof -
      have "tree_at (remove_all {child p d} m) (child p n) u" if "(n, u) \<in> set ts'" for n u
      proof (rule tree_at_cong)
        show "tree_at m (child p n) u" using m that ts(1) by auto
        have "n \<noteq> d" using Cons.prems(3) that ts(1) by force
        moreover have "CHR ''/'' \<notin> set n" "CHR ''/'' \<notin> set d"
          using Cons.prems(1) [of n u] Cons.prems(1) [of d t] that ts(1) by (auto simp: name_ok_def)
        ultimately show "remove_all {child p d} m q = m q" if "below (child p n) q" for q
          using that children_disjoint [of n d p q] by (auto simp: remove_all_def)
      qed
      then have "run_calls c2 (remove_all {child p d} m) = remove_all (child p ` fst ` set ts') (remove_all {child p d} m)"
        by (intro c2(2)) auto
      moreover have "run_calls c1 m = remove_all {child p d} m" using c1(2) m ts(1) by auto
      ultimately show ?thesis using ts(1) by (simp add: remove_all_Un)
    qed
    then show ?thesis using False c1(1) c2(1) by (simp add: child_def)
  qed
qed

lemma height_child: "(n, t) \<in> set ts \<Longrightarrow> tree_height t \<le> foldr max (map (\<lambda>(n, t). tree_height t) ts) 0"
  by (induction ts) (auto simp: max_def)

lemma child_last: "name_ok n \<Longrightarrow> last (child p n) \<noteq> CHR ''/''"
  by (auto simp: name_ok_def child_def dest: last_in_set)

text \<open>C20: \<open>del_recursive\<close> removes a directory with all it holds and nothing else.  For every tree of files
  and directories that the system shows at a path (\<open>readdir\<close> may give \<open>.\<close> and \<open>..\<close> anywhere), and
  fuel of at least its height, it ends without an error, and on each state of the file system
  that holds the tree at the path its calls in their order remove the path and all paths below it
  (a directory is only removed after all its entries, or the removal would fail) and leave all others.\<close>

theorem del_recursive_removes:
  assumes "sys_shows sys p t" and "tree_height t \<le> k" and "p \<noteq> []" and "last p \<noteq> CHR ''/''"
  shows "\<exists>calls. del_recursive k sys p = Some (calls, None) \<and>
    (\<forall>m. tree_at m p t \<longrightarrow> run_calls calls m = remove_all {p} m)"
  using assms
proof (induction k arbitrary: p t)
  case 0
  then show ?case by (cases t) auto
next
  case (Suc k)
  show ?case
  proof (cases t)
    case File
    then show ?thesis using Suc.prems(1) remove_all_unlink by simp
  next
    case (Dir ts)
    obtain names where o: "fms_unlink sys p = Some EISDIR" "fms_rmdir sys p = None" "fms_opendir sys p = Inr names"
        "filter (\<lambda>n. n \<noteq> ''.'' \<and> n \<noteq> ''..'') names = map fst ts" "distinct (map fst ts)"
      using Suc.prems(1) Dir by auto
    have c: "name_ok n \<and> (\<exists>calls. del_recursive k sys (child p n) = Some (calls, None) \<and>
        (\<forall>m. tree_at m (child p n) u \<longrightarrow> run_calls calls m = remove_all {child p n} m))"
      if u: "(n, u) \<in> set ts" for n u
    proof -
      have n: "name_ok n" "sys_shows sys (child p n) u" using Suc.prems(1) Dir u by (auto simp: child_def)
      moreover have "tree_height u \<le> k" using height_child [OF u] Suc.prems(2) Dir by simp
      moreover have "child p n \<noteq> []" by (simp add: child_def)
      ultimately show ?thesis using Suc.IH child_last by blast
    qed
    obtain calls where r: "del_children k sys (p @ ''/'') names = Some (calls, None)"
        "\<And>m. \<forall>(n, u) \<in> set ts. tree_at m (child p n) u \<Longrightarrow>
           run_calls calls m = remove_all (child p ` fst ` set ts) m"
      using del_children_removes [OF c o(4,5)] by auto
    have "run_calls (FsUnlink p # calls @ [FsRmdir p]) m = remove_all {p} m" if m: "tree_at m p t" for m
    proof -
      have "run_calls calls m = remove_all (child p ` fst ` set ts) m"
        using m Dir by (intro r(2)) (auto simp: child_def)
      then show ?thesis using m unlink_dir [of m p ts] remove_all_rmdir [of m p ts] Dir by simp
    qed
    then show ?thesis using o r(1) Suc.prems(3,4) by (simp add: with_slash_def)
  qed
qed

definition example_tree :: FsTree where
  "example_tree = Dir [(''a'', File), (''b'', Dir [(''c'', File)])]"

definition tree_sys :: FmSys where
  "tree_sys = example_sys\<lparr>fms_unlink := (\<lambda>p. if p \<in> {''/d'', ''/d/b''} then Some EISDIR else None),
     fms_opendir := (\<lambda>p. if p = ''/d'' then Inr [''.'', ''a'', ''b'', ''..''] else Inr [''c'', ''.'', ''..''])\<rparr>"

definition example_state :: fsmap where
  "example_state = [''/d'' \<mapsto> True, ''/d/a'' \<mapsto> False, ''/d/b'' \<mapsto> True, ''/d/b/c'' \<mapsto> False, ''/dx'' \<mapsto> False]"

theorem del_recursive_removes_witness:
  "\<exists>calls. del_recursive 3 tree_sys ''/d'' = Some (calls, None) \<and>
     run_calls calls example_state ''/d/b'' = None \<and> run_calls calls example_state ''/dx'' = Some False"
proof -
  have s: "sys_shows tree_sys ''/d'' example_tree"
    by (simp add: example_tree_def tree_sys_def example_sys_def name_ok_def)
  have "tree_at example_state ''/d'' example_tree"
    by (auto simp: example_tree_def example_state_def strictly_below_def below_def)
  moreover have "tree_height example_tree \<le> 3" by (simp add: example_tree_def)
  moreover have "remove_all {''/d''} example_state ''/d/b'' = None"
    "remove_all {''/d''} example_state ''/dx'' = Some False"
    by (simp_all add: remove_all_def example_state_def below_def)
  ultimately show ?thesis
    using del_recursive_removes [OF s, of 3] by auto
qed

subsection \<open>Names\<close>

text \<open>A new directory is an entry of the folder itself, and the target of a renaming is one of the folder
  the form names: the names must not contain a slash.\<close>

lemma format_path_name:
  "CHR ''/'' \<notin> set n \<Longrightarrow> format_path (Some d) n = (if d = [] then Undef else Ok (with_slash d @ n))"
  by (cases n) (auto simp: format_path_def with_slash_def)

lemma create_newdir_inside:
  assumes "create_newdir sys (Some dir) newDir = Ok (calls, err)" "calls \<noteq> []"
  shows "\<exists>n. newDir = Some n \<and> n \<noteq> [] \<and> CHR ''/'' \<notin> set n \<and> calls = [FsMkdir (with_slash dir @ n)]"
  using assms by (auto simp: create_newdir_def format_path_name split: option.splits if_splits)

lemma rename_target_inside:
  assumes "rename_file sys c sysPath oldName newDir newName = Ok (calls, err)" "calls \<noteq> []"
  shows "\<exists>d n p q. newDir = Some d \<and> newName = Some n \<and> n \<noteq> [] \<and> CHR ''/'' \<notin> set n \<and>
    config_getSysPathForUrlPath c (with_slash d @ n) = Some p \<and> calls = [FsRename q p]"
proof -
  obtain old d n where o: "oldName = Some old" "newDir = Some d" "newName = Some n"
    using assms by (auto simp: rename_file_def split: option.splits)
  have ne: "n \<noteq> []" "CHR ''/'' \<notin> set n" "d \<noteq> []"
    using assms o by (auto simp: rename_file_def split: if_splits)
  obtain q where q: "format_path sysPath old = Ok q"
    using assms ne o by (cases "format_path sysPath old") (auto simp: rename_file_def split: if_splits)
  show ?thesis
    using assms ne o q by (auto simp: rename_file_def format_path_name Let_def split: if_splits option.splits)
qed

text \<open>The names of the files to delete, replace or change are not checked: they can lead out of the folder.\<close>

lemma delete_leaves_folder:
  "fms_unlink sys ''/srv/a/../../etc/x'' = None \<Longrightarrow>
   delete_file n sys (Some ''/srv/a'') (Some ''../../etc/x'') False =
     Some (Ok ([FsUnlink ''/srv/a/../../etc/x''], None))"
  by (simp add: delete_file_def format_path_def)

lemma chmod_leaves_folder:
  "fms_chmod sys ''/srv/a/../x'' 511 = None \<Longrightarrow>
   chmod_file sys (Some ''/srv/a'') (Some ''../x'') (Some ''rwx'') (Some ''rwx'') (Some ''rwx'') =
     Ok ([FsChmod ''/srv/a/../x'' 511], None)"
  by (simp add: chmod_file_def format_path_def gFilePerm_def gFilePermDisp_def)

text \<open>A form that asks for an upload without having the part for it reads through a null pointer.\<close>

lemma add_without_file: "add_new_file sys fs mp None = Undef"
  by (simp add: add_new_file_def)

end
