(* ===== verification/Respbuf.thy ===== *)
theory Respbuf
  imports Membuf
begin

text \<open>
  \<open>src/respbuf.c\<close>: building the header and the body of a response, with the escaping of
  HTML.  The buffers are the bytes they hold (appends concatenate, by the refinement of
  \<open>Membuf\<close>); the body is \<open>None\<close> for a response without one (\<open>NULL\<close> after
  \<open>resp_new\<close> with \<open>onlyHead\<close>), and appending to it is then an access through a null
  pointer.  The variadic arguments of \<open>resp_appendFmt\<close> are a list.
\<close>

datatype HttpStatus = HTTP_200_OK | HTTP_403_FORBIDDEN | HTTP_404_NOT_FOUND | HTTP_500

definition resp_cmnStatus :: "HttpStatus \<Rightarrow> bytes" where
  "resp_cmnStatus status =
     (case status of HTTP_200_OK \<Rightarrow> ''200 OK'' | HTTP_403_FORBIDDEN \<Rightarrow> ''403 Forbidden''
      | HTTP_404_NOT_FOUND \<Rightarrow> ''404 Not Found'' | HTTP_500 \<Rightarrow> ''500 Internal Server Error'')"

record RespBuf =
  rb_header :: bytes
  rb_body :: "bytes option"
  rb_fileDesc :: int

definition resp_new :: "bytes \<Rightarrow> bool \<Rightarrow> RespBuf" where
  "resp_new status onlyHead =
     \<lparr>rb_header = ''HTTP/1.1 '' @ status @ CRLF, rb_body = (if onlyHead then None else Some []), rb_fileDesc = - 1\<rparr>"

definition resp_appendHeader :: "RespBuf \<Rightarrow> bytes \<Rightarrow> bytes \<Rightarrow> RespBuf" where
  "resp_appendHeader r name val = r\<lparr>rb_header := rb_header r @ name @ '': '' @ val @ CRLF\<rparr>"

definition resp_appendData :: "RespBuf \<Rightarrow> bytes \<Rightarrow> RespBuf cres" where
  "resp_appendData r d =
     (case rb_body r of None \<Rightarrow> Undef | Some b \<Rightarrow> Ok (r\<lparr>rb_body := Some (b @ d)\<rparr>))"

definition resp_appendStr :: "RespBuf \<Rightarrow> bytes \<Rightarrow> RespBuf cres" where
  "resp_appendStr r s = resp_appendData r s"

definition html_repl :: "char \<Rightarrow> bytes option" where
  "html_repl c =
     (if c = QUOTE then Some ''&quot;'' else if c = APOS then Some ''&apos;''
      else if c = CHR ''&'' then Some ''&amp;'' else if c = CHR ''<'' then Some ''&lt;''
      else if c = CHR ''>'' then Some ''&gt;'' else None)"

text \<open>
  The loop of \<open>appendDataEscapeHtml\<close>: \<open>run\<close> are the bytes between \<open>data\<close> and \<open>dcur\<close>, the
  list those from \<open>dcur\<close> to the end.
\<close>

fun escape_loop :: "RespBuf \<Rightarrow> bytes \<Rightarrow> bytes \<Rightarrow> RespBuf cres" where
  "escape_loop r run [] = (if run \<noteq> [] then resp_appendData r run else Ok r)"
| "escape_loop r run (c # cs) =
     (case html_repl c of
        Some repl \<Rightarrow>
          cbind (if run \<noteq> [] then resp_appendData r run else Ok r) (\<lambda>r1.
          cbind (resp_appendStr r1 repl) (\<lambda>r2. escape_loop r2 [] cs))
      | None \<Rightarrow> escape_loop r (run @ [c]) cs)"

definition appendDataEscapeHtml :: "RespBuf \<Rightarrow> bytes \<Rightarrow> RespBuf cres" where
  "appendDataEscapeHtml r data = escape_loop r [] data"

text \<open>The arguments: a chunk, an array with a length, a string.\<close>

datatype FmtArg = AChunk DataChunk | AData bytes nat | AStr bytes

text \<open>
  The loop of \<open>resp_appendFmt\<close>. A missing argument or one of the wrong kind is undefined;
  \<open>host\<close> is the answer of \<open>gethostname\<close> (empty when it fails).
\<close>

function fmt_loop :: "bytes \<Rightarrow> RespBuf \<Rightarrow> bytes \<Rightarrow> FmtArg list \<Rightarrow> RespBuf cres" where
  "fmt_loop host r fmt args =
     (case memchr (CHR ''%'') fmt of
        None \<Rightarrow> if fmt \<noteq> [] then resp_appendStr r fmt else Ok r
      | Some i \<Rightarrow>
          cbind (if i \<noteq> 0 then resp_appendData r (take i fmt) else Ok r) (\<lambda>r1.
            let rest = drop (i + 2) fmt; c = (if i + 1 < length fmt then fmt ! (i + 1) else NUL) in
            if c = CHR ''H'' then cbind (appendDataEscapeHtml r1 host) (\<lambda>r2. fmt_loop host r2 rest args)
            else if c = CHR ''C'' then
              (case args of AChunk d # as \<Rightarrow> cbind (appendDataEscapeHtml r1 (dch_bytes d)) (\<lambda>r2. fmt_loop host r2 rest as)
               | _ \<Rightarrow> Undef)
            else if c = CHR ''D'' then
              (case args of AData b n # as \<Rightarrow>
                 (if length b < n then Undef
                  else cbind (appendDataEscapeHtml r1 (take n b)) (\<lambda>r2. fmt_loop host r2 rest as))
               | _ \<Rightarrow> Undef)
            else if c = CHR ''S'' then
              (case args of AStr s # as \<Rightarrow> cbind (appendDataEscapeHtml r1 (cstr s)) (\<lambda>r2. fmt_loop host r2 rest as)
               | _ \<Rightarrow> Undef)
            else if c = CHR ''R'' then
              (case args of AStr s # as \<Rightarrow> cbind (resp_appendData r1 (cstr s)) (\<lambda>r2. fmt_loop host r2 rest as)
               | _ \<Rightarrow> Undef)
            else if c = CHR ''%'' then
              cbind (resp_appendData r1 ''%'') (\<lambda>r2. fmt_loop host r2 rest args)
            else cbind (resp_appendData r1 ''%'') (\<lambda>r2. fmt_loop host r2 (drop (i + 1) fmt) args)))"
  by pat_completeness auto
termination
  by (relation "measure (\<lambda>(host, r, fmt, args). length fmt)") (auto dest: memchr_Some)

declare fmt_loop.simps [simp del]

definition resp_appendFmt :: "bytes \<Rightarrow> RespBuf \<Rightarrow> bytes \<Rightarrow> FmtArg list \<Rightarrow> RespBuf cres" where
  "resp_appendFmt host r fmt args = fmt_loop host r fmt args"

text \<open>\<open>resp_enqFile\<close>, with the descriptor that is closed.\<close>

definition resp_enqFile :: "RespBuf \<Rightarrow> int \<Rightarrow> RespBuf \<times> int option" where
  "resp_enqFile r fd =
     (r\<lparr>rb_fileDesc := fd\<rparr>, if rb_fileDesc r \<noteq> - 1 then Some (rb_fileDesc r) else None)"

text \<open>\<open>resp_finish\<close>: what is passed to \<open>rsndr_new\<close>.\<close>

definition resp_finish :: "RespBuf \<Rightarrow> bytes \<times> bytes option \<times> int" where
  "resp_finish r =
     (let r' = resp_appendHeader r ''Server'' ''filemanager-httpd''
      in (rb_header r', rb_body r', rb_fileDesc r'))"

subsection \<open>Escaping\<close>

definition html_escape :: "bytes \<Rightarrow> bytes" where
  "html_escape s = concat (map (\<lambda>c. case html_repl c of Some e \<Rightarrow> e | None \<Rightarrow> [c]) s)"

lemma html_escape_simps [simp]:
  "html_escape [] = []"
  "html_escape (c # s) = (case html_repl c of Some e \<Rightarrow> e | None \<Rightarrow> [c]) @ html_escape s"
  by (simp_all add: html_escape_def)

lemma escape_loop_body:
  "rb_body r = Some b \<Longrightarrow> escape_loop r run s = Ok (r\<lparr>rb_body := Some (b @ run @ html_escape s)\<rparr>)"
proof (induction r run s arbitrary: b rule: escape_loop.induct)
  case (1 r run)
  then show ?case by (cases r) (simp add: resp_appendData_def)
next
  case (2 r run c cs)
  show ?case
  proof (cases "html_repl c")
    case None
    with 2 show ?thesis by simp
  next
    case (Some e)
    let ?r1 = "if run \<noteq> [] then resp_appendData r run else Ok r"
    have r1: "?r1 = Ok (r\<lparr>rb_body := Some (b @ run)\<rparr>)" using 2(3) by (cases r) (simp add: resp_appendData_def)
    have r2: "resp_appendStr (r\<lparr>rb_body := Some (b @ run)\<rparr>) e = Ok (r\<lparr>rb_body := Some (b @ run @ e)\<rparr>)"
      by (simp add: resp_appendStr_def resp_appendData_def)
    have "escape_loop (r\<lparr>rb_body := Some (b @ run @ e)\<rparr>) [] cs =
        Ok ((r\<lparr>rb_body := Some (b @ run @ e)\<rparr>)\<lparr>rb_body := Some ((b @ run @ e) @ [] @ html_escape cs)\<rparr>)"
      by (rule 2(2) [OF Some]) simp
    then show ?thesis using Some r1 r2 by simp
  qed
qed

text \<open>Reading escaped text back: the five entities, anything else as it is.\<close>

fun html_unescape :: "bytes \<Rightarrow> bytes" where
  "html_unescape [] = []"
| "html_unescape (c # s) =
     (if take 5 s = ''quot;'' \<and> c = CHR ''&'' then QUOTE # html_unescape (drop 5 s)
      else if take 5 s = ''apos;'' \<and> c = CHR ''&'' then APOS # html_unescape (drop 5 s)
      else if take 4 s = ''amp;'' \<and> c = CHR ''&'' then CHR ''&'' # html_unescape (drop 4 s)
      else if take 3 s = ''lt;'' \<and> c = CHR ''&'' then CHR ''<'' # html_unescape (drop 3 s)
      else if take 3 s = ''gt;'' \<and> c = CHR ''&'' then CHR ''>'' # html_unescape (drop 3 s)
      else c # html_unescape s)"

lemma unescape_escape: "html_unescape (html_escape s) = s"
proof (induction s)
  case (Cons c s)
  then show ?case by (auto simp: html_repl_def)
qed simp

lemma escape_no_markup: "c \<in> set (html_escape s) \<Longrightarrow> c \<notin> set [QUOTE, APOS, CHR ''<'', CHR ''>'']"
  by (induction s) (auto simp: html_repl_def split: if_splits)

text \<open>C24: \<open>appendDataEscapeHtml\<close>, which copies runs of plain bytes between the replacements,
  appends to an existing body the data with each special character replaced: the appended
  text holds no quote, apostrophe or angle bracket, and reading the entities back gives the data,
  so that different data stay different. Without a body it is an access through a null pointer
  as soon as there is something to append.\<close>

theorem escapeHtml_safe:
  "case rb_body r of
     Some b \<Rightarrow> \<exists>e. appendDataEscapeHtml r data = Ok (r\<lparr>rb_body := Some (b @ e)\<rparr>) \<and>
       set e \<inter> {QUOTE, APOS, CHR ''<'', CHR ''>''} = {} \<and> html_unescape e = data
   | None \<Rightarrow> appendDataEscapeHtml r data = (if data = [] then Ok r else Undef)"
proof (cases "rb_body r")
  case (Some b)
  have "set (html_escape data) \<inter> {QUOTE, APOS, CHR ''<'', CHR ''>''} = {}"
    using escape_no_markup [of _ data] by auto
  then show ?thesis
    using escape_loop_body [OF Some, of "[]" data] unescape_escape [of data]
    by (simp add: Some appendDataEscapeHtml_def) blast
next
  case None
  have "escape_loop r run data = Undef" if "run \<noteq> [] \<or> data \<noteq> []" for run
    using that None
  proof (induction data arbitrary: run)
    case (Cons c cs)
    then show ?case by (cases "html_repl c") (simp_all add: resp_appendStr_def resp_appendData_def)
  qed (simp add: resp_appendData_def)
  then show ?thesis by (simp add: None appendDataEscapeHtml_def)
qed

subsection \<open>Formats\<close>

text \<open>A format as the list of its items, and its text.\<close>

datatype FmtItem = Lit bytes | Percent | Host | ItemC DataChunk | ItemD bytes nat | ItemS bytes | ItemR bytes

fun item_text :: "FmtItem \<Rightarrow> bytes" where
  "item_text (Lit s) = s" | "item_text Percent = ''%%''" | "item_text Host = ''%H''"
| "item_text (ItemC d) = ''%C''" | "item_text (ItemD b n) = ''%D''" | "item_text (ItemS s) = ''%S''"
| "item_text (ItemR s) = ''%R''"

fun item_args :: "FmtItem \<Rightarrow> FmtArg list" where
  "item_args (ItemC d) = [AChunk d]" | "item_args (ItemD b n) = [AData b n]"
| "item_args (ItemS s) = [AStr s]" | "item_args (ItemR s) = [AStr s]" | "item_args _ = []"

fun item_out :: "bytes \<Rightarrow> FmtItem \<Rightarrow> bytes" where
  "item_out host (Lit s) = s" | "item_out host Percent = ''%''" | "item_out host Host = html_escape host"
| "item_out host (ItemC d) = html_escape (dch_bytes d)" | "item_out host (ItemD b n) = html_escape (take n b)"
| "item_out host (ItemS s) = html_escape (cstr s)" | "item_out host (ItemR s) = cstr s"

fun item_ok :: "FmtItem \<Rightarrow> bool" where
  "item_ok (Lit s) = (CHR ''%'' \<notin> set s)" | "item_ok (ItemD b n) = (n \<le> length b)" | "item_ok _ = True"

lemma fmt_step:
  assumes "rb_body r = Some b" "CHR ''%'' \<notin> set pre"
  shows "fmt_loop host r (pre @ CHR ''%'' # x # rest) args =
    (let r1 = r\<lparr>rb_body := Some (b @ pre)\<rparr> in
     if x = CHR ''H'' then cbind (appendDataEscapeHtml r1 host) (\<lambda>r2. fmt_loop host r2 rest args)
     else if x = CHR ''C'' then
       (case args of AChunk d # as \<Rightarrow> cbind (appendDataEscapeHtml r1 (dch_bytes d)) (\<lambda>r2. fmt_loop host r2 rest as)
        | _ \<Rightarrow> Undef)
     else if x = CHR ''D'' then
       (case args of AData d n # as \<Rightarrow>
          (if length d < n then Undef
           else cbind (appendDataEscapeHtml r1 (take n d)) (\<lambda>r2. fmt_loop host r2 rest as))
        | _ \<Rightarrow> Undef)
     else if x = CHR ''S'' then
       (case args of AStr s # as \<Rightarrow> cbind (appendDataEscapeHtml r1 (cstr s)) (\<lambda>r2. fmt_loop host r2 rest as)
        | _ \<Rightarrow> Undef)
     else if x = CHR ''R'' then
       (case args of AStr s # as \<Rightarrow> cbind (resp_appendData r1 (cstr s)) (\<lambda>r2. fmt_loop host r2 rest as)
        | _ \<Rightarrow> Undef)
     else if x = CHR ''%'' then cbind (resp_appendData r1 ''%'') (\<lambda>r2. fmt_loop host r2 rest args)
     else cbind (resp_appendData r1 ''%'') (\<lambda>r2. fmt_loop host r2 (x # rest) args))"
proof -
  have m: "memchr (CHR ''%'') (pre @ CHR ''%'' # x # rest) = Some (length pre)"
    using assms(2) by (rule memchr_append)
  have r1: "(if length pre \<noteq> 0 then resp_appendData r (take (length pre) (pre @ CHR ''%'' # x # rest)) else Ok r) =
      Ok (r\<lparr>rb_body := Some (b @ pre)\<rparr>)"
    using assms(1) by (cases r) (simp add: resp_appendData_def)
  have d: "drop (length pre + 2) (pre @ CHR ''%'' # x # rest) = rest"
    "drop (length pre + 1) (pre @ CHR ''%'' # x # rest) = x # rest"
    "length pre + 1 < length (pre @ CHR ''%'' # x # rest)"
    "(pre @ CHR ''%'' # x # rest) ! (length pre + 1) = x"
    by (simp_all add: nth_append)
  show ?thesis
    by (subst fmt_loop.simps) (simp only: m option.case r1 cbind_simps Let_def d if_True)
qed

lemma fmt_loop_items:
  "rb_body r = Some b \<Longrightarrow> CHR ''%'' \<notin> set pre \<Longrightarrow> \<forall>it \<in> set its. item_ok it \<Longrightarrow>
   fmt_loop host r (pre @ concat (map item_text its)) (concat (map item_args its)) =
     Ok (r\<lparr>rb_body := Some (b @ pre @ concat (map (item_out host) its))\<rparr>)"
proof (induction its arbitrary: r b pre)
  case Nil
  then have "memchr (CHR ''%'') pre = None" by (simp add: memchr_None)
  with Nil show ?case
    by (subst fmt_loop.simps) (cases r, simp add: resp_appendStr_def resp_appendData_def)
next
  case (Cons it its)
  have IH: "fmt_loop host (r\<lparr>rb_body := Some (b @ pre @ o')\<rparr>) (concat (map item_text its))
      (concat (map item_args its)) =
      Ok (r\<lparr>rb_body := Some (b @ pre @ o' @ concat (map (item_out host) its))\<rparr>)" for o'
    using Cons.IH [of "r\<lparr>rb_body := Some (b @ pre @ o')\<rparr>" "b @ pre @ o'" "[]"] Cons.prems(3) by simp
  note step = fmt_step [OF Cons.prems(1,2), of host _ "concat (map item_text its)"]
  have esc: "appendDataEscapeHtml (r\<lparr>rb_body := Some (b @ pre)\<rparr>) d =
      Ok (r\<lparr>rb_body := Some (b @ pre @ html_escape d)\<rparr>)" for d
    by (simp add: appendDataEscapeHtml_def escape_loop_body)
  have app: "resp_appendData (r\<lparr>rb_body := Some (b @ pre)\<rparr>) d =
      Ok (r\<lparr>rb_body := Some (b @ pre @ d)\<rparr>)" for d
    by (simp add: resp_appendData_def)
  show ?case
  proof (cases it)
    case (Lit s)
    have "fmt_loop host r ((pre @ s) @ concat (map item_text its)) (concat (map item_args its)) =
       Ok (r\<lparr>rb_body := Some (b @ (pre @ s) @ concat (map (item_out host) its))\<rparr>)"
      using Lit Cons.prems by (intro Cons.IH) auto
    then show ?thesis by (simp add: Lit)
  qed (use Cons.prems(3) in \<open>simp_all add: step Let_def esc app IH\<close>)
qed

text \<open>\<open>resp_appendFmt\<close> renders every format as documented: for a format that is any sequence of
  literal text without percent signs, \<open>%%\<close> and the specifiers, with the arguments in
  order, the body grows by the literals, a percent sign for \<open>%%\<close>, the escaped host name, chunk,
  array or string, and the unescaped string for \<open>%R\<close>.\<close>

theorem appendFmt_renders:
  assumes "rb_body r = Some b" and "\<forall>it \<in> set its. item_ok it"
  shows "resp_appendFmt host r (concat (map item_text its)) (concat (map item_args its)) =
    Ok (r\<lparr>rb_body := Some (b @ concat (map (item_out host) its))\<rparr>)"
  using fmt_loop_items [OF assms(1) _ assms(2), of "[]" host] by (simp add: resp_appendFmt_def)

theorem appendFmt_renders_witness:
  "resp_appendFmt ''h'' (resp_new ''200 OK'' False) ''<a href=%R>100%% %S</a>'' [AStr ''/x'', AStr ''a<b''] =
    Ok ((resp_new ''200 OK'' False)\<lparr>rb_body := Some ''<a href=/x>100% a&lt;b</a>''\<rparr>)"
proof -
  let ?its = "[Lit ''<a href='', ItemR ''/x'', Lit ''>100'', Percent, Lit '' '', ItemS ''a<b'', Lit ''</a>'']"
  have "rb_body (resp_new ''200 OK'' False) = Some []" by (simp add: resp_new_def)
  from appendFmt_renders [OF this, of ?its "''h''"] show ?thesis
    by (simp add: html_repl_def)
qed

theorem escapeHtml_safe_witness:
  "\<exists>e. appendDataEscapeHtml (resp_new ''200 OK'' False) ''a<b & c'' =
     Ok ((resp_new ''200 OK'' False)\<lparr>rb_body := Some e\<rparr>) \<and> CHR ''<'' \<notin> set e \<and> html_unescape e = ''a<b & c''"
  using escapeHtml_safe [of "resp_new ''200 OK'' False" "''a<b & c''"] by (auto simp: resp_new_def)

end
