(* ===== verification/Folderpage.thy ===== *)
theory Folderpage
  imports Filemanager Respbuf
begin

text \<open>
  The listing page of \<open>src/filemanager.c\<close>: \<open>printFolderContents\<close> and
  \<open>filemgr_printFolderContents\<close>.  The page is the list of the calls of \<open>resp_appendStr\<close> and
  \<open>resp_appendFmt\<close>, with the format strings of the source, in the order the code makes them.
  A chunk's pointer is the bytes behind it, and an argument \<open>%D\<close> its prefix.
\<close>

definition response_header :: bytes where
  "response_header =
   ''<script>'' @ [LF] @ ''function showOptions(th) {'' @ [LF] @
   ''    th.parentNode.nextElementSibling.style.display = '' @ [QUOTE] @ ''table-row'' @ [QUOTE] @ '';'' @
   [LF] @ ''    th.firstElementChild.innerHTML = '' @ [QUOTE] @ ''&minus;'' @ [QUOTE] @ '';'' @ [LF] @
   ''    th.onclick = function() { hideOptions(th); };'' @ [LF] @ ''}'' @ [LF] @
   ''function hideOptions(th) {'' @ [LF] @ ''    th.parentNode.nextElementSibling.style.display = '' @
   [QUOTE] @ ''none'' @ [QUOTE] @ '';'' @ [LF] @ ''    th.firstElementChild.textContent = '' @ [QUOTE] @
   ''+'' @ [QUOTE] @ '';'' @ [LF] @ ''    th.onclick = function() { showOptions(th); };'' @ [LF] @ ''}'' @
   [LF] @ ''function showHideHidden(th) {'' @ [LF] @ ''    var rows = document.getElementsByTagName('' @
   [APOS] @ ''tr'' @ [APOS] @ '');'' @ [LF] @ ''    for(var i = 0; i < rows.length; ++i) {'' @ [LF] @
   ''        var row = rows.item(i);'' @ [LF] @ ''        if( row.getAttribute('' @ [APOS] @ ''class'' @
   [APOS] @ '') == '' @ [APOS] @ ''rhidden'' @ [APOS] @ '' ) {'' @ [LF] @
   ''            row.style.display = th.checked ? '' @ [APOS] @ ''table-row'' @ [APOS] @ '' : '' @ [APOS] @
   ''none'' @ [APOS] @ '';'' @ [LF] @ ''        }'' @ [LF] @ ''    }'' @ [LF] @ ''}'' @ [LF] @
   ''function checkRename(th) {'' @ [LF] @ ''    var res = false;'' @ [LF] @
   ''    var fname = th.form.elements.namedItem('' @ [APOS] @ ''new_name'' @ [APOS] @ '').value;'' @ [LF] @
   ''    if( fname === '' @ [APOS] @ [APOS] @ '' ) {'' @ [LF] @ ''        alert('' @ [APOS] @
   ''please specify the file name'' @ [APOS] @ '');'' @ [LF] @ ''    }else if( fname.indexOf('' @ [APOS] @
   ''/'' @ [APOS] @ '') >= 0 ) {'' @ [LF] @ ''        alert('' @ [APOS] @ ''slash in name disallowed'' @
   [APOS] @ '');'' @ [LF] @ ''    }else'' @ [LF] @ ''        res = true;'' @ [LF] @ ''    return res;'' @
   [LF] @ ''}'' @ [LF] @ ''function confirmUpload(th) {'' @ [LF] @
   ''    var fname = th.form.elements.namedItem('' @ [APOS] @ ''file'' @ [APOS] @ '').value;'' @ [LF] @
   ''    var repl = th.form.elements.namedItem('' @ [APOS] @ ''new_cont'' @ [APOS] @ '').value;'' @ [LF] @
   ''    if( repl == '' @ [APOS] @ [APOS] @ '' ) {'' @ [LF] @ ''        alert('' @ [APOS] @
   ''please choose a file'' @ [APOS] @ '');'' @ [LF] @ ''        return false;'' @ [LF] @ ''    }'' @ [LF] @
   ''    repl = repl.replace(/.*['' @ [CHR 0x5C] @ ''/'' @ [CHR 0x5C] @ [CHR 0x5C] @ '']/, '' @ [APOS] @
   [APOS] @ '');'' @ [LF] @ ''    repl = repl == fname ? '' @ [APOS] @ [APOS] @ '' : '' @ [APOS] @
   '' using '' @ [QUOTE] @ [APOS] @ '' + repl + '' @ [APOS] @ [QUOTE] @ [APOS] @ '';'' @ [LF] @
   ''    return confirm('' @ [APOS] @ ''replace '' @ [QUOTE] @ [APOS] @ '' + fname+ '' @ [APOS] @ [QUOTE] @
   [APOS] @ '' + repl + '' @ [APOS] @ '' ?'' @ [APOS] @ '');'' @ [LF] @ ''}'' @ [LF] @
   ''function confirmDel(th) {'' @ [LF] @ ''    var fname = th.form.elements.namedItem('' @ [APOS] @
   ''file'' @ [APOS] @ '').value;'' @ [LF] @ ''    var recu = th.form.elements.namedItem('' @ [APOS] @
   ''del_recursive'' @ [APOS] @ '');'' @ [LF] @ ''    recu = recu != null && recu.checked ? '' @ [APOS] @
   '' recursively'' @ [APOS] @ '' : '' @ [APOS] @ [APOS] @ '';'' @ [LF] @ ''    return confirm('' @ [APOS] @
   ''delete'' @ [APOS] @ '' + recu + '' @ [APOS] @ '' '' @ [QUOTE] @ [APOS] @ '' + fname + '' @ [APOS] @
   [QUOTE] @ '' ?'' @ [APOS] @ '');'' @ [LF] @ ''}'' @ [LF] @ ''function checkCreateDir(th) {'' @ [LF] @
   ''    var res = false;'' @ [LF] @ ''    var dname = th.form.elements.namedItem('' @ [APOS] @ ''new_dir'' @
   [APOS] @ '').value;'' @ [LF] @ ''    if( dname === '' @ [APOS] @ [APOS] @ '' ) {'' @ [LF] @
   ''        alert('' @ [APOS] @ ''please specify the directory name'' @ [APOS] @ '');'' @ [LF] @
   ''    }else if( dname.indexOf('' @ [APOS] @ ''/'' @ [APOS] @ '') >= 0 ) {'' @ [LF] @ ''        alert('' @
   [APOS] @ ''slash in name disallowed'' @ [APOS] @ '');'' @ [LF] @ ''    }else'' @ [LF] @
   ''        res = true;'' @ [LF] @ ''    return res;'' @ [LF] @ ''}'' @ [LF] @
   ''function checkAddFile(th) {'' @ [LF] @ ''    if( th.form.elements.namedItem('' @ [APOS] @ ''file'' @
   [APOS] @ '').value == '' @ [APOS] @ [APOS] @ '' ) {'' @ [LF] @ ''        alert('' @ [APOS] @
   ''please choose a file'' @ [APOS] @ '');'' @ [LF] @ ''        return false;'' @ [LF] @ ''    }'' @ [LF] @
   ''    return true;'' @ [LF] @ ''}'' @ [LF] @ ''</script>'' @ [LF] @ ''<style>'' @ [LF] @
   ''body { background-color: #F2FAFC; }'' @ [LF] @ ''div.errormsg {'' @ [LF] @ ''   font-size: large;'' @
   [LF] @ ''   text-align: center;'' @ [LF] @ ''   background-color: gold;'' @ [LF] @ ''   padding: 2px;'' @
   [LF] @ ''   margin-top: 4px;'' @ [LF] @ ''}'' @ [LF] @ ''span.plusdir {'' @ [LF] @
   ''    font-family: monospace;'' @ [LF] @ ''    font-weight: bold;'' @ [LF] @
   ''    background-color: #D31D41;'' @ [LF] @ ''    color: white;'' @ [LF] @ ''    padding: 0px 3px;'' @
   [LF] @ ''    cursor: default;'' @ [LF] @ ''}'' @ [LF] @ ''span.plusgray {'' @ [LF] @
   ''    font-family: monospace;'' @ [LF] @ ''    font-weight: bold;'' @ [LF] @
   ''    background-color: #d8d8d8;'' @ [LF] @ ''    color: white;'' @ [LF] @ ''    padding: 0px 3px;'' @
   [LF] @ ''    cursor: default;'' @ [LF] @ ''}'' @ [LF] @ ''span.pluscgi {'' @ [LF] @
   ''    font-family: monospace;'' @ [LF] @ ''    font-weight: bold;'' @ [LF] @
   ''    background-color: #E3B81F;'' @ [LF] @ ''    color: white;'' @ [LF] @ ''    padding: 0px 3px;'' @
   [LF] @ ''    cursor: default;'' @ [LF] @ ''}'' @ [LF] @ ''span.plusfile {'' @ [LF] @
   ''    font-family: monospace;'' @ [LF] @ ''    font-weight: bold;'' @ [LF] @
   ''    background-color: #bbdb1e;'' @ [LF] @ ''    color: white;'' @ [LF] @ ''    padding: 0px 3px;'' @
   [LF] @ ''    cursor: default;'' @ [LF] @ ''}'' @ [LF] @ ''tbody.folder > tr > td {'' @ [LF] @
   ''    border-color: #ded4f2;'' @ [LF] @ ''    border-width: 1px;'' @ [LF] @
   ''    border-bottom-style: solid;'' @ [LF] @ ''}'' @ [LF] @ ''table.fattr {'' @ [LF] @
   ''    border-collapse: collapse;'' @ [LF] @ ''}'' @ [LF] @ ''table.fattr td {'' @ [LF] @
   ''    background: #e0f0f9;'' @ [LF] @ ''    padding: 3px 6px;'' @ [LF] @ ''}'' @ [LF] @
   ''table.fattr input[type='' @ [APOS] @ ''submit'' @ [APOS] @ ''] {'' @ [LF] @ ''    width: 100%;'' @
   [LF] @ ''}'' @ [LF] @ ''table.fattr input[name='' @ [APOS] @ ''new_name'' @ [APOS] @ ''] {'' @ [LF] @
   ''    width: 20em;'' @ [LF] @ ''}'' @ [LF] @ ''table.diracns td {'' @ [LF] @ ''    padding: 2px 4px;'' @
   [LF] @ ''}'' @ [LF] @ ''table.diracns input {'' @ [LF] @ ''    width: 100%;'' @ [LF] @ ''}'' @ [LF] @
   ''</style>'' @ [LF]"

definition response_footer :: bytes where
  "response_footer =
   ''<hr style='' @ [APOS] @ ''margin: 16px 0px'' @ [APOS] @ ''>'' @ [LF] @ ''<form method='' @ [APOS] @
   ''POST'' @ [APOS] @ '' enctype='' @ [APOS] @ ''multipart/form-data'' @ [APOS] @ ''>'' @ [LF] @
   ''<table class='' @ [APOS] @ ''diracns'' @ [APOS] @ ''><tbody>'' @ [LF] @
   ''<tr><td>new directory:</td>'' @ [LF] @ ''<td><input name='' @ [APOS] @ ''new_dir'' @ [APOS] @
   ''/></td>'' @ [LF] @ ''<td><input type='' @ [APOS] @ ''submit'' @ [APOS] @ '' name='' @ [APOS] @
   ''do_newdir'' @ [APOS] @ '' value='' @ [APOS] @ ''Create'' @ [APOS] @ '' onclick='' @ [APOS] @
   ''return checkCreateDir(this)'' @ [APOS] @ ''/></td>'' @ [LF] @ ''</tr><tr><td>add file:</td>'' @ [LF] @
   ''<td><input type='' @ [APOS] @ ''file'' @ [APOS] @ '' name='' @ [APOS] @ ''file'' @ [APOS] @
   ''/></td>'' @ [LF] @ ''<td><input type='' @ [APOS] @ ''submit'' @ [APOS] @ '' name='' @ [APOS] @
   ''do_add'' @ [APOS] @ '' value='' @ [APOS] @ ''Add'' @ [APOS] @ '' onclick='' @ [APOS] @
   ''return checkAddFile(this)'' @ [APOS] @ ''/></td>'' @ [LF] @ ''</tr></tbody></table></form>'' @ [LF]"

definition hasHiddenFiles :: "Folder \<Rightarrow> bool" where
  "hasHiddenFiles folder =
     list_ex (\<lambda>e. fe_fileName e \<noteq> [] \<and> hd (fe_fileName e) = CHR ''.'') (folder_getEntries folder)"

datatype PageCall = PStr bytes | PFmt bytes "FmtArg list"

fun page_call :: "bytes \<Rightarrow> RespBuf \<Rightarrow> PageCall \<Rightarrow> RespBuf cres" where
  "page_call host r (PStr s) = resp_appendStr r s"
| "page_call host r (PFmt fmt args) = resp_appendFmt host r fmt args"

fun run_page :: "bytes \<Rightarrow> RespBuf \<Rightarrow> PageCall list \<Rightarrow> RespBuf cres" where
  "run_page host r [] = Ok r"
| "run_page host r (c # cs) = cbind (page_call host r c) (\<lambda>r'. run_page host r' cs)"

text \<open>The bytes from a chunk's pointer to the end of its object.\<close>

definition dc_ptr :: "DataChunk \<Rightarrow> bytes" where
  "dc_ptr d = (case dc_data d of None \<Rightarrow> [] | Some s \<Rightarrow> s)"

lemma fwd_while_le: "i \<le> fwd_while P d i"
proof (induction P d i rule: fwd_while.induct)
  case (1 P d i)
  then show ?case by (subst fwd_while.simps) (auto dest: Suc_leD)
qed

lemma fwd_while_step: "i < dc_len d \<Longrightarrow> P (dc_byte d i) \<Longrightarrow> i < fwd_while P d i"
  by (subst fwd_while.simps) (use fwd_while_le [of "Suc i" P d] in auto)

lemma span_progress:
  assumes "i < dc_len d"
  shows "i < dch_endOfSpan d (dch_endOfCSpan d i c) c" "i < dch_endOfCSpan d (dch_endOfSpan d i c) c"
proof -
  let ?s = "fwd_while (\<lambda>x. x = c) d" and ?n = "fwd_while (\<lambda>x. x \<noteq> c) d"
  show "i < dch_endOfSpan d (dch_endOfCSpan d i c) c"
  proof (cases "dc_byte d i = c")
    case True
    then have "?n i = i" by (subst fwd_while.simps) simp
    with assms True fwd_while_step [of i d "\<lambda>x. x = c"] show ?thesis
      by (simp add: dch_endOfSpan_def dch_endOfCSpan_def)
  next
    case False
    then have "i < ?n i" using assms fwd_while_step [of i d "\<lambda>x. x \<noteq> c"] by simp
    then show ?thesis using fwd_while_le [of "?n i"] order_less_le_trans
      by (fastforce simp: dch_endOfSpan_def dch_endOfCSpan_def)
  qed
  show "i < dch_endOfCSpan d (dch_endOfSpan d i c) c"
  proof (cases "dc_byte d i = c")
    case True
    then have "i < ?s i" using assms fwd_while_step [of i d "\<lambda>x. x = c"] by simp
    then show ?thesis using fwd_while_le [of "?s i"] order_less_le_trans
      by (fastforce simp: dch_endOfSpan_def dch_endOfCSpan_def)
  next
    case False
    then have "?s i = i" by (subst fwd_while.simps) simp
    with assms False fwd_while_step [of i d "\<lambda>x. x \<noteq> c"] show ?thesis
      by (simp add: dch_endOfSpan_def dch_endOfCSpan_def)
  qed
qed

text \<open>The loops over the elements of the path: the links of the title line from the element that begins
  at \<open>b\<close>, and the options of the target directory, after the end \<open>e\<close> of an element.\<close>

function path_links :: "DataChunk \<Rightarrow> nat \<Rightarrow> PageCall list" where
  "path_links u b =
     (if b < dc_len u then
        (let e = dch_endOfCSpan u b (CHR ''/'') in
         PFmt (''/<a href='' @ [QUOTE] @ ''%D/'' @ [QUOTE] @ ''>%D</a>'')
           [AData (dc_ptr u) e, AData (drop b (dc_ptr u)) (e - b)] #
         path_links u (dch_endOfSpan u e (CHR ''/'')))
      else [])"
  by pat_completeness auto
termination
  by (relation "measure (\<lambda>(u, b). dc_len u - b)") (auto intro!: diff_less_mono2 span_progress)

function parent_options :: "DataChunk \<Rightarrow> nat \<Rightarrow> PageCall list" where
  "parent_options u e =
     (if e < dc_len u then
        (let b = dch_endOfSpan u e (CHR ''/'') in
         PFmt (''<option>%D</option>'' @ [LF]) [AData (dc_ptr u) b] #
         parent_options u (dch_endOfCSpan u b (CHR ''/'')))
      else [])"
  by pat_completeness auto
termination
  by (relation "measure (\<lambda>(u, e). dc_len u - e)") (auto intro!: diff_less_mono2 span_progress)

declare path_links.simps [simp del] parent_options.simps [simp del]

text \<open>
  The size of a file in the array \<open>buf\<close> of 80 bytes: the digits at its beginning are moved to
  its end in groups of three, each with a thin space behind it.  An access outside the array, or a
  \<open>memcpy\<close> between overlapping areas, is \<open>Undef\<close>.
\<close>

definition buf_put :: "bytes \<Rightarrow> nat \<Rightarrow> bytes \<Rightarrow> bytes" where
  "buf_put buf at s = take at buf @ s @ drop (at + length s) buf"

definition thin_space :: bytes where "thin_space = ''&thinsp;''"

function thin_loop :: "nat \<Rightarrow> nat \<Rightarrow> bytes \<Rightarrow> (nat \<times> bytes) cres" where
  "thin_loop len dest buf =
     (if len = 0 then Ok (dest, buf)
      else if dest < length thin_space then Undef
      else
        (let dest1 = dest - length thin_space; buf1 = buf_put buf dest1 thin_space; cpy = (if 3 < len then 3 else len)
         in if dest1 < cpy then Undef
            else
              (let dest2 = dest1 - cpy; len' = len - cpy
               in if dest2 < len' + cpy then Undef
                  else thin_loop len' dest2 (buf_put buf1 dest2 (take cpy (drop len' buf1))))))"
  by pat_completeness auto
termination
  by (relation "measure (\<lambda>(len, dest, buf). len)") auto

declare thin_loop.simps [simp del]

text \<open>The sum wraps in an \<open>unsigned long long\<close>; what the array holds before \<open>sprintf\<close> does not matter.\<close>

definition size_text :: "u64 \<Rightarrow> bytes cres" where
  "size_text size' =
     (let s = to_base 10 (unat ((size' + 1023) div 1024));
          buf = buf_put (buf_put (replicate 80 NUL) 0 (s @ [NUL])) 79 [NUL]
      in cbind (thin_loop (length s) 79 buf) (\<lambda>(dest, buf'). Ok (cstr (drop dest buf'))))"

text \<open>The rows of an entry: the number \<open>i\<close> of the entry, whether it is a CGI and its size.\<close>

definition perm_selects :: "FolderEntry \<Rightarrow> PageCall list" where
  "perm_selects ent =
     concat (map (\<lambda>g.
       PFmt (''<td>%R: <select name='' @ [APOS] @ ''p%R'' @ [APOS] @ ''>'' @ [LF]) [AStr (fp_name g), AStr (fp_name g)] #
       map (\<lambda>j. PFmt (''<option%R>%R</option>'' @ [LF])
             [AStr (if and (unat (fe_mode ent)) (fp_mask g) = fp_value g ! j then '' selected'' else []),
              AStr (gFilePermDisp ! j)]) [0..<length gFilePermDisp] @
       [PStr (''</select></td>'' @ [LF])]) gFilePerm)"

definition entry_menu :: "DataChunk \<Rightarrow> FolderEntry list \<Rightarrow> nat \<Rightarrow> PageCall list" where
  "entry_menu u es i =
     (let ent = es ! i in
      [PFmt (''<tr style='' @ [QUOTE] @ ''display: none'' @ [QUOTE] @ ''>'' @ [LF] @ ''<td></td>'' @
            [LF] @ ''<td colspan='' @ [QUOTE] @ ''2'' @ [QUOTE] @ ''>'' @ [LF] @ ''<form method='' @
            [QUOTE] @ ''POST'' @ [QUOTE] @ '' enctype='' @ [QUOTE] @ ''multipart/form-data'' @
            [QUOTE] @ ''>'' @ [LF] @ ''<input type='' @ [QUOTE] @ ''hidden'' @ [QUOTE] @ '' name='' @
            [QUOTE] @ ''file'' @ [QUOTE] @ '' value='' @ [QUOTE] @ ''%S'' @ [QUOTE] @ ''/>'' @ [LF] @
            ''<table class='' @ [APOS] @ ''fattr'' @ [APOS] @ ''><tbody>'') [AStr (fe_fileName ent)],
       PStr (''<tr><td>new name:</td>'' @ [LF] @ ''<td colspan='' @ [APOS] @ ''3'' @ [APOS] @
            ''><select name='' @ [APOS] @ ''new_dir'' @ [APOS] @ ''>'' @ [LF])] @
      parent_options u 0 @
      [PFmt (''<option selected>%C/</option>'' @ [LF]) [AChunk u]] @
      map (\<lambda>k. PFmt (''<option>%C/%S/</option>'' @ [LF]) [AChunk u, AStr (fe_fileName (es ! k))])
        (filter (\<lambda>k. k \<noteq> i \<and> fe_isDir (es ! k)) [0..<length es]) @
      [PFmt (''</select> <input name='' @ [APOS] @ ''new_name'' @ [APOS] @ '' value='' @ [QUOTE] @
            ''%S'' @ [QUOTE] @ ''/></td><td><input type='' @ [QUOTE] @ ''submit'' @ [QUOTE] @
            '' name='' @ [QUOTE] @ ''do_rename'' @ [QUOTE] @ '' value='' @ [QUOTE] @ ''Rename'' @
            [QUOTE] @ '' onclick='' @ [APOS] @ ''return checkRename(this)'' @ [APOS] @
            ''/></td></tr>'' @ [LF]) [AStr (fe_fileName ent)],
       PStr (''<tr><td>permissions:</td>'')] @
      perm_selects ent @
      [PStr (''<td><input type='' @ [QUOTE] @ ''submit'' @ [QUOTE] @ '' name='' @ [APOS] @ ''do_perm'' @
            [APOS] @ '' value='' @ [APOS] @ ''Change'' @ [APOS] @ ''/></td></tr>'' @ [LF])] @
      (if \<not> fe_isDir ent then
        [PStr (''<tr><td>replace with:</td>'' @ [LF] @ ''<td colspan='' @ [APOS] @ ''3'' @ [APOS] @
            ''><input type='' @ [APOS] @ ''file'' @ [APOS] @ '' name='' @ [APOS] @ ''new_cont'' @
            [APOS] @ ''></td><td><input type='' @ [APOS] @ ''submit'' @ [APOS] @ '' name='' @ [APOS] @
            ''do_replace'' @ [APOS] @ '' value='' @ [APOS] @ ''Upload'' @ [APOS] @ '' onclick='' @
            [APOS] @ ''return confirmUpload(this)'' @ [APOS] @ ''/></td></tr>'' @ [LF])] else []) @
      [PStr (''<tr><td>delete:</td>'' @ [LF] @ ''<td colspan='' @ [APOS] @ ''3'' @ [APOS] @ ''>'')] @
      (if fe_isDir ent then
        [PStr (''<label><input type='' @ [APOS] @ ''checkbox'' @ [APOS] @ '' name='' @ [APOS] @
            ''del_recursive'' @ [APOS] @ ''/>recursively</label>'')] else []) @
      [PStr (''</td>'' @ [LF] @ ''<td><input type='' @ [QUOTE] @ ''submit'' @ [QUOTE] @ '' name='' @
            [QUOTE] @ ''do_delete'' @ [QUOTE] @ '' value='' @ [QUOTE] @ ''Delete'' @ [QUOTE] @
            '' onclick='' @ [QUOTE] @ ''return confirmDel(this)'' @ [QUOTE] @ ''/></td>'' @ [LF] @
            ''</tr></tbody>'' @ [LF] @ ''</table>'' @ [LF] @ ''</form>'' @ [LF] @ ''</td>'' @ [LF] @
            ''</tr>'' @ [LF])])"

definition entry_calls ::
    "bool \<Rightarrow> DataChunk \<Rightarrow> FolderEntry list \<Rightarrow> nat \<Rightarrow> bool \<Rightarrow> bytes \<Rightarrow> PageCall list" where
  "entry_calls isModifiable u es i isCGI sizeStr =
     (let ent = es ! i; cls = (if fe_isDir ent then ''plusdir'' else if isCGI then ''pluscgi'' else ''plusfile'') in
      [if fe_fileName ent \<noteq> [] \<and> hd (fe_fileName ent) = CHR ''.''
       then PStr (''<tr class='' @ [APOS] @ ''rhidden'' @ [APOS] @ '' style='' @ [APOS] @ ''display: none'' @
            [APOS] @ ''>'' @ [LF])
       else PStr (''<tr>'' @ [LF]),
       if isModifiable
       then PFmt (''<td onclick='' @ [QUOTE] @ ''showOptions(this)'' @ [QUOTE] @ ''><span class='' @
            [QUOTE] @ ''%R'' @ [QUOTE] @ ''>+</span></td>'' @ [LF]) [AStr cls]
       else PFmt (''<td><span class='' @ [QUOTE] @ ''%R'' @ [QUOTE] @ ''>&sdot;</span></td>'' @ [LF]) [AStr cls],
       PFmt (''<td><a href='' @ [QUOTE] @ ''%C/%S%R'' @ [QUOTE] @ ''>%S</a></td>'' @ [LF])
         [AChunk u, AStr (fe_fileName ent), AStr (if fe_isDir ent then ''/'' else []), AStr (fe_fileName ent)],
       if fe_isDir ent \<or> isCGI then PStr (''<td></td>'' @ [LF])
       else PFmt (''<td style='' @ [QUOTE] @ ''text-align: right; padding-left: 2em; white-space: nowrap'' @
            [QUOTE] @ ''>%RkB</td>'' @ [LF]) [AStr sizeStr],
       PStr (''</tr>'' @ [LF])] @
      (if isModifiable then entry_menu u es i else []))"

fun all_entries ::
    "fnmatch_fun \<Rightarrow> Config \<Rightarrow> bytes \<Rightarrow> bool \<Rightarrow> DataChunk \<Rightarrow> FolderEntry list \<Rightarrow> nat list \<Rightarrow> PageCall list cres" where
  "all_entries fnm c urlDir isModifiable u es [] = Ok []"
| "all_entries fnm c urlDir isModifiable u es (i # is) =
     cbind (if fe_isDir (es ! i) then Ok False else config_isCGI fnm c (urlDir @ fe_fileName (es ! i))) (\<lambda>isCGI.
     cbind (if fe_isDir (es ! i) \<or> isCGI then Ok [] else size_text (fe_size (es ! i))) (\<lambda>sizeStr.
     cbind (all_entries fnm c urlDir isModifiable u es is) (\<lambda>calls.
       Ok (entry_calls isModifiable u es i isCGI sizeStr @ calls))))"

definition page_top :: "DataChunk \<Rightarrow> Folder \<Rightarrow> bool \<Rightarrow> bool \<Rightarrow> bytes option \<Rightarrow> PageCall list" where
  "page_top u folder isModifiable showLoginButton opErrorMsg =
     [PFmt (''<!DOCTYPE html><html><head><title>%C%R%H - File Manager</title>%R</head>'' @ [LF] @
            ''<body>'' @ [LF])
        [AChunk u, AStr (if dc_len u \<noteq> 0 then '' on '' else []), AStr response_header],
      PFmt (''<table style='' @ [APOS] @ ''width: 100%'' @ [APOS] @ ''><tbody><tr><td style='' @
            [QUOTE] @ ''font-size: large; font-weight: bold'' @ [QUOTE] @ ''><a href='' @ [QUOTE] @
            ''/'' @ [QUOTE] @ ''>%H</a>&emsp;'') []] @
     path_links u (dch_endOfSpan u 0 (CHR ''/'')) @
     [PStr (''</td><td style='' @ [APOS] @ ''text-align: right'' @ [APOS] @ ''>'')] @
     (if hasHiddenFiles folder then
       [PStr (''<label><input type='' @ [APOS] @ ''checkbox'' @ [APOS] @ '' name='' @ [APOS] @
            ''showall'' @ [APOS] @ '' onclick='' @ [APOS] @ ''showHideHidden(this)'' @ [APOS] @
            ''></input>show hidden files</label>'')] else []) @
     (if showLoginButton then [PFmt (''&emsp;%R'') [AStr filemgr_getLoginForm]] else []) @
     [PStr (''</td></tr></tbody></table>'' @ [LF])] @
     (case opErrorMsg of None \<Rightarrow> []
      | Some m \<Rightarrow> [PFmt (''<div class='' @ [APOS] @ ''errormsg'' @ [APOS] @ ''>%S</div>'' @ [LF]) [AStr m]]) @
     [PStr (''<table><tbody class='' @ [APOS] @ ''folder'' @ [APOS] @ ''>'' @ [LF])] @
     (if dc_len u \<noteq> 0 then
       (let dir = dch_dirNameOf u in
        [PFmt (''<tr>'' @ [LF] @ ''<td><span class='' @ [QUOTE] @ ''plusgray'' @ [QUOTE] @
            ''>%R</span></td>'' @ [LF] @ ''<td><a style='' @ [QUOTE] @ ''white-space: pre'' @ [QUOTE] @
            '' href='' @ [QUOTE] @ ''%D/'' @ [QUOTE] @ ''> .. </a></td>'' @ [LF] @ ''<td></td>'' @
            [LF] @ ''</tr>'' @ [LF])
          [AStr (if isModifiable then ''+'' else ''&sdot;''),
           AData (dc_ptr dir) (if dch_equalsStr dir ''/'' then 0 else dc_len dir)]])
      else [])"

definition printFolderContents ::
    "bytes \<Rightarrow> fnmatch_fun \<Rightarrow> Config \<Rightarrow> bytes \<Rightarrow> Folder \<Rightarrow> bool \<Rightarrow> bool \<Rightarrow> bytes option \<Rightarrow> bool \<Rightarrow> RespBuf cres" where
  "printFolderContents host fnm c urlPath folder isModifiable showLoginButton opErrorMsg onlyHead =
     (let resp = resp_appendHeader (resp_new (resp_cmnStatus HTTP_200_OK) onlyHead)
                   ''Content-Type'' ''text/html; charset=utf-8''
      in if onlyHead then Ok resp
         else
           (let u = dch_trimTrailing (dch_initWithStr (Some (urlPath @ [NUL]))) (CHR ''/'');
                es = folder_getEntries folder
            in cbind (run_page host resp (page_top u folder isModifiable showLoginButton opErrorMsg)) (\<lambda>resp1.
               cbind (all_entries fnm c (with_slash urlPath) isModifiable u es [0..<length es]) (\<lambda>calls.
               cbind (run_page host resp1 calls) (\<lambda>resp2.
               run_page host resp2
                 [PFmt (''</tbody></table>%R</body></html>'' @ [LF])
                    [AStr (if isModifiable then response_footer else [])]])))))"

text \<open>
  \<open>filemgr_printFolderContents\<close>: the page or none, and \<open>*sysErrNo\<close>, which is 0 before.
\<close>

definition filemgr_printFolderContents ::
    "bytes \<Rightarrow> fnmatch_fun \<Rightarrow> qsort_fun \<Rightarrow> FileSys \<Rightarrow> FmSys \<Rightarrow> Config \<Rightarrow> FileManager \<Rightarrow> RequestHeader \<Rightarrow>
     (RespBuf option \<times> nat) cres" where
  "filemgr_printFolderContents host fnm qs fs sys c fm rhdr =
     (let isHeadReq = (reqhdr_getMethod rhdr = ''HEAD'');
          isModifiable = (case fm_sysPath fm of None \<Rightarrow> False
            | Some p \<Rightarrow> reqhdr_isActionAllowed c rhdr PA_MODIFY \<and> fms_access sys p);
          print = (\<lambda>queryFile folder. cbind
            (printFolderContents host fnm c queryFile folder isModifiable (reqhdr_isWorthPuttingLogOnButton c rhdr)
               (fm_opErrorMsg fm) isHeadReq) (\<lambda>resp. Ok (Some resp, 0)))
      in case reqhdr_getPath rhdr of
           None \<Rightarrow> Undef
         | Some queryFile \<Rightarrow>
             (case fm_sysPath fm of
                Some p \<Rightarrow> cbind (folder_loadDir qs fs p) (\<lambda>r. case r of
                    Inl errno \<Rightarrow> Ok (None, errno) | Inr folder \<Rightarrow> print queryFile folder)
              | None \<Rightarrow> cbind (config_getSubSharesForPath qs fs c queryFile) (\<lambda>r. case r of
                    None \<Rightarrow> Ok (None, ENOENT) | Some folder \<Rightarrow> print queryFile folder)))"

subsection \<open>The size of a file\<close>

text \<open>The digits in groups from the right, each with the thin space behind it.\<close>

function thin_groups :: "bytes \<Rightarrow> bytes" where
  "thin_groups s = (if s = [] then []
     else (let n = length s - min 3 (length s) in thin_groups (take n s) @ drop n s @ thin_space))"
  by pat_completeness auto
termination
  by (relation "measure length") (auto simp: min_def)

declare thin_groups.simps [simp del]

text \<open>The last group of a number, the digits before it and the number of groups.\<close>

lemma last_group:
  assumes "s \<noteq> []"
  obtains k n g where "min 3 (length s) = k" "length s - k = n" "length s = n + k" "1 \<le> k" "k \<le> 3"
    "(n + 2) div 3 = g" "(length s + 2) div 3 = Suc g"
proof (cases "length s < 3")
  case True
  moreover have "0 < length s" using assms by simp
  ultimately have "length s = 1 \<or> length s = 2" by linarith
  then show ?thesis using that [of "length s" 0 0] by auto
next
  case False
  then have l: "length s = length s - 3 + 3" by simp
  have "(length s - 3 + 2 + 3) div 3 = Suc ((length s - 3 + 2) div 3)" by (simp only: div_add_self2)
  with False l that [of 3 "length s - 3" "(length s - 3 + 2) div 3"] show ?thesis by simp
qed

lemma groups_room: "l \<le> 17 \<Longrightarrow> l + 8 * ((l + 2) div 3) \<le> (65 :: nat)"
  using div_le_mono [of "l + 2" 19 3] by simp

lemma thin_groups_length: "length (thin_groups s) = length s + 8 * ((length s + 2) div 3)"
proof (induction s rule: thin_groups.induct)
  case (1 s)
  show ?case
  proof (cases "s = []")
    case False
    obtain k n g where k: "min 3 (length s) = k" "length s - k = n" "length s = n + k" "1 \<le> k" "k \<le> 3"
        "(n + 2) div 3 = g" "(length s + 2) div 3 = Suc g"
      by (rule last_group [OF False])
    have IH: "length (thin_groups (take n s)) = n + 8 * g"
      using 1 [OF False refl] k by simp
    have "length (thin_groups s) = length (thin_groups (take n s)) + k + 8"
      using False k by (subst thin_groups.simps) (simp add: Let_def thin_space_def)
    with IH k show ?thesis by simp
  qed (simp add: thin_groups.simps)
qed

lemma buf_put_length: "at + length s \<le> length buf \<Longrightarrow> length (buf_put buf at s) = length buf"
  by (simp add: buf_put_def)

lemma buf_put_before: "n \<le> at \<Longrightarrow> at \<le> length buf \<Longrightarrow> take n (buf_put buf at s) = take n buf"
  by (simp add: buf_put_def min_def)

lemma buf_put_from: "at \<le> length buf \<Longrightarrow> drop at (buf_put buf at s) = s @ drop (at + length s) buf"
  by (simp add: buf_put_def)

lemma thin_len: "length thin_space = 8"
  by (simp add: thin_space_def)

lemma thin_loop_step:
  assumes "len \<noteq> 0" "(if 3 < len then 3 else len) = k" "8 \<le> dest" "k \<le> dest - 8" "len - k + k \<le> dest - 8 - k"
  shows "thin_loop len dest buf = thin_loop (len - k) (dest - 8 - k)
    (buf_put (buf_put buf (dest - 8) thin_space) (dest - 8 - k)
      (take k (drop (len - k) (buf_put buf (dest - 8) thin_space))))"
  using assms by (subst thin_loop.simps) (simp only: Let_def thin_len if_False not_less [symmetric])

text \<open>The loop: the digits not yet moved are at the beginning of the array, and there is room.\<close>

lemma thin_loop_ok:
  assumes "length ds + 8 * ((length ds + 2) div 3) + 3 \<le> dest" "dest \<le> length buf" "take (length ds) buf = ds"
  shows "\<exists>dest' buf'. thin_loop (length ds) dest buf = Ok (dest', buf') \<and>
    drop dest' buf' = thin_groups ds @ drop dest buf"
  using assms
proof (induction ds arbitrary: dest buf rule: thin_groups.induct)
  case (1 ds)
  show ?case
  proof (cases "ds = []")
    case True
    then show ?thesis by (simp add: thin_loop.simps thin_groups.simps)
  next
    case False
    obtain k n g where k: "min 3 (length ds) = k" "length ds - k = n" "length ds = n + k" "1 \<le> k" "k \<le> 3"
        "(n + 2) div 3 = g" "(length ds + 2) div 3 = Suc g"
      by (rule last_group [OF False])
    have cpy: "(if 3 < length ds then 3 else length ds) = k" using k(1) by auto
    have room: "n + k + 8 + 8 * g + 3 \<le> dest" using 1(2) unfolding k(7) by (simp add: k(3))
    let ?b1 = "buf_put buf (dest - 8) thin_space" and ?d2 = "dest - 8 - k"
    let ?b2 = "buf_put ?b1 ?d2 (take k (drop n ?b1))"
    have l1: "length ?b1 = length buf" using room 1(3) by (simp add: buf_put_length thin_space_def)
    have t1: "take (n + k) ?b1 = ds" using room 1(3,4) k(3) by (simp add: buf_put_before)
    have dig: "take k (drop n ?b1) = drop n ds" unfolding t1 [symmetric] by (simp add: drop_take)
    have lk: "length (drop n ds) = k" using k(3) by simp
    have "take n ?b2 = take n ?b1" using room l1 1(3) by (intro buf_put_before) auto
    also have "\<dots> = take n ds" unfolding t1 [symmetric] by (simp add: min_def)
    finally have t2: "take n ?b2 = take n ds" .
    have "drop ?d2 ?b2 = drop n ds @ drop (dest - 8) ?b1"
      using l1 1(3) room lk unfolding dig by (subst buf_put_from) auto
    also have "drop (dest - 8) ?b1 = thin_space @ drop dest buf"
    proof -
      have "dest - 8 + length thin_space = dest" using room by (simp add: thin_space_def)
      then show ?thesis using 1(3) by (subst buf_put_from) auto
    qed
    finally have d2: "drop ?d2 ?b2 = drop n ds @ thin_space @ drop dest buf" .
    have l2: "length ?b2 = length buf" using l1 1(3) room lk unfolding dig by (subst buf_put_length) auto
    have nk: "n + k - k = n" by simp
    have step: "thin_loop (length ds) dest buf = thin_loop n ?d2 ?b2"
    proof -
      have f: "length ds \<noteq> 0" "8 \<le> dest" "k \<le> dest - 8" "length ds - k + k \<le> dest - 8 - k"
        using room k(3,4,5) by simp_all
      show ?thesis using thin_loop_step [OF f(1) cpy f(2-4)] unfolding k(2) .
    qed
    have IH: "\<exists>dest' buf'. thin_loop (length (take n ds)) ?d2 ?b2 = Ok (dest', buf') \<and>
        drop dest' buf' = thin_groups (take n ds) @ drop ?d2 ?b2"
    proof (rule 1(1) [OF False, of n, unfolded k(1), OF k(2) [symmetric]])
      have "length (take n ds) = n" using k(3) by simp
      then show "length (take n ds) + 8 * ((length (take n ds) + 2) div 3) + 3 \<le> ?d2"
        "take (length (take n ds)) ?b2 = take n ds" using k(6) room t2 by simp_all
      show "?d2 \<le> length ?b2" using l2 1(3) by simp
    qed
    have "thin_groups ds = thin_groups (take n ds) @ drop n ds @ thin_space"
      using False by (subst thin_groups.simps) (simp add: Let_def k(1,2))
    with IH step d2 k(3) show ?thesis by simp
  qed
qed

lemma to_base_length_bound: "n < 10 ^ k \<Longrightarrow> 0 < k \<Longrightarrow> length (to_base 10 n) \<le> k"
proof (induction k arbitrary: n)
  case (Suc k)
  show ?case
  proof (cases "n < 10")
    case False
    then have "0 < k" "n div 10 < 10 ^ k" using Suc.prems(1) by (cases k; simp; linarith)+
    with False Suc.IH [of "n div 10"] show ?thesis by (subst to_base.simps) simp
  qed (subst to_base.simps; simp)
qed simp

lemma thin_groups_chars: "c \<in> set (thin_groups s) \<Longrightarrow> c \<in> set s \<or> c \<in> set thin_space"
proof (induction s rule: thin_groups.induct)
  case (1 s)
  then show ?case
    by (subst (asm) (2) thin_groups.simps) (auto simp: Let_def split: if_splits dest: in_set_takeD in_set_dropD)
qed

lemma size_text_total:
  "size_text s = Ok (thin_groups (to_base 10 ((unat s + 1023) mod 2 ^ 64 div 1024))) \<and>
   length (thin_groups (to_base 10 ((unat s + 1023) mod 2 ^ 64 div 1024))) \<le> 65"
proof -
  let ?n = "(unat s + 1023) mod 2 ^ 64 div 1024" let ?d = "to_base 10 ?n"
  have n: "unat ((s + 1023) div 1024) = ?n"
    by (simp add: unat_div unat_word_ariths)
  have "?n < 10 ^ 17" by (simp add: less_mult_imp_div_less)
  then have len: "length ?d \<le> 17" using to_base_length_bound [of ?n 17] by simp
  then have room: "length ?d + 8 * ((length ?d + 2) div 3) \<le> 65" by (rule groups_room)
  let ?buf = "buf_put (buf_put (replicate 80 NUL) 0 (?d @ [NUL])) 79 [NUL]"
  have buf: "take (length ?d) ?buf = ?d" "79 \<le> length ?buf" "drop 79 ?buf = [NUL]"
    using len by (simp_all add: buf_put_def)
  have "length ?d + 8 * ((length ?d + 2) div 3) + 3 \<le> 79" using add_le_mono1 [OF room, of 3] by simp
  from thin_loop_ok [OF this buf(2,1)] obtain dest' buf' where
    r: "thin_loop (length ?d) 79 ?buf = Ok (dest', buf')" "drop dest' buf' = thin_groups ?d @ [NUL]"
    unfolding buf(3) by blast
  have "digit_val 10 NUL = None" by (simp add: digit_val_def)
  then have "v < 10 \<Longrightarrow> digit_char v \<noteq> NUL" for v :: nat
    using digit_val_digit_char [of v 10] by auto
  then have "NUL \<notin> set ?d" using to_base_digits [of 10 NUL ?n] by fastforce
  then have "NUL \<notin> set (thin_groups ?d)"
    using thin_groups_chars [of NUL ?d] by (auto simp: thin_space_def)
  then have "cstr (thin_groups ?d @ [NUL]) = thin_groups ?d" by (simp add: cstr_append_NUL)
  then show ?thesis using r room n by (simp add: size_text_def thin_groups_length)
qed

text \<open>the size of every file, to the largest of an \<open>unsigned long long\<close>, is printed within the
  array of 80 bytes and without an overlapping copy: the text is the decimal number of
  KiB, rounded up except where adding 1023 wraps around, in groups of at most three digits from
  the right with \<open>&thinsp;\<close> behind each of them, and at most 65 bytes long.\<close>

theorem size_text_groups:
  "size_text s = Ok (thin_groups (to_base 10 ((unat s + 1023) mod 2 ^ 64 div 1024))) \<and>
   length (thin_groups (to_base 10 ((unat s + 1023) mod 2 ^ 64 div 1024))) \<le> 65"
  by (rule size_text_total)

subsection \<open>What a page looks like\<close>

text \<open>The characters that structure an HTML text.\<close>

definition markup :: "bytes \<Rightarrow> bytes" where
  "markup s = filter (\<lambda>c. c \<in> {QUOTE, APOS, CHR ''<'', CHR ''>''}) s"

lemma markup_append [simp]: "markup (a @ b) = markup a @ markup b" "markup [] = []"
  by (simp_all add: markup_def)

lemma markup_escape [simp]: "markup (html_escape s) = []"
  using escape_no_markup [of _ s] by (auto simp: markup_def filter_empty_conv)

text \<open>
  Two lists of arguments for a format that differ in nothing but what is escaped: the format is
  made of literals (among them percent signs that begin no specifier), \<open>%H\<close> and specifiers with
  their arguments, and those of \<open>%R\<close> are the same.
\<close>

fun fmt_like :: "bytes \<Rightarrow> FmtArg list \<Rightarrow> FmtArg list \<Rightarrow> bool" where
  "fmt_like [] as as' = (as = [] \<and> as' = [])"
| "fmt_like (c # f) as as' =
     (if c \<noteq> CHR ''%'' then fmt_like f as as'
      else case f of
          [] \<Rightarrow> False
        | x # f' \<Rightarrow>
            (if x = CHR ''H'' then fmt_like f' as as'
             else if x \<notin> set ''CDSR%'' then fmt_like f as as'
             else case (as, as') of
                 (AChunk d # bs, AChunk d' # bs') \<Rightarrow> x = CHR ''C'' \<and> fmt_like f' bs bs'
               | (AData b n # bs, AData b' n' # bs') \<Rightarrow>
                   x = CHR ''D'' \<and> n \<le> length b \<and> n' \<le> length b' \<and> fmt_like f' bs bs'
               | (AStr s # bs, AStr s' # bs') \<Rightarrow>
                   (x = CHR ''S'' \<or> x = CHR ''R'' \<and> s = s') \<and> fmt_like f' bs bs'
               | _ \<Rightarrow> False))"

lemma append_escaped:
  "rb_body r = Some b \<Longrightarrow> appendDataEscapeHtml r d = Ok (r\<lparr>rb_body := Some (b @ html_escape d)\<rparr>)"
  by (simp add: appendDataEscapeHtml_def escape_loop_body)

text \<open>A formatted text: what is appended, and the same markup in both cases.\<close>

definition appends_like :: "RespBuf cres \<Rightarrow> RespBuf cres \<Rightarrow> RespBuf \<Rightarrow> RespBuf \<Rightarrow> bool" where
  "appends_like res res' r r' = (\<exists>b b' o' o''. rb_body r = Some b \<and> rb_body r' = Some b' \<and>
     res = Ok (r\<lparr>rb_body := Some (b @ o')\<rparr>) \<and> res' = Ok (r'\<lparr>rb_body := Some (b' @ o'')\<rparr>) \<and>
     markup o' = markup o'')"

lemma appends_like_after:
  assumes "appends_like res res' (r\<lparr>rb_body := Some (b @ o')\<rparr>) (r'\<lparr>rb_body := Some (b' @ o'')\<rparr>)"
    "rb_body r = Some b" "rb_body r' = Some b'" "markup o' = markup o''"
  shows "appends_like res res' r r'"
proof -
  obtain p p' where "res = Ok (r\<lparr>rb_body := Some (b @ o' @ p)\<rparr>)" "res' = Ok (r'\<lparr>rb_body := Some (b' @ o'' @ p')\<rparr>)"
      "markup p = markup p'"
    using assms(1) by (auto simp: appends_like_def)
  then show ?thesis using assms(2-4)
    unfolding appends_like_def
    by (intro exI [of _ b] exI [of _ b'] exI [of _ "o' @ p"] exI [of _ "o'' @ p'"]) simp
qed

lemma fmt_loop_like:
  "fmt_like f as as' \<Longrightarrow> rb_body r = Some b \<Longrightarrow> rb_body r' = Some b' \<Longrightarrow> CHR ''%'' \<notin> set pre \<Longrightarrow>
   appends_like (fmt_loop host r (pre @ f) as) (fmt_loop host r' (pre @ f) as') r r'"
proof (induction f as as' arbitrary: r r' b b' pre rule: fmt_like.induct)
  case (1 as as')
  then have "memchr (CHR ''%'') pre = None" by (simp add: memchr_None)
  with 1 show ?case unfolding appends_like_def
    by (subst (1 2) fmt_loop.simps, intro exI [of _ b] exI [of _ b'] exI [of _ pre])
       (cases r; cases r'; simp add: resp_appendStr_def resp_appendData_def)
next
  case (2 c f as as')
  show ?case
  proof (cases "c = CHR ''%''")
    case False
    then show ?thesis using 2(1) [OF _ _ 2(8,9), of "pre @ [c]"] 2(7,10) by auto
  next
    case True
    with 2(7) obtain x f' where f: "f = x # f'" by (cases f) auto
    note step = fmt_step [OF 2(8,10), of host x f'] fmt_step [OF 2(9,10), of host x f']
    have go: "appends_like (fmt_loop host (r\<lparr>rb_body := Some (b @ pre @ o')\<rparr>) g bs)
        (fmt_loop host (r'\<lparr>rb_body := Some (b' @ pre @ o'')\<rparr>) g bs') r r'"
      if "\<And>r r' b b' pre. rb_body r = Some b \<Longrightarrow> rb_body r' = Some b' \<Longrightarrow> CHR ''%'' \<notin> set pre \<Longrightarrow>
           appends_like (fmt_loop host r (pre @ g) bs) (fmt_loop host r' (pre @ g) bs') r r'"
        "markup o' = markup o''" for g bs bs' o' o''
      by (rule appends_like_after [OF that(1) [where pre = "[]", simplified] 2(8,9)]) (simp_all add: that(2))
    show ?thesis
    proof (cases "x = CHR ''H''")
      case H: True
      have "fmt_like f' as as'" using 2(7) True f H by simp
      then show ?thesis
        using go [of f' as as' "html_escape host" "html_escape host"] 2(2) [OF _ f H] True
        by (simp add: step [unfolded H] f H True append_escaped Let_def)
    next
      case noH: False
      show ?thesis
      proof (cases "x \<in> set ''CDSR%''")
        case False
        then have "fmt_like f as as'" using 2(7) True f noH by simp
        then show ?thesis
          using go [of f as as' "''%''" "''%''"] 2(3) [OF _ f noH] True False noH
          by (simp add: step f True resp_appendData_def Let_def)
      next
        case spec: True
        from 2(7) True f noH spec obtain p bs p' bs' where as: "as = p # bs" "as' = p' # bs'"
          by (cases as; cases as') (auto split: FmtArg.splits)
        show ?thesis
        proof (cases p; cases p')
          fix d d' assume p: "p = AChunk d" "p' = AChunk d'"
          with 2(7) True f noH spec as have l: "x = CHR ''C''" "fmt_like f' bs bs'" by auto
          have IH: "\<And>r r' b b' pre. rb_body r = Some b \<Longrightarrow> rb_body r' = Some b' \<Longrightarrow> CHR ''%'' \<notin> set pre \<Longrightarrow>
             appends_like (fmt_loop host r (pre @ f') bs) (fmt_loop host r' (pre @ f') bs') r r'"
            using 2(4) [OF _ f noH] True p as spec l by simp
          show ?thesis
            using go [of f' bs bs' "html_escape (dch_bytes d)" "html_escape (dch_bytes d')"] IH True p as l
            by (simp add: step [unfolded l(1)] f append_escaped Let_def)
        next
          fix d n d' n' assume p: "p = AData d n" "p' = AData d' n'"
          with 2(7) True f noH spec as have l: "x = CHR ''D''" "n \<le> length d" "n' \<le> length d'" "fmt_like f' bs bs'"
            by auto
          have IH: "\<And>r r' b b' pre. rb_body r = Some b \<Longrightarrow> rb_body r' = Some b' \<Longrightarrow> CHR ''%'' \<notin> set pre \<Longrightarrow>
             appends_like (fmt_loop host r (pre @ f') bs) (fmt_loop host r' (pre @ f') bs') r r'"
            using 2(5) [OF _ f noH] True p as spec l by simp
          show ?thesis
            using go [of f' bs bs' "html_escape (take n d)" "html_escape (take n' d')"] IH True p as l
            by (simp add: step [unfolded l(1)] f append_escaped Let_def)
        next
          fix s s' assume p: "p = AStr s" "p' = AStr s'"
          with 2(7) True f noH spec as have l: "x = CHR ''S'' \<or> x = CHR ''R'' \<and> s = s'" "fmt_like f' bs bs'" by auto
          have IH: "\<And>r r' b b' pre. rb_body r = Some b \<Longrightarrow> rb_body r' = Some b' \<Longrightarrow> CHR ''%'' \<notin> set pre \<Longrightarrow>
             appends_like (fmt_loop host r (pre @ f') bs) (fmt_loop host r' (pre @ f') bs') r r'"
            using 2(6) [OF _ f noH] True p as spec l by simp
          from l(1) show ?thesis
          proof (elim disjE conjE)
            assume x: "x = CHR ''S''"
            show ?thesis using go [of f' bs bs' "html_escape (cstr s)" "html_escape (cstr s')"] IH True as p
              by (simp add: step [unfolded x] f x append_escaped Let_def)
          next
            assume x: "x = CHR ''R''" "s = s'"
            show ?thesis using go [of f' bs bs' "cstr s" "cstr s'"] IH True as p x(2)
              by (simp add: step [unfolded x(1)] f x(1) resp_appendData_def Let_def)
          qed
        qed (use 2(7) True f noH spec as in auto)
      qed
    qed
  qed
qed

text \<open>Two calls of the same shape, and lists of such calls.\<close>

fun call_like :: "PageCall \<Rightarrow> PageCall \<Rightarrow> bool" where
  "call_like (PStr s) (PStr s') = (s = s')"
| "call_like (PFmt f as) (PFmt f' as') = (f = f' \<and> fmt_like f as as')"
| "call_like _ _ = False"

abbreviation calls_like :: "PageCall list \<Rightarrow> PageCall list \<Rightarrow> bool" where
  "calls_like \<equiv> list_all2 call_like"

lemma page_call_like:
  assumes "call_like c c'" "rb_body r = Some b" "rb_body r' = Some b'"
  shows "\<exists>o' o''. page_call host r c = Ok (r\<lparr>rb_body := Some (b @ o')\<rparr>) \<and>
    page_call host r' c' = Ok (r'\<lparr>rb_body := Some (b' @ o'')\<rparr>) \<and> markup o' = markup o''"
proof (cases c)
  case (PStr s)
  then show ?thesis using assms
    by (intro exI [of _ s]) (cases c', auto simp: resp_appendStr_def resp_appendData_def)
next
  case (PFmt f as)
  then obtain as' where c': "c' = PFmt f as'" "fmt_like f as as'" using assms(1) by (cases c') auto
  from fmt_loop_like [OF this(2) assms(2,3), of "[]" host] show ?thesis
    using assms(2,3) PFmt c'(1) by (auto simp: appends_like_def resp_appendFmt_def)
qed

lemma run_page_like:
  "calls_like cs cs' \<Longrightarrow> rb_body r = Some b \<Longrightarrow> rb_body r' = Some b' \<Longrightarrow>
   \<exists>o' o''. run_page host r cs = Ok (r\<lparr>rb_body := Some (b @ o')\<rparr>) \<and>
     run_page host r' cs' = Ok (r'\<lparr>rb_body := Some (b' @ o'')\<rparr>) \<and> markup o' = markup o''"
proof (induction cs cs' arbitrary: r r' b b' rule: list_all2_induct)
  case Nil
  then show ?case by (intro exI [of _ "[]"]) (cases r; cases r'; simp)
next
  case (Cons c cs c' cs')
  obtain o1 o1' where s: "page_call host r c = Ok (r\<lparr>rb_body := Some (b @ o1)\<rparr>)"
      "page_call host r' c' = Ok (r'\<lparr>rb_body := Some (b' @ o1')\<rparr>)" "markup o1 = markup o1'"
    using page_call_like [OF Cons.hyps(1) Cons.prems] by blast
  obtain o2 o2' where
    "run_page host (r\<lparr>rb_body := Some (b @ o1)\<rparr>) cs = Ok (r\<lparr>rb_body := Some ((b @ o1) @ o2)\<rparr>)"
    "run_page host (r'\<lparr>rb_body := Some (b' @ o1')\<rparr>) cs' = Ok (r'\<lparr>rb_body := Some ((b' @ o1') @ o2')\<rparr>)"
    "markup o2 = markup o2'"
    using Cons.IH [of "r\<lparr>rb_body := Some (b @ o1)\<rparr>" "b @ o1" "r'\<lparr>rb_body := Some (b' @ o1')\<rparr>" "b' @ o1'"] by auto
  then show ?case using s by (intro exI [of _ "o1 @ o2"] exI [of _ "o1' @ o2'"]) simp
qed

subsection \<open>The parts of the page\<close>

lemma fwd_while_bound: "i \<le> dc_len d \<Longrightarrow> fwd_while P d i \<le> dc_len d"
proof (induction P d i rule: fwd_while.induct)
  case (1 P d i)
  then show ?case by (subst fwd_while.simps) auto
qed

lemmas span_defs = dch_endOfSpan_def dch_endOfCSpan_def

text \<open>A chunk that lies inside its string, as the path does.\<close>

definition path_ok :: "DataChunk \<Rightarrow> bool" where
  "path_ok u = (dc_len u \<le> length (dc_ptr u))"

lemma path_ok_url: "path_ok (dch_trimTrailing (dch_initWithStr (Some (s @ [NUL]))) c)"
  using back_while_le [of "\<lambda>x. x = c" 0 "s @ [NUL]" "strlen (s @ [NUL])"] length_cstr [of "s @ [NUL]"]
  by (simp add: path_ok_def dch_trimTrailing_def trim_back_def dch_initWithStr_def dc_ptr_def strlen_def)

lemma path_links_like: "path_ok u \<Longrightarrow> calls_like (path_links u b) (path_links u b)"
proof (induction u b rule: path_links.induct)
  case (1 u b)
  show ?case
  proof (cases "b < dc_len u")
    case True
    let ?e = "dch_endOfCSpan u b (CHR ''/'')"
    have "?e \<le> length (dc_ptr u)"
    proof -
      have "fwd_while P u b \<le> dc_len u" for P using fwd_while_bound True by simp
      then show ?thesis using 1(2) order_trans by (fastforce simp: span_defs path_ok_def)
    qed
    then show ?thesis using 1 True by (subst (1 2) path_links.simps) (simp add: Let_def)
  qed (simp add: path_links.simps)
qed

lemma parent_options_like: "path_ok u \<Longrightarrow> calls_like (parent_options u e) (parent_options u e)"
proof (induction u e rule: parent_options.induct)
  case (1 u e)
  show ?case
  proof (cases "e < dc_len u")
    case True
    let ?b = "dch_endOfSpan u e (CHR ''/'')"
    have "?b \<le> length (dc_ptr u)"
    proof -
      have "fwd_while P u e \<le> dc_len u" for P using fwd_while_bound True by simp
      then show ?thesis using 1(2) order_trans by (fastforce simp: span_defs path_ok_def)
    qed
    then show ?thesis using 1 True by (subst (1 2) parent_options.simps) (simp add: Let_def)
  qed (simp add: parent_options.simps)
qed

lemma dirName_ptr: "dc_ptr (dch_dirNameOf u) = dc_ptr u" "dc_len (dch_dirNameOf u) \<le> dc_len u"
proof -
  have "back_while P lo s n \<le> m" if "n \<le> m" for P lo s n m
    using back_while_le [of P lo s n] that by simp
  then show "dc_len (dch_dirNameOf u) \<le> dc_len u"
    using back_while_le by (simp add: dch_dirNameOf_def dch_init_def Let_def)
  show "dc_ptr (dch_dirNameOf u) = dc_ptr u"
    by (simp add: dch_dirNameOf_def dch_init_def dc_ptr_def Let_def)
qed

lemma page_top_like:
  assumes "path_ok u" "hasHiddenFiles fo = hasHiddenFiles fo'" "(err = None) = (err' = None)"
  shows "calls_like (page_top u fo m l err) (page_top u fo' m l err')"
proof -
  have "dc_len (dch_dirNameOf u) \<le> length (dc_ptr (dch_dirNameOf u))"
    using assms(1) dirName_ptr [of u] by (simp add: path_ok_def)
  then show ?thesis
    unfolding page_top_def using assms(2,3) path_links_like [OF assms(1)]
    by (intro list_all2_appendI) (auto simp: Let_def split: option.splits)
qed

text \<open>Two entries that differ only in their names, and not in whether they are hidden.\<close>

definition entry_like :: "FolderEntry \<Rightarrow> FolderEntry \<Rightarrow> bool" where
  "entry_like e e' = (fe_isDir e = fe_isDir e' \<and> fe_mode e = fe_mode e' \<and> fe_size e = fe_size e' \<and>
     (fe_fileName e \<noteq> [] \<and> hd (fe_fileName e) = CHR ''.'') = (fe_fileName e' \<noteq> [] \<and> hd (fe_fileName e') = CHR ''.''))"

lemma perm_selects_like: "fe_mode e = fe_mode e' \<Longrightarrow> calls_like (perm_selects e) (perm_selects e')"
  by (simp add: perm_selects_def gFilePerm_def gFilePermDisp_def upt_rec)

lemma calls_like_map:
  "(\<And>k. k \<in> set ks \<Longrightarrow> call_like (f k) (g k)) \<Longrightarrow> calls_like (map f ks) (map g ks)"
  by (induction ks) auto

lemma calls_like_concat:
  "(\<And>k. k \<in> set ks \<Longrightarrow> calls_like (f k) (g k)) \<Longrightarrow> calls_like (concat (map f ks)) (concat (map g ks))"
  by (induction ks) (auto intro: list_all2_appendI)

lemma entry_menu_like:
  assumes "path_ok u" "list_all2 entry_like es es'" "i < length es"
  shows "calls_like (entry_menu u es i) (entry_menu u es' i)"
proof -
  have len: "length es' = length es" using assms(2) by (simp add: list_all2_lengthD)
  have like: "entry_like (es ! k) (es' ! k)" if "k < length es" for k
    using assms(2) that by (simp add: list_all2_conv_all_nth)
  then have "filter (\<lambda>k. k \<noteq> i \<and> fe_isDir (es ! k)) [0..<length es] =
      filter (\<lambda>k. k \<noteq> i \<and> fe_isDir (es' ! k)) [0..<length es']"
    unfolding len by (intro filter_cong) (auto simp: entry_like_def)
  with like [OF assms(3)] perm_selects_like parent_options_like [OF assms(1)] show ?thesis
    unfolding entry_menu_def Let_def
    by (intro list_all2_appendI) (auto simp: entry_like_def intro!: calls_like_map)
qed

lemma entry_calls_like:
  assumes "path_ok u" "list_all2 entry_like es es'" "i < length es"
  shows "calls_like (entry_calls m u es i cgi s) (entry_calls m u es' i cgi s)"
proof -
  have "entry_like (es ! i) (es' ! i)" using assms(2,3) by (simp add: list_all2_conv_all_nth)
  then show ?thesis
    using entry_menu_like [OF assms] unfolding entry_calls_def Let_def
    by (intro list_all2_appendI) (auto simp: entry_like_def)
qed

lemma entry_like_refl: "entry_like e e"
  by (simp add: entry_like_def)

lemma entries_like_refl: "list_all2 entry_like es es"
  by (simp add: list_all2_refl entry_like_refl)

definition size_str :: "FolderEntry \<Rightarrow> bool \<Rightarrow> bytes" where
  "size_str e cgi = (if fe_isDir e \<or> cgi then [] else thin_groups (to_base 10 ((unat (fe_size e) + 1023) mod 2 ^ 64 div 1024)))"

lemma size_text_Ok: "size_text s = Ok (thin_groups (to_base 10 ((unat s + 1023) mod 2 ^ 64 div 1024)))"
  using size_text_total by blast

text \<open>The calls for the entries exist: each entry has a name below a path that is not empty.\<close>

lemma all_entries_calls:
  assumes "\<And>i. i \<in> set is \<Longrightarrow> \<not> fe_isDir (es ! i) \<Longrightarrow> config_isCGI fnm c (urlDir @ fe_fileName (es ! i)) = Ok (cgi i)"
  shows "all_entries fnm c urlDir m u es is =
    Ok (concat (map (\<lambda>i. let g = (\<not> fe_isDir (es ! i) \<and> cgi i) in
        entry_calls m u es i g (size_str (es ! i) g)) is))"
  using assms
proof (induction "is")
  case (Cons i js)
  then have IH: "all_entries fnm c urlDir m u es js =
    Ok (concat (map (\<lambda>i. let g = (\<not> fe_isDir (es ! i) \<and> cgi i) in
        entry_calls m u es i g (size_str (es ! i) g)) js))" by auto
  show ?case using Cons.prems [of i] by (simp add: IH size_text_Ok size_str_def Let_def)
qed simp

definition is_cgi :: "fnmatch_fun \<Rightarrow> Config \<Rightarrow> bytes \<Rightarrow> bool" where
  "is_cgi fnm c u = (config_isCGI fnm c u = Ok True)"

lemma isCGI_Ok: "u \<noteq> [] \<Longrightarrow> config_isCGI fnm c u = Ok (is_cgi fnm c u)"
  using isCGI_total [of u fnm c] by (auto simp: is_cgi_def)

definition entry_row :: "fnmatch_fun \<Rightarrow> Config \<Rightarrow> bytes \<Rightarrow> bool \<Rightarrow> DataChunk \<Rightarrow> FolderEntry list \<Rightarrow> nat \<Rightarrow> PageCall list" where
  "entry_row fnm c urlDir m u es i =
     (let g = (\<not> fe_isDir (es ! i) \<and> is_cgi fnm c (urlDir @ fe_fileName (es ! i)))
      in entry_calls m u es i g (size_str (es ! i) g))"

lemma all_entries_Ok:
  "urlDir \<noteq> [] \<Longrightarrow> all_entries fnm c urlDir m u es is = Ok (concat (map (entry_row fnm c urlDir m u es) is))"
  using all_entries_calls [of "is" es fnm c urlDir "\<lambda>i. is_cgi fnm c (urlDir @ fe_fileName (es ! i))"]
  by (simp add: isCGI_Ok entry_row_def [abs_def] Let_def)

lemma run_page_append:
  "run_page host r (cs @ cs') = cbind (run_page host r cs) (\<lambda>r'. run_page host r' cs')"
proof (induction cs arbitrary: r)
  case (Cons c cs)
  then show ?case by (cases "page_call host r c") simp_all
qed simp

lemma with_slash_ne [simp]: "with_slash s \<noteq> []"
  by (simp add: with_slash_def)

definition page_calls ::
    "fnmatch_fun \<Rightarrow> Config \<Rightarrow> bytes \<Rightarrow> Folder \<Rightarrow> bool \<Rightarrow> bool \<Rightarrow> bytes option \<Rightarrow> PageCall list" where
  "page_calls fnm c url fo m l err =
     (let u = dch_trimTrailing (dch_initWithStr (Some (url @ [NUL]))) (CHR ''/''); es = fo_entries fo in
      page_top u fo m l err @ concat (map (entry_row fnm c (with_slash url) m u es) [0..<length es]) @
      [PFmt (''</tbody></table>%R</body></html>'' @ [LF]) [AStr (if m then response_footer else [])]])"

lemma print_page:
  "printFolderContents host fnm c url fo m l err False =
     run_page host (resp_appendHeader (resp_new (resp_cmnStatus HTTP_200_OK) False)
       ''Content-Type'' ''text/html; charset=utf-8'') (page_calls fnm c url fo m l err)"
  unfolding printFolderContents_def page_calls_def folder_getEntries_def Let_def run_page_append
  by (simp add: all_entries_Ok run_page_append)

lemma page_calls_like:
  assumes "list_all2 entry_like (fo_entries fo) (fo_entries fo')" "(err = None) = (err' = None)"
    "\<And>i. i < length (fo_entries fo) \<Longrightarrow> \<not> fe_isDir (fo_entries fo ! i) \<Longrightarrow>
       is_cgi fnm c (with_slash url @ fe_fileName (fo_entries fo ! i)) =
       is_cgi fnm c (with_slash url @ fe_fileName (fo_entries fo' ! i))"
  shows "calls_like (page_calls fnm c url fo m l err) (page_calls fnm c url fo' m l err')"
proof -
  let ?u = "dch_trimTrailing (dch_initWithStr (Some (url @ [NUL]))) (CHR ''/'')"
  let ?es = "fo_entries fo" and ?es' = "fo_entries fo'"
  have like: "entry_like (?es ! i) (?es' ! i)" if "i < length ?es" for i
    using assms(1) that by (simp add: list_all2_conv_all_nth)
  have len: "length ?es' = length ?es" using assms(1) by (simp add: list_all2_lengthD)
  have "hasHiddenFiles fo = hasHiddenFiles fo'"
    using like unfolding hasHiddenFiles_def folder_getEntries_def list_ex_length len
    by (auto simp: entry_like_def)
  moreover have "calls_like (entry_row fnm c (with_slash url) m ?u ?es i) (entry_row fnm c (with_slash url) m ?u ?es' i)"
    if "i < length ?es" for i
    using entry_calls_like [OF path_ok_url assms(1) that] like [OF that] assms(3) [OF that]
    by (simp add: entry_row_def size_str_def entry_like_def Let_def)
  then have "calls_like (concat (map (entry_row fnm c (with_slash url) m ?u ?es) [0..<length ?es]))
      (concat (map (entry_row fnm c (with_slash url) m ?u ?es') [0..<length ?es]))"
    by (intro calls_like_concat) auto
  ultimately show ?thesis
    using page_top_like [OF path_ok_url _ assms(2), of fo fo'] unfolding page_calls_def Let_def len
    by (intro list_all2_appendI) auto
qed

text \<open>C12: names cannot change the structure of a listing page.  For two folders whose entries agree in their kind, mode,
  size, whether they are hidden and whether they are CGIs, shown under the same path with
  any error messages, the pages exist, have the same header, and the markup characters (angle brackets, quotes and
  apostrophes) of their bodies form the same sequence: whatever bytes the names and the message hold,
  no tag or attribute is opened or closed by them.\<close>

theorem page_markup_fixed:
  assumes "list_all2 entry_like (fo_entries fo) (fo_entries fo')" and "(err = None) = (err' = None)"
    and "\<And>i. i < length (fo_entries fo) \<Longrightarrow> \<not> fe_isDir (fo_entries fo ! i) \<Longrightarrow>
       is_cgi fnm c (with_slash url @ fe_fileName (fo_entries fo ! i)) =
       is_cgi fnm c (with_slash url @ fe_fileName (fo_entries fo' ! i))"
  shows "\<exists>r r' b b'. printFolderContents host fnm c url fo m l err False = Ok r \<and>
    printFolderContents host fnm c url fo' m l err' False = Ok r' \<and>
    rb_header r = rb_header r' \<and> rb_body r = Some b \<and> rb_body r' = Some b' \<and> markup b = markup b'"
proof -
  let ?r = "resp_appendHeader (resp_new (resp_cmnStatus HTTP_200_OK) False) ''Content-Type'' ''text/html; charset=utf-8''"
  have "rb_body ?r = Some []" by (simp add: resp_appendHeader_def resp_new_def)
  then obtain o' o'' where
    "run_page host ?r (page_calls fnm c url fo m l err) = Ok (?r\<lparr>rb_body := Some ([] @ o')\<rparr>)"
    "run_page host ?r (page_calls fnm c url fo' m l err') = Ok (?r\<lparr>rb_body := Some ([] @ o'')\<rparr>)"
    "markup o' = markup o''"
    using run_page_like [OF page_calls_like [OF assms]] by blast
  then show ?thesis unfolding print_page by auto
qed

definition folder_with :: "bytes \<Rightarrow> Folder" where
  "folder_with name = \<lparr>fo_entries = [\<lparr>fe_fileName = name, fe_isDir = False, fe_mode = 420, fe_size = 5\<rparr>], fo_alloc = 7\<rparr>"

theorem page_markup_fixed_witness:
  "\<exists>r r' b b'. printFolderContents ''host'' (\<lambda>f p n. False) config_init ''/pub'' (folder_with ''a'') True False None False = Ok r \<and>
     printFolderContents ''host'' (\<lambda>f p n. False) config_init ''/pub''
       (folder_with ([QUOTE] @ ''><script>'')) True False None False = Ok r' \<and>
     rb_header r = rb_header r' \<and> rb_body r = Some b \<and> rb_body r' = Some b' \<and> markup b = markup b'"
proof -
  have "list_all2 entry_like (fo_entries (folder_with ''a'')) (fo_entries (folder_with ([QUOTE] @ ''><script>'')))"
    by (simp add: folder_with_def entry_like_def)
  moreover have "\<not> is_cgi (\<lambda>f p n. False) config_init u" for u
    by (simp add: is_cgi_def config_isCGI_def config_init_def)
  ultimately show ?thesis by (intro page_markup_fixed) simp_all
qed

text \<open>The link of an entry.\<close>

definition entry_link :: "bytes \<Rightarrow> FolderEntry \<Rightarrow> bytes" where
  "entry_link path e = ''<td><a href='' @ [QUOTE] @ html_escape path @ ''/'' @ html_escape (cstr (fe_fileName e)) @
     (if fe_isDir e then ''/'' else []) @ [QUOTE] @ ''>'' @ html_escape (cstr (fe_fileName e)) @ ''</a></td>'' @ [LF]"

lemma link_call:
  assumes "rb_body r = Some b"
  shows "page_call host r (PFmt (''<td><a href='' @ [QUOTE] @ ''%C/%S%R'' @ [QUOTE] @ ''>%S</a></td>'' @ [LF])
     [AChunk u, AStr (fe_fileName e), AStr (if fe_isDir e then ''/'' else []), AStr (fe_fileName e)]) =
   Ok (r\<lparr>rb_body := Some (b @ entry_link (dch_bytes u) e)\<rparr>)"
proof -
  let ?its = "[Lit (''<td><a href='' @ [QUOTE]), ItemC u, Lit ''/'', ItemS (fe_fileName e),
      ItemR (if fe_isDir e then ''/'' else []), Lit ([QUOTE] @ ''>''), ItemS (fe_fileName e), Lit (''</a></td>'' @ [LF])]"
  have "\<forall>it \<in> set ?its. item_ok it" by simp
  from fmt_loop_items [OF assms _ this, of "[]" host] show ?thesis
    by (simp add: resp_appendFmt_def entry_link_def)
qed

lemma run_page_self:
  assumes "calls_like cs cs" "rb_body r = Some b"
  shows "\<exists>o'. run_page host r cs = Ok (r\<lparr>rb_body := Some (b @ o')\<rparr>)"
  using run_page_like [OF assms(1,2,2), of host] by blast

lemma entry_row_link:
  assumes "path_ok u" "i < length es" "rb_body r = Some b"
  shows "\<exists>x y. run_page host r (entry_row fnm c d m u es i) =
    Ok (r\<lparr>rb_body := Some (b @ x @ entry_link (dch_bytes u) (es ! i) @ y)\<rparr>)"
proof -
  let ?call = "PFmt (''<td><a href='' @ [QUOTE] @ ''%C/%S%R'' @ [QUOTE] @ ''>%S</a></td>'' @ [LF])
     [AChunk u, AStr (fe_fileName (es ! i)), AStr (if fe_isDir (es ! i) then ''/'' else []), AStr (fe_fileName (es ! i))]"
  obtain g s where row: "entry_row fnm c d m u es i = entry_calls m u es i g s"
    by (simp add: entry_row_def Let_def)
  obtain c1 c2 cs where cs: "entry_calls m u es i g s = [c1, c2] @ [?call] @ cs"
    by (simp add: entry_calls_def Let_def)
  have "calls_like (entry_calls m u es i g s) (entry_calls m u es i g s)"
    by (rule entry_calls_like [OF assms(1) entries_like_refl assms(2)])
  then have like: "calls_like [c1, c2] [c1, c2]" "calls_like cs cs" by (simp_all add: cs)
  obtain x where x: "run_page host r [c1, c2] = Ok (r\<lparr>rb_body := Some (b @ x)\<rparr>)"
    using run_page_self [OF like(1) assms(3)] by blast
  have l: "run_page host (r\<lparr>rb_body := Some (b @ x)\<rparr>) [?call] =
      Ok (r\<lparr>rb_body := Some (b @ x @ entry_link (dch_bytes u) (es ! i))\<rparr>)"
    using link_call [of "r\<lparr>rb_body := Some (b @ x)\<rparr>" "b @ x"] by simp
  obtain y where "run_page host (r\<lparr>rb_body := Some (b @ x @ entry_link (dch_bytes u) (es ! i))\<rparr>) cs =
      Ok (r\<lparr>rb_body := Some (b @ x @ entry_link (dch_bytes u) (es ! i) @ y)\<rparr>)"
    using run_page_self [OF like(2), of "r\<lparr>rb_body := Some (b @ x @ entry_link (dch_bytes u) (es ! i))\<rparr>" _ host]
    by auto
  with x l show ?thesis unfolding row cs run_page_append by auto
qed

lemma rows_links:
  assumes "path_ok u" "\<forall>i \<in> set is. i < length es" "rb_body r = Some b"
  shows "\<exists>rows. run_page host r (concat (map (entry_row fnm c d m u es) is)) =
      Ok (r\<lparr>rb_body := Some (b @ concat rows)\<rparr>) \<and>
    list_all2 (\<lambda>i row. \<exists>x y. row = x @ entry_link (dch_bytes u) (es ! i) @ y) is rows"
  using assms(2,3)
proof (induction "is" arbitrary: r b)
  case Nil
  then show ?case by (cases r) simp
next
  case (Cons i js)
  obtain x y where i: "run_page host r (entry_row fnm c d m u es i) =
      Ok (r\<lparr>rb_body := Some (b @ x @ entry_link (dch_bytes u) (es ! i) @ y)\<rparr>)"
    using entry_row_link [OF assms(1) _ Cons.prems(2)] Cons.prems(1) by fastforce
  obtain rows where "run_page host (r\<lparr>rb_body := Some (b @ x @ entry_link (dch_bytes u) (es ! i) @ y)\<rparr>)
        (concat (map (entry_row fnm c d m u es) js)) =
      Ok (r\<lparr>rb_body := Some ((b @ x @ entry_link (dch_bytes u) (es ! i) @ y) @ concat rows)\<rparr>)"
      "list_all2 (\<lambda>i row. \<exists>x y. row = x @ entry_link (dch_bytes u) (es ! i) @ y) js rows"
    using Cons.IH [of "r\<lparr>rb_body := Some (b @ x @ entry_link (dch_bytes u) (es ! i) @ y)\<rparr>"] Cons.prems(1) by auto
  then show ?case using i
    by (intro exI [of _ "(x @ entry_link (dch_bytes u) (es ! i) @ y) # rows"]) (auto simp: run_page_append)
qed

text \<open>C39: the listing page exists for every folder and path, and lists the entries completely and in order: between a
  beginning and an end, its body has one row for each entry, which holds the link to it; the target of the
  link is the path without slashes at its end, a slash and the name, with a slash behind a directory's, and
  both the target and the text read back as these bytes.\<close>

theorem page_lists_entries:
  "\<exists>r top rows bottom. printFolderContents host fnm c url fo m l err False = Ok r \<and>
     rb_body r = Some (top @ concat rows @ bottom) \<and>
     list_all2 (\<lambda>e row. \<exists>x y. row = x @ entry_link (rtrim (\<lambda>c. c = CHR ''/'') (cstr url)) e @ y) (fo_entries fo) rows \<and>
     (\<forall>s. html_unescape (html_escape s) = s)"
proof -
  let ?u = "dch_trimTrailing (dch_initWithStr (Some (url @ [NUL]))) (CHR ''/'')" and ?es = "fo_entries fo"
  let ?r = "resp_appendHeader (resp_new (resp_cmnStatus HTTP_200_OK) False) ''Content-Type'' ''text/html; charset=utf-8''"
  have r: "rb_body ?r = Some []" by (simp add: resp_appendHeader_def resp_new_def)
  have u: "dch_bytes ?u = rtrim (\<lambda>c. c = CHR ''/'') (cstr url)"
    by (simp add: dch_trimTrailing_def chunk_simps wf_intros cstr_until_NUL)
  have "calls_like (page_top ?u fo m l err) (page_top ?u fo m l err)"
    by (rule page_top_like [OF path_ok_url refl refl])
  from run_page_self [OF this r, of host] obtain top where
    top: "run_page host ?r (page_top ?u fo m l err) = Ok (?r\<lparr>rb_body := Some top\<rparr>)" by auto
  obtain rows where rows: "run_page host (?r\<lparr>rb_body := Some top\<rparr>)
        (concat (map (entry_row fnm c (with_slash url) m ?u ?es) [0..<length ?es])) =
      Ok (?r\<lparr>rb_body := Some (top @ concat rows)\<rparr>)"
      "list_all2 (\<lambda>i row. \<exists>x y. row = x @ entry_link (dch_bytes ?u) (?es ! i) @ y) [0..<length ?es] rows"
    using rows_links [OF path_ok_url, of "[0..<length ?es]" ?es "?r\<lparr>rb_body := Some top\<rparr>" top host fnm c
        "with_slash url" m url] by auto
  have "calls_like [PFmt (''</tbody></table>%R</body></html>'' @ [LF]) [AStr (if m then response_footer else [])]]
      [PFmt (''</tbody></table>%R</body></html>'' @ [LF]) [AStr (if m then response_footer else [])]]" by simp
  from run_page_self [OF this, of "?r\<lparr>rb_body := Some (top @ concat rows)\<rparr>" "top @ concat rows" host]
  obtain bottom where "run_page host (?r\<lparr>rb_body := Some (top @ concat rows)\<rparr>)
      [PFmt (''</tbody></table>%R</body></html>'' @ [LF]) [AStr (if m then response_footer else [])]] =
      Ok (?r\<lparr>rb_body := Some (top @ concat rows @ bottom)\<rparr>)" by auto
  with top rows(1) have p: "printFolderContents host fnm c url fo m l err False =
      Ok (?r\<lparr>rb_body := Some (top @ concat rows @ bottom)\<rparr>)"
    by (simp only: print_page page_calls_def Let_def run_page_append cbind_simps)
  have "list_all2 (\<lambda>e row. \<exists>x y. row = x @ entry_link (dch_bytes ?u) e @ y) ?es rows"
    using rows(2) by (simp add: list_all2_conv_all_nth)
  with p unescape_escape show ?thesis unfolding u by auto
qed

end
