(* ===== verification/Responsesender.thy ===== *)
theory Responsesender
  imports Respbuf
begin

text \<open>
  \<open>src/dataprocessingresult.c\<close> and \<open>src/responsesender.c\<close>: sending a response to a
  non-blocking socket, with a \<open>Content-Length\<close> or in the chunked transfer encoding.  The wire
  holds what the environment does: the bytes the socket took so far, its answers to the coming
  \<open>write\<close> calls, the answers to the coming \<open>read\<close> calls on the file, and the bytes left in the
  file.  When the answers are used up the calls would block.  The buffer of the body is the bytes it
  holds; access behind its end is a call of \<open>abort()\<close>, as in \<open>membuf.c\<close>.
\<close>

subsection \<open>The result of processing data\<close>

datatype DprState = DPR_READY | DPR_AWAIT_READ | DPR_AWAIT_WRITE

record DataProcessingResult =
  dpr_closeConn :: bool
  dpr_reqState :: DprState
  dpr_reqAwaitFd :: int
  dpr_respState :: DprState
  dpr_respAwaitFd :: int

definition dpr_init :: DataProcessingResult where
  "dpr_init = \<lparr>dpr_closeConn = False, dpr_reqState = DPR_READY, dpr_reqAwaitFd = - 1,
     dpr_respState = DPR_READY, dpr_respAwaitFd = - 1\<rparr>"

definition dpr_setReqState :: "DataProcessingResult \<Rightarrow> DprState \<Rightarrow> int \<Rightarrow> DataProcessingResult" where
  "dpr_setReqState dpr state awaitFd = dpr\<lparr>dpr_reqState := state, dpr_reqAwaitFd := awaitFd\<rparr>"

definition dpr_setRespState :: "DataProcessingResult \<Rightarrow> DprState \<Rightarrow> int \<Rightarrow> DataProcessingResult" where
  "dpr_setRespState dpr state awaitFd = dpr\<lparr>dpr_respState := state, dpr_respAwaitFd := awaitFd\<rparr>"

definition dpr_setCloseConn :: "DataProcessingResult \<Rightarrow> DataProcessingResult" where
  "dpr_setCloseConn dpr = dpr\<lparr>dpr_closeConn := True\<rparr>"

subsection \<open>The environment\<close>

record Wire =
  w_sent :: bytes
  w_writes :: "WriteAns list"
  w_reads :: "ReadAns list"
  w_file :: bytes

text \<open>\<open>write\<close> to the socket and \<open>read\<close> from the file: the count or the bytes, or \<open>errno\<close>.\<close>

definition sock_write :: "bytes \<Rightarrow> Wire \<Rightarrow> (nat + nat) \<times> Wire" where
  "sock_write data w =
     (case w_writes w of
        [] \<Rightarrow> (Inr EWOULDBLOCK, w)
      | WErr e # as \<Rightarrow> (Inr e, w\<lparr>w_writes := as\<rparr>)
      | Wrote n # as \<Rightarrow>
          (Inl (min n (length data)), w\<lparr>w_writes := as, w_sent := w_sent w @ take n data\<rparr>))"

definition file_read :: "nat \<Rightarrow> Wire \<Rightarrow> (bytes + nat) \<times> Wire" where
  "file_read n w =
     (case w_reads w of
        [] \<Rightarrow> (Inr EWOULDBLOCK, w)
      | RErr e # as \<Rightarrow> (Inr e, w\<lparr>w_reads := as\<rparr>)
      | Got k # as \<Rightarrow>
          (let m = min n (max 1 k)
           in (Inl (take m (w_file w)), w\<lparr>w_reads := as, w_file := drop m (w_file w)\<rparr>)))"

subsection \<open>The response sender\<close>

record ResponseSender =
  rs_header :: "bytes option"
  rs_body :: "bytes option"
  rs_fileDesc :: int
  rs_dataSize :: nat
  rs_dataOffset :: nat
  rs_nbytes :: int

text \<open>\<open>fstat\<close> answers whether the file is a regular one, and its size, or fails.\<close>

definition rsndr_new :: "(bool \<times> nat) option \<Rightarrow> bytes \<Rightarrow> bytes option \<Rightarrow> int \<Rightarrow> ResponseSender" where
  "rsndr_new st header body fileDesc =
     (let nbytes = (if body \<noteq> None \<and> fileDesc \<noteq> - 1 then
                      (case st of None \<Rightarrow> 0 | Some (reg, sz) \<Rightarrow> if reg then int sz else - 1) else 0);
          fd = (if fileDesc \<noteq> - 1 \<and> nbytes = 0 then - 1 else fileDesc)
      in case body of
           None \<Rightarrow> \<lparr>rs_header = Some (header @ CRLF), rs_body = None, rs_fileDesc = fd,
                    rs_dataSize = 0, rs_dataOffset = 0, rs_nbytes = nbytes\<rparr>
         | Some b \<Rightarrow>
             (let h1 = header @ (if 0 \<le> nbytes
                  then ''Content-Length: '' @ to_base 10 (length b + nat nbytes) @ CRLF
                  else ''Transfer-Encoding: chunked'' @ CRLF) @ CRLF;
                  (h2, b2) = (if nbytes = - 1 \<and> b \<noteq> [] then (h1 @ to_base 16 (length b) @ CRLF, b @ CRLF)
                              else (h1, b))
              in \<lparr>rs_header = Some h2, rs_body = Some b2, rs_fileDesc = fd,
                  rs_dataSize = length b2, rs_dataOffset = 0, rs_nbytes = nbytes\<rparr>))"

text \<open>Buffer access: making it long enough (the new bytes are arbitrary), and storing bytes in it.\<close>

definition buf_grow :: "char \<Rightarrow> nat \<Rightarrow> bytes \<Rightarrow> bytes" where
  "buf_grow u n b = (if length b < n then b @ replicate (n - length b) u else b)"

definition buf_set :: "bytes \<Rightarrow> nat \<Rightarrow> nat \<Rightarrow> bytes \<Rightarrow> bytes cres" where
  "buf_set b i n d = (if length b < i + n \<or> n < length d then Abort
     else Ok (take i b @ d @ drop (i + length d) b))"

text \<open>The loop over \<open>mb_readFile\<close>: the buffer, the bytes in it, and the last answer.\<close>

function read_fill :: "nat \<Rightarrow> nat \<Rightarrow> bytes \<Rightarrow> Wire \<Rightarrow> (bytes \<times> nat \<times> (nat + nat) \<times> Wire) cres" where
  "read_fill toFill filled buf w =
     (if toFill \<le> filled then Ok (buf, filled, Inl 1, w)
      else case file_read (toFill - filled) w of
          (Inr e, w') \<Rightarrow> Ok (buf, filled, Inr e, w')
        | (Inl d, w') \<Rightarrow>
            (if d = [] then Ok (buf, filled, Inl 0, w')
             else cbind (buf_set buf filled (toFill - filled) d) (\<lambda>buf'.
               read_fill toFill (filled + length d) buf' w')))"
  by pat_completeness auto
termination
  by (relation "measure (\<lambda>(toFill, filled, buf, w). toFill - filled)") (auto intro!: diff_less_mono2)

declare read_fill.simps [simp del]

definition fill_known ::
    "char \<Rightarrow> ResponseSender \<Rightarrow> bytes \<Rightarrow> Wire \<Rightarrow> DataProcessingResult \<Rightarrow>
     (ResponseSender \<times> Wire \<times> DataProcessingResult) cres" where
  "fill_known u rs body w dpr =
     (let toFill = (if rs_nbytes rs < 65536 then nat (rs_nbytes rs) else 65536);
          b0 = buf_grow u toFill body; fd = rs_fileDesc rs
      in cbind (if 0 \<le> fd then read_fill toFill 0 b0 w else Ok (b0, 0, Inl 1, w)) (\<lambda>(b1, filled, rd, w1).
         let blocked = (rd = Inr EWOULDBLOCK);
             dpr1 = (if 0 \<le> fd \<and> filled < toFill \<and> blocked \<and> filled = 0
                     then dpr_setRespState dpr DPR_AWAIT_READ fd else dpr);
             fd1 = (if 0 \<le> fd \<and> filled < toFill \<and> \<not> blocked then - 1 else fd)
         in cbind (if filled < toFill \<and> fd1 < 0
                   then cbind (buf_set b1 filled (toFill - filled) (replicate (toFill - filled) NUL))
                          (\<lambda>b2. Ok (b2, toFill))
                   else Ok (b1, filled)) (\<lambda>(b2, filled2).
            Ok (rs\<lparr>rs_body := Some b2, rs_fileDesc := fd1, rs_nbytes := rs_nbytes rs - int filled2,
                   rs_dataSize := filled2, rs_dataOffset := 0\<rparr>, w1, dpr1))))"

definition fill_chunked ::
    "char \<Rightarrow> ResponseSender \<Rightarrow> bytes \<Rightarrow> Wire \<Rightarrow> DataProcessingResult \<Rightarrow>
     (ResponseSender \<times> Wire \<times> DataProcessingResult) cres" where
  "fill_chunked u rs body w dpr =
     (let toFill = 65546; b0 = buf_grow u (toFill + 7) body
      in cbind (read_fill toFill 10 b0 w) (\<lambda>(b1, filled, rd, w1).
         let fd = (if filled < toFill \<and> rd \<noteq> Inr EWOULDBLOCK then - 1 else rs_fileDesc rs)
         in cbind (if 10 < filled then
                     (let hdr = to_base 16 (filled - 10) @ CRLF in
                      cbind (buf_set b1 (10 - length hdr) (length hdr) hdr) (\<lambda>b2.
                      cbind (buf_set b2 filled 2 CRLF) (\<lambda>b3. Ok (b3, 10 - length hdr, filled + 2))))
                   else Ok (b1, 0, 0)) (\<lambda>(b3, off, filled2).
            cbind (if fd = - 1 then
                     cbind (buf_set b3 filled2 5 (''0'' @ CRLF @ CRLF)) (\<lambda>b4. Ok (b4, filled2 + 5, 0))
                   else Ok (b3, filled2, rs_nbytes rs)) (\<lambda>(b4, filled3, nbytes).
            Ok (rs\<lparr>rs_body := Some b4, rs_fileDesc := fd, rs_nbytes := nbytes, rs_dataSize := filled3,
                   rs_dataOffset := off\<rparr>, w1,
                if filled3 = 0 then dpr_setRespState dpr DPR_AWAIT_READ fd else dpr)))))"

definition fillBuffer ::
    "char \<Rightarrow> ResponseSender \<Rightarrow> bytes \<Rightarrow> Wire \<Rightarrow> DataProcessingResult \<Rightarrow>
     (ResponseSender \<times> Wire \<times> DataProcessingResult) cres" where
  "fillBuffer u rs body w dpr =
     (if 0 \<le> rs_nbytes rs then fill_known u rs body w dpr else fill_chunked u rs body w dpr)"

text \<open>The loop over \<open>write\<close>: the new offset, and \<open>errno\<close> when the last call failed.\<close>

lemma sock_write_uses: "sock_write d w = (Inl n, w') \<Longrightarrow> length (w_writes w') < length (w_writes w)"
  by (auto simp: sock_write_def split: list.splits WriteAns.splits)

function write_loop :: "bytes \<Rightarrow> nat \<Rightarrow> Wire \<Rightarrow> nat \<times> nat option \<times> Wire" where
  "write_loop data off w =
     (if length data \<le> off then (off, None, w)
      else case sock_write (drop off data) w of
          (Inr e, w') \<Rightarrow> (off, Some e, w')
        | (Inl n, w') \<Rightarrow> write_loop data (off + n) w')"
  by pat_completeness auto
termination
  by (relation "measure (\<lambda>(data, off, w). length (w_writes w))") (auto dest: sock_write_uses [OF sym])

declare write_loop.simps [simp del]

text \<open>An error of \<open>write\<close>: wait for the socket, or close the connection.\<close>

definition write_error ::
    "nat \<Rightarrow> int \<Rightarrow> DataProcessingResult \<Rightarrow> bool \<times> DataProcessingResult" where
  "write_error e socketFd dpr =
     (if e = EWOULDBLOCK then (False, dpr_setRespState dpr DPR_AWAIT_WRITE socketFd)
      else (True, dpr_setCloseConn dpr))"

lemma cbind_OkE:
  assumes "cbind r f = Ok y"
  obtains x where "r = Ok x" "f x = Ok y"
  using assms by (cases r) auto

lemma file_read_frame:
  "file_read n w = (r, w') \<Longrightarrow> w_sent w' = w_sent w \<and> w_writes w' = w_writes w"
  by (auto simp: file_read_def Let_def split: list.splits ReadAns.splits)

lemma read_fill_frame:
  "read_fill toFill filled buf w = Ok (b, n, rd, w') \<Longrightarrow> w_sent w' = w_sent w \<and> w_writes w' = w_writes w"
proof (induction toFill filled buf w arbitrary: b n rd w' rule: read_fill.induct)
  case (1 toFill filled buf w)
  show ?case
  proof (cases "toFill \<le> filled")
    case True
    then show ?thesis using 1(2) by (simp add: read_fill.simps)
  next
    case False
    obtain r w1 where r: "file_read (toFill - filled) w = (r, w1)" by fastforce
    show ?thesis
    proof (cases r)
      case (Inr e)
      then show ?thesis using 1(2) False r file_read_frame [OF r] by (subst (asm) read_fill.simps) simp
    next
      case (Inl d)
      then show ?thesis
        using 1(2) False r file_read_frame [OF r] 1(1) [OF False r [symmetric] Inl]
        by (subst (asm) read_fill.simps) (auto split: if_splits elim!: cbind_OkE)
    qed
  qed
qed

lemma write_loop_uses:
  "write_loop data off w = (off', e, w') \<Longrightarrow> length (w_writes w') \<le> length (w_writes w) \<and>
     (e = None \<longrightarrow> off < length data \<longrightarrow> length (w_writes w') < length (w_writes w))"
proof (induction data off w rule: write_loop.induct)
  case (1 data off w)
  obtain r w1 where r: "sock_write (drop off data) w = (r, w1)" by fastforce
  show ?case
  proof (cases "length data \<le> off")
    case True
    then show ?thesis using 1(2) by (simp add: write_loop.simps)
  next
    case False
    show ?thesis
    proof (cases r)
      case (Inl n)
      then show ?thesis
        using 1(2) False r 1(1) [OF False r [symmetric] Inl] sock_write_uses [of "drop off data" w n w1]
        by (subst (asm) write_loop.simps) auto
    next
      case (Inr e)
      then have "length (w_writes w1) \<le> length (w_writes w)"
        using r by (auto simp: sock_write_def split: list.splits WriteAns.splits)
      then show ?thesis using 1(2) False r Inr by (subst (asm) write_loop.simps) auto
    qed
  qed
qed

lemma fillBuffer_frame:
  assumes "fillBuffer u rs body w dpr = Ok (rs2, w2, dpr2)"
  shows "w_writes w2 = w_writes w \<and> w_sent w2 = w_sent w \<and>
    (rs_dataSize rs2 \<noteq> 0 \<longrightarrow> rs_dataOffset rs2 < rs_dataSize rs2)"
  using assms unfolding fillBuffer_def fill_known_def fill_chunked_def Let_def
  by (auto split: if_splits elim!: cbind_OkE dest!: read_fill_frame)

text \<open>
  The loop that sends the body. An iteration begins with unsent bytes or refills the buffer, and
  a refill leaves unsent bytes or ends the loop, so the loop ends when the answers of
  \<open>write\<close> do; the state it would otherwise loop in forever is undefined here, and shown not to be reached.
\<close>

function body_loop ::
    "char \<Rightarrow> ResponseSender \<Rightarrow> bytes \<Rightarrow> int \<Rightarrow> Wire \<Rightarrow> DataProcessingResult \<Rightarrow>
     (bool \<times> ResponseSender \<times> Wire \<times> DataProcessingResult) cres" where
  "body_loop u rs body socketFd w dpr =
     (if length body < rs_dataSize rs then Undef
      else case write_loop (take (rs_dataSize rs) body) (rs_dataOffset rs) w of
          (off, Some e, w1) \<Rightarrow>
            (let (res, dpr1) = write_error e socketFd dpr in Ok (res, rs\<lparr>rs_dataOffset := off\<rparr>, w1, dpr1))
        | (off, None, w1) \<Rightarrow>
            (let rs1 = rs\<lparr>rs_dataOffset := off\<rparr> in
             if rs_nbytes rs = 0 then Ok (True, rs1, w1, dpr)
             else (case fillBuffer u rs1 body w1 dpr of
                 Abort \<Rightarrow> Abort
               | Undef \<Rightarrow> Undef
               | Ok (rs2, w2, dpr2) \<Rightarrow>
                   (if rs_dataSize rs2 = 0 then Ok (False, rs2, w2, dpr2)
                    else body_loop u rs2 (the (rs_body rs2)) socketFd w2 dpr2))))"
  by pat_completeness auto
termination
proof (relation "measure (\<lambda>(u, rs, body, fd, w, dpr).
    2 * length (w_writes w) + (if rs_dataOffset rs < rs_dataSize rs then 0 else 1))", goal_cases)
  case 1
  show ?case by simp
next
  case 2
  then show ?case
    by (auto dest!: fillBuffer_frame write_loop_uses [OF sym])
qed

declare body_loop.simps [simp del]

definition send_body ::
    "char \<Rightarrow> ResponseSender \<Rightarrow> int \<Rightarrow> Wire \<Rightarrow> DataProcessingResult \<Rightarrow>
     (bool \<times> ResponseSender \<times> Wire \<times> DataProcessingResult) cres" where
  "send_body u rs socketFd w dpr =
     (case rs_body rs of None \<Rightarrow> Ok (True, rs, w, dpr) | Some b \<Rightarrow> body_loop u rs b socketFd w dpr)"

definition rsndr_send ::
    "char \<Rightarrow> ResponseSender \<Rightarrow> int \<Rightarrow> Wire \<Rightarrow> DataProcessingResult \<Rightarrow>
     (bool \<times> ResponseSender \<times> Wire \<times> DataProcessingResult) cres" where
  "rsndr_send u rs socketFd w dpr =
     (case rs_header rs of
        None \<Rightarrow> send_body u rs socketFd w dpr
      | Some h \<Rightarrow>
          (case write_loop h (rs_dataOffset rs) w of
             (off, Some e, w1) \<Rightarrow>
               (let (res, dpr1) = write_error e socketFd dpr in Ok (res, rs\<lparr>rs_dataOffset := off\<rparr>, w1, dpr1))
           | (off, None, w1) \<Rightarrow>
               send_body u (rs\<lparr>rs_header := None, rs_dataOffset := 0\<rparr>) socketFd w1 dpr))"

text \<open>\<open>rsndr_free\<close>: the descriptor it closes.\<close>

definition rsndr_free :: "ResponseSender option \<Rightarrow> int option" where
  "rsndr_free rs = (case rs of None \<Rightarrow> None
     | Some r \<Rightarrow> if rs_fileDesc r \<noteq> - 1 then Some (rs_fileDesc r) else None)"

subsection \<open>Filling the buffer\<close>

text \<open>The file fails with no other error than \<open>EWOULDBLOCK\<close>.\<close>

definition reads_ok :: "Wire \<Rightarrow> bool" where
  "reads_ok w = (\<forall>a \<in> set (w_reads w). \<forall>e. a = RErr e \<longrightarrow> e = EWOULDBLOCK)"

lemma file_read_cases:
  assumes "file_read n w = (r, w')" "reads_ok w" "0 < n"
  shows "reads_ok w' \<and>
    (case r of Inr e \<Rightarrow> e = EWOULDBLOCK \<and> w_file w' = w_file w
     | Inl d \<Rightarrow> length d \<le> n \<and> d @ w_file w' = w_file w \<and> (d = [] \<longrightarrow> w_file w' = []))"
  using assms by (auto simp: file_read_def reads_ok_def Let_def split: list.splits ReadAns.splits)

lemma buf_set_Ok:
  "length d = n \<Longrightarrow> i + n \<le> length b \<Longrightarrow> buf_set b i n d = Ok (take i b @ d @ drop (i + n) b)"
  by (simp add: buf_set_def)

lemma read_fill_spec:
  "filled \<le> toFill \<Longrightarrow> toFill \<le> length buf \<Longrightarrow> reads_ok w \<Longrightarrow>
   \<exists>b n rd w' d. read_fill toFill filled buf w = Ok (b, n, rd, w') \<and> filled \<le> n \<and> n \<le> toFill \<and>
     length b = length buf \<and> take n b = take filled buf @ d \<and> d @ w_file w' = w_file w \<and> reads_ok w' \<and>
     (n < toFill \<longrightarrow> rd = Inl 0 \<and> w_file w' = [] \<or> rd = Inr EWOULDBLOCK)"
proof (induction toFill filled buf w rule: read_fill.induct)
  case (1 toFill filled buf w)
  show ?case
  proof (cases "toFill \<le> filled")
    case True
    then show ?thesis using 1(2-4)
      by (intro exI [of _ buf] exI [of _ filled] exI [of _ "Inl 1"] exI [of _ w] exI [of _ "[]"])
        (simp add: read_fill.simps)
  next
    case False
    obtain r w1 where r: "file_read (toFill - filled) w = (r, w1)" by fastforce
    note c = file_read_cases [OF r 1(4)]
    show ?thesis
    proof (cases r)
      case (Inr e)
      then show ?thesis using 1(2-4) False r c
        by (intro exI [of _ buf] exI [of _ filled] exI [of _ "Inr e"] exI [of _ w1] exI [of _ "[]"])
          (simp add: read_fill.simps [of toFill filled])
    next
      case (Inl d)
      show ?thesis
      proof (cases "d = []")
        case True
        then have e: "reads_ok w1" "w_file w1 = []" "w_file w = []" using c Inl False by auto
        have "read_fill toFill filled buf w = Ok (buf, filled, Inl 0, w1)"
          using False r Inl True by (simp add: read_fill.simps [of toFill filled])
        then show ?thesis using 1(2,3) False e
          by (intro exI [of _ buf] exI [of _ filled] exI [of _ "Inl 0"] exI [of _ w1] exI [of _ "[]"]) simp
      next
        case ne: False
        define buf' where "buf' = take filled buf @ d @ drop (filled + length d) buf"
        have d: "length d \<le> toFill - filled" "d @ w_file w1 = w_file w" "reads_ok w1"
          using c Inl False by auto
        have b: "buf_set buf filled (toFill - filled) d = Ok buf'"
          using 1(2,3) d(1) by (simp add: buf_set_def buf'_def)
        have l: "length buf' = length buf" "take (filled + length d) buf' = take filled buf @ d"
          using 1(2,3) d(1) False by (simp_all add: buf'_def)
        have "filled + length d \<le> toFill" "toFill \<le> length buf'" using d(1) False 1(3) l by auto
        from 1(1) [OF False r [symmetric] Inl ne this d(3)] obtain b n rd w' e where
          "read_fill toFill (filled + length d) buf' w1 = Ok (b, n, rd, w')" "filled + length d \<le> n" "n \<le> toFill"
          "length b = length buf'" "take n b = take filled buf @ d @ e" "e @ w_file w' = w_file w1" "reads_ok w'"
          "n < toFill \<longrightarrow> rd = Inl 0 \<and> w_file w' = [] \<or> rd = Inr EWOULDBLOCK"
          using l(2) by auto
        then show ?thesis using False r Inl ne b d(2) l(1)
          by (intro exI [of _ b] exI [of _ n] exI [of _ rd] exI [of _ w'] exI [of _ "d @ e"])
            (simp add: read_fill.simps [of toFill filled])
      qed
    qed
  qed
qed

text \<open>A file cut to a length, filled up with zero bytes.\<close>

definition fit :: "nat \<Rightarrow> bytes \<Rightarrow> bytes" where
  "fit n f = take n (f @ replicate n NUL)"

lemma fit_Nil [simp]: "fit n [] = replicate n NUL" "fit 0 f = []" "length (fit n f) = n"
  by (simp_all add: fit_def)

lemma fit_append: "length d \<le> n \<Longrightarrow> fit n (d @ f) = d @ fit (n - length d) f"
  by (simp add: fit_def take_append min_def)

definition file_left :: "ResponseSender \<Rightarrow> Wire \<Rightarrow> bytes" where
  "file_left rs w = (if 0 \<le> rs_fileDesc rs then w_file w else [])"

text \<open>
  After a refill the buffer holds the bytes \<open>d\<close> to send; it holds none only when the
  file would block, which is then what is waited for.
\<close>

definition refilled ::
    "ResponseSender \<Rightarrow> DataProcessingResult \<Rightarrow> bytes \<Rightarrow> ResponseSender \<Rightarrow> Wire \<Rightarrow> DataProcessingResult \<Rightarrow> bool" where
  "refilled rs dpr d rs2 w2 dpr2 =
     ((\<exists>b. rs_body rs2 = Some b \<and> rs_dataSize rs2 \<le> length b \<and>
        d = drop (rs_dataOffset rs2) (take (rs_dataSize rs2) b)) \<and>
      rs_header rs2 = rs_header rs \<and> reads_ok w2 \<and> rs_dataOffset rs2 \<le> rs_dataSize rs2 \<and>
      (if rs_dataSize rs2 = 0
       then 0 \<le> rs_fileDesc rs2 \<and> dpr2 = dpr_setRespState dpr DPR_AWAIT_READ (rs_fileDesc rs2)
       else dpr2 = dpr))"

lemma fill_known_spec:
  assumes "0 < rs_nbytes rs" "reads_ok w"
  shows "\<exists>d rs2 w2 dpr2. fillBuffer u rs body w dpr = Ok (rs2, w2, dpr2) \<and> refilled rs dpr d rs2 w2 dpr2 \<and>
    0 \<le> rs_nbytes rs2 \<and> fit (nat (rs_nbytes rs)) (file_left rs w) = d @ fit (nat (rs_nbytes rs2)) (file_left rs2 w2)"
proof -
  define n where "n = (if rs_nbytes rs < 65536 then nat (rs_nbytes rs) else 65536)"
  define b0 where "b0 = buf_grow u n body"
  have n: "0 < n" "int n \<le> rs_nbytes rs" "n \<le> length b0"
    using assms(1) by (auto simp: n_def b0_def buf_grow_def)
  note fb = fillBuffer_def fill_known_def n_def [symmetric] b0_def [symmetric] Let_def
  show ?thesis
  proof (cases "0 \<le> rs_fileDesc rs")
    case False
    then have "fillBuffer u rs body w dpr =
        Ok (rs\<lparr>rs_body := Some (replicate n NUL @ drop n b0), rs_fileDesc := rs_fileDesc rs, rs_nbytes := rs_nbytes rs - int n,
          rs_dataSize := n, rs_dataOffset := 0\<rparr>, w, dpr)"
      using assms(1) n by (simp add: fb buf_set_Ok)
    moreover have "replicate (nat (rs_nbytes rs)) NUL = replicate n NUL @ replicate (nat (rs_nbytes rs) - n) NUL"
      using n(2) by (simp flip: replicate_add)
    ultimately show ?thesis using n assms(2) False
      by (intro exI [of _ "replicate n NUL"]) (auto simp: refilled_def file_left_def nat_diff_distrib)
  next
    case fd: True
    obtain b m rd w1 d where r: "read_fill n 0 b0 w = Ok (b, m, rd, w1)" "m \<le> n" "length b = length b0"
        "take m b = d" "d @ w_file w1 = w_file w" "reads_ok w1"
        "m < n \<longrightarrow> rd = Inl 0 \<and> w_file w1 = [] \<or> rd = Inr EWOULDBLOCK"
      using read_fill_spec [OF _ n(3) assms(2), of 0] by auto
    have "length (take m b) = m" using r(2,3) n(3) by simp
    then have d: "length d = m" using r(4) by simp
    consider (eof) "m < n" "rd = Inl 0" "w_file w1 = []" | (blocked) "m < n" "rd = Inr EWOULDBLOCK" | (full) "m = n"
      using r(2,7) by linarith
    then show ?thesis
    proof cases
      case eof
      have "fillBuffer u rs body w dpr =
          Ok (rs\<lparr>rs_body := Some (take m b @ replicate (n - m) NUL @ drop n b), rs_fileDesc := - 1,
            rs_nbytes := rs_nbytes rs - int n, rs_dataSize := n, rs_dataOffset := 0\<rparr>, w1, dpr)"
        using assms(1) n fd r(1-3) eof by (simp add: fb buf_set_Ok)
      moreover have "fit (nat (rs_nbytes rs)) (w_file w) = d @ replicate (n - m) NUL @ replicate (nat (rs_nbytes rs) - n) NUL"
        using r(5) d eof n by (simp add: fit_def flip: replicate_add)
      ultimately show ?thesis using n r d eof fd
        by (intro exI [of _ "d @ replicate (n - m) NUL"])
          (auto simp: refilled_def file_left_def nat_diff_distrib)
    next
      case blocked
      have "fillBuffer u rs body w dpr =
          Ok (rs\<lparr>rs_body := Some b, rs_fileDesc := rs_fileDesc rs, rs_nbytes := rs_nbytes rs - int m, rs_dataSize := m, rs_dataOffset := 0\<rparr>, w1,
            if m = 0 then dpr_setRespState dpr DPR_AWAIT_READ (rs_fileDesc rs) else dpr)"
        using assms(1) n fd r(1-3) blocked by (simp add: fb)
      moreover have "fit (nat (rs_nbytes rs)) (w_file w) = d @ fit (nat (rs_nbytes rs) - m) (w_file w1)"
        using r(5) d blocked n fit_append [of d "nat (rs_nbytes rs)" "w_file w1"] by simp
      ultimately show ?thesis using n r d blocked fd
        by (intro exI [of _ d]) (auto simp: refilled_def file_left_def nat_diff_distrib)
    next
      case full
      have "fillBuffer u rs body w dpr =
          Ok (rs\<lparr>rs_body := Some b, rs_fileDesc := rs_fileDesc rs, rs_nbytes := rs_nbytes rs - int m, rs_dataSize := m, rs_dataOffset := 0\<rparr>, w1, dpr)"
        using assms(1) n fd r(1-3) full by (simp add: fb)
      moreover have "fit (nat (rs_nbytes rs)) (w_file w) = d @ fit (nat (rs_nbytes rs) - m) (w_file w1)"
        using r(5) d full n fit_append [of d "nat (rs_nbytes rs)" "w_file w1"] by simp
      ultimately show ?thesis using n r d full fd
        by (intro exI [of _ d]) (auto simp: refilled_def file_left_def nat_diff_distrib)
    qed
  qed
qed

text \<open>The chunked transfer encoding of one chunk, and of the end.\<close>

definition enc_chunk :: "bytes \<Rightarrow> bytes" where
  "enc_chunk c = to_base 16 (length c) @ CRLF @ c @ CRLF"

definition last_chunk :: bytes where
  "last_chunk = ''0'' @ CRLF @ CRLF"

lemma to_base_length: "2 \<le> b \<Longrightarrow> n < b ^ Suc k \<Longrightarrow> length (to_base b n) \<le> Suc k"
proof (induction k arbitrary: n)
  case 0
  then show ?case by (subst to_base.simps) simp
next
  case (Suc k)
  show ?case
  proof (cases "n < b")
    case True
    then show ?thesis by (subst to_base.simps) simp
  next
    case False
    have "n div b < b ^ Suc k" using Suc.prems by (intro less_mult_imp_div_less) (simp add: mult.commute)
    from Suc.IH [OF Suc.prems(1) this] show ?thesis
      using False Suc.prems(1) by (subst to_base.simps) simp
  qed
qed

lemma fill_chunked_spec:
  assumes "rs_nbytes rs = - 1" "0 \<le> rs_fileDesc rs" "reads_ok w"
  shows "\<exists>c rs2 w2 dpr2. fillBuffer u rs body w dpr = Ok (rs2, w2, dpr2) \<and> c @ w_file w2 = w_file w \<and>
    refilled rs dpr ((if c = [] then [] else enc_chunk c) @ (if rs_nbytes rs2 = 0 then last_chunk else [])) rs2 w2 dpr2 \<and>
    (rs_nbytes rs2 = - 1 \<and> 0 \<le> rs_fileDesc rs2 \<or> rs_nbytes rs2 = 0 \<and> w_file w2 = [])"
proof -
  define b0 where "b0 = buf_grow u 65553 body"
  have b0: "65553 \<le> length b0" by (simp add: b0_def buf_grow_def)
  then have "10 \<le> (65546::nat)" "65546 \<le> length b0" by simp_all
  from read_fill_spec [OF this assms(3)] obtain b n rd w1 c where
    r: "read_fill 65546 10 b0 w = Ok (b, n, rd, w1)" "10 \<le> n" "n \<le> 65546" "length b = length b0"
      "take n b = take 10 b0 @ c" "c @ w_file w1 = w_file w" "reads_ok w1"
      "n < 65546 \<longrightarrow> rd = Inl 0 \<and> w_file w1 = [] \<or> rd = Inr EWOULDBLOCK"
    by blast
  define fd where "fd = (if n < 65546 \<and> rd \<noteq> Inr EWOULDBLOCK then - 1 else rs_fileDesc rs)"
  have fd: "fd = - 1 \<longrightarrow> w_file w1 = []" "fd \<noteq> - 1 \<longrightarrow> fd = rs_fileDesc rs \<and> 0 \<le> fd"
    using r(8) assms(2) by (auto simp: fd_def)
  have lc: "length c = n - 10"
  proof -
    have "length (take n b) = n" using r(3,4) b0 by simp
    then show ?thesis unfolding r(5) using b0 by simp
  qed
  show ?thesis
  proof (cases "c = []")
    case True
    then have n: "n = 10" using lc r(2) by simp
    then have fd': "(if rd \<noteq> Inr EWOULDBLOCK then - 1 else rs_fileDesc rs) = fd" by (simp add: fd_def)
    have f: "fillBuffer u rs body w dpr = cbind (if fd = - 1 then
          cbind (buf_set b 0 5 (''0'' @ CRLF @ CRLF)) (\<lambda>b4. Ok (b4, 5, 0)) else Ok (b, 0, - 1)) (\<lambda>(b4, filled3, nbytes).
        Ok (rs\<lparr>rs_body := Some b4, rs_fileDesc := fd, rs_nbytes := nbytes, rs_dataSize := filled3, rs_dataOffset := 0\<rparr>,
          w1, if filled3 = 0 then dpr_setRespState dpr DPR_AWAIT_READ fd else dpr))"
      using assms(1) r(1) unfolding n fd' [symmetric]
      by (simp add: fillBuffer_def fill_chunked_def Let_def b0_def [symmetric])
    show ?thesis
    proof (cases "fd = - 1")
      case closed: True
      then show ?thesis using f True r b0 fd
        by (intro exI [of _ "[]"]) (simp add: buf_set_Ok refilled_def last_chunk_def)
    next
      case False
      then show ?thesis using f True r fd by (intro exI [of _ "[]"]) (simp add: refilled_def)
    qed
  next
    case ne: False
    then have n: "10 < n" using lc by (cases c) auto
    define h where "h = to_base 16 (n - 10) @ CRLF"
    have "length (to_base 16 (n - 10)) \<le> Suc 4" using r(3) by (intro to_base_length) simp_all
    then have h: "length h \<le> 10" by (simp add: h_def)
    define b2 where "b2 = take (10 - length h) b @ h @ drop 10 b"
    have s2: "buf_set b (10 - length h) (length h) h = Ok b2"
      using h r(4) b0 by (simp add: buf_set_Ok b2_def)
    have c: "take (n - 10) (drop 10 b) = c"
    proof -
      have "take (n - 10) (drop 10 b) = drop 10 (take n b)" by (simp add: drop_take)
      then show ?thesis using r(5) b0 by simp
    qed
    have l2: "length b2 = length b0" using h r(4) b0 by (simp add: b2_def)
    define b3 where "b3 = take n b2 @ CRLF @ drop (n + 2) b2"
    have s3: "buf_set b2 n 2 CRLF = Ok b3" using r(3) l2 b0 by (simp add: buf_set_Ok b3_def)
    have t2: "drop (10 - length h) (take n b2) = h @ c"
      using h n r(3,4) b0 c by (simp add: b2_def take_append drop_take)
    have l3: "length b3 = length b0" using r(3) l2 b0 by (simp add: b3_def)
    have t3: "drop (10 - length h) (take (n + 2) b3) = enc_chunk c"
      using t2 n l2 r(3) b0 lc by (simp add: b3_def enc_chunk_def h_def)
    have f: "fillBuffer u rs body w dpr = cbind (if fd = - 1 then
          cbind (buf_set b3 (n + 2) 5 (''0'' @ CRLF @ CRLF)) (\<lambda>b4. Ok (b4, n + 2 + 5, 0)) else Ok (b3, n + 2, - 1)) (\<lambda>(b4, filled3, nbytes).
        Ok (rs\<lparr>rs_body := Some b4, rs_fileDesc := fd, rs_nbytes := nbytes, rs_dataSize := filled3, rs_dataOffset := 10 - length h\<rparr>,
          w1, if filled3 = 0 then dpr_setRespState dpr DPR_AWAIT_READ fd else dpr))"
      using assms(1) r(1) n s2 s3 unfolding fd_def
      by (simp add: fillBuffer_def fill_chunked_def Let_def b0_def [symmetric] h_def [symmetric])
    show ?thesis
    proof (cases "fd = - 1")
      case closed: True
      have "drop (10 - length h) (take (n + 7) (take (n + 2) b3 @ last_chunk @ drop (n + 7) b3)) = enc_chunk c @ last_chunk"
        using t3 l3 r(3) b0 n by (simp add: last_chunk_def)
      moreover have "n \<le> length b0 - 7" "10 - length h \<le> 7 + n" using r(3) b0 n by linarith+
      ultimately show ?thesis using f closed ne r b0 fd l3 n
        by (intro exI [of _ c]) (simp add: buf_set_Ok refilled_def last_chunk_def)
    next
      case False
      then show ?thesis using f ne r fd t3 n l3 b0 by (intro exI [of _ c]) (simp add: refilled_def)
    qed
  qed
qed

subsection \<open>Sending\<close>

text \<open>The bytes the sender holds and has not sent.\<close>

definition unsent :: "ResponseSender \<Rightarrow> bytes" where
  "unsent rs =
     (let body = (case rs_body rs of None \<Rightarrow> [] | Some b \<Rightarrow> take (rs_dataSize rs) b) in
      case rs_header rs of None \<Rightarrow> drop (rs_dataOffset rs) body
      | Some h \<Rightarrow> drop (rs_dataOffset rs) h @ body)"

definition rs_ok :: "ResponseSender \<Rightarrow> bool" where
  "rs_ok rs =
     ((case rs_body rs of None \<Rightarrow> rs_nbytes rs = 0 \<and> rs_dataSize rs = 0 | Some b \<Rightarrow> rs_dataSize rs \<le> length b) \<and>
      (case rs_header rs of None \<Rightarrow> rs_dataOffset rs \<le> rs_dataSize rs | Some h \<Rightarrow> rs_dataOffset rs \<le> length h))"

lemma write_loop_spec:
  "write_loop data off w = (off', e, w') \<Longrightarrow> off \<le> length data \<Longrightarrow>
     off' \<le> length data \<and> w_sent w' @ drop off' data = w_sent w @ drop off data \<and>
     w_reads w' = w_reads w \<and> w_file w' = w_file w \<and> (e = None \<longrightarrow> off' = length data)"
proof (induction data off w rule: write_loop.induct)
  case (1 data off w)
  show ?case
  proof (cases "length data \<le> off")
    case True
    then show ?thesis using 1(2,3) by (auto simp: write_loop.simps)
  next
    case False
    obtain r w1 where r: "sock_write (drop off data) w = (r, w1)" by fastforce
    show ?thesis
    proof (cases r)
      case (Inr e')
      then show ?thesis using 1(2,3) False r
        by (subst (asm) write_loop.simps) (auto simp: sock_write_def split: list.splits WriteAns.splits)
    next
      case (Inl n)
      then have n: "off + n \<le> length data" "w_sent w1 @ drop (off + n) data = w_sent w @ drop off data"
          "w_reads w1 = w_reads w" "w_file w1 = w_file w"
        using r False by (auto simp: sock_write_def min_def add.commute take_all split: list.splits WriteAns.splits
          simp flip: drop_drop)
      have "write_loop data (off + n) w1 = (off', e, w')"
        using 1(2) False r Inl by (subst (asm) write_loop.simps) simp
      from 1(1) [OF False r [symmetric] Inl this n(1)] n(2-4) show ?thesis by simp
    qed
  qed
qed

text \<open>A willing environment takes at least one byte each time, and the file does not block.\<close>

definition willing :: "Wire \<Rightarrow> bool" where
  "willing w = (list_all (\<lambda>a. case a of Wrote k \<Rightarrow> 0 < k | WErr _ \<Rightarrow> False) (w_writes w) \<and>
     list_all (\<lambda>a. case a of Got _ \<Rightarrow> True | RErr _ \<Rightarrow> False) (w_reads w))"

text \<open>Every answer used up was worth a byte, but for one at the end of the file.\<close>

definition fd_open :: "int \<Rightarrow> nat" where
  "fd_open fd = (if 0 \<le> fd then 1 else 0)"

definition spent :: "Wire \<Rightarrow> int \<Rightarrow> Wire \<Rightarrow> int \<Rightarrow> bool" where
  "spent w fd w' fd' =
     (willing w' \<and> length (w_writes w) + length (w_sent w) \<le> length (w_writes w') + length (w_sent w') \<and>
      length (w_reads w) + length (w_file w') + fd_open fd' \<le> length (w_reads w') + length (w_file w) + fd_open fd)"

lemma spent_refl: "willing w \<Longrightarrow> spent w fd w fd"
  by (simp add: spent_def)

lemma spent_trans: "spent w fd w' fd' \<Longrightarrow> spent w' fd' w'' fd'' \<Longrightarrow> spent w fd w'' fd''"
  by (auto simp: spent_def)

lemma write_loop_spent:
  "write_loop data off w = (off', e, w') \<Longrightarrow> willing w \<Longrightarrow> off \<le> length data \<Longrightarrow>
     spent w fd w' fd \<and> (e \<noteq> None \<longrightarrow> e = Some EWOULDBLOCK \<and> w_writes w' = [])"
proof (induction data off w rule: write_loop.induct)
  case (1 data off w)
  show ?case
  proof (cases "length data \<le> off")
    case True
    then show ?thesis using 1(2,3) by (auto simp: write_loop.simps spent_def)
  next
    case False
    show ?thesis
    proof (cases "w_writes w")
      case Nil
      then show ?thesis using 1(2,3) False
        by (subst (asm) write_loop.simps) (auto simp: sock_write_def spent_def)
    next
      case (Cons a as)
      then obtain k where a: "a = Wrote k" "0 < k" using 1(3)
        by (cases a) (auto simp: willing_def)
      let ?n = "min k (length data - off)"
      let ?w = "w\<lparr>w_writes := as, w_sent := w_sent w @ take k (drop off data)\<rparr>"
      have r: "sock_write (drop off data) w = (Inl ?n, ?w)"
        using Cons a by (simp add: sock_write_def)
      have "write_loop data (off + ?n) ?w = (off', e, w')"
        using 1(2) False r by (subst (asm) write_loop.simps) simp
      moreover have "spent w fd ?w fd" "willing ?w"
        using Cons a 1(3) False by (auto simp: spent_def willing_def)
      ultimately show ?thesis
        using 1(1) [OF False r [symmetric] refl] False spent_trans [of w fd ?w fd w' fd] by simp
    qed
  qed
qed

lemma read_fill_spent:
  "read_fill toFill filled buf w = Ok (b, n, rd, w') \<Longrightarrow> willing w \<Longrightarrow> filled \<le> toFill \<Longrightarrow>
     willing w' \<and> w_writes w' = w_writes w \<and> w_sent w' = w_sent w \<and>
     length (w_reads w) + length (w_file w') \<le> length (w_reads w') + length (w_file w) + (if rd = Inl 0 then 1 else 0) \<and>
     (rd = Inl 0 \<longrightarrow> n < toFill) \<and> (\<forall>e. rd = Inr e \<longrightarrow> w_reads w' = [] \<and> e = EWOULDBLOCK)"
proof (induction toFill filled buf w arbitrary: b n rd w' rule: read_fill.induct)
  case (1 toFill filled buf w)
  show ?case
  proof (cases "toFill \<le> filled")
    case True
    then show ?thesis using 1(2,3) by (auto simp: read_fill.simps)
  next
    case False
    show ?thesis
    proof (cases "w_reads w")
      case Nil
      then show ?thesis using 1(2,3) False
        by (subst (asm) read_fill.simps) (auto simp: file_read_def)
    next
      case (Cons a as)
      then obtain k where a: "a = Got k" using 1(3) by (cases a) (auto simp: willing_def)
      define m where "m = min (toFill - filled) (max 1 k)"
      let ?d = "take m (w_file w)" and ?w = "w\<lparr>w_reads := as, w_file := drop m (w_file w)\<rparr>"
      have m: "0 < m" "m \<le> toFill - filled" using False by (auto simp: m_def)
      have r: "file_read (toFill - filled) w = (Inl ?d, ?w)"
        using Cons a by (simp add: file_read_def m_def Let_def)
      have will: "willing ?w" using 1(3) Cons by (simp add: willing_def)
      show ?thesis
      proof (cases "?d = []")
        case True
        then have "w_file w = []" using m by auto
        then show ?thesis using 1(2) False r True will Cons
          by (subst (asm) read_fill.simps) auto
      next
        case ne: False
        then have l: "0 < length ?d" "length ?d \<le> toFill - filled" using m by auto
        obtain buf' where s: "buf_set buf filled (toFill - filled) ?d = Ok buf'"
            "read_fill toFill (filled + length ?d) buf' ?w = Ok (b, n, rd, w')"
          using 1(2) False r ne by (subst (asm) read_fill.simps) (auto elim!: cbind_OkE)
        have f: "filled + length ?d \<le> toFill" using l(2) False by linarith
        have sum: "length (w_file ?w) + length ?d = length (w_file w)" "length (w_reads w) = Suc (length (w_reads ?w))"
          using Cons by simp_all
        have len: "length (w_reads w) + length (w_file w') \<le> length (w_reads w') + length (w_file w) + x"
          if "length (w_reads ?w) + length (w_file w') \<le> length (w_reads w') + length (w_file ?w) + x" for x
          using that l(1) sum by linarith
        from 1(1) [OF False r [symmetric] refl ne s(2) will f] len show ?thesis by simp
      qed
    qed
  qed
qed

lemma fillBuffer_spent:
  assumes "fillBuffer u rs body w dpr = Ok (rs2, w2, dpr2)" "willing w" "rs_nbytes rs < 0 \<longrightarrow> 0 \<le> rs_fileDesc rs"
  shows "spent w (rs_fileDesc rs) w2 (rs_fileDesc rs2) \<and> dpr_closeConn dpr2 = dpr_closeConn dpr \<and>
    (rs_nbytes rs \<noteq> 0 \<longrightarrow> rs_dataSize rs2 = 0 \<longrightarrow> w_reads w2 = [])"
proof (cases "0 \<le> rs_nbytes rs")
  case True
  then show ?thesis using assms(1,2) unfolding fillBuffer_def fill_known_def Let_def
    by (auto split: if_splits elim!: cbind_OkE dest!: read_fill_spent
        simp: spent_def fd_open_def dpr_setRespState_def)
next
  case False
  then show ?thesis using assms unfolding fillBuffer_def fill_chunked_def Let_def
    by (auto split: if_splits elim!: cbind_OkE dest!: read_fill_spent
        simp: spent_def fd_open_def dpr_setRespState_def)
qed

text \<open>Calls of \<open>rsndr_send\<close> until it returns true, each with new answers of the environment.\<close>

fun send_calls ::
    "char \<Rightarrow> ResponseSender \<Rightarrow> int \<Rightarrow> Wire \<Rightarrow> (WriteAns list \<times> ReadAns list) list \<Rightarrow>
     (bool \<times> ResponseSender \<times> Wire \<times> DataProcessingResult) cres" where
  "send_calls u rs fd w [] = Ok (False, rs, w, dpr_init)"
| "send_calls u rs fd w ((ws, rds) # sched) =
     cbind (rsndr_send u rs fd (w\<lparr>w_writes := ws, w_reads := rds\<rparr>) dpr_init) (\<lambda>(fin, rs', w', dpr).
       if fin then Ok (True, rs', w', dpr) else send_calls u rs' fd w' sched)"

text \<open>
  The interface of a way to send a body: \<open>P s nbytes fd file\<close> says that the bytes \<open>s\<close>, sent or
  held, are a correct beginning of the response when \<open>nbytes\<close> remain to be taken from the file. A refill must keep it.
\<close>

locale sender =
  fixes P :: "bytes \<Rightarrow> int \<Rightarrow> int \<Rightarrow> bytes \<Rightarrow> bool"
  assumes refill: "P s (rs_nbytes rs) (rs_fileDesc rs) (w_file w) \<Longrightarrow> rs_nbytes rs \<noteq> 0 \<Longrightarrow> reads_ok w \<Longrightarrow>
    \<exists>d rs2 w2 dpr2. fillBuffer u rs b w dpr = Ok (rs2, w2, dpr2) \<and> refilled rs dpr d rs2 w2 dpr2 \<and>
      P (s @ d) (rs_nbytes rs2) (rs_fileDesc rs2) (w_file w2)"
    and open_file: "P s nbytes fd file \<Longrightarrow> nbytes < 0 \<Longrightarrow> 0 \<le> fd"
begin

definition inv :: "ResponseSender \<Rightarrow> Wire \<Rightarrow> bool" where
  "inv rs w = (rs_ok rs \<and> reads_ok w \<and> P (w_sent w @ unsent rs) (rs_nbytes rs) (rs_fileDesc rs) (w_file w))"

text \<open>The promise of \<open>rsndr_send\<close>.\<close>

definition post :: "int \<Rightarrow> DataProcessingResult \<Rightarrow> bool \<times> ResponseSender \<times> Wire \<times> DataProcessingResult \<Rightarrow> bool" where
  "post fd dpr r = (case r of (fin, rs, w, dpr') \<Rightarrow> inv rs w \<and>
     (if fin then dpr' = dpr \<and> unsent rs = [] \<and> rs_nbytes rs = 0 \<or> dpr' = dpr_setCloseConn dpr
      else dpr' = dpr_setRespState dpr DPR_AWAIT_WRITE fd \<or>
        0 \<le> rs_fileDesc rs \<and> dpr' = dpr_setRespState dpr DPR_AWAIT_READ (rs_fileDesc rs)))"

text \<open>A willing environment is used up before the sender gives up.\<close>

definition progress ::
    "ResponseSender \<Rightarrow> Wire \<Rightarrow> DataProcessingResult \<Rightarrow> bool \<times> ResponseSender \<times> Wire \<times> DataProcessingResult \<Rightarrow> bool" where
  "progress rs w dpr r = (willing w \<longrightarrow> (case r of (fin, rs', w', dpr') \<Rightarrow>
     spent w (rs_fileDesc rs) w' (rs_fileDesc rs') \<and> dpr_closeConn dpr' = dpr_closeConn dpr \<and>
     (fin \<or> w_writes w' = [] \<or> w_reads w' = [])))"

lemma body_loop_post:
  "inv rs w \<Longrightarrow> rs_header rs = None \<Longrightarrow> rs_body rs = Some b \<Longrightarrow>
     \<exists>r. body_loop u rs b fd w dpr = Ok r \<and> post fd dpr r \<and> progress rs w dpr r"
proof (induction u rs b fd w dpr rule: body_loop.induct)
  case (1 u rs b fd w dpr)
  have ok: "rs_dataSize rs \<le> length b" "rs_dataOffset rs \<le> rs_dataSize rs" "reads_ok w"
    using 1(2-4) by (simp_all add: inv_def rs_ok_def)
  have P: "P (w_sent w @ drop (rs_dataOffset rs) (take (rs_dataSize rs) b)) (rs_nbytes rs) (rs_fileDesc rs) (w_file w)"
    using 1(2-4) by (simp add: inv_def unsent_def)
  obtain off e w1 where wr: "write_loop (take (rs_dataSize rs) b) (rs_dataOffset rs) w = (off, e, w1)"
    by (metis prod_cases3)
  have off: "off \<le> rs_dataSize rs" "reads_ok w1" "w_file w1 = w_file w" "e = None \<longrightarrow> off = rs_dataSize rs"
      "w_sent w1 @ drop off (take (rs_dataSize rs) b) = w_sent w @ drop (rs_dataOffset rs) (take (rs_dataSize rs) b)"
    using write_loop_spec [OF wr] ok by (simp_all add: reads_ok_def)
  let ?rs = "rs\<lparr>rs_dataOffset := off\<rparr>"
  have inv1: "inv ?rs w1"
    using 1(2-4) off P ok by (simp add: inv_def rs_ok_def unsent_def)
  have nU: "\<not> length b < rs_dataSize rs" using ok by simp
  have sp: "spent w (rs_fileDesc rs) w1 (rs_fileDesc rs) \<and> (e \<noteq> None \<longrightarrow> e = Some EWOULDBLOCK \<and> w_writes w1 = [])"
    if "willing w" using write_loop_spent [OF wr that] ok by simp
  show ?case
  proof (cases e)
    case (Some x)
    have "progress rs w dpr (let (res, dpr1) = write_error x fd dpr in (res, ?rs, w1, dpr1))"
      using sp Some by (auto simp: progress_def write_error_def dpr_setRespState_def)
    moreover have "post fd dpr (let (res, dpr1) = write_error x fd dpr in (res, ?rs, w1, dpr1))"
      using inv1 by (simp add: write_error_def post_def)
    ultimately show ?thesis using wr nU Some
      by (subst body_loop.simps) (auto simp: Let_def split: prod.splits)
  next
    case None
    then have o': "off = rs_dataSize rs" using off(4) by simp
    show ?thesis
    proof (cases "rs_nbytes rs = 0")
      case True
      then show ?thesis using wr None nU inv1 o' 1(3,4) ok sp
        by (subst body_loop.simps) (simp add: post_def unsent_def progress_def)
    next
      case False
      have s1: "P (w_sent w1) (rs_nbytes ?rs) (rs_fileDesc ?rs) (w_file w1)"
        using P off(3,5) o' by simp
      obtain d rs2 w2 dpr2 where f: "fillBuffer u ?rs b w1 dpr = Ok (rs2, w2, dpr2)" "refilled ?rs dpr d rs2 w2 dpr2"
          "P (w_sent w1 @ d) (rs_nbytes rs2) (rs_fileDesc rs2) (w_file w2)"
        using refill [OF s1 _ off(2), of u b dpr] False by auto
      obtain b2 where b2: "rs_body rs2 = Some b2" "rs_dataSize rs2 \<le> length b2"
          "d = drop (rs_dataOffset rs2) (take (rs_dataSize rs2) b2)" "rs_header rs2 = None" "reads_ok w2"
          "rs_dataOffset rs2 \<le> rs_dataSize rs2"
        using f(2) 1(3) by (auto simp: refilled_def)
      have fsp: "spent w1 (rs_fileDesc rs) w2 (rs_fileDesc rs2) \<and> dpr_closeConn dpr2 = dpr_closeConn dpr \<and>
          (rs_dataSize rs2 = 0 \<longrightarrow> w_reads w2 = [])" if "willing w1"
        using fillBuffer_spent [OF f(1) that] open_file [OF P] False by simp
      have "w_sent w2 = w_sent w1" using fillBuffer_frame [OF f(1)] by simp
      then have inv2: "inv rs2 w2"
        using b2 f(3) by (simp add: inv_def rs_ok_def unsent_def)
      have step: "body_loop u rs b fd w dpr =
          (if rs_dataSize rs2 = 0 then Ok (False, rs2, w2, dpr2) else body_loop u rs2 b2 fd w2 dpr2)"
        using wr None nU False f(1) b2(1) by (subst body_loop.simps) simp
      show ?thesis
      proof (cases "rs_dataSize rs2 = 0")
        case True
        then have "progress rs w dpr (False, rs2, w2, dpr2)"
          using sp fsp spent_trans by (fastforce simp: progress_def spent_def)
        then show ?thesis using True step inv2 f(2) by (simp add: post_def refilled_def)
      next
        case ne: False
        then have d: "dpr2 = dpr" using f(2) by (simp add: refilled_def)
        have "\<exists>r. body_loop u rs2 (the (rs_body rs2)) fd w2 dpr2 = Ok r \<and> post fd dpr2 r \<and> progress rs2 w2 dpr2 r"
          using 1(1) [OF nU wr [symmetric] _ None refl _ f(1) _ _ ne] False inv2 b2 by simp
        then obtain r where r: "body_loop u rs2 (the (rs_body rs2)) fd w2 dpr2 = Ok r" "post fd dpr2 r" "progress rs2 w2 dpr2 r"
          by blast
        have "progress rs w dpr r"
          using r(3) sp fsp d spent_trans unfolding progress_def spent_def [symmetric]
          by (auto simp: spent_def)
        with r(1,2) show ?thesis using step ne b2(1) d by simp
      qed
    qed
  qed
qed

lemma send_post:
  assumes "inv rs w"
  shows "\<exists>r. rsndr_send u rs fd w dpr = Ok r \<and> post fd dpr r \<and> progress rs w dpr r"
proof -
  have body: "\<exists>r. send_body u rs fd w dpr = Ok r \<and> post fd dpr r \<and> progress rs w dpr r"
    if "inv rs w" "rs_header rs = None" for rs w
  proof (cases "rs_body rs")
    case None
    then show ?thesis using that
      by (auto simp: send_body_def post_def inv_def rs_ok_def unsent_def progress_def spent_refl)
  next
    case (Some b)
    then show ?thesis using body_loop_post [OF that Some] by (simp add: send_body_def)
  qed
  show ?thesis
  proof (cases "rs_header rs")
    case None
    then show ?thesis using body [OF assms None] by (simp add: rsndr_send_def)
  next
    case (Some h)
    obtain off e w1 where wr: "write_loop h (rs_dataOffset rs) w = (off, e, w1)" by (metis prod_cases3)
    have off: "off \<le> length h" "reads_ok w1" "w_file w1 = w_file w" "e = None \<longrightarrow> off = length h"
        "w_sent w1 @ drop off h = w_sent w @ drop (rs_dataOffset rs) h"
      using write_loop_spec [OF wr] assms Some by (simp_all add: inv_def rs_ok_def reads_ok_def)
    have sp: "spent w (rs_fileDesc rs) w1 (rs_fileDesc rs) \<and> (e \<noteq> None \<longrightarrow> e = Some EWOULDBLOCK \<and> w_writes w1 = [])"
      if "willing w" using write_loop_spent [OF wr that] assms Some by (simp add: inv_def rs_ok_def)
    have eq: "w_sent w1 @ drop off h @ x = w_sent w @ drop (rs_dataOffset rs) h @ x" for x
      using off(5) by (metis append_assoc)
    show ?thesis
    proof (cases e)
      case None
      then have "w_sent w1 @ x = w_sent w @ drop (rs_dataOffset rs) h @ x" for x
        using eq [of x] off(4) by simp
      then have "inv (rs\<lparr>rs_header := None, rs_dataOffset := 0\<rparr>) w1"
        using assms Some off(2,3) by (auto simp: inv_def rs_ok_def unsent_def Let_def split: option.splits)
      from body [OF this] obtain r where r: "send_body u (rs\<lparr>rs_header := None, rs_dataOffset := 0\<rparr>) fd w1 dpr = Ok r"
          "post fd dpr r" "progress (rs\<lparr>rs_header := None, rs_dataOffset := 0\<rparr>) w1 dpr r"
        by auto
      have "progress rs w dpr r" using r(3) sp spent_trans by (fastforce simp: progress_def spent_def)
      with r show ?thesis using wr None Some by (simp add: rsndr_send_def)
    next
      case e: (Some x)
      have "w_sent w1 @ unsent (rs\<lparr>rs_dataOffset := off\<rparr>) = w_sent w @ unsent rs"
        using Some eq off(5) by (cases "rs_body rs") (simp_all add: unsent_def Let_def)
      then have "inv (rs\<lparr>rs_dataOffset := off\<rparr>) w1"
        using assms Some off(1-3) by (auto simp: inv_def rs_ok_def split: option.splits)
      then show ?thesis using wr e Some sp
        by (auto simp: rsndr_send_def write_error_def post_def progress_def dpr_setRespState_def)
    qed
  qed
qed

text \<open>A sequence of calls, each with the answers the environment has for it.\<close>

lemma calls_post:
  "rs_ok rs \<Longrightarrow> P (w_sent w @ unsent rs) (rs_nbytes rs) (rs_fileDesc rs) (w_file w) \<Longrightarrow>
   \<forall>(ws, rds) \<in> set sched. \<forall>a \<in> set rds. \<forall>e. a = RErr e \<longrightarrow> e = EWOULDBLOCK \<Longrightarrow>
   \<exists>fin rs' w' dpr'. send_calls u rs fd w sched = Ok (fin, rs', w', dpr') \<and>
     P (w_sent w' @ unsent rs') (rs_nbytes rs') (rs_fileDesc rs') (w_file w') \<and>
     (fin \<longrightarrow> dpr_closeConn dpr' \<or> unsent rs' = [] \<and> rs_nbytes rs' = 0)"
proof (induction sched arbitrary: rs w)
  case Nil
  then show ?case by auto
next
  case (Cons a sched)
  obtain ws rds where a: "a = (ws, rds)" by (cases a)
  let ?w = "w\<lparr>w_writes := ws, w_reads := rds\<rparr>"
  have "inv rs ?w" using Cons.prems a by (simp add: inv_def reads_ok_def)
  from send_post [OF this] obtain fin rs1 w1 dpr1 where
    s: "rsndr_send u rs fd ?w dpr_init = Ok (fin, rs1, w1, dpr1)" "post fd dpr_init (fin, rs1, w1, dpr1)"
    by (metis prod_cases4)
  have i: "rs_ok rs1" "P (w_sent w1 @ unsent rs1) (rs_nbytes rs1) (rs_fileDesc rs1) (w_file w1)"
    using s(2) by (simp_all add: post_def inv_def)
  show ?case
  proof (cases fin)
    case True
    then have "dpr_closeConn dpr1 \<or> unsent rs1 = [] \<and> rs_nbytes rs1 = 0"
      using s(2) by (auto simp: post_def dpr_setCloseConn_def)
    moreover have "send_calls u rs fd w (a # sched) = Ok (True, rs1, w1, dpr1)" using s(1) a True by simp
    ultimately show ?thesis using i(2) by blast
  next
    case False
    then show ?thesis using s(1) a Cons.IH [OF i] Cons.prems(3) by simp
  qed
qed

end

text \<open>The two ways to send a body: with its length, and chunked.\<close>

definition length_delimited :: "bytes \<Rightarrow> bytes \<Rightarrow> int \<Rightarrow> int \<Rightarrow> bytes \<Rightarrow> bool" where
  "length_delimited whole s nbytes fd file =
     (0 \<le> nbytes \<and> s @ fit (nat nbytes) (if 0 \<le> fd then file else []) = whole)"

definition chunked :: "bytes \<Rightarrow> bytes \<Rightarrow> bytes \<Rightarrow> int \<Rightarrow> int \<Rightarrow> bytes \<Rightarrow> bool" where
  "chunked header content s nbytes fd file =
     (\<exists>cs. [] \<notin> set cs \<and>
       (nbytes = - 1 \<and> 0 \<le> fd \<and> s = header @ concat (map enc_chunk cs) \<and> concat cs @ file = content \<or>
        nbytes = 0 \<and> s = header @ concat (map enc_chunk cs) @ last_chunk \<and> concat cs = content))"

interpretation delimited: sender "length_delimited whole" for whole
proof
  fix s :: bytes and rs :: ResponseSender and w :: Wire and u b dpr
  assume P: "length_delimited whole s (rs_nbytes rs) (rs_fileDesc rs) (w_file w)" "rs_nbytes rs \<noteq> 0" "reads_ok w"
  then have "0 < rs_nbytes rs" by (simp add: length_delimited_def)
  from fill_known_spec [OF this P(3), of u b dpr] obtain d rs2 w2 dpr2 where
    f: "fillBuffer u rs b w dpr = Ok (rs2, w2, dpr2)" "refilled rs dpr d rs2 w2 dpr2" "0 \<le> rs_nbytes rs2"
      "fit (nat (rs_nbytes rs)) (file_left rs w) = d @ fit (nat (rs_nbytes rs2)) (file_left rs2 w2)"
    by blast
  then have "length_delimited whole (s @ d) (rs_nbytes rs2) (rs_fileDesc rs2) (w_file w2)"
    using P(1) by (simp add: length_delimited_def file_left_def)
  with f(1,2) show "\<exists>d rs2 w2 dpr2.
      fillBuffer u rs b w dpr = Ok (rs2, w2, dpr2) \<and> refilled rs dpr d rs2 w2 dpr2 \<and>
      length_delimited whole (s @ d) (rs_nbytes rs2) (rs_fileDesc rs2) (w_file w2)"
    by blast
qed (simp add: length_delimited_def)

interpretation chunks: sender "chunked header content" for header content
proof
  fix s :: bytes and rs :: ResponseSender and w :: Wire and u b dpr
  assume P: "chunked header content s (rs_nbytes rs) (rs_fileDesc rs) (w_file w)" "rs_nbytes rs \<noteq> 0" "reads_ok w"
  then obtain cs where cs: "[] \<notin> set cs" "rs_nbytes rs = - 1" "0 \<le> rs_fileDesc rs"
      "s = header @ concat (map enc_chunk cs)" "concat cs @ w_file w = content"
    by (auto simp: chunked_def)
  from fill_chunked_spec [OF cs(2,3) P(3), of u b dpr] obtain c rs2 w2 dpr2 where
    f: "fillBuffer u rs b w dpr = Ok (rs2, w2, dpr2)" "c @ w_file w2 = w_file w"
      "refilled rs dpr ((if c = [] then [] else enc_chunk c) @ (if rs_nbytes rs2 = 0 then last_chunk else [])) rs2 w2 dpr2"
      "rs_nbytes rs2 = - 1 \<and> 0 \<le> rs_fileDesc rs2 \<or> rs_nbytes rs2 = 0 \<and> w_file w2 = []"
    by blast
  let ?cs = "if c = [] then cs else cs @ [c]"
  have "[] \<notin> set ?cs" "concat (map enc_chunk ?cs) = concat (map enc_chunk cs) @ (if c = [] then [] else enc_chunk c)"
    "concat ?cs = concat cs @ c" using cs(1) by auto
  then have "chunked header content (s @ (if c = [] then [] else enc_chunk c) @ (if rs_nbytes rs2 = 0 then last_chunk else []))
      (rs_nbytes rs2) (rs_fileDesc rs2) (w_file w2)"
    using f(2,4) cs(4,5) unfolding chunked_def by (intro exI [of _ ?cs]) auto
  with f(1,3) show "\<exists>d rs2 w2 dpr2.
      fillBuffer u rs b w dpr = Ok (rs2, w2, dpr2) \<and> refilled rs dpr d rs2 w2 dpr2 \<and>
      chunked header content (s @ d) (rs_nbytes rs2) (rs_fileDesc rs2) (w_file w2)"
    by blast
qed (auto simp: chunked_def)

subsection \<open>What arrives\<close>

text \<open>The whole response with a \<open>Content-Length\<close>; without a body only the header.\<close>

definition whole_response :: "bytes \<Rightarrow> bytes option \<Rightarrow> nat \<Rightarrow> bytes \<Rightarrow> bytes" where
  "whole_response header body n file =
     (case body of None \<Rightarrow> header @ CRLF
      | Some b \<Rightarrow> header @ ''Content-Length: '' @ to_base 10 (length b + n) @ CRLF @ CRLF @ b @ fit n file)"

definition wire_new :: "bytes \<Rightarrow> Wire" where
  "wire_new file = \<lparr>w_sent = [], w_writes = [], w_reads = [], w_file = file\<rparr>"

definition benign :: "(WriteAns list \<times> ReadAns list) list \<Rightarrow> bool" where
  "benign sched = list_all (\<lambda>(ws, rds). list_all (\<lambda>a. case a of RErr e \<Rightarrow> e = EWOULDBLOCK | Got _ \<Rightarrow> True) rds) sched"

lemma benign_set:
  "benign sched \<Longrightarrow> \<forall>(ws, rds) \<in> set sched. \<forall>a \<in> set rds. \<forall>e. a = RErr e \<longrightarrow> e = EWOULDBLOCK"
  by (fastforce simp: benign_def list_all_iff)

lemma fit_take: "fit n (take n f) = fit n f"
  by (simp add: fit_def min_def)

lemma rsndr_new_delimited:
  assumes "fd = - 1 \<and> n = 0 \<or> 0 \<le> fd \<and> (st = Some (True, n) \<or> body = None \<and> n = 0)"
  shows "rs_ok (rsndr_new st header body fd) \<and>
    length_delimited (whole_response header body n file) (unsent (rsndr_new st header body fd))
      (rs_nbytes (rsndr_new st header body fd)) (rs_fileDesc (rsndr_new st header body fd)) file"
  using assms
  by (cases body) (auto simp: rsndr_new_def rs_ok_def length_delimited_def unsent_def whole_response_def Let_def)

text \<open>C10: A response of known length arrives as it should: whatever a socket that may block or fail takes
  at a time and whatever pieces the file comes in, the bytes on the wire are always a
  beginning of the header with the right \<open>Content-Length\<close>, the body and the file cut or
  zero-filled to its size, the sender stays inside its buffer, and when it says it is finished
  without closing the connection they are all of it.\<close>

theorem response_arrives:
  assumes "fd = - 1 \<and> n = 0 \<or> 0 \<le> fd \<and> (st = Some (True, n) \<or> body = None \<and> n = 0)" and "benign sched"
  shows "\<exists>fin rs w dpr. send_calls u (rsndr_new st header body fd) sock (wire_new file) sched = Ok (fin, rs, w, dpr) \<and>
    (\<exists>later. w_sent w @ later = whole_response header body n file) \<and>
    (fin \<and> \<not> dpr_closeConn dpr \<longrightarrow> w_sent w = whole_response header body n file)"
proof -
  note new = rsndr_new_delimited [OF assms(1), of header "file"]
  have "length_delimited (whole_response header body n file) (w_sent (wire_new file) @ unsent (rsndr_new st header body fd))
      (rs_nbytes (rsndr_new st header body fd)) (rs_fileDesc (rsndr_new st header body fd)) (w_file (wire_new file))"
    using new by (simp add: wire_new_def)
  from delimited.calls_post [OF _ this benign_set [OF assms(2)], of u sock] new show ?thesis
    by (fastforce simp: length_delimited_def)
qed

theorem response_arrives_witness:
  "\<exists>fin rs w dpr. send_calls NUL (rsndr_new (Some (True, 5)) ''H'' (Some ''ab'') 3) 4 (wire_new ''xyz'')
      [([Wrote 1, Wrote 30, WErr EWOULDBLOCK], []), ([Wrote 3, Wrote 2], [Got 2, RErr EWOULDBLOCK]),
       ([Wrote 99, Wrote 99], [Got 7, Got 1])] = Ok (fin, rs, w, dpr) \<and> fin \<and> \<not> dpr_closeConn dpr \<and>
     w_sent w = ''H'' @ ''Content-Length: 7'' @ CRLF @ CRLF @ ''abxyz'' @ [NUL, NUL]"
proof -
  let ?sched = "[([Wrote 1, Wrote 30, WErr EWOULDBLOCK], []), ([Wrote 3, Wrote 2], [Got 2, RErr EWOULDBLOCK]),
       ([Wrote 99, Wrote 99], [Got 7, Got 1])]"
  have b: "benign ?sched" by (simp add: benign_def)
  have e: "case send_calls NUL (rsndr_new (Some (True, 5)) ''H'' (Some ''ab'') 3) 4 (wire_new ''xyz'') ?sched of
      Ok (fin, rs, w, dpr) \<Rightarrow> fin \<and> \<not> dpr_closeConn dpr | _ \<Rightarrow> False" by code_simp
  have r: "whole_response ''H'' (Some ''ab'') 5 ''xyz'' = ''H'' @ ''Content-Length: 7'' @ CRLF @ CRLF @ ''abxyz'' @ [NUL, NUL]"
    by code_simp
  show ?thesis
    using response_arrives [of 3 5 "Some (True, 5)" "Some ''ab''" ?sched NUL "''H''" 4 "''xyz''"] b e r by auto
qed

text \<open>C34: A response whose file has no known length arrives in the chunked transfer encoding: the
  bytes on the wire are always a beginning of the header followed by non-empty chunks
  that together hold the body and a beginning of the file, and when the sender says it is finished
  without closing the connection they are all chunks of the body and the file and the last chunk.\<close>

theorem chunked_response_arrives:
  assumes "0 \<le> fd" and "benign sched"
  shows "\<exists>fin rs w dpr. send_calls u (rsndr_new (Some (False, n)) header (Some body) fd) sock (wire_new file) sched = Ok (fin, rs, w, dpr) \<and>
    (\<exists>later cs rest. [] \<notin> set cs \<and> concat cs @ rest = body @ file \<and>
       w_sent w @ later = header @ ''Transfer-Encoding: chunked'' @ CRLF @ CRLF @ concat (map enc_chunk cs) @
         (if rs_nbytes rs = 0 then last_chunk else []) \<and> (rs_nbytes rs = 0 \<longrightarrow> rest = []) \<and>
       (fin \<and> \<not> dpr_closeConn dpr \<longrightarrow> later = [] \<and> rs_nbytes rs = 0))"
proof -
  let ?h = "header @ ''Transfer-Encoding: chunked'' @ CRLF @ CRLF"
  let ?rs = "rsndr_new (Some (False, n)) header (Some body) fd"
  have ok: "rs_ok ?rs" using assms(1) by (simp add: rsndr_new_def rs_ok_def Let_def)
  have "chunked ?h (body @ file) (w_sent (wire_new file) @ unsent ?rs) (rs_nbytes ?rs) (rs_fileDesc ?rs) (w_file (wire_new file))"
    using assms(1) unfolding chunked_def
    by (intro exI [of _ "if body = [] then [] else [body]"])
      (simp add: rsndr_new_def Let_def wire_new_def unsent_def enc_chunk_def)
  from chunks.calls_post [OF ok this benign_set [OF assms(2)], of u sock] obtain fin rs w dpr where
    s: "send_calls u ?rs sock (wire_new file) sched = Ok (fin, rs, w, dpr)"
      "chunked ?h (body @ file) (w_sent w @ unsent rs) (rs_nbytes rs) (rs_fileDesc rs) (w_file w)"
      "fin \<longrightarrow> dpr_closeConn dpr \<or> unsent rs = [] \<and> rs_nbytes rs = 0"
    by blast
  from s(2) obtain cs where cs: "[] \<notin> set cs"
      "rs_nbytes rs = - 1 \<and> w_sent w @ unsent rs = ?h @ concat (map enc_chunk cs) \<and> concat cs @ w_file w = body @ file \<or>
       rs_nbytes rs = 0 \<and> w_sent w @ unsent rs = ?h @ concat (map enc_chunk cs) @ last_chunk \<and> concat cs = body @ file"
    unfolding chunked_def by blast
  show ?thesis
  proof (intro exI conjI)
    show "send_calls u ?rs sock (wire_new file) sched = Ok (fin, rs, w, dpr)" by fact
    show "[] \<notin> set cs" by fact
    show "concat cs @ (if rs_nbytes rs = 0 then [] else w_file w) = body @ file" using cs(2) by auto
    show "w_sent w @ unsent rs = header @ ''Transfer-Encoding: chunked'' @ CRLF @ CRLF @ concat (map enc_chunk cs) @
         (if rs_nbytes rs = 0 then last_chunk else [])" using cs(2) by auto
    show "rs_nbytes rs = 0 \<longrightarrow> (if rs_nbytes rs = 0 then [] else w_file w) = []" by simp
    show "fin \<and> \<not> dpr_closeConn dpr \<longrightarrow> unsent rs = [] \<and> rs_nbytes rs = 0" using s(3) by blast
  qed
qed

theorem chunked_response_arrives_witness:
  "\<exists>fin rs w dpr. send_calls NUL (rsndr_new (Some (False, 0)) ''H'' (Some ''ab'') 3) 4 (wire_new ''xyz'')
      [([Wrote 1, Wrote 30], [])] = Ok (fin, rs, w, dpr) \<and>
     (\<exists>later cs rest. concat cs @ rest = ''ab'' @ ''xyz'' \<and>
       w_sent w @ later = ''H'' @ ''Transfer-Encoding: chunked'' @ CRLF @ CRLF @ concat (map enc_chunk cs) @
         (if rs_nbytes rs = 0 then last_chunk else []))"
proof -
  have "benign [([Wrote 1, Wrote 30], [])]" by (simp add: benign_def)
  from chunked_response_arrives [OF _ this, of 3 NUL 0 "''H''" "''ab''" 4 "''xyz''"] obtain fin rs w dpr later cs rest where
    "send_calls NUL (rsndr_new (Some (False, 0)) ''H'' (Some ''ab'') 3) 4 (wire_new ''xyz'')
      [([Wrote 1, Wrote 30], [])] = Ok (fin, rs, w, dpr)" "concat cs @ rest = ''ab'' @ ''xyz''"
    "w_sent w @ later = ''H'' @ ''Transfer-Encoding: chunked'' @ CRLF @ CRLF @ concat (map enc_chunk cs) @
         (if rs_nbytes rs = 0 then last_chunk else [])"
    by (metis (no_types) zero_le_numeral)
  then show ?thesis by blast
qed

text \<open>One call sends the whole response, when the environment is willing and has answers enough.\<close>

lemma send_completes:
  assumes "fd = - 1 \<and> n = 0 \<or> 0 \<le> fd \<and> (st = Some (True, n) \<or> body = None \<and> n = 0)" and "willing w"
    and "length (whole_response header body n (w_file w)) < length (w_writes w)" and "length (w_file w) + 1 < length (w_reads w)"
    and "\<not> dpr_closeConn dpr"
  shows "\<exists>rs w'. rsndr_send u (rsndr_new st header body fd) sock w dpr = Ok (True, rs, w', dpr) \<and>
    w_sent w' = w_sent w @ whole_response header body n (w_file w) \<and> willing w' \<and>
    length (w_writes w) \<le> length (w_writes w') + length (whole_response header body n (w_file w)) \<and>
    length (w_reads w) \<le> length (w_reads w') + length (w_file w) + 1"
proof -
  let ?rs = "rsndr_new st header body fd" and ?r = "whole_response header body n (w_file w)"
  let ?whole = "w_sent w @ ?r"
  have "reads_ok w" using assms(2) by (auto simp: willing_def reads_ok_def list_all_iff)
  then have "delimited.inv ?whole ?rs w"
    using rsndr_new_delimited [OF assms(1), of header "w_file w"] by (simp add: delimited.inv_def length_delimited_def)
  from delimited.send_post [OF this, of u sock dpr] obtain fin rs w' dpr' where
    s: "rsndr_send u ?rs sock w dpr = Ok (fin, rs, w', dpr')" and
    post: "delimited.post ?whole sock dpr (fin, rs, w', dpr')" and
    prog: "spent w (rs_fileDesc ?rs) w' (rs_fileDesc rs)" "dpr_closeConn dpr' = dpr_closeConn dpr"
      "fin \<or> w_writes w' = [] \<or> w_reads w' = []"
    using assms(2) by (auto simp: delimited.progress_def)
  have sent: "w_sent w' @ unsent rs @ fit (nat (rs_nbytes rs)) (if 0 \<le> rs_fileDesc rs then w_file w' else []) = ?whole"
    using post by (auto simp: delimited.post_def delimited.inv_def length_delimited_def)
  then have "length (w_sent w') \<le> length (w_sent w) + length ?r" by (metis length_append le_add1)
  then have writes: "length (w_writes w) \<le> length (w_writes w') + length ?r" using prog(1) by (auto simp: spent_def)
  have reads: "length (w_reads w) \<le> length (w_reads w') + length (w_file w) + 1"
    using prog(1) by (auto simp: spent_def fd_open_def split: if_splits)
  have fin using prog(3) writes reads assms(3,4) by auto
  then have "dpr' = dpr \<and> unsent rs = [] \<and> rs_nbytes rs = 0 \<or> dpr' = dpr_setCloseConn dpr"
    using post by (simp add: delimited.post_def)
  then have "dpr' = dpr" "unsent rs = []" "rs_nbytes rs = 0"
    using prog(2) assms(5) by (auto simp: dpr_setCloseConn_def)
  moreover have "willing w'" using prog(1) by (simp add: spent_def)
  ultimately show ?thesis using s sent \<open>fin\<close> writes reads by (simp add: fit_def)
qed

text \<open>A response is finished: when the socket takes at least one byte each time and as many times
  as the response has bytes, and the file does not block, one call of \<open>rsndr_send\<close> sends
  the whole response and returns true with the connection open.\<close>

theorem response_completes:
  assumes "fd = - 1 \<and> n = 0 \<or> 0 \<le> fd \<and> (st = Some (True, n) \<or> body = None \<and> n = 0)"
    and "willing \<lparr>w_sent = [], w_writes = ws, w_reads = rds, w_file = file\<rparr>"
    and "length (whole_response header body n file) < length ws" and "length file + 1 < length rds"
    and "\<not> dpr_closeConn dpr"
  shows "\<exists>rs w. rsndr_send u (rsndr_new st header body fd) sock
      \<lparr>w_sent = [], w_writes = ws, w_reads = rds, w_file = file\<rparr> dpr = Ok (True, rs, w, dpr) \<and>
    w_sent w = whole_response header body n file"
  using send_completes [OF assms(1,2), where header = header and u = u and sock = sock and dpr = dpr] assms(3-5) by fastforce

theorem response_completes_witness:
  "\<exists>rs w. rsndr_send NUL (rsndr_new (Some (True, 2)) ''H'' (Some ''a'') 3) 4
      \<lparr>w_sent = [], w_writes = replicate 50 (Wrote 1), w_reads = replicate 9 (Got 1), w_file = ''xyz''\<rparr> dpr_init =
      Ok (True, rs, w, dpr_init) \<and> w_sent w = ''H'' @ ''Content-Length: 3'' @ CRLF @ CRLF @ ''axy''"
proof -
  have r: "whole_response ''H'' (Some ''a'') 2 ''xyz'' = ''H'' @ ''Content-Length: 3'' @ CRLF @ CRLF @ ''axy''"
    by code_simp
  have "willing \<lparr>w_sent = [], w_writes = replicate 50 (Wrote 1), w_reads = replicate 9 (Got 1), w_file = ''xyz''\<rparr>"
    by (simp add: willing_def list_all_iff)
  from response_completes [OF _ this, of 3 2 "Some (True, 2)" "Some ''a''" "''H''" dpr_init NUL 4] r
  show ?thesis by (simp add: dpr_init_def)
qed

end
