(* ===== verification/Datareadyselector.thy ===== *)
theory Datareadyselector
  imports Membuf
begin

text \<open>
  \<open>src/datareadyselector.c\<close>: the descriptors a round of the server waits for, and the flags of the
  descriptors it opens.  A descriptor set is the set of its members; the answers of \<open>fcntl\<close> and
  \<open>select\<close> are arguments, and \<open>log_fatal\<close> ends the process (\<open>Abort\<close>).  \<open>drs_free\<close> only releases
  memory.
\<close>

subsection \<open>The selector\<close>

record DataReadySelector =
  drs_readFds :: "int set"
  drs_writeFds :: "int set"
  drs_numFds :: int

definition drs_new :: DataReadySelector where
  "drs_new = \<lparr>drs_readFds = {}, drs_writeFds = {}, drs_numFds = 0\<rparr>"

text \<open>\<open>FD_SET\<close> writes outside of the set for a descriptor that is not below \<open>FD_SETSIZE\<close>.\<close>

definition fd_set_add :: "int \<Rightarrow> int set \<Rightarrow> int set cres" where
  "fd_set_add fd S = (if 0 \<le> fd \<and> fd < 1024 then Ok (insert fd S) else Undef)"

definition drs_setReadFd :: "DataReadySelector \<Rightarrow> int \<Rightarrow> DataReadySelector cres" where
  "drs_setReadFd drs fd =
     cbind (fd_set_add fd (drs_readFds drs)) (\<lambda>S.
       Ok (drs\<lparr>drs_readFds := S, drs_numFds := (if drs_numFds drs \<le> fd then fd + 1 else drs_numFds drs)\<rparr>))"

definition drs_setWriteFd :: "DataReadySelector \<Rightarrow> int \<Rightarrow> DataReadySelector cres" where
  "drs_setWriteFd drs fd =
     cbind (fd_set_add fd (drs_writeFds drs)) (\<lambda>S.
       Ok (drs\<lparr>drs_writeFds := S, drs_numFds := (if drs_numFds drs \<le> fd then fd + 1 else drs_numFds drs)\<rparr>))"

text \<open>\<open>drs_select\<close>: what \<open>select\<close> waits for, and the selector afterwards; \<open>log_fatal\<close> when it fails.\<close>

definition drs_select :: "bool \<Rightarrow> DataReadySelector \<Rightarrow> (DataReadySelector \<times> int set \<times> int set \<times> int) cres" where
  "drs_select selectOk drs =
     (if selectOk then Ok (drs\<lparr>drs_readFds := {}, drs_writeFds := {}, drs_numFds := 0\<rparr>,
        drs_readFds drs, drs_writeFds drs, drs_numFds drs) else Abort)"

text \<open>The calls a connection makes, in their order.\<close>

datatype DrsCall = DrsSetReadFd int | DrsSetWriteFd int

fun drs_calls :: "DrsCall list \<Rightarrow> DataReadySelector \<Rightarrow> DataReadySelector cres" where
  "drs_calls [] drs = Ok drs"
| "drs_calls (DrsSetReadFd fd # cs) drs = cbind (drs_setReadFd drs fd) (drs_calls cs)"
| "drs_calls (DrsSetWriteFd fd # cs) drs = cbind (drs_setWriteFd drs fd) (drs_calls cs)"

subsection \<open>What is waited for\<close>

fun call_fd :: "DrsCall \<Rightarrow> int" where
  "call_fd (DrsSetReadFd fd) = fd"
| "call_fd (DrsSetWriteFd fd) = fd"

text \<open>\<open>select\<close> looks at the descriptors below \<open>numFds\<close> only, and \<open>numFds\<close> is no larger than needed.\<close>

definition drs_inv :: "DataReadySelector \<Rightarrow> bool" where
  "drs_inv drs = (let fds = drs_readFds drs \<union> drs_writeFds drs in
     fds \<subseteq> {0..<1024} \<and> drs_numFds drs = (if fds = {} then 0 else Max fds + 1))"

lemma finite_fds: "S \<subseteq> {0..<1024 :: int} \<Longrightarrow> finite S"
  by (rule finite_subset [of _ "{0..<1024}"]) auto

lemma fds_insert:
  fixes F :: "int set"
  assumes "F \<subseteq> {0..<1024}" "n = (if F = {} then 0 else Max F + 1)" "0 \<le> fd" "fd < 1024"
  shows "insert fd F \<subseteq> {0..<1024} \<and> (if n \<le> fd then fd + 1 else n) = Max (insert fd F) + 1"
  using assms finite_fds [OF assms(1)] by (auto simp: max_def)

lemma drs_set_inv:
  assumes "drs_inv drs" "0 \<le> fd" "fd < 1024"
  shows "\<exists>drs1. drs_setReadFd drs fd = Ok drs1 \<and> drs_inv drs1 \<and>
      drs_readFds drs1 = insert fd (drs_readFds drs) \<and> drs_writeFds drs1 = drs_writeFds drs"
    "\<exists>drs1. drs_setWriteFd drs fd = Ok drs1 \<and> drs_inv drs1 \<and>
      drs_readFds drs1 = drs_readFds drs \<and> drs_writeFds drs1 = insert fd (drs_writeFds drs)"
proof -
  let ?F = "drs_readFds drs \<union> drs_writeFds drs"
  define n where "n = (if drs_numFds drs \<le> fd then fd + 1 else drs_numFds drs)"
  have inv: "?F \<subseteq> {0..<1024}" "drs_numFds drs = (if ?F = {} then 0 else Max ?F + 1)"
    using assms(1) unfolding drs_inv_def Let_def by blast+
  from fds_insert [OF inv assms(2,3), folded n_def] inv(1)
  have f: "drs_readFds drs \<subseteq> {0..<1024}" "drs_writeFds drs \<subseteq> {0..<1024}" "n = Max (insert fd ?F) + 1" by simp_all
  show "\<exists>drs1. drs_setReadFd drs fd = Ok drs1 \<and> drs_inv drs1 \<and>
      drs_readFds drs1 = insert fd (drs_readFds drs) \<and> drs_writeFds drs1 = drs_writeFds drs"
    by (rule exI [of _ "drs\<lparr>drs_readFds := insert fd (drs_readFds drs), drs_numFds := n\<rparr>"])
      (simp add: drs_setReadFd_def fd_set_add_def n_def [symmetric] assms drs_inv_def f(1,2), simp add: f(3))
  show "\<exists>drs1. drs_setWriteFd drs fd = Ok drs1 \<and> drs_inv drs1 \<and>
      drs_readFds drs1 = drs_readFds drs \<and> drs_writeFds drs1 = insert fd (drs_writeFds drs)"
    by (rule exI [of _ "drs\<lparr>drs_writeFds := insert fd (drs_writeFds drs), drs_numFds := n\<rparr>"])
      (simp add: drs_setWriteFd_def fd_set_add_def n_def [symmetric] assms drs_inv_def f(1,2), simp add: f(3))
qed

lemma drs_calls_inv:
  assumes "drs_inv drs" "\<forall>c \<in> set cs. 0 \<le> call_fd c \<and> call_fd c < 1024"
  shows "\<exists>drs'. drs_calls cs drs = Ok drs' \<and> drs_inv drs' \<and>
    drs_readFds drs' = drs_readFds drs \<union> {fd. DrsSetReadFd fd \<in> set cs} \<and>
    drs_writeFds drs' = drs_writeFds drs \<union> {fd. DrsSetWriteFd fd \<in> set cs}"
  using assms
proof (induction cs arbitrary: drs)
  case Nil
  then show ?case by simp
next
  case (Cons c cs)
  have "0 \<le> call_fd c" "call_fd c < 1024" using Cons.prems(2) by simp_all
  note step = drs_set_inv [OF Cons.prems(1) this]
  obtain drs1 where 1: "drs_calls (c # cs) drs = drs_calls cs drs1" "drs_inv drs1"
      "drs_readFds drs1 = drs_readFds drs \<union> {fd. c = DrsSetReadFd fd}"
      "drs_writeFds drs1 = drs_writeFds drs \<union> {fd. c = DrsSetWriteFd fd}"
  proof (cases c)
    case (DrsSetReadFd fd)
    with step(1) show ?thesis by (auto intro: that)
  next
    case (DrsSetWriteFd fd)
    with step(2) show ?thesis by (auto intro: that)
  qed
  from Cons.IH [OF 1(2)] Cons.prems(2) 1 show ?case by auto
qed

lemma drs_calls_undef: "\<not> (\<forall>c \<in> set cs. 0 \<le> call_fd c \<and> call_fd c < 1024) \<Longrightarrow> drs_calls cs drs = Undef"
proof (induction cs arbitrary: drs)
  case (Cons c cs)
  show ?case
  proof (cases "0 \<le> call_fd c \<and> call_fd c < 1024")
    case True
    then have "drs_calls cs drs' = Undef" for drs' using Cons by simp
    with True show ?thesis by (cases c) (simp_all add: drs_setReadFd_def drs_setWriteFd_def fd_set_add_def)
  qed (cases c; auto simp: drs_setReadFd_def drs_setWriteFd_def fd_set_add_def)
qed simp

lemma fds_of_calls: "{fd. DrsSetReadFd fd \<in> set cs} \<union> {fd. DrsSetWriteFd fd \<in> set cs} = call_fd ` set cs"
proof (induction cs)
  case (Cons c cs)
  then show ?case by (cases c) auto
qed simp

text \<open>C40: The server waits for exactly what the connections asked for since the last time: \<open>select\<close> gets the
  descriptors that \<open>drs_setReadFd\<close> and \<open>drs_setWriteFd\<close> were called with, all of them below the number it looks
  at, and the selector is empty again afterwards, as the comment of the header says.  A descriptor that does not fit into the
  set makes the behaviour undefined.\<close>

theorem select_waits_for:
  assumes "drs_inv drs" "drs_readFds drs = {}" "drs_writeFds drs = {}"
  shows "cbind (drs_calls cs drs) (drs_select True) =
    (if \<forall>c \<in> set cs. 0 \<le> call_fd c \<and> call_fd c < 1024
     then Ok (drs_new, {fd. DrsSetReadFd fd \<in> set cs}, {fd. DrsSetWriteFd fd \<in> set cs},
            if cs = [] then 0 else Max (call_fd ` set cs) + 1)
     else Undef)"
proof (cases "\<forall>c \<in> set cs. 0 \<le> call_fd c \<and> call_fd c < 1024")
  case True
  obtain drs' where d: "drs_calls cs drs = Ok drs'" "drs_inv drs'"
      "drs_readFds drs' = {fd. DrsSetReadFd fd \<in> set cs}" "drs_writeFds drs' = {fd. DrsSetWriteFd fd \<in> set cs}"
    using drs_calls_inv [OF assms(1) True] assms(2,3) by auto
  have "{fd. DrsSetReadFd fd \<in> set cs} \<union> {fd. DrsSetWriteFd fd \<in> set cs} = call_fd ` set cs"
    using fds_of_calls .
  then show ?thesis using d True by (simp add: drs_select_def drs_new_def drs_inv_def)
next
  case False
  with drs_calls_undef show ?thesis by simp
qed

theorem select_waits_for_witness:
  "cbind (drs_calls [DrsSetReadFd 4, DrsSetWriteFd 7, DrsSetReadFd 3] drs_new) (drs_select True) =
     Ok (drs_new, {4, 3}, {7}, 8)"
proof -
  have s: "{fd. fd = 4 \<or> fd = 3} = {4, 3 :: int}" "{fd. fd = 7} = {7 :: int}" by auto
  show ?thesis
    using select_waits_for [of drs_new "[DrsSetReadFd 4, DrsSetWriteFd 7, DrsSetReadFd 3]"] s
    by (simp add: drs_inv_def drs_new_def)
qed

subsection \<open>The flags of a descriptor\<close>

text \<open>
  The flags of an open descriptor: those of \<open>F_SETFL\<close> and those of \<open>F_SETFD\<close>.  The answers of \<open>fcntl\<close> are the
  flags for \<open>F_GETFL\<close> and \<open>F_GETFD\<close> or -1, and whether \<open>F_SETFL\<close> and \<open>F_SETFD\<close> succeeded.
\<close>

type_synonym FdFlags = "u32 \<times> u32"

record FcntlAns =
  fa_getfl :: u32
  fa_setfl :: bool
  fa_getfd :: u32
  fa_setfd :: bool

definition O_NONBLOCK :: u32 where "O_NONBLOCK = 0x800"
definition FD_CLOEXEC :: u32 where "FD_CLOEXEC = 1"

definition drs_setNonBlockingCloExecFlags :: "FcntlAns \<Rightarrow> FdFlags cres" where
  "drs_setNonBlockingCloExecFlags a =
     (if fa_getfl a = - 1 \<or> \<not> fa_setfl a \<or> fa_getfd a = - 1 \<or> \<not> fa_setfd a then Abort
      else Ok (or (fa_getfl a) O_NONBLOCK, or (fa_getfd a) FD_CLOEXEC))"

definition fcntl_ok :: FcntlAns where
  "fcntl_ok = \<lparr>fa_getfl = 2, fa_setfl = True, fa_getfd = 0, fa_setfd = True\<rparr>"

text \<open>A descriptor on which \<open>read\<close> and \<open>write\<close> never wait, and that no program the server starts inherits.\<close>

definition safe_flags :: "FdFlags \<Rightarrow> bool" where
  "safe_flags fl = (and (fst fl) O_NONBLOCK \<noteq> 0 \<and> and (snd fl) FD_CLOEXEC \<noteq> 0)"

lemma flags_safe:
  assumes "drs_setNonBlockingCloExecFlags a = Ok fl"
  shows "safe_flags fl" "and (fst fl) (fa_getfl a) = fa_getfl a" "and (snd fl) (fa_getfd a) = fa_getfd a"
proof -
  have fl: "fl = (or (fa_getfl a) O_NONBLOCK, or (fa_getfd a) FD_CLOEXEC)"
    using assms by (auto simp: drs_setNonBlockingCloExecFlags_def split: if_splits)
  have abs: "and (or x y) y = y" "and (or x y) x = x" for x y :: u32
    by (auto simp: bit_eq_iff bit_and_iff bit_or_iff)
  show "safe_flags fl" by (simp add: safe_flags_def fl abs) (simp add: O_NONBLOCK_def FD_CLOEXEC_def)
  show "and (fst fl) (fa_getfl a) = fa_getfl a" "and (snd fl) (fa_getfd a) = fa_getfd a" by (simp_all add: fl abs)
qed

lemma fcntl_ok_flags: "drs_setNonBlockingCloExecFlags fcntl_ok = Ok (0x802, 1)"
  by (simp add: drs_setNonBlockingCloExecFlags_def fcntl_ok_def O_NONBLOCK_def FD_CLOEXEC_def)

end
