(* ===== verification/Cgiexecutor.thy ===== *)
theory Cgiexecutor
  imports Requestheader Responsesender Datareadyselector
begin

text \<open>
  \<open>src/cgiexecutor.c\<close>: running a CGI program.  The child process is what \<open>runCgi\<close> leaves of it:
  the program with its arguments and environment that \<open>execve\<close> gets, or the error answer that
  it prints instead.  The server's side feeds the body of the request to the pipe \<open>ce_inFd\<close> and
  builds the response from what it reads from \<open>ce_outFd\<close>; the answers of the pipes are those of the
  wire of theory \<open>Responsesender\<close>.  \<open>log_fatal\<close> ends the process (\<open>Abort\<close>).
\<close>

record CgiExecutor =
  ce_onlyHead :: bool
  ce_inFd :: int
  ce_outFd :: int
  ce_header :: DataHeader

subsection \<open>The environment of the program\<close>

definition appendEnv :: "bytes list \<Rightarrow> bytes \<Rightarrow> bytes \<Rightarrow> bytes list" where
  "appendEnv envp name val = envp @ [name @ ''='' @ val]"

definition appendEnv_opt :: "bytes list \<Rightarrow> bytes \<Rightarrow> bytes option \<Rightarrow> bytes list" where
  "appendEnv_opt envp name val = (case val of None \<Rightarrow> envp | Some v \<Rightarrow> appendEnv envp name v)"

definition omitHeaders :: "bytes list" where
  "omitHeaders = [''Content-Length'', ''Content-Type'', ''Authorization'', ''Connection'', ''Transfer-Encoding'']"

definition c_toupper :: "char \<Rightarrow> char" where
  "c_toupper c = (let n = (of_char c :: nat) in if 97 \<le> n \<and> n \<le> 122 then char_of (n - 32) else c)"

definition putHeader :: "bytes list \<Rightarrow> bytes \<Rightarrow> bytes \<Rightarrow> bytes list" where
  "putHeader envp headerName headerValue =
     (if list_ex (strcasecmp_eq headerName) omitHeaders then envp
      else appendEnv envp (''HTTP_'' @ map (\<lambda>c. if c = CHR ''-'' then CHR ''_'' else c_toupper c) headerName)
             headerValue)"

text \<open>The loop over the headers: the environment and the content length.\<close>

fun put_headers :: "(bytes \<times> bytes) list \<Rightarrow> bytes list \<Rightarrow> bytes option \<Rightarrow> bytes list \<times> bytes option" where
  "put_headers [] envp contentLength = (envp, contentLength)"
| "put_headers ((n, v) # hs) envp contentLength =
     (if strcasecmp_eq n ''Content-Type'' then put_headers hs (appendEnv envp ''CONTENT_TYPE'' v) contentLength
      else if strcasecmp_eq n ''Content-Length'' then put_headers hs envp (Some v)
      else put_headers hs (putHeader envp n v) contentLength)"

definition all_headers :: "RequestHeader \<Rightarrow> (bytes \<times> bytes) list" where
  "all_headers hdr = map (\<lambda>i. the (reqhdr_getHeaderAt hdr i)) [0..<length (rq_headers hdr)]"

text \<open>
  The answer that the child prints instead of running the program, or what it runs.  The body of
  a chunked request is read to its end first: the answers of \<open>read\<close> are \<open>Inl errno\<close> or the
  bytes, with whether they could be stored in the temporary file.  \<open>Run\<close> is a call of \<open>execve\<close>; the number is the
  position in the file that is the standard input then, and without a file it is the pipe.  The working
  directory, and the page that is printed when \<open>execve\<close> fails, are left out.  The buffer \<open>portnum\<close> has room for seven
  digits and the zero byte: \<open>sprintf\<close> writes behind it for a longer port.
\<close>

datatype CgiRun = Fatal bytes bytes | Run bytes "bytes list" "bytes list" "(bytes \<times> nat) option"

fun read_stdin :: "(nat + bytes \<times> bool) list \<Rightarrow> nat \<Rightarrow> bytes \<Rightarrow> (bytes \<times> bytes) + bytes" where
  "read_stdin as ctLen got =
     (if ctLen \<le> 1000000 then
        (case as of
           [] \<Rightarrow> Inr got
         | Inl e # as' \<Rightarrow> Inl (''stdin read fail'', ''500 Internal Server Error'')
         | Inr (d, stored) # as' \<Rightarrow>
            (if d = [] then Inr got
             else if \<not> stored then Inl (''tempfile write error'', ''500 Internal Server Error'')
             else read_stdin as' (ctLen + length d) (got @ d)))
      else Inl (''Request body too long'', ''413 Payload Too Large''))"

declare read_stdin.simps [simp del]

text \<open>The file that becomes the standard input, when it can be created, and its length as text.\<close>

definition handleNoContentLength :: "bool \<Rightarrow> (nat + bytes \<times> bool) list \<Rightarrow> (bytes \<times> bytes) + (bytes \<times> bytes)" where
  "handleNoContentLength tmpOk as =
     (if \<not> tmpOk then Inl (''unable to create tempfile'', ''500 Internal Server Error'')
      else case read_stdin as 0 [] of
          Inl m \<Rightarrow> Inl m
        | Inr d \<Rightarrow> Inr (to_base 10 (length d), d))"

definition runCgi ::
    "Config \<Rightarrow> bytes option \<Rightarrow> bool \<Rightarrow> (nat + bytes \<times> bool) list \<Rightarrow> RequestHeader \<Rightarrow> bytes \<Rightarrow> bytes option \<Rightarrow>
     bytes option \<Rightarrow> bytes option \<Rightarrow> CgiRun cres" where
  "runCgi c host tmpOk as hdr exePath peerAddr scriptName pathInfo =
     (let arg0 = (case strrchr (CHR ''/'') exePath of None \<Rightarrow> exePath | Some i \<Rightarrow> drop (Suc i) exePath);
          e1 = appendEnv [] ''GATEWAY_INTERFACE'' ''1.1'';
          e2 = (case pathInfo of None \<Rightarrow> e1
                | Some p \<Rightarrow> appendEnv_opt (appendEnv e1 ''PATH_INFO'' p) ''PATH_TRANSLATED''
                              (config_getSysPathForUrlPath c p));
          e3 = appendEnv_opt e2 ''QUERY_STRING'' (reqhdr_getQuery hdr);
          e4 = (case peerAddr of None \<Rightarrow> e3
                | Some a \<Rightarrow> appendEnv (appendEnv e3 ''REMOTE_ADDR'' a) ''REMOTE_HOST'' a);
          e5 = appendEnv e4 ''REQUEST_METHOD'' (reqhdr_getMethod hdr);
          e6 = appendEnv_opt e5 ''SCRIPT_NAME'' scriptName;
          (e7, ctLen) = put_headers (all_headers hdr) e6 None;
          e8 = appendEnv_opt e7 ''SERVER_NAME'' host;
          portnum = to_base 10 (unat (config_getListenPort c));
          e9 = appendEnv e8 ''SERVER_PORT'' portnum;
          e10 = appendEnv e9 ''SERVER_PROTOCOL'' ''HTTP/1.1'';
          e11 = appendEnv e10 ''SERVER_SOFTWARE'' ''filemanager-httpd''
      in if 8 \<le> length portnum then Undef
         else if ctLen = None \<and> reqhdr_isChunkedTransferEncoding hdr then
           (case handleNoContentLength tmpOk as of
              Inl (m, status) \<Rightarrow> Ok (Fatal m status)
            | Inr (len, d) \<Rightarrow> Ok (Run exePath [arg0] (appendEnv e11 ''CONTENT_LENGTH'' len) (Some (d, length d))))
         else Ok (Run exePath [arg0] (appendEnv_opt e11 ''CONTENT_LENGTH'' ctLen) None))"

text \<open>The text that \<open>fatalErrorResp\<close> prints.\<close>

definition fatalErrorResp :: "bytes \<Rightarrow> bytes \<Rightarrow> bytes" where
  "fatalErrorResp message status =
     ''Content-Type: text/html'' @ [LF] @ ''Status: '' @ status @ [LF, LF] @
     ''<!DOCTYPE html><html><head>'' @ [LF] @ ''<title>'' @ status @ ''</title>'' @ [LF] @ ''</head>'' @ [LF] @
     ''<body><h3>'' @ status @ ''</h3>'' @ [LF] @ message @ [LF] @ ''</body></html>''"

subsection \<open>The server's side\<close>

text \<open>
  The answers of the system: the end to write of the first pipe and the end to read of the second one, when
  \<open>pipe\<close> succeeds, whether \<open>fork\<close> does, and those of \<open>fcntl\<close> for both ends.  A failure ends the server, since
  it is reported by \<open>log_fatal\<close>.
\<close>

record Spawn =
  sp_toCgi :: "int option"
  sp_fromCgi :: "int option"
  sp_fork :: bool
  sp_inFlags :: FcntlAns
  sp_outFlags :: FcntlAns

definition cgiexe_new :: "Spawn \<Rightarrow> RequestHeader \<Rightarrow> CgiExecutor cres" where
  "cgiexe_new sp hdr =
     (case sp_toCgi sp of None \<Rightarrow> Abort
      | Some inFd \<Rightarrow>
        (case sp_fromCgi sp of None \<Rightarrow> Abort
         | Some outFd \<Rightarrow>
           (if \<not> sp_fork sp then Abort
            else cbind (drs_setNonBlockingCloExecFlags (sp_inFlags sp)) (\<lambda>_.
                 cbind (drs_setNonBlockingCloExecFlags (sp_outFlags sp)) (\<lambda>_.
                   Ok \<lparr>ce_onlyHead = (reqhdr_getMethod hdr = ''HEAD''), ce_inFd = inFd, ce_outFd = outFd,
                       ce_header = datahdr_new\<rparr>)))))"

text \<open>What the system answers when it has descriptors and processes left.\<close>

definition spawn_ok :: "Spawn \<Rightarrow> bool" where
  "spawn_ok sp = (sp_toCgi sp \<noteq> None \<and> sp_fromCgi sp \<noteq> None \<and> sp_fork sp \<and>
     drs_setNonBlockingCloExecFlags (sp_inFlags sp) \<noteq> Abort \<and> drs_setNonBlockingCloExecFlags (sp_outFlags sp) \<noteq> Abort)"

text \<open>Without descriptors or processes, which clients can use up, a request for a program ends the server.\<close>

lemma cgiexe_new_result:
  "cgiexe_new sp hdr =
     (if spawn_ok sp
      then Ok \<lparr>ce_onlyHead = (reqhdr_getMethod hdr = ''HEAD''), ce_inFd = the (sp_toCgi sp), ce_outFd = the (sp_fromCgi sp),
                ce_header = datahdr_new\<rparr>
      else Abort)"
  by (auto simp: cgiexe_new_def spawn_ok_def drs_setNonBlockingCloExecFlags_def split: option.splits)

definition example_spawn :: Spawn where
  "example_spawn = \<lparr>sp_toCgi = Some 5, sp_fromCgi = Some 6, sp_fork = True, sp_inFlags = fcntl_ok, sp_outFlags = fcntl_ok\<rparr>"

lemma example_spawn_ok: "spawn_ok example_spawn"
  by (simp add: spawn_ok_def example_spawn_def fcntl_ok_flags)

text \<open>
  The loop of \<open>cgiexe_processData\<close> on the bytes not yet written: the number of bytes processed, the bytes
  that went into the pipe and the answers left.  An error closes the pipe and drops the rest.
\<close>

fun cgi_write ::
    "CgiExecutor \<Rightarrow> WriteAns list \<Rightarrow> bytes \<Rightarrow> DataProcessingResult \<Rightarrow>
     CgiExecutor \<times> DataProcessingResult \<times> nat \<times> bytes \<times> WriteAns list" where
  "cgi_write ce as data dpr =
     (if ce_inFd ce < 0 \<or> data = [] then (ce, dpr, length data, [], as)
      else case as of
          [] \<Rightarrow> (ce, dpr_setReqState dpr DPR_AWAIT_WRITE (ce_inFd ce), 0, [], [])
        | WErr e # as' \<Rightarrow>
            (if e = EWOULDBLOCK then (ce, dpr_setReqState dpr DPR_AWAIT_WRITE (ce_inFd ce), 0, [], as')
             else (ce\<lparr>ce_inFd := - 1\<rparr>, dpr, length data, [], as'))
        | Wrote n # as' \<Rightarrow>
            (let k = min n (length data); (ce', dpr', m, w, as'') = cgi_write ce as' (drop k data) dpr
             in (ce', dpr', k + m, take k data @ w, as'')))"

declare cgi_write.simps [simp del]

definition cgiexe_processData ::
    "CgiExecutor \<Rightarrow> WriteAns list \<Rightarrow> bytes \<Rightarrow> DataProcessingResult \<Rightarrow>
     CgiExecutor \<times> DataProcessingResult \<times> nat \<times> bytes \<times> WriteAns list" where
  "cgiexe_processData ce as data dpr = cgi_write ce as data dpr"

definition cgiexe_requestReadCompleted :: "CgiExecutor \<Rightarrow> CgiExecutor" where
  "cgiexe_requestReadCompleted ce = ce\<lparr>ce_inFd := - 1\<rparr>"

text \<open>The loop that reads the header: the last answer of \<open>read\<close>, and the position behind the header.\<close>

function cgi_read :: "CgiExecutor \<Rightarrow> Wire \<Rightarrow> (CgiExecutor \<times> (bytes + nat) \<times> nat option \<times> Wire) cres" where
  "cgi_read ce w =
     (case file_read 4096 w of
        (Inr e, w') \<Rightarrow> Ok (ce, Inr e, None, w')
      | (Inl d, w') \<Rightarrow>
          (if d = [] then Ok (ce, Inl [], None, w')
           else cbind (datahdr_appendData (ce_header ce) d) (\<lambda>(h, r).
             case r of
               Some n \<Rightarrow> Ok (ce\<lparr>ce_header := h\<rparr>, Inl d, Some n, w')
             | None \<Rightarrow> cgi_read (ce\<lparr>ce_header := h\<rparr>) w')))"
  by pat_completeness auto
termination
  by (relation "measure (\<lambda>(ce, w). length (w_reads w))")
     (auto simp: file_read_def Let_def split: list.splits ReadAns.splits)

declare cgi_read.simps [simp del]

definition cgi_keeps :: "bytes \<Rightarrow> bool" where
  "cgi_keeps name = (\<not> strcasecmp_eq name ''Status'' \<and> \<not> strcasecmp_eq name ''Content-Type'' \<and>
     \<not> strncasecmp_eq 6 name ''X-CGI-'')"

definition cgi_resp_header :: "CgiExecutor \<Rightarrow> RespBuf" where
  "cgi_resp_header ce =
     (let hdr = ce_header ce;
          status = (case datahdr_getHeaderVal hdr ''Status'' of None \<Rightarrow> resp_cmnStatus HTTP_200_OK | Some s \<Rightarrow> s);
          ct = (case datahdr_getHeaderVal hdr ''Content-Type'' of None \<Rightarrow> ''text/plain'' | Some t \<Rightarrow> t);
          resp = resp_appendHeader (resp_new status (ce_onlyHead ce)) ''Content-Type'' ct
      in foldl (\<lambda>r (n, v). if cgi_keeps n then resp_appendHeader r n v else r) resp
           (map (\<lambda>i. the (datahdr_getHeaderLineAt hdr i)) [0..<length (dh_lines hdr)]))"

definition incomplete_page :: bytes where
  "incomplete_page =
     ''<!DOCTYPE html><html><head>'' @ [LF] @ ''<title>Internal Server Error</title>'' @ [LF] @ ''</head>'' @ [LF] @
     ''<body><h3>Internal Server Error</h3>'' @ [LF] @ ''Missing end-of-header line in CGI response'' @ [LF] @
     ''</body></html>''"

text \<open>The response, when it could be built.\<close>

definition cgiexe_getResponse ::
    "CgiExecutor \<Rightarrow> DataProcessingResult \<Rightarrow> Wire \<Rightarrow>
     (RespBuf option \<times> CgiExecutor \<times> DataProcessingResult \<times> Wire) cres" where
  "cgiexe_getResponse ce dpr w =
     cbind (cgi_read ce w) (\<lambda>(ce1, rd, offset, w1).
       case (offset, rd) of
         (Some n, Inl d) \<Rightarrow>
           cbind (resp_appendData (cgi_resp_header ce1) (drop n d)) (\<lambda>resp.
             Ok (Some (fst (resp_enqFile resp (ce_outFd ce1))), ce1\<lparr>ce_outFd := - 1\<rparr>, dpr, w1))
       | (None, Inl _) \<Rightarrow>
           cbind (resp_appendStr (resp_appendHeader (resp_new (resp_cmnStatus HTTP_500) (ce_onlyHead ce1))
                    ''Content-Type'' ''text/html'') incomplete_page) (\<lambda>resp.
             Ok (Some resp, ce1\<lparr>ce_outFd := - 1\<rparr>, dpr, w1))
       | (_, Inr e) \<Rightarrow>
           (if e \<noteq> EWOULDBLOCK then Abort
            else Ok (None, ce1, dpr_setRespState dpr DPR_AWAIT_READ (ce_outFd ce1), w1)))"

text \<open>The descriptors \<open>cgiexe_free\<close> closes.\<close>

definition cgiexe_free :: "CgiExecutor option \<Rightarrow> int list" where
  "cgiexe_free ce = (case ce of None \<Rightarrow> []
     | Some c \<Rightarrow> filter (\<lambda>fd. fd \<noteq> - 1) [ce_inFd c, ce_outFd c])"

subsection \<open>Credentials\<close>

lemma strcasecmp_trans: "strcasecmp_eq a b \<Longrightarrow> strcasecmp_eq a c \<Longrightarrow> strcasecmp_eq b c"
  by (simp add: strcasecmp_eq_def)

definition is_authorization :: "bytes \<Rightarrow> bool" where
  "is_authorization n = strcasecmp_eq n ''Authorization''"

lemma authorization_other:
  "is_authorization n \<Longrightarrow> \<not> strcasecmp_eq n ''Content-Type'' \<and> \<not> strcasecmp_eq n ''Content-Length'' \<and>
     \<not> strcasecmp_eq n ''Transfer-Encoding''"
  using strcasecmp_trans [of n "''Authorization''"]
  by (auto simp: is_authorization_def) (auto simp: strcasecmp_eq_def c_tolower_def)

lemma put_headers_authorization:
  "put_headers (filter (\<lambda>(n, v). \<not> is_authorization n) hs) env l = put_headers hs env l"
proof (induction hs env l rule: put_headers.induct)
  case (2 n v hs env l)
  then show ?case
    using authorization_other [of n]
    by (auto simp: putHeader_def omitHeaders_def is_authorization_def)
qed simp

definition without_credentials :: "RequestHeader \<Rightarrow> RequestHeader" where
  "without_credentials hdr = hdr\<lparr>rq_headers := filter (\<lambda>l. \<not> is_authorization (line_name l)) (rq_headers hdr)\<rparr>"

lemma all_headers_map:
  "all_headers hdr = map (\<lambda>l. (line_name l, skip_blanks (line_from l (strlen l + 1)))) (rq_headers hdr)"
  by (rule nth_equalityI) (auto simp: all_headers_def reqhdr_getHeaderAt_def Let_def)

lemma header_val_authorization:
  "\<not> strcasecmp_eq ''Authorization'' name \<Longrightarrow>
     header_val (filter (\<lambda>l. \<not> is_authorization (line_name l)) ls) name = header_val ls name"
  by (induction ls) (auto simp: is_authorization_def dest: strcasecmp_trans)

text \<open>C21: The credentials of a client never reach a CGI program: what the child runs, with its arguments, its
  environment and its input, or the error it prints, is the same when all \<open>Authorization\<close>
  headers, in whatever case they are written, are taken out of the request.\<close>

theorem cgi_ignores_credentials:
  "runCgi c host tmpOk as (without_credentials hdr) exePath peerAddr scriptName pathInfo =
   runCgi c host tmpOk as hdr exePath peerAddr scriptName pathInfo"
proof -
  let ?h = "without_credentials hdr"
  have "all_headers ?h = filter (\<lambda>(n, v). \<not> is_authorization n) (all_headers hdr)"
    by (simp add: all_headers_map without_credentials_def filter_map o_def)
  then have p: "put_headers (all_headers ?h) env l = put_headers (all_headers hdr) env l" for env l
    by (simp add: put_headers_authorization)
  have "\<not> strcasecmp_eq ''Authorization'' ''Transfer-Encoding''"
    by (simp add: strcasecmp_eq_def)
  then have c: "reqhdr_isChunkedTransferEncoding ?h = reqhdr_isChunkedTransferEncoding hdr"
    using header_val_authorization [of "''Transfer-Encoding''" "rq_headers hdr"]
    by (simp add: reqhdr_isChunkedTransferEncoding_def reqhdr_getHeaderVal_def without_credentials_def)
  have "reqhdr_getQuery ?h = reqhdr_getQuery hdr" "reqhdr_getMethod ?h = reqhdr_getMethod hdr"
    by (simp_all add: without_credentials_def reqhdr_getQuery_def reqhdr_getMethod_def)
  then show ?thesis by (simp only: runCgi_def Let_def p c)
qed

text \<open>
  The descriptor that becomes the standard input is the one the body was written to, and nothing moves its position
  back: a program run for a chunked request is told the length of the body but reads none of it.
\<close>

lemma chunked_body_not_read:
  assumes "runCgi c host tmpOk as hdr exePath peerAddr scriptName pathInfo = Ok (Run exe argv env (Some (d, pos)))"
  shows "drop pos d = []"
  using assms by (auto simp: runCgi_def Let_def split: if_splits sum.splits prod.splits)

text \<open>The port of the configuration is any number of 32 bits, but the buffer holds seven digits.\<close>

lemma to_base_longer: "10 ^ k \<le> n \<Longrightarrow> k < length (to_base 10 n)"
proof (induction k arbitrary: n)
  case (Suc k)
  then have "10 ^ k \<le> n div 10" by (simp add: less_eq_div_iff_mult_less_eq mult.commute)
  with Suc.IH [OF this] show ?case by (subst to_base.simps) (auto simp: div_greater_zero_iff)
qed simp

lemma long_port_undefined:
  assumes "10000000 \<le> config_getListenPort c"
  shows "runCgi c host tmpOk as hdr exePath peerAddr scriptName pathInfo = Undef"
proof -
  have "10 ^ 7 \<le> unat (config_getListenPort c)" using assms by (simp add: word_le_nat_alt)
  from to_base_longer [OF this] show ?thesis by (simp add: runCgi_def Let_def split: prod.splits)
qed

subsection \<open>The response of a program\<close>

lemma file_read_got:
  "w_reads w = Got k # as \<Longrightarrow> \<exists>m. 1 \<le> m \<and> m \<le> 4096 \<and>
     file_read 4096 w = (Inl (take m (w_file w)), w\<lparr>w_reads := as, w_file := drop m (w_file w)\<rparr>)"
  by (intro exI [of _ "min 4096 (max 1 k)"]) (simp add: file_read_def Let_def)

text \<open>Answers of a pipe that blocks at times: each call reads until it is through the header or would block.\<close>

definition pipe_ok :: "Wire \<Rightarrow> bool" where
  "pipe_ok w = list_all (\<lambda>a. case a of RErr e \<Rightarrow> e = EWOULDBLOCK | Got _ \<Rightarrow> True) (w_reads w)"

definition enough :: "ReadAns list \<Rightarrow> nat \<Rightarrow> bool" where
  "enough rds n = (list_all (\<lambda>a. case a of RErr _ \<Rightarrow> False | Got _ \<Rightarrow> True) rds \<and> n \<le> length rds)"

text \<open>The header that is still to come is \<open>hdr\<close>, and completes the parser in the state \<open>t\<close>.\<close>

definition awaits :: "DataHeader \<Rightarrow> CgiExecutor \<Rightarrow> Wire \<Rightarrow> bytes \<Rightarrow> bytes \<Rightarrow> bool" where
  "awaits t ce w hdr body = (datahdr_inv (ce_header ce) \<and> no_nul hdr \<and>
     datahdr_appendData (ce_header ce) hdr = Ok (t, Some (length hdr)) \<and> w_file w = hdr @ body)"

lemma awaits_ne: "awaits t ce w hdr body \<Longrightarrow> hdr \<noteq> []"
  using datahdr.feed_nil by (auto simp: awaits_def)

lemma cgi_read_spec:
  "awaits t ce w hdr body \<Longrightarrow> pipe_ok w \<Longrightarrow> \<exists>ce' rd off w'. cgi_read ce w = Ok (ce', rd, off, w') \<and>
     ce_onlyHead ce' = ce_onlyHead ce \<and> ce_outFd ce' = ce_outFd ce \<and>
     (case off of
        Some n \<Rightarrow> \<exists>d. rd = Inl d \<and> ce_header ce' = t \<and> drop n d @ w_file w' = body
      | None \<Rightarrow> rd = Inr EWOULDBLOCK \<and> \<not> enough (w_reads w) (length hdr) \<and>
          (\<exists>hdr'. awaits t ce' w' hdr' body \<and> length hdr' \<le> length hdr))"
proof (induction ce w arbitrary: hdr rule: cgi_read.induct)
  case (1 ce w)
  show ?case
  proof (cases "w_reads w")
    case Nil
    have "\<not> enough [] (length hdr)" using awaits_ne [OF 1(2)] by (simp add: enough_def)
    with Nil 1(2) show ?thesis by (subst cgi_read.simps) (auto simp: file_read_def)
  next
    case (Cons a as)
    show ?thesis
    proof (cases a)
      case (RErr e)
      then have "e = EWOULDBLOCK" "\<not> enough (w_reads w) (length hdr)"
        using 1(3) Cons by (simp_all add: pipe_ok_def enough_def)
      with Cons RErr 1(2) show ?thesis
        by (subst cgi_read.simps) (auto simp: file_read_def awaits_def)
    next
      case (Got k)
      obtain m where m: "1 \<le> m" "file_read 4096 w =
          (Inl (take m (w_file w)), w\<lparr>w_reads := as, w_file := drop m (w_file w)\<rparr>)"
        using file_read_got Cons Got by blast
      let ?d = "take m (w_file w)" and ?w = "w\<lparr>w_reads := as, w_file := drop m (w_file w)\<rparr>"
      have a: "datahdr_inv (ce_header ce)" "no_nul hdr"
          "datahdr_appendData (ce_header ce) hdr = Ok (t, Some (length hdr))" "w_file w = hdr @ body"
        using 1(2) by (auto simp: awaits_def)
      have d: "?d \<noteq> []" using a(4) awaits_ne [OF 1(2)] m(1) by simp
      show ?thesis
      proof (cases "length hdr \<le> m")
        case True
        then have d_eq: "?d = hdr @ take (m - length hdr) body" using a(4) by simp
        have "datahdr_appendData (ce_header ce) ?d = Ok (t, Some (length hdr))"
          unfolding d_eq using datahdr.feed_done [OF a(1,2,3)] by blast
        with m d d_eq a(4) True show ?thesis by (subst cgi_read.simps) simp
      next
        case False
        then have d_eq: "?d = take m hdr" and split: "hdr = ?d @ drop m hdr" using a(4) by simp_all
        have dn: "no_nul ?d" "no_nul (drop m hdr)" using a(2) unfolding d_eq by simp_all
        obtain u r where r: "datahdr_appendData (ce_header ce) ?d = Ok (u, r)"
          using datahdr.feed_defined [OF a(1) dn(1)] by auto
        have "r = None"
        proof (cases r)
          case (Some n)
          then have "datahdr_appendData (ce_header ce) (?d @ drop m hdr) = Ok (u, Some n)" "n \<le> length ?d"
            using datahdr.feed_done [OF a(1) dn(1)] r by auto
          then have "n = length hdr" using a(3) split by simp
          with \<open>n \<le> _\<close> False show ?thesis by simp
        qed
        note f = datahdr.feed_more [OF a(1) dn(1), of u "drop m hdr"] datahdr.feed_inv [OF a(1) dn(1), of u]
        have more: "cbind (datahdr_appendData u (drop m hdr)) (\<lambda>(v, r). Ok (v, map_option ((+) (length ?d)) r)) =
            Ok (t, Some (length hdr))"
          using f(1) r \<open>r = None\<close> a(3) split by simp
        have u: "datahdr_inv u" using f(2) r \<open>r = None\<close> by simp
        obtain v q where v: "datahdr_appendData u (drop m hdr) = Ok (v, q)"
          using datahdr.feed_defined [OF u dn(2)] by auto
        with more have vt: "v = t" "q = Some (length hdr - m)" using d_eq False by (cases q; auto)+
        have aw: "awaits t (ce\<lparr>ce_header := u\<rparr>) ?w (drop m hdr) body"
          using u dn(2) v vt a(4) False by (simp add: awaits_def)
        have pk: "pipe_ok ?w" using 1(3) Cons by (simp add: pipe_ok_def)
        have step: "cgi_read ce w = cgi_read (ce\<lparr>ce_header := u\<rparr>) ?w"
          using m d r \<open>r = None\<close> by (subst cgi_read.simps) simp
        have en: "enough (w_reads w) (length hdr) \<Longrightarrow> enough as (length hdr - m)"
          using Cons Got m(1) by (auto simp: enough_def)
        from 1(1) [OF m(2) [symmetric] refl d aw pk]
        show ?thesis unfolding step using en m(1) by (fastforce split: option.splits)
      qed
    qed
  qed
qed

text \<open>Calls of \<open>cgiexe_getResponse\<close>, each with the answers of the pipe during it.\<close>

fun cgi_calls :: "CgiExecutor \<Rightarrow> Wire \<Rightarrow> ReadAns list list \<Rightarrow> (RespBuf option \<times> CgiExecutor \<times> Wire) cres" where
  "cgi_calls ce w [] = Ok (None, ce, w)"
| "cgi_calls ce w (rds # sched) =
     cbind (cgiexe_getResponse ce dpr_init (w\<lparr>w_reads := rds\<rparr>)) (\<lambda>(resp, ce', dpr, w').
       case resp of Some r \<Rightarrow> Ok (Some r, ce', w') | None \<Rightarrow> cgi_calls ce' w' sched)"

text \<open>What the response is to be for the headers that a program prints.\<close>

definition cgi_header :: "(bytes \<times> bytes) list \<Rightarrow> bytes" where
  "cgi_header hs =
     ''HTTP/1.1 '' @ (case first_header ''Status'' hs of None \<Rightarrow> ''200 OK'' | Some s \<Rightarrow> skip_blanks s) @ CRLF @
     ''Content-Type: '' @ (case first_header ''Content-Type'' hs of None \<Rightarrow> ''text/plain'' | Some t \<Rightarrow> skip_blanks t) @ CRLF @
     concat (map (\<lambda>(n, v). n @ '': '' @ v @ CRLF) (filter (\<lambda>(n, v). cgi_keeps n) hs))"

lemma cgi_header_fold:
  "foldl (\<lambda>r (n, v). if cgi_keeps n then resp_appendHeader r n v else r) r hs =
     r\<lparr>rb_header := rb_header r @ concat (map (\<lambda>(n, v). n @ '': '' @ v @ CRLF) (filter (\<lambda>(n, v). cgi_keeps n) hs))\<rparr>"
  by (induction hs arbitrary: r) (auto simp: resp_appendHeader_def)

lemma stored_lines:
  assumes "\<forall>h \<in> set hs. header_ok h"
  shows "map (\<lambda>i. the (datahdr_getHeaderLineAt \<lparr>dh_lines = map stored_header hs, dh_cur = []\<rparr> i))
    [0..<length hs] = hs"
proof (rule nth_equalityI)
  fix i assume "i < length (map (\<lambda>i. the (datahdr_getHeaderLineAt \<lparr>dh_lines = map stored_header hs, dh_cur = []\<rparr> i)) [0..<length hs])"
  then have i: "i < length hs" by simp
  then have n: "no_nul (fst (hs ! i))" "no_nul (snd (hs ! i))" using assms by (auto simp: header_ok_def)
  then have "strlen (stored_header (hs ! i)) = length (fst (hs ! i))"
    using stored_header_name [OF n(1)] by (simp add: line_name_def strlen_def)
  with i n show "map (\<lambda>i. the (datahdr_getHeaderLineAt \<lparr>dh_lines = map stored_header hs, dh_cur = []\<rparr> i)) [0..<length hs] ! i = hs ! i"
    using stored_header_value [OF n(2)] stored_header_name [OF n(1)]
    by (simp add: datahdr_getHeaderLineAt_def Let_def prod_eq_iff)
qed simp

lemma cgi_resp_header_spec:
  assumes "\<forall>h \<in> set hs. header_ok h" "ce_header ce = \<lparr>dh_lines = map stored_header hs, dh_cur = []\<rparr>" "\<not> ce_onlyHead ce"
  shows "cgi_resp_header ce = \<lparr>rb_header = cgi_header hs, rb_body = Some [], rb_fileDesc = - 1\<rparr>"
proof -
  have v: "datahdr_getHeaderVal (ce_header ce) name = map_option skip_blanks (first_header name hs)" for name
    using header_val_stored [OF assms(1)] by (simp add: datahdr_getHeaderVal_def assms(2))
  have l: "map (\<lambda>i. the (datahdr_getHeaderLineAt (ce_header ce) i)) [0..<length (dh_lines (ce_header ce))] = hs"
    using stored_lines [OF assms(1)] by (simp add: assms(2))
  show ?thesis
    unfolding cgi_resp_header_def Let_def v l cgi_header_fold
    by (simp add: assms(3) resp_appendHeader_def resp_new_def resp_cmnStatus_def cgi_header_def
        split: option.splits)
qed

text \<open>C22: The output of a CGI program becomes the response.  When the program prints any
  headers, an empty line and a body, then however many calls it takes, and whatever pieces the pipe gives: no call
  fails; a response that is built has the status line from \<open>Status\<close> (200 without it), the
  content type (\<open>text/plain\<close> without it) and all other headers in order without the \<open>X-CGI-\<close> ones;
  what was read of the body behind the header, and what the pipe still holds, which the response gets as its
  file, are together exactly the body; and a call in which the pipe does not block, for as many reads as
  the headers have bytes, builds it.\<close>

theorem cgi_response:
  assumes "\<forall>h \<in> set hs. header_ok h" and "w_file w = concat (map print_header hs) @ CRLF @ body"
    and "list_all (\<lambda>rds. pipe_ok (w\<lparr>w_reads := rds\<rparr>)) sched" and "reqhdr_getMethod req \<noteq> ''HEAD''"
    and "spawn_ok sp"
  shows "\<exists>resp ce' w'. cbind (cgiexe_new sp req) (\<lambda>ce. cgi_calls ce w sched) = Ok (resp, ce', w') \<and>
    (case resp of
       Some r \<Rightarrow> rb_header r = cgi_header hs \<and> (\<exists>b. rb_body r = Some b \<and> b @ w_file w' = body) \<and>
         Some (rb_fileDesc r) = sp_fromCgi sp \<and> ce_outFd ce' = - 1
     | None \<Rightarrow> list_all (\<lambda>rds. \<not> enough rds (length (concat (map print_header hs)) + 2)) sched)"
proof -
  let ?t = "\<lparr>dh_lines = map stored_header hs, dh_cur = []\<rparr>" and ?hdr = "concat (map print_header hs) @ CRLF"
  have main: "\<exists>resp ce' w'. cgi_calls ce w sched = Ok (resp, ce', w') \<and>
    (case resp of
       Some r \<Rightarrow> rb_header r = cgi_header hs \<and> (\<exists>b. rb_body r = Some b \<and> b @ w_file w' = body) \<and>
         Some (rb_fileDesc r) = sp_fromCgi sp \<and> ce_outFd ce' = - 1
     | None \<Rightarrow> list_all (\<lambda>rds. \<not> enough rds (length ?hdr)) sched)"
    if "awaits ?t ce w hdr body" "length hdr \<le> length ?hdr" "list_all (\<lambda>rds. pipe_ok (w\<lparr>w_reads := rds\<rparr>)) sched"
      "\<not> ce_onlyHead ce" "Some (ce_outFd ce) = sp_fromCgi sp" for ce w hdr
    using that
  proof (induction sched arbitrary: ce w hdr)
    case Nil
    then show ?case by simp
  next
    case (Cons rds sched)
    let ?w = "w\<lparr>w_reads := rds\<rparr>"
    have "awaits ?t ce ?w hdr body" "pipe_ok ?w" using Cons.prems by (simp_all add: awaits_def)
    from cgi_read_spec [OF this] obtain ce1 rd off w1 where
      r: "cgi_read ce ?w = Ok (ce1, rd, off, w1)" "ce_onlyHead ce1 = ce_onlyHead ce" "ce_outFd ce1 = ce_outFd ce" and
      o: "case off of
        Some n \<Rightarrow> \<exists>d. rd = Inl d \<and> ce_header ce1 = ?t \<and> drop n d @ w_file w1 = body
      | None \<Rightarrow> rd = Inr EWOULDBLOCK \<and> \<not> enough (w_reads ?w) (length hdr) \<and>
          (\<exists>hdr'. awaits ?t ce1 w1 hdr' body \<and> length hdr' \<le> length hdr)"
      by blast
    show ?case
    proof (cases off)
      case (Some n)
      then obtain d where d: "rd = Inl d" "ce_header ce1 = ?t" "drop n d @ w_file w1 = body" using o by auto
      have h: "cgi_resp_header ce1 = \<lparr>rb_header = cgi_header hs, rb_body = Some [], rb_fileDesc = - 1\<rparr>"
        using cgi_resp_header_spec [OF assms(1) d(2)] r(2) Cons.prems(4) by simp
      show ?thesis using r Some d h Cons.prems(5)
        by (simp add: cgiexe_getResponse_def resp_appendData_def resp_enqFile_def)
    next
      case None
      then obtain hdr' where d: "rd = Inr EWOULDBLOCK" "\<not> enough rds (length hdr)" "awaits ?t ce1 w1 hdr' body"
          "length hdr' \<le> length hdr" using o by auto
      have "\<not> enough rds (length ?hdr)" using d(2) Cons.prems(2) by (auto simp: enough_def)
      moreover have "cgi_calls ce w (rds # sched) = cgi_calls ce1 w1 sched"
        using r(1) None d(1) by (simp add: cgiexe_getResponse_def)
      moreover have "pipe_ok (w1\<lparr>w_reads := x\<rparr>) = pipe_ok (w\<lparr>w_reads := x\<rparr>)" for x
        by (simp add: pipe_ok_def)
      ultimately show ?thesis
        using Cons.IH [OF d(3)] d(4) Cons.prems r(2,3) by (fastforce split: option.splits)
    qed
  qed
  have "datahdr_inv datahdr_new" by (simp add: datahdr_inv_def datahdr_new_def)
  moreover obtain ce where ce: "cgiexe_new sp req = Ok ce" "ce_header ce = datahdr_new" "\<not> ce_onlyHead ce"
      "Some (ce_outFd ce) = sp_fromCgi sp"
    using assms(4,5) by (auto simp: cgiexe_new_result spawn_ok_def)
  ultimately have "awaits ?t ce w ?hdr body"
    using datahdr_append_headers [OF assms(1)] no_nul_headers [OF assms(1)] assms(2) by (simp add: awaits_def)
  moreover have len: "length ?hdr = length (concat (map print_header hs)) + 2" by simp
  ultimately show ?thesis using main [OF _ order_refl assms(3) ce(3,4)] ce(1) unfolding len by simp
qed

theorem cgi_response_witness:
  "\<exists>r ce' w'. cbind (cgiexe_new example_spawn (reqhdr_new\<lparr>rq_request := ''GET''\<rparr>)) (\<lambda>ce. cgi_calls ce
       (wire_new (''Status: 404 Gone'' @ CRLF @ ''X-A:b'' @ CRLF @ CRLF @ ''body''))
       [[Got 3, RErr EWOULDBLOCK], replicate 40 (Got 9)]) = Ok (Some r, ce', w') \<and>
     rb_header r = ''HTTP/1.1 404 Gone'' @ CRLF @ ''Content-Type: text/plain'' @ CRLF @ ''X-A: b'' @ CRLF \<and>
     rb_fileDesc r = 6"
proof -
  let ?hs = "[(''Status'', '' 404 Gone''), (''X-A'', ''b'')]"
  let ?out = "''Status: 404 Gone'' @ CRLF @ ''X-A:b'' @ CRLF @ CRLF @ ''body''"
  let ?sched = "[[Got 3, RErr EWOULDBLOCK], replicate 40 (Got 9)]"
  have "\<forall>h \<in> set ?hs. header_ok h" by (simp add: header_ok_def)
  moreover have "w_file (wire_new ?out) = concat (map print_header ?hs) @ CRLF @ ''body''"
    by (simp add: wire_new_def print_header_def)
  moreover have "list_all (\<lambda>rds. pipe_ok ((wire_new ?out)\<lparr>w_reads := rds\<rparr>)) ?sched"
    by (simp add: pipe_ok_def list_all_iff)
  moreover have "reqhdr_getMethod (reqhdr_new\<lparr>rq_request := ''GET''\<rparr>) \<noteq> ''HEAD''"
    by (simp add: reqhdr_getMethod_def reqhdr_new_def)
  moreover note example_spawn_ok
  ultimately have "\<exists>resp ce' w'. cbind (cgiexe_new example_spawn (reqhdr_new\<lparr>rq_request := ''GET''\<rparr>))
        (\<lambda>ce. cgi_calls ce (wire_new ?out) ?sched) =
      Ok (resp, ce', w') \<and>
    (case resp of
       Some r \<Rightarrow> rb_header r = cgi_header ?hs \<and> (\<exists>b. rb_body r = Some b \<and> b @ w_file w' = ''body'') \<and>
         Some (rb_fileDesc r) = sp_fromCgi example_spawn \<and> ce_outFd ce' = - 1
     | None \<Rightarrow> list_all (\<lambda>rds. \<not> enough rds (length (concat (map print_header ?hs)) + 2)) ?sched)"
    by (rule cgi_response)
  moreover have "cgi_header ?hs = ''HTTP/1.1 404 Gone'' @ CRLF @ ''Content-Type: text/plain'' @ CRLF @ ''X-A: b'' @ CRLF"
    by code_simp
  moreover have "sp_fromCgi example_spawn = Some 6" by (simp add: example_spawn_def)
  moreover have "enough (replicate 40 (Got 9)) (length (concat (map print_header ?hs)) + 2)"
    by (simp add: enough_def print_header_def list_all_iff)
  ultimately show ?thesis by (fastforce split: option.splits)
qed

text \<open>A response without a body, for \<open>HEAD\<close>, makes the code append to a null pointer.\<close>

lemma cgi_head_undefined:
  assumes "\<forall>h \<in> set hs. header_ok h" and "ce_header ce = datahdr_new" and "ce_onlyHead ce"
    and "w_file w = concat (map print_header hs) @ CRLF @ body" and "w_reads w = replicate n (Got k)"
    and "length (concat (map print_header hs)) + 2 \<le> n"
  shows "cgiexe_getResponse ce dpr w = Undef"
proof -
  let ?t = "\<lparr>dh_lines = map stored_header hs, dh_cur = []\<rparr>" and ?hdr = "concat (map print_header hs) @ CRLF"
  have "awaits ?t ce w ?hdr body"
    using datahdr_append_headers [OF assms(1)] no_nul_headers [OF assms(1)] assms(2,4)
    by (simp add: awaits_def datahdr_inv_def datahdr_new_def)
  moreover have "pipe_ok w" "enough (w_reads w) (length ?hdr)"
    using assms(5,6) by (simp_all add: pipe_ok_def enough_def list_all_iff)
  ultimately obtain ce' rd n w' d where r: "cgi_read ce w = Ok (ce', rd, Some n, w')" "ce_onlyHead ce'" "rd = Inl d"
    using cgi_read_spec [of ?t ce w ?hdr body] assms(3) by (fastforce split: option.splits)
  have "rb_body (cgi_resp_header ce') = None"
    using r(2) by (simp add: cgi_resp_header_def cgi_header_fold Let_def resp_appendHeader_def resp_new_def)
  with r show ?thesis by (simp add: cgiexe_getResponse_def resp_appendData_def)
qed

end
