(* ===== verification/Contenttype.thy ===== *)
theory Contenttype
  imports Prelude
begin

text \<open>
  \<open>src/contenttype.c\<close>: the media type of a file from its extension.  The table is the one of
  the source, in its order; the pointers into the file name are offsets.
\<close>

definition mime_types :: "(bytes \<times> bytes) list" where
  "mime_types = [
    (''aac'', ''audio/x-hx-aac-adts''),
    (''avi'', ''video/x-msvideo''),
    (''bmp'', ''image/bmp''),
    (''bz2'', ''application/x-bzip2''),
    (''c'', ''text/x-c''),
    (''conf'', ''text/plain''),
    (''css'', ''text/css''),
    (''csv'', ''text/csv''),
    (''deb'', ''application/x-debian-package''),
    (''doc'', ''application/msword''),
    (''flv'', ''video/x-flv''),
    (''gif'', ''image/gif''),
    (''gz'', ''application/gzip''),
    (''htm'', ''text/html; charset=utf-8''),
    (''html'', ''text/html; charset=utf-8''),
    (''java'', ''text/plain''),
    (''jar'', ''application/jar''),
    (''jpe'', ''image/jpeg''),
    (''jpeg'', ''image/jpeg''),
    (''jpg'', ''image/jpeg''),
    (''js'', ''text/javascript''),
    (''json'', ''application/json''),
    (''jsp'', ''text/html; charset=utf-8''),
    (''m3u'', ''audio/x-mpegurl''),
    (''mid'', ''audio/midi''),
    (''midi'', ''audio/midi''),
    (''mjs'', ''text/javascript''),
    (''mov'', ''video/quicktime''),
    (''mp2'', ''audio/mpeg''),
    (''mp3'', ''audio/mpeg''),
    (''mp4'', ''video/mp4''),
    (''mpe'', ''video/mpeg''),
    (''mpeg'', ''video/mpeg''),
    (''mpg'', ''video/mpeg''),
    (''ogg'', ''video/ogg''),
    (''pdf'', ''application/pdf''),
    (''png'', ''image/png''),
    (''ppt'', ''application/vnd.ms-powerpoint''),
    (''ps'', ''application/postscript''),
    (''qt'', ''video/quicktime''),
    (''ra'', ''audio/x-realaudio''),
    (''ram'', ''audio/x-pn-realaudio''),
    (''rtf'', ''text/rtf''),
    (''sh'', ''text/plain; charset=utf-8''),
    (''sql'', ''application/sql''),
    (''svg'', ''image/svg+xml''),
    (''svgz'', ''image/svg+xml''),
    (''tar'', ''application/x-tar''),
    (''tif'', ''image/tiff''),
    (''tiff'', ''image/tiff''),
    (''tsv'', ''text/tab-separated-values; charset=utf-8''),
    (''txt'', ''text/plain; charset=utf-8''),
    (''wasm'', ''application/wasm''),
    (''wav'', ''audio/x-wav''),
    (''wma'', ''audio/x-ms-wma''),
    (''wmv'', ''video/x-ms-wmv''),
    (''wmx'', ''video/x-ms-wmx''),
    (''xls'', ''application/vnd.ms-excel''),
    (''xml'', ''text/xml; charset=utf-8''),
    (''xpm'', ''image/x-xpmi''),
    (''xsl'', ''text/xml; charset=utf-8''),
    (''zip'', ''application/zip'')]"

text \<open>The loop over the table, which ends at the first entry that matches.\<close>

fun find_mime :: "bytes \<Rightarrow> (bytes \<times> bytes) list \<Rightarrow> bytes option" where
  "find_mime ext [] = None"
| "find_mime ext ((e, m) # ts) = (if strcasecmp_eq ext e then Some m else find_mime ext ts)"

text \<open>The extension the code looks up; \<open>.txt\<close> when the last component has none.\<close>

definition file_ext :: "bytes \<Rightarrow> bytes" where
  "file_ext fname =
     (let b = (case strrchr (CHR ''/'') fname of None \<Rightarrow> 0 | Some i \<Rightarrow> i) in
      case strrchr (CHR ''.'') (drop b fname) of
        None \<Rightarrow> ''txt''
      | Some j \<Rightarrow> (if b + j = 0 \<or> fname ! (b + j - 1) = CHR ''/'' then ''txt''
                   else drop (b + j + 1) fname))"

definition cttype_getContentTypeByFileExt :: "bytes \<Rightarrow> bytes" where
  "cttype_getContentTypeByFileExt fname =
     (case find_mime (file_ext fname) mime_types of
        Some m \<Rightarrow> m | None \<Rightarrow> ''application/octet-stream'')"

subsection \<open>Properties\<close>

lemma find_mime_map_of:
  "find_mime ext ts = map_of (map (\<lambda>(e, m). (map c_tolower e, m)) ts) (map c_tolower ext)"
  by (induction ts) (auto simp: strcasecmp_eq_def)

lemma file_ext_no_dir:
  assumes "CHR ''/'' \<notin> set stem" "CHR ''.'' \<notin> set e" "CHR ''/'' \<notin> set e"
  shows "file_ext (stem @ CHR ''.'' # e) = (if stem = [] then ''txt'' else e)"
    and "file_ext (d @ CHR ''/'' # stem @ CHR ''.'' # e) = (if stem = [] then ''txt'' else e)"
proof -
  have n: "(stem @ CHR ''.'' # e) ! (length stem - 1) \<noteq> CHR ''/''" if "stem \<noteq> []"
  proof -
    have "(stem @ CHR ''.'' # e) ! (length stem - 1) = last stem"
      using that by (simp add: nth_append last_conv_nth)
    then show ?thesis using assms(1) that by (metis last_in_set)
  qed
  have s: "strrchr (CHR ''/'') (stem @ CHR ''.'' # e) = None"
    using assms by (intro strrchr_notin) auto
  show "file_ext (stem @ CHR ''.'' # e) = (if stem = [] then ''txt'' else e)"
    using n by (simp add: file_ext_def s strrchr_append assms)
  have s2: "strrchr (CHR ''/'') (d @ CHR ''/'' # stem @ CHR ''.'' # e) = Some (length d)"
    using assms by (intro strrchr_append) auto
  have "strrchr (CHR ''.'') (CHR ''/'' # stem @ CHR ''.'' # e) = Some (Suc (length stem))"
    using strrchr_append [OF assms(2), of "CHR ''/'' # stem"] by simp
  moreover have "(d @ CHR ''/'' # stem @ CHR ''.'' # e) ! (length d + length stem) \<noteq> CHR ''/''" if "stem \<noteq> []"
    using n [OF that] that by (cases stem) (auto simp: nth_append)
  ultimately show "file_ext (d @ CHR ''/'' # stem @ CHR ''.'' # e) = (if stem = [] then ''txt'' else e)"
    by (auto simp: file_ext_def s2 nth_append)
qed

text \<open>For a path with directory part \<open>d\<close> and a last component \<open>stem.ext\<close> with a
  non-empty stem, the media type is the one the table gives for \<open>ext\<close>, compared without
  regard to case, or \<open>application/octet-stream\<close>; a dot in a directory name plays no part, and
  a name that only starts with a dot is plain text.\<close>

theorem contentType_correct:
  assumes "CHR ''/'' \<notin> set stem" "CHR ''.'' \<notin> set e" "CHR ''/'' \<notin> set e"
    and "d = [] \<or> last d = CHR ''/''"
  shows "cttype_getContentTypeByFileExt (d @ stem @ CHR ''.'' # e) =
    (case map_of mime_types (map c_tolower (if stem = [] then ''txt'' else e)) of
       Some m \<Rightarrow> m | None \<Rightarrow> ''application/octet-stream'')"
proof -
  have low: "map (\<lambda>(e, m). (map c_tolower e, m)) mime_types = mime_types"
    by code_simp
  have "file_ext (d @ stem @ CHR ''.'' # e) = (if stem = [] then ''txt'' else e)"
    using assms(4) file_ext_no_dir [OF assms(1-3)]
    by (cases d rule: rev_cases) auto
  then show ?thesis
    by (simp only: cttype_getContentTypeByFileExt_def find_mime_map_of low)
qed

theorem contentType_correct_witness:
  "cttype_getContentTypeByFileExt ''/pub/a.b/photo.JPeG'' = ''image/jpeg''"
proof -
  have "map_of mime_types (map c_tolower ''JPeG'') = Some ''image/jpeg''" by code_simp
  then show ?thesis
    using contentType_correct [of "''photo''" "''JPeG''" "''/pub/a.b/''"] by simp
qed

end
