(* ===== verification/Reqhandler.thy ===== *)
theory Reqhandler
  imports Folderpage Cgiexecutor Contenttype Auth
begin

text \<open>
  \<open>src/reqhandler.c\<close>: choosing what answers a request (an error or redirection page, a file, the
  file manager, a CGI program), and passing on the data of the request and the progress of the
  response.  The environment of a request is the record \<open>ReqEnv\<close>: the configuration and the
  answers of the system; what changes during it is the record \<open>World\<close>.  \<open>rh_run\<close> is what a
  child process was started with.  \<open>sleep(2)\<close> after a failed login has no effect on the values.
\<close>

record ReqEnv =
  re_config :: Config
  re_host :: bytes
  re_now :: u64
  re_fs :: FileSys
  re_sys :: FmSys
  re_upload :: "nat \<Rightarrow> UploadFs"
  re_fuel :: nat
  re_fnm :: fnmatch_fun
  re_qs :: qsort_fun
  re_statErr :: "bytes \<Rightarrow> nat"
  re_open :: "bytes \<Rightarrow> nat + int"
  re_fstat :: "int \<Rightarrow> (bool \<times> nat) option"
  re_content :: "bytes \<Rightarrow> bytes"
  re_spawn :: Spawn
  re_cgiOutput :: bytes

text \<open>
  The nonce counter, the coming answers of \<open>write\<close> for uploaded files and for the pipe to a CGI
  program with the bytes it got, the wire of the response, the calls made on the file system,
  and the descriptors closed when handlers were freed.
\<close>

record World =
  wo_nonce :: u64
  wo_uploads :: "WriteAns list"
  wo_cgiWrites :: "WriteAns list"
  wo_cgiStdin :: bytes
  wo_wire :: Wire
  wo_calls :: "FsCall list"
  wo_closed :: "int list"

record RequestHandler =
  rh_peerAddr :: "bytes option"
  rh_filemgr :: "FileManager option"
  rh_cgiexe :: "CgiExecutor option"
  rh_response :: "ResponseSender option"
  rh_run :: "(bytes \<times> bytes \<times> bytes option) option"

subsection \<open>Pages\<close>

definition html_type :: "RespBuf \<Rightarrow> RespBuf" where
  "html_type r = resp_appendHeader r ''Content-Type'' ''text/html; charset=utf-8''"

definition printMovedAddSlash :: "bytes \<Rightarrow> bytes \<Rightarrow> bool \<Rightarrow> RespBuf cres" where
  "printMovedAddSlash host urlPath onlyHead =
     (let r = html_type (resp_appendHeader (resp_new ''301 Moved Permanently'' onlyHead) ''Location'' (urlPath @ ''/''))
      in if onlyHead then Ok r
         else resp_appendFmt host r
           (''<!DOCTYPE html><html><head><title>%S on %H</title></head>'' @ ''<body>'' @ [LF] @ ''<h3>Moved to <a href='' @
            [QUOTE] @ ''%S/'' @ [QUOTE] @ ''>%S/</a></h3>'' @ [LF] @ ''</body>'' @ ''</html>'' @ [LF])
           [AStr urlPath, AStr urlPath, AStr urlPath])"

definition printMesgPage :: "bytes \<Rightarrow> bytes \<Rightarrow> bytes option \<Rightarrow> bytes \<Rightarrow> bool \<Rightarrow> bool \<Rightarrow> RespBuf cres" where
  "printMesgPage host status mesg path onlyHead showLoginButton =
     (let r = html_type (resp_new status onlyHead) in
      if onlyHead then Ok r
      else
        cbind (resp_appendFmt host r (''<!DOCTYPE html>'' @ ''<html><head><title>%S on %H</title></head><body>'' @ [LF])
                 [AStr path]) (\<lambda>r1.
        cbind (if showLoginButton
               then resp_appendFmt host r1 (''<div style='' @ [APOS] @ ''text-align: right'' @ [APOS] @ ''>%R</div>'' @ [LF])
                      [AStr filemgr_getLoginForm]
               else Ok r1) (\<lambda>r2.
        cbind (resp_appendFmt host r2
                 (''<div style='' @ [QUOTE] @ ''text-align: center; margin: 150px 0px'' @ [QUOTE] @ ''>'' @ [LF] @
                  ''<span style='' @ [QUOTE] @ ''font-size: x-large; border: 1px solid #FFF0B0; '' @
                  ''background-color: #FFFCF0; padding: 50px 100px'' @ [QUOTE] @ ''>'' @ [LF] @ ''%R</span></div>'' @ [LF])
                 [AStr status]) (\<lambda>r3.
        cbind (case mesg of None \<Rightarrow> Ok r3 | Some m \<Rightarrow> resp_appendFmt host r3 ''<p>%S</p>'' [AStr m]) (\<lambda>r4.
        resp_appendStr r4 (''</body></html>'' @ [LF]))))))"

definition error_status :: "nat \<Rightarrow> HttpStatus" where
  "error_status sysErrno =
     (if sysErrno = 0 then HTTP_200_OK
      else if sysErrno = ENOENT \<or> sysErrno = ENOTDIR then HTTP_404_NOT_FOUND
      else if sysErrno = EPERM \<or> sysErrno = EACCES then HTTP_403_FORBIDDEN else HTTP_500)"

definition printErrorPage :: "ReqEnv \<Rightarrow> nat \<Rightarrow> bytes \<Rightarrow> bool \<Rightarrow> bool \<Rightarrow> RespBuf cres" where
  "printErrorPage env sysErrno path onlyHead showLoginButton =
     (let status = error_status sysErrno;
          mesg = (if status = HTTP_500 then Some (fms_strerror (re_sys env) sysErrno) else None)
      in printMesgPage (re_host env) (resp_cmnStatus status) mesg path onlyHead showLoginButton)"

definition printUnauthorized :: "ReqEnv \<Rightarrow> World \<Rightarrow> bytes \<Rightarrow> bool \<Rightarrow> (RespBuf \<times> World) cres" where
  "printUnauthorized env w urlPath onlyHead =
     cbind (printMesgPage (re_host env) ''401 Unauthorized'' None urlPath onlyHead False) (\<lambda>r.
       let (authHeader, nonce) = auth_getAuthResponseHeader (re_now env) (wo_nonce w)
       in Ok (html_type (resp_appendHeader r ''WWW-Authenticate'' authHeader), w\<lparr>wo_nonce := nonce\<rparr>))"

subsection \<open>Requests\<close>

text \<open>Without a slash in the path, \<open>strrchr\<close> gives a null pointer.\<close>

definition processFileReq :: "ReqEnv \<Rightarrow> World \<Rightarrow> bytes \<Rightarrow> bytes \<Rightarrow> bool \<Rightarrow> (RespBuf \<times> World) cres" where
  "processFileReq env w urlPath sysPath onlyHead =
     (case re_open env sysPath of
        Inr fd \<Rightarrow>
          (let r = resp_appendHeader (resp_new (resp_cmnStatus HTTP_200_OK) onlyHead) ''Content-Type''
                     (cttype_getContentTypeByFileExt sysPath)
           in if onlyHead then Ok (r, w)
              else case strrchr (CHR ''/'') urlPath of
                  None \<Rightarrow> Undef
                | Some i \<Rightarrow>
                    Ok (fst (resp_enqFile (resp_appendHeader r ''Content-Disposition''
                          (''inline; filename='' @ [QUOTE] @ drop (Suc i) urlPath @ [QUOTE])) fd),
                        w\<lparr>wo_wire := (wo_wire w)\<lparr>w_file := re_content env sysPath\<rparr>\<rparr>))
      | Inl errno \<Rightarrow> cbind (printErrorPage env errno urlPath onlyHead False) (\<lambda>r. Ok (r, w)))"

text \<open>The path is never a null pointer once the request line is complete.\<close>

definition processFolderReq ::
    "ReqEnv \<Rightarrow> World \<Rightarrow> RequestHeader \<Rightarrow> FileManager \<Rightarrow> (FileManager \<times> RespBuf \<times> World) cres option" where
  "processFolderReq env w rhdr fm =
     (let isHeadReq = (reqhdr_getMethod rhdr = ''HEAD'');
          queryFile = the (reqhdr_getPath rhdr);
          page = (\<lambda>fm' w'.
            if reqhdr_isActionAllowed (re_config env) rhdr PA_LIST_FOLDER then
              cbind (filemgr_printFolderContents (re_host env) (re_fnm env) (re_qs env) (re_fs env) (re_sys env)
                       (re_config env) fm' rhdr) (\<lambda>(resp, errno).
                case resp of Some r \<Rightarrow> Ok (fm', r, w')
                | None \<Rightarrow> cbind (printErrorPage env errno queryFile isHeadReq False) (\<lambda>r. Ok (fm', r, w')))
            else cbind (printErrorPage env ENOENT queryFile isHeadReq
                          (reqhdr_isWorthPuttingLogOnButton (re_config env) rhdr)) (\<lambda>r. Ok (fm', r, w')))
      in if reqhdr_getMethod rhdr = ''POST'' then
           map_option (\<lambda>r. cbind r (\<lambda>(fm', res, calls, partCalls).
               let w' = w\<lparr>wo_calls := wo_calls w @ calls @ partCalls\<rparr> in
               if res = PR_REQUIRE_AUTH
               then cbind (printUnauthorized env w' queryFile isHeadReq) (\<lambda>(r, w''). Ok (fm', r, w''))
               else page fm' w'))
             (filemgr_processPost (re_fuel env) (re_sys env) (re_upload env) (re_config env) fm rhdr)
         else Some (page fm w))"

fun infix_of :: "bytes \<Rightarrow> bytes \<Rightarrow> bool" where
  "infix_of p [] = (p = [])"
| "infix_of p (c # s) = (take (length p) (c # s) = p \<or> infix_of p s)"

definition has_dotdot :: "bytes \<Rightarrow> bool" where
  "has_dotdot q = (3 \<le> length q \<and> (infix_of ''/../'' q \<or> drop (length q - 3) q = ''/..''))"

text \<open>
  What the path names: the system path, the folder of shares, the error, whether it is a folder or a
  CGI, and the URL and the rest of the path of a CGI found above it.
\<close>

record Target =
  tg_sysPath :: "bytes option"
  tg_folder :: "Folder option"
  tg_errno :: nat
  tg_isFolder :: bool
  tg_isCGI :: bool
  tg_cgiUrl :: "bytes option"
  tg_cgiSubPath :: "bytes option"

definition find_target :: "ReqEnv \<Rightarrow> bytes \<Rightarrow> Target cres" where
  "find_target env queryFile =
     (let c = re_config env;
          t0 = \<lparr>tg_sysPath = config_getSysPathForUrlPath c queryFile, tg_folder = None, tg_errno = 0,
                tg_isFolder = False, tg_isCGI = False, tg_cgiUrl = None, tg_cgiSubPath = None\<rparr>
      in case tg_sysPath t0 of
           Some sysPath \<Rightarrow>
             (case fs_stat (re_fs env) sysPath of
                Some st \<Rightarrow>
                  cbind (if S_ISREG st then config_isCGI (re_fnm env) c queryFile else Ok False) (\<lambda>cgi.
                    Ok (t0\<lparr>tg_isFolder := S_ISDIR st, tg_isCGI := cgi\<rparr>))
              | None \<Rightarrow>
                  (let errno = re_statErr env sysPath in
                   if errno = ENOTDIR then
                     cbind (config_findCGI (re_fnm env) (re_fs env) c queryFile) (\<lambda>(found, cgi).
                       case cgi of
                         Some (exe, url, sub) \<Rightarrow>
                           Ok (if found
                               then t0\<lparr>tg_isCGI := True, tg_sysPath := Some exe, tg_cgiUrl := Some url, tg_cgiSubPath := sub\<rparr>
                               else t0\<lparr>tg_errno := errno, tg_cgiUrl := Some url, tg_cgiSubPath := sub\<rparr>)
                       | None \<Rightarrow> Ok (t0\<lparr>tg_errno := errno\<rparr>))
                   else Ok (t0\<lparr>tg_errno := errno\<rparr>)))
         | None \<Rightarrow>
             cbind (config_getSubSharesForPath (re_qs env) (re_fs env) c queryFile) (\<lambda>folder.
               Ok (case folder of
                     None \<Rightarrow> t0\<lparr>tg_errno := ENOENT\<rparr>
                   | Some f \<Rightarrow> t0\<lparr>tg_folder := Some f, tg_isFolder := True\<rparr>)))"

text \<open>
  What answers for the target: a redirection, the file manager, a CGI program, a file or an error page.
  The byte before an empty path is the zero byte that ends the method.
\<close>

definition serve_target ::
    "ReqEnv \<Rightarrow> World \<Rightarrow> RequestHandler \<Rightarrow> RequestHeader \<Rightarrow> bytes \<Rightarrow> Target \<Rightarrow>
     (RequestHandler \<times> RespBuf option \<times> World) cres" where
  "serve_target env w hdlr rhdr queryFile t =
     (let isHeadReq = (reqhdr_getMethod rhdr = ''HEAD'');
          reply = (\<lambda>r. cbind r (\<lambda>resp. Ok (hdlr, Some resp, w)))
      in if tg_errno t = 0 \<and> tg_isFolder t \<and> (queryFile = [] \<or> last queryFile \<noteq> CHR ''/'')
         then reply (printMovedAddSlash (re_host env) queryFile isHeadReq)
         else
           (let (indexFile, errno) =
              (if tg_errno t = 0 \<and> tg_isFolder t \<and> tg_folder t = None
               then config_getIndexFile (re_fnm env) (re_fs env) (re_config env) (the (tg_sysPath t))
               else (None, tg_errno t));
                sysPath = (case indexFile of Some f \<Rightarrow> Some f | None \<Rightarrow> tg_sysPath t);
                isFolder = (tg_isFolder t \<and> indexFile = None)
            in if errno = 0 then
                 if isFolder then
                   Ok (hdlr\<lparr>rh_filemgr := Some (filemgr_new (re_sys env) (re_config env) sysPath rhdr)\<rparr>, None, w)
                 else if tg_isCGI t then
                   cbind (cgiexe_new (re_spawn env) rhdr) (\<lambda>ce.
                     Ok (hdlr\<lparr>rh_cgiexe := Some ce,
                           rh_run := Some (the sysPath,
                             case tg_cgiUrl t of None \<Rightarrow> queryFile | Some url \<Rightarrow> url, tg_cgiSubPath t)\<rparr>, None,
                         w\<lparr>wo_wire := (wo_wire w)\<lparr>w_file := re_cgiOutput env\<rparr>\<rparr>))
                 else cbind (processFileReq env w queryFile (the sysPath) isHeadReq) (\<lambda>(resp, w').
                        Ok (hdlr, Some resp, w'))
               else reply (printErrorPage env errno queryFile isHeadReq False)))"

definition doProcessRequest ::
    "ReqEnv \<Rightarrow> World \<Rightarrow> RequestHandler \<Rightarrow> RequestHeader \<Rightarrow> (RequestHandler \<times> RespBuf option \<times> World) cres" where
  "doProcessRequest env w hdlr rhdr =
     (case reqhdr_getPath rhdr of
        None \<Rightarrow> Undef
      | Some queryFile \<Rightarrow>
          (let isHeadReq = (reqhdr_getMethod rhdr = ''HEAD'') in
           if reqhdr_getLoginState rhdr = LS_LOGIN_FAIL \<or>
              \<not> reqhdr_isActionAllowed (re_config env) rhdr PA_SERVE_PAGE
           then cbind (printUnauthorized env w queryFile isHeadReq) (\<lambda>(resp, w'). Ok (hdlr, Some resp, w'))
           else if has_dotdot queryFile
           then cbind (printMesgPage (re_host env) (resp_cmnStatus HTTP_403_FORBIDDEN) None queryFile isHeadReq False)
                  (\<lambda>resp. Ok (hdlr, Some resp, w))
           else cbind (find_target env queryFile) (serve_target env w hdlr rhdr queryFile)))"

definition finish_response :: "ReqEnv \<Rightarrow> RespBuf \<Rightarrow> ResponseSender" where
  "finish_response env resp = (let (h, b, fd) = resp_finish resp in rsndr_new (re_fstat env fd) h b fd)"

definition reqhdlr_new :: "ReqEnv \<Rightarrow> World \<Rightarrow> RequestHeader \<Rightarrow> bytes option \<Rightarrow> (RequestHandler \<times> World) cres" where
  "reqhdlr_new env w rhdr peerAddr =
     (let meth = reqhdr_getMethod rhdr;
          hdlr = \<lparr>rh_peerAddr = peerAddr, rh_filemgr = None, rh_cgiexe = None, rh_response = None, rh_run = None\<rparr>;
          finish = (\<lambda>(h, resp, w'). Ok (h\<lparr>rh_response := map_option (finish_response env) resp\<rparr>, w'))
      in if meth \<noteq> ''GET'' \<and> meth \<noteq> ''POST'' \<and> meth \<noteq> ''HEAD''
         then finish (hdlr, Some (resp_appendHeader (resp_new ''405 Method Not Allowed'' False)
                              ''Allow'' ''GET, HEAD, POST''), w)
         else cbind (doProcessRequest env w hdlr rhdr) finish)"

text \<open>The data of the body: the handler, the number of bytes it processed, and what changed.\<close>

definition reqhdlr_processData ::
    "ReqEnv \<Rightarrow> World \<Rightarrow> RequestHandler \<Rightarrow> bytes \<Rightarrow> DataProcessingResult \<Rightarrow>
     (RequestHandler \<times> nat \<times> DataProcessingResult \<times> World) cres" where
  "reqhdlr_processData env w hdlr data dpr =
     (case rh_filemgr hdlr of
        Some fm \<Rightarrow>
          cbind (filemgr_consumeBodyBytes (re_upload env) (wo_uploads w) fm data) (\<lambda>(fm', as).
            Ok (hdlr\<lparr>rh_filemgr := Some fm'\<rparr>, length data, dpr, w\<lparr>wo_uploads := as\<rparr>))
      | None \<Rightarrow>
          (case rh_cgiexe hdlr of
             Some ce \<Rightarrow>
               (let (ce', dpr', n, got, as) = cgiexe_processData ce (wo_cgiWrites w) data dpr
                in Ok (hdlr\<lparr>rh_cgiexe := Some ce'\<rparr>, n, dpr',
                       w\<lparr>wo_cgiWrites := as, wo_cgiStdin := wo_cgiStdin w @ got\<rparr>))
           | None \<Rightarrow> Ok (hdlr, length data, dpr, w)))"

text \<open>The end of the body; \<open>None\<close> when the fuel for a recursive removal is used up.\<close>

definition reqhdlr_requestReadCompleted ::
    "ReqEnv \<Rightarrow> World \<Rightarrow> RequestHandler \<Rightarrow> RequestHeader \<Rightarrow> (RequestHandler \<times> World) cres option" where
  "reqhdlr_requestReadCompleted env w hdlr rhdr =
     (case rh_cgiexe hdlr of
        Some ce \<Rightarrow> Some (Ok (hdlr\<lparr>rh_cgiexe := Some (cgiexe_requestReadCompleted ce)\<rparr>, w))
      | None \<Rightarrow>
          (case rh_response hdlr of
             Some _ \<Rightarrow> Some (Ok (hdlr, w))
           | None \<Rightarrow>
               (case rh_filemgr hdlr of
                  Some fm \<Rightarrow>
                    map_option (\<lambda>r. cbind r (\<lambda>(fm', resp, w').
                        Ok (hdlr\<lparr>rh_filemgr := Some fm', rh_response := Some (finish_response env resp)\<rparr>, w')))
                      (processFolderReq env w rhdr fm)
                | None \<Rightarrow>
                    Some (cbind (printMesgPage (re_host env) (resp_cmnStatus HTTP_500)
                        (Some ''reqhandler: unspecified handler'') (the (reqhdr_getPath rhdr))
                        (reqhdr_getMethod rhdr = ''HEAD'') False) (\<lambda>resp.
                      Ok (hdlr\<lparr>rh_response := Some (finish_response env resp)\<rparr>, w))))))"

definition reqhdlr_progressResponse ::
    "char \<Rightarrow> ReqEnv \<Rightarrow> World \<Rightarrow> RequestHandler \<Rightarrow> int \<Rightarrow> DataProcessingResult \<Rightarrow>
     (bool \<times> RequestHandler \<times> DataProcessingResult \<times> World) cres" where
  "reqhdlr_progressResponse u env w hdlr socketFd dpr =
     cbind
       (case (rh_response hdlr, rh_cgiexe hdlr) of
          (None, Some ce) \<Rightarrow>
            cbind (cgiexe_getResponse ce dpr (wo_wire w)) (\<lambda>(resp, ce', dpr', wire).
              Ok (hdlr\<lparr>rh_cgiexe := Some ce', rh_response := map_option (finish_response env) resp\<rparr>, dpr',
                  w\<lparr>wo_wire := wire\<rparr>))
        | _ \<Rightarrow> Ok (hdlr, dpr, w))
       (\<lambda>(hdlr1, dpr1, w1).
          case rh_response hdlr1 of
            None \<Rightarrow> Ok (False, hdlr1, dpr1, w1)
          | Some rs \<Rightarrow>
              cbind (rsndr_send u rs socketFd (wo_wire w1) dpr1) (\<lambda>(fin, rs', wire, dpr2).
                Ok (fin, hdlr1\<lparr>rh_response := Some rs'\<rparr>, dpr2, w1\<lparr>wo_wire := wire\<rparr>)))"

text \<open>
  Freeing the handler: the calls on the file system, for a form never processed, and the descriptors it closes, those of a
  CGI program and of the response.
\<close>

definition reqhdlr_free :: "RequestHandler option \<Rightarrow> FsCall list \<times> int list" where
  "reqhdlr_free hdlr = (case hdlr of None \<Rightarrow> ([], [])
     | Some h \<Rightarrow> (filemgr_free (rh_filemgr h),
         cgiexe_free (rh_cgiexe h) @ (case rsndr_free (rh_response h) of None \<Rightarrow> [] | Some fd \<Rightarrow> [fd])))"

subsection \<open>Pages exist\<close>

lemma append_fmt:
  "rb_body r = Some b \<Longrightarrow> fmt_like f as as \<Longrightarrow> \<exists>o'. resp_appendFmt host r f as = Ok (r\<lparr>rb_body := Some (b @ o')\<rparr>)"
  using fmt_loop_like [of f as as r b r b "[]" host] by (auto simp: appends_like_def resp_appendFmt_def)

definition page_of :: "RespBuf \<Rightarrow> bool \<Rightarrow> RespBuf \<Rightarrow> bool" where
  "page_of r onlyHead resp = (rb_header resp = rb_header r \<and> rb_fileDesc resp = - 1 \<and>
     (rb_body resp = None) = onlyHead)"

lemma page_body: "page_of r onlyHead resp \<Longrightarrow> \<not> onlyHead \<Longrightarrow> \<exists>b. rb_body resp = Some b"
  by (auto simp: page_of_def)

lemma page_fmt:
  assumes "page_of r False r1" "fmt_like f as as"
  shows "\<exists>r2. resp_appendFmt host r1 f as = Ok r2 \<and> page_of r False r2"
proof -
  obtain b where "rb_body r1 = Some b" using assms(1) by (auto simp: page_of_def)
  from append_fmt [OF this assms(2), of host] show ?thesis using assms(1) by (auto simp: page_of_def)
qed

lemma page_str: "page_of r False r1 \<Longrightarrow> \<exists>r2. resp_appendStr r1 s = Ok r2 \<and> page_of r False r2"
  by (auto simp: page_of_def resp_appendStr_def resp_appendData_def split: option.splits)

lemma page_new: "page_of (html_type (resp_new status onlyHead)) onlyHead (html_type (resp_new status onlyHead))"
  by (simp add: page_of_def html_type_def resp_new_def resp_appendHeader_def)

text \<open>One call after the other, each for a page that exists.\<close>

lemma page_bind:
  assumes "page_of r False r1" "fmt_like f as as" "\<And>r2. page_of r False r2 \<Longrightarrow> \<exists>x. k r2 = Ok x \<and> page_of r False x"
  shows "\<exists>x. cbind (resp_appendFmt host r1 f as) k = Ok x \<and> page_of r False x"
  using page_fmt [OF assms(1,2), of host] assms(3) by auto

lemma page_bind_if:
  assumes "page_of r False r1" "fmt_like f as as" "\<And>r2. page_of r False r2 \<Longrightarrow> \<exists>x. k r2 = Ok x \<and> page_of r False x"
  shows "\<exists>x. cbind (if c then resp_appendFmt host r1 f as else Ok r1) k = Ok x \<and> page_of r False x"
  using page_fmt [OF assms(1,2), of host] assms(1,3) by auto

lemma page_bind_case:
  assumes "page_of r False r1" "\<And>m. fmt_like f [AStr m] [AStr m]"
    "\<And>r2. page_of r False r2 \<Longrightarrow> \<exists>x. k r2 = Ok x \<and> page_of r False x"
  shows "\<exists>x. cbind (case mesg of None \<Rightarrow> Ok r1 | Some m \<Rightarrow> resp_appendFmt host r1 f [AStr m]) k = Ok x \<and> page_of r False x"
proof (cases mesg)
  case (Some m)
  with page_fmt [OF assms(1) assms(2) [of m], of host] assms(3) show ?thesis by auto
qed (use assms(1,3) in simp)

lemma mesg_page:
  "\<exists>r. printMesgPage host status mesg path onlyHead login = Ok r \<and>
     page_of (html_type (resp_new status onlyHead)) onlyHead r"
proof (cases onlyHead)
  case True
  then show ?thesis using page_new [of status True] by (simp add: printMesgPage_def)
next
  case False
  then show ?thesis
    unfolding printMesgPage_def Let_def
    by (simp only: if_False refl simp_thms)
       (rule page_bind, rule page_new, simp, rule page_bind_if, assumption, simp, rule page_bind, assumption, simp,
        rule page_bind_case, assumption, simp, rule page_str, assumption)
qed

lemma error_page:
  "\<exists>r. printErrorPage env errno path onlyHead login = Ok r \<and>
     page_of (html_type (resp_new (resp_cmnStatus (error_status errno)) onlyHead)) onlyHead r"
  unfolding printErrorPage_def Let_def by (rule mesg_page)

lemma moved_page:
  "\<exists>r. printMovedAddSlash host urlPath onlyHead = Ok r \<and>
     page_of (html_type (resp_appendHeader (resp_new ''301 Moved Permanently'' onlyHead) ''Location'' (urlPath @ ''/'')))
       onlyHead r"
proof -
  let ?h = "html_type (resp_appendHeader (resp_new ''301 Moved Permanently'' onlyHead) ''Location'' (urlPath @ ''/''))"
  have p: "page_of ?h onlyHead ?h"
    by (simp add: page_of_def html_type_def resp_new_def resp_appendHeader_def)
  show ?thesis
  proof (cases onlyHead)
    case True
    then show ?thesis using p by (simp add: printMovedAddSlash_def)
  next
    case False
    with page_fmt [of ?h ?h "''<!DOCTYPE html><html><head><title>%S on %H</title></head>'' @ ''<body>'' @ [LF] @ ''<h3>Moved to <a href='' @
            [QUOTE] @ ''%S/'' @ [QUOTE] @ ''>%S/</a></h3>'' @ [LF] @ ''</body>'' @ ''</html>'' @ [LF]"
        "[AStr urlPath, AStr urlPath, AStr urlPath]" host] p
    show ?thesis by (simp add: printMovedAddSlash_def Let_def)
  qed
qed

lemma unauthorized_page:
  "\<exists>r. printUnauthorized env w urlPath onlyHead = Ok (r, w\<lparr>wo_nonce := nonce_step (re_now env) (wo_nonce w)\<rparr>) \<and>
     rb_fileDesc r = - 1 \<and> (rb_body r = None) = onlyHead \<and>
     (\<exists>later. rb_header r = ''HTTP/1.1 401 Unauthorized'' @ CRLF @ ''Content-Type: text/html; charset=utf-8'' @ CRLF @
        ''WWW-Authenticate: '' @ fst (auth_getAuthResponseHeader (re_now env) (wo_nonce w)) @ CRLF @ later)"
proof -
  obtain r where "printMesgPage (re_host env) ''401 Unauthorized'' None urlPath onlyHead False = Ok r"
    "page_of (html_type (resp_new ''401 Unauthorized'' onlyHead)) onlyHead r"
    using mesg_page by blast
  moreover have "snd (auth_getAuthResponseHeader (re_now env) (wo_nonce w)) = nonce_step (re_now env) (wo_nonce w)"
    by (simp add: auth_getAuthResponseHeader_def Let_def)
  ultimately show ?thesis
    by (cases "auth_getAuthResponseHeader (re_now env) (wo_nonce w)")
       (simp add: printUnauthorized_def page_of_def html_type_def resp_new_def resp_appendHeader_def)
qed

subsection \<open>What a request can reach\<close>

lemma cbind_Ok: "cbind r f = Ok y \<longleftrightarrow> (\<exists>x. r = Ok x \<and> f x = Ok y)"
  by (cases r) simp_all

text \<open>A component \<open>..\<close> in (the rest of) a path.\<close>

definition dotdot_in :: "bytes \<Rightarrow> bool" where
  "dotdot_in r = (\<exists>a b. r = a @ ''/..'' @ b \<and> (b = [] \<or> hd b = CHR ''/''))"

lemma infix_of_iff: "infix_of p s \<longleftrightarrow> (\<exists>a b. s = a @ p @ b)"
proof (induction p s rule: infix_of.induct)
  case (2 p c s)
  show ?case
  proof
    assume "infix_of p (c # s)"
    then have "take (length p) (c # s) = p \<or> infix_of p s" by simp
    then show "\<exists>a b. c # s = a @ p @ b"
    proof
      assume t: "take (length p) (c # s) = p"
      have "c # s = [] @ p @ drop (length p) (c # s)"
        using append_take_drop_id [of "length p" "c # s"] unfolding t by simp
      then show ?thesis by blast
    next
      assume "infix_of p s"
      then obtain a b where "s = a @ p @ b" using 2 by blast
      then have "c # s = (c # a) @ p @ b" by simp
      then show ?thesis by blast
    qed
  next
    assume "\<exists>a b. c # s = a @ p @ b"
    then obtain a b where ab: "c # s = a @ p @ b" by blast
    show "infix_of p (c # s)"
    proof (cases a)
      case Nil
      with ab have "take (length p) (c # s) = p" by simp
      then show ?thesis by simp
    next
      case (Cons x xs)
      with ab 2 show ?thesis by auto
    qed
  qed
qed simp

text \<open>The test of the code finds every such component.\<close>

lemma has_dotdot_iff: "has_dotdot q \<longleftrightarrow> dotdot_in q"
proof
  assume "has_dotdot q"
  then have "(\<exists>a b. q = a @ ''/../'' @ b) \<or> 3 \<le> length q \<and> drop (length q - 3) q = ''/..''"
    by (auto simp: has_dotdot_def infix_of_iff)
  then show "dotdot_in q"
  proof
    assume "\<exists>a b. q = a @ ''/../'' @ b"
    then obtain a b where "q = a @ ''/..'' @ (CHR ''/'' # b)" by auto
    then show ?thesis unfolding dotdot_in_def by (intro exI [of _ a] exI [of _ "CHR ''/'' # b"]) simp
  next
    assume "3 \<le> length q \<and> drop (length q - 3) q = ''/..''"
    then have "q = take (length q - 3) q @ ''/..'' @ []" by (metis append_Nil2 append_take_drop_id)
    then show ?thesis unfolding dotdot_in_def by blast
  qed
next
  assume "dotdot_in q"
  then obtain a b where q: "q = a @ ''/..'' @ b" "b = [] \<or> hd b = CHR ''/''" by (auto simp: dotdot_in_def)
  show "has_dotdot q"
  proof (cases b)
    case Nil
    then show ?thesis using q by (simp add: has_dotdot_def)
  next
    case (Cons x b')
    then have "q = a @ ''/../'' @ b'" using q by simp
    then show ?thesis by (auto simp: has_dotdot_def infix_of_iff)
  qed
qed

lemma dotdot_part:
  assumes "\<not> dotdot_in (a @ r @ rest)" "rest = [] \<or> hd rest = CHR ''/''"
  shows "\<not> dotdot_in r"
proof
  assume "dotdot_in r"
  then obtain x y where r: "r = x @ ''/..'' @ y" "y = [] \<or> hd y = CHR ''/''" by (auto simp: dotdot_in_def)
  then have "a @ r @ rest = (a @ x) @ ''/..'' @ (y @ rest)" "y @ rest = [] \<or> hd (y @ rest) = CHR ''/''"
    using assms(2) by (cases y; auto)+
  then show False using assms(1) unfolding dotdot_in_def by blast
qed

text \<open>
  A system path that belongs to the path of a request, or to a beginning of it that ends before a slash: in the
  directory of a share, along the names of the path, and without a component \<open>..\<close>.
\<close>

definition below_share :: "Config \<Rightarrow> bytes \<Rightarrow> bytes \<Rightarrow> bool" where
  "below_share c q p = (\<exists>s \<in> set (cf_shares c). \<exists>r rest.
     q = sh_urlpath s @ r @ rest \<and> (r = [] \<or> hd r = CHR ''/'') \<and> (rest = [] \<or> hd rest = CHR ''/'') \<and>
     \<not> dotdot_in r \<and> (p = sh_syspath s @ r \<or> sh_syspath s @ r = [] \<and> p = ''/''))"

lemma sysPath_below:
  assumes "config_getSysPathForUrlPath c x = Some p" "q = x @ rest" "rest = [] \<or> hd rest = CHR ''/''"
    "\<not> dotdot_in q" "NUL \<notin> set q" "\<forall>s \<in> set (cf_shares c). NUL \<notin> set (sh_urlpath s)"
  shows "below_share c q p"
proof -
  let ?u = "if x = ''/'' then [] else x"
  have nul: "NUL \<notin> set ?u" using assms(2,5) by simp
  obtain s where s: "s \<in> set (cf_shares c)" "best_share ?u (cf_shares c) None = Some (s, length (sh_urlpath s))"
      "share_above ?u s"
    using best_share_spec [OF nul assms(6), of None] assms(1)
    by (auto simp: config_getSysPathForUrlPath_def)
  then obtain r where r: "?u = sh_urlpath s @ r" "r = [] \<or> hd r = CHR ''/''" by (auto simp: share_above_def)
  have "config_getSysPathForUrlPath c x = Some (if length (sh_urlpath s) < length ?u
      then sh_syspath s @ drop (length (sh_urlpath s)) ?u else if sh_syspath s = [] then ''/'' else sh_syspath s)"
    by (simp only: config_getSysPathForUrlPath_def Let_def s(2) option.case prod.case)
  then have p: "p = sh_syspath s @ r \<or> sh_syspath s @ r = [] \<and> p = ''/''"
    using assms(1) r(1) by (cases r) (auto split: if_splits)
  define rest' where "rest' = (if x = ''/'' then x @ rest else rest)"
  have rest': "q = sh_urlpath s @ r @ rest'" "rest' = [] \<or> hd rest' = CHR ''/''"
    using assms(2,3) r(1) by (auto simp: rest'_def split: if_splits)
  have "\<not> dotdot_in r" using dotdot_part rest' assms(4) by metis
  with s(1) r(2) rest' p show ?thesis unfolding below_share_def by blast
qed

lemma findCGI_below:
  assumes "config_findCGI fnm fs c q = Ok (True, Some (exe, url, sub))" "q \<noteq> []"
    "\<not> dotdot_in q" "NUL \<notin> set q" "\<forall>s \<in> set (cf_shares c). NUL \<notin> set (sh_urlpath s)"
  shows "below_share c q exe"
proof -
  have pos: "case strrchr (CHR ''/'') q of None \<Rightarrow> True | Some p \<Rightarrow> p < length q \<and> q ! p = CHR ''/''"
    using strrchr_Some [of "CHR ''/''" q] by (auto split: option.splits)
  obtain p where p: "cgi_loop fnm fs c q (strrchr (CHR ''/'') q) = Ok (Some (exe, p))"
    using assms(1) by (auto simp: config_findCGI_def cbind_Ok split: if_splits option.splits)
  from cgi_loop_spec [OF assms(2) pos, of fnm fs c] p
  have "p < length q" "q ! p = CHR ''/''" "cgi_exe fs c (take p q) = Some exe" by auto
  then have "config_getSysPathForUrlPath c (take p q) = Some exe" "hd (drop p q) = CHR ''/''"
    by (auto simp: cgi_exe_def hd_drop_conv_nth split: option.splits if_splits)
  from sysPath_below [OF this(1) _ _ assms(3-5), of "drop p q"] this(2) show ?thesis by simp
qed

lemma find_target_cases:
  assumes "find_target env q = Ok t" "tg_errno t = 0"
  shows "(tg_sysPath t = None \<and> tg_folder t \<noteq> None \<and> tg_isFolder t \<and> \<not> tg_isCGI t) \<or>
    (config_getSysPathForUrlPath (re_config env) q = tg_sysPath t \<and> tg_sysPath t \<noteq> None \<and>
       (tg_isCGI t \<longrightarrow> \<not> tg_isFolder t)) \<or>
    (\<exists>exe url sub. config_findCGI (re_fnm env) (re_fs env) (re_config env) q = Ok (True, Some (exe, url, sub)) \<and>
       tg_sysPath t = Some exe \<and> \<not> tg_isFolder t)"
proof (cases "config_getSysPathForUrlPath (re_config env) q")
  case None
  then show ?thesis using assms
    by (auto simp: find_target_def cbind_Ok Let_def ENOENT_def split: option.splits)
next
  case (Some sp)
  note def = assms(1) [unfolded find_target_def Let_def, simplified Some, simplified]
  show ?thesis
  proof (cases "fs_stat (re_fs env) sp")
    case st: (Some st)
    then show ?thesis using def Some by (auto simp: cbind_Ok S_ISREG_def S_ISDIR_def)
  next
    case st: None
    show ?thesis
    proof (cases "re_statErr env sp = ENOTDIR")
      case True
      then obtain found cgi where f: "config_findCGI (re_fnm env) (re_fs env) (re_config env) q = Ok (found, cgi)"
        using def st by (auto simp: cbind_Ok)
      show ?thesis
      proof (cases cgi)
        case None
        with f True def st assms(2) show ?thesis by (auto simp: ENOTDIR_def)
      next
        case (Some x)
        with f True def st assms(2) show ?thesis by (cases x) (auto simp: ENOTDIR_def split: if_splits)
      qed
    next
      case False
      with def st Some show ?thesis by auto
    qed
  qed
qed

lemma find_target_below:
  assumes "find_target env q = Ok t" "tg_errno t = 0" "tg_sysPath t = Some p" "q \<noteq> []"
    "\<not> dotdot_in q" "NUL \<notin> set q" "\<forall>s \<in> set (cf_shares (re_config env)). NUL \<notin> set (sh_urlpath s)"
  shows "below_share (re_config env) q p"
  using find_target_cases [OF assms(1,2)]
proof (elim disjE exE conjE)
  assume "config_getSysPathForUrlPath (re_config env) q = tg_sysPath t"
  then show ?thesis using sysPath_below [of _ q p q "[]"] assms by auto
next
  fix exe url sub
  assume "config_findCGI (re_fnm env) (re_fs env) (re_config env) q = Ok (True, Some (exe, url, sub))" "tg_sysPath t = Some exe"
  then show ?thesis using findCGI_below [OF _ assms(4-7)] assms(3) by auto
qed (use assms(3) in simp)

lemma index_loop_entry:
  "index_loop fnm fs pats d ns best f = Some p \<Longrightarrow> f = Some p \<or> (\<exists>n \<in> set ns. n \<noteq> ''.'' \<and> n \<noteq> ''..'' \<and> p = d @ n)"
proof (induction fnm fs pats d ns best f rule: index_loop.induct)
  case (2 fnm fs pats d n ns best f)
  then show ?case by (auto simp: Let_def split: if_splits)
qed simp

text \<open>A file that a request may get: below a share, or an index file in a directory below a share.\<close>

definition may_serve :: "ReqEnv \<Rightarrow> bytes \<Rightarrow> bytes \<Rightarrow> bool" where
  "may_serve env q p = (below_share (re_config env) q p \<or>
     (\<exists>d names n. below_share (re_config env) q d \<and> fs_dir (re_fs env) d = Inr names \<and> n \<in> set names \<and>
        n \<noteq> ''.'' \<and> n \<noteq> ''..'' \<and> p = with_slash d @ n))"

lemma index_may_serve:
  assumes "config_getIndexFile fnm (re_fs env) c d = (Some p, e)" "below_share (re_config env) q d"
  shows "may_serve env q p"
proof -
  obtain names where n: "fs_dir (re_fs env) d = Inr names"
      "index_loop fnm (re_fs env) (cf_indexPatterns c) (with_slash d) names (length (cf_indexPatterns c)) None = Some p"
    using assms(1) by (auto simp: config_getIndexFile_def split: sum.splits)
  from index_loop_entry [OF this(2)] n(1) assms(2) show ?thesis by (auto simp: may_serve_def)
qed

lemma finish_fd: "rs_fileDesc (finish_response env resp) \<in> {rb_fileDesc resp, - 1}"
  by (auto simp: finish_response_def resp_finish_def resp_appendHeader_def rsndr_new_def Let_def
      split: option.splits prod.splits if_splits)

lemma processFile_fd:
  assumes "processFileReq env w q p onlyHead = Ok (resp, w')" "rb_fileDesc resp \<noteq> - 1"
  shows "re_open env p = Inr (rb_fileDesc resp) \<and> strrchr (CHR ''/'') q \<noteq> None"
proof (cases "re_open env p")
  case (Inl e)
  then show ?thesis
    using assms error_page [of env e q onlyHead False] by (auto simp: processFileReq_def page_of_def)
next
  case (Inr fd)
  then show ?thesis using assms
    by (auto simp: processFileReq_def resp_new_def resp_appendHeader_def resp_enqFile_def Let_def
        split: if_splits option.splits)
qed

text \<open>What a new handler has to do with files: the response's, the program's and the file manager's.\<close>

definition handler_confined :: "ReqEnv \<Rightarrow> bytes \<Rightarrow> RequestHandler \<Rightarrow> RespBuf option \<Rightarrow> bool" where
  "handler_confined env q h resp =
     ((\<forall>r. resp = Some r \<longrightarrow> rb_fileDesc r \<noteq> - 1 \<longrightarrow> (\<exists>p. re_open env p = Inr (rb_fileDesc r) \<and> may_serve env q p)) \<and>
      (\<forall>exe url sub. rh_run h = Some (exe, url, sub) \<longrightarrow> below_share (re_config env) q exe) \<and>
      (\<forall>fm p. rh_filemgr h = Some fm \<longrightarrow> fm_sysPath fm = Some p \<longrightarrow> below_share (re_config env) q p))"

lemma page_confined:
  "rh_run h = None \<Longrightarrow> rh_filemgr h = None \<Longrightarrow> rb_fileDesc r = - 1 \<Longrightarrow> handler_confined env q h (Some r)"
  by (simp add: handler_confined_def)

lemma find_target_kinds:
  assumes "find_target env q = Ok t" "tg_errno t = 0"
  shows "(tg_isFolder t \<and> tg_folder t = None \<longrightarrow> tg_sysPath t \<noteq> None) \<and> (\<not> tg_isFolder t \<longrightarrow> tg_sysPath t \<noteq> None) \<and>
    (tg_isCGI t \<longrightarrow> \<not> tg_isFolder t)"
  using find_target_cases [OF assms] by auto

lemma serve_target_confined:
  assumes "serve_target env w h rhdr q t = Ok (h', resp, w')" "find_target env q = Ok t"
    "rh_run h = None" "rh_filemgr h = None" "\<not> dotdot_in q" "q \<noteq> []"
    "NUL \<notin> set q" "\<forall>s \<in> set (cf_shares (re_config env)). NUL \<notin> set (sh_urlpath s)"
  shows "handler_confined env q h' resp"
proof -
  let ?head = "reqhdr_getMethod rhdr = ''HEAD''"
  have below: "tg_errno t = 0 \<Longrightarrow> tg_sysPath t = Some p \<Longrightarrow> below_share (re_config env) q p" for p
    using find_target_below [OF assms(2) _ _ assms(6,5,7,8)] by blast
  obtain idx errno where i: "(if tg_errno t = 0 \<and> tg_isFolder t \<and> tg_folder t = None
        then config_getIndexFile (re_fnm env) (re_fs env) (re_config env) (the (tg_sysPath t))
        else (None, tg_errno t)) = (idx, errno)" by fastforce
  let ?sys = "case idx of Some f \<Rightarrow> Some f | None \<Rightarrow> tg_sysPath t"
  note def = serve_target_def [of env w h rhdr q t, unfolded i Let_def prod.case]
  consider (moved) "tg_errno t = 0 \<and> tg_isFolder t \<and> last q \<noteq> CHR ''/''"
    | (error) "\<not> (tg_errno t = 0 \<and> tg_isFolder t \<and> last q \<noteq> CHR ''/'')" "errno \<noteq> 0"
    | (served) "\<not> (tg_errno t = 0 \<and> tg_isFolder t \<and> last q \<noteq> CHR ''/'')" "errno = 0" by blast
  then show ?thesis
  proof cases
    case moved
    then show ?thesis
      using def assms(1,6) moved_page [of "re_host env" q ?head] page_confined [OF assms(3,4)]
      by (auto simp: page_of_def)
  next
    case error
    have "cbind (printErrorPage env errno q ?head False) (\<lambda>resp. Ok (h, Some resp, w)) = Ok (h', resp, w')"
      using def assms(1,6) error by (simp split: if_splits)
    then show ?thesis
      using error_page [of env errno q ?head False] page_confined [OF assms(3,4)] by (auto simp: page_of_def)
  next
    case served
    then have t0: "tg_errno t = 0" using i by (auto split: if_splits)
    note k = find_target_kinds [OF assms(2) t0]
    have idx: "may_serve env q f" if "idx = Some f" for f
      using i that below [OF t0] k index_may_serve [of "re_fnm env" env "re_config env" "the (tg_sysPath t)" f errno q]
      by (auto split: if_splits)
    have serve: "may_serve env q (the ?sys)" if "\<not> (tg_isFolder t \<and> idx = None)"
      using idx below [OF t0] k that by (cases idx) (auto simp: may_serve_def)
    consider (folder) "tg_isFolder t" "idx = None" | (cgi) "\<not> (tg_isFolder t \<and> idx = None)" "tg_isCGI t"
      | (file_req) "\<not> (tg_isFolder t \<and> idx = None)" "\<not> tg_isCGI t" by blast
    then show ?thesis
    proof cases
      case folder
      with def assms(1,3,6) served below [OF t0] show ?thesis
        by (auto simp: handler_confined_def filemgr_new_def Let_def split: option.splits prod.splits if_splits)
    next
      case cgi
      then have none: "idx = None" using k i by (auto split: if_splits)
      have sys: "tg_sysPath t = Some (the ?sys)" using none k cgi by auto
      obtain ce url where "h' = h\<lparr>rh_cgiexe := Some ce, rh_run := Some (the ?sys, url, tg_cgiSubPath t)\<rparr>" "resp = None"
        using def assms(1,6) served cgi by (cases "cgiexe_new (re_spawn env) rhdr") (auto split: if_splits)
      with assms(4) below [OF t0 sys] show ?thesis by (simp add: handler_confined_def)
    next
      case file_req
      have "cbind (processFileReq env w q (the ?sys) ?head) (\<lambda>(resp, w'). Ok (h, Some resp, w')) = Ok (h', resp, w')"
        using def assms(1,6) served file_req by (simp split: if_splits)
      then obtain r where r: "processFileReq env w q (the ?sys) ?head = Ok (r, w')" "h' = h" "resp = Some r"
        by (auto simp: cbind_Ok)
      then show ?thesis
        using processFile_fd [OF r(1)] serve [OF file_req(1)] assms(3,4) by (auto simp: handler_confined_def)
    qed
  qed
qed

lemma doProcessRequest_confined:
  assumes "doProcessRequest env w h rhdr = Ok (h', resp, w')" "reqhdr_getPath rhdr = Some q"
    "rh_run h = None" "rh_filemgr h = None"
    "NUL \<notin> set q" "\<forall>s \<in> set (cf_shares (re_config env)). NUL \<notin> set (sh_urlpath s)" "q \<noteq> []"
  shows "handler_confined env q h' resp"
proof -
  let ?head = "reqhdr_getMethod rhdr = ''HEAD''"
  let ?deny = "reqhdr_getLoginState rhdr = LS_LOGIN_FAIL \<or> \<not> reqhdr_isActionAllowed (re_config env) rhdr PA_SERVE_PAGE"
  note def = doProcessRequest_def [of env w h rhdr, unfolded assms(1,2) option.case Let_def]
  show ?thesis
  proof (cases "?deny \<or> has_dotdot q")
    case True
    then show ?thesis
      using def unauthorized_page [of env w q ?head]
        mesg_page [of "re_host env" "resp_cmnStatus HTTP_403_FORBIDDEN" None q ?head False]
        page_confined [OF assms(3,4)]
      by (auto simp: page_of_def split: if_splits)
  next
    case ok: False
    then obtain t where t: "find_target env q = Ok t" "serve_target env w h rhdr q t = Ok (h', resp, w')"
      using def by (cases "find_target env q") auto
    have dd: "\<not> dotdot_in q" using ok has_dotdot_iff by blast
    show ?thesis by (rule serve_target_confined [OF t(2,1) assms(3,4) dd assms(7,5,6)])
  qed
qed

text \<open>C2: A request reaches nothing outside the shares.  For every request with a path that is not empty, whatever the file
  system holds: a file that the response sends, a CGI program that is run and a folder that is
  managed lie in the directory of a share whose URL path begins the path of the request, along the names of
  that path and without a component \<open>..\<close> in them; only an index file, an entry of such a directory,
  has one more name.\<close>

theorem request_confined:
  assumes "reqhdlr_new env w rhdr peer = Ok (h, w')" and "reqhdr_getPath rhdr = Some q" and "q \<noteq> []" and "NUL \<notin> set q"
    and "\<forall>s \<in> set (cf_shares (re_config env)). NUL \<notin> set (sh_urlpath s)"
  shows "(\<forall>rs. rh_response h = Some rs \<and> rs_fileDesc rs \<noteq> - 1 \<longrightarrow>
      (\<exists>p. re_open env p = Inr (rs_fileDesc rs) \<and> may_serve env q p)) \<and>
    (\<forall>exe url sub. rh_run h = Some (exe, url, sub) \<longrightarrow> below_share (re_config env) q exe) \<and>
    (\<forall>fm p. rh_filemgr h = Some fm \<and> fm_sysPath fm = Some p \<longrightarrow> below_share (re_config env) q p)"
proof -
  let ?h0 = "\<lparr>rh_peerAddr = peer, rh_filemgr = None, rh_cgiexe = None, rh_response = None, rh_run = None\<rparr>"
  obtain h1 resp where c: "handler_confined env q h1 resp"
      "h = h1\<lparr>rh_response := map_option (finish_response env) resp\<rparr>"
  proof (cases "reqhdr_getMethod rhdr \<noteq> ''GET'' \<and> reqhdr_getMethod rhdr \<noteq> ''POST'' \<and> reqhdr_getMethod rhdr \<noteq> ''HEAD''")
    case True
    let ?r = "resp_appendHeader (resp_new ''405 Method Not Allowed'' False) ''Allow'' ''GET, HEAD, POST''"
    have "handler_confined env q ?h0 (Some ?r)"
      by (rule page_confined) (simp_all add: resp_appendHeader_def resp_new_def)
    moreover have "h = ?h0\<lparr>rh_response := map_option (finish_response env) (Some ?r)\<rparr>"
      using assms(1) True by (simp add: reqhdlr_new_def Let_def)
    ultimately show ?thesis by (rule that)
  next
    case False
    then obtain h1 resp w1 where d: "doProcessRequest env w ?h0 rhdr = Ok (h1, resp, w1)"
        "h = h1\<lparr>rh_response := map_option (finish_response env) resp\<rparr>"
      using assms(1) by (auto simp: reqhdlr_new_def Let_def cbind_Ok)
    have "handler_confined env q h1 resp"
      by (rule doProcessRequest_confined [OF d(1) assms(2) _ _ assms(4,5,3)]) simp_all
    then show ?thesis using d(2) by (rule that)
  qed
  have "\<exists>p. re_open env p = Inr (rs_fileDesc rs) \<and> may_serve env q p"
    if "rh_response h = Some rs" "rs_fileDesc rs \<noteq> - 1" for rs
  proof -
    have "map_option (finish_response env) resp = Some rs" using that(1) c(2) by simp
    then obtain r where r: "resp = Some r" "rs = finish_response env r" by auto
    then have "rs_fileDesc rs = rb_fileDesc r" using finish_fd [of env r] that(2) by auto
    then show ?thesis using c(1) r(1) that(2) by (auto simp: handler_confined_def)
  qed
  then show ?thesis using c by (auto simp: handler_confined_def)
qed

subsection \<open>Every request is answered\<close>

definition folder_result :: "Folder option cres \<Rightarrow> bool" where
  "folder_result r = (\<exists>fo. r = Ok fo \<and> (case fo of None \<Rightarrow> True | Some f \<Rightarrow> fo_wf f))"

lemma folder_result_if:
  "(c \<Longrightarrow> folder_result a) \<Longrightarrow> (\<not> c \<Longrightarrow> folder_result b) \<Longrightarrow> folder_result (if c then a else b)"
  by simp

lemma add_subshare_total:
  assumes "folder_result (Ok fo)"
  shows "folder_result (add_subshare fs u n s fo)"
proof -
  let ?f = "case fo of None \<Rightarrow> folder_new | Some f \<Rightarrow> f"
  have wf: "fo_wf ?f" using assms wf_folder_new by (auto simp: folder_result_def split: option.splits)
  have add: "\<exists>f'. folder_addEntryChunk ?f ent d m z = Ok f' \<and> fo_wf f'" for ent d m z
    using addEntryChunk_ok [OF wf] by blast
  have new: "folder_result (cbind (case fs_stat fs (sh_syspath s) of
        Some st \<Rightarrow> if dc_len p \<noteq> 0 then folder_addEntryChunk ?f ent True 0x1FF 0
          else folder_addEntryChunk ?f ent (S_ISDIR st) (st_mode st) (st_size st)
      | None \<Rightarrow> folder_addEntryChunk ?f ent True 0x1FF 0) (\<lambda>f'. Ok (Some f')))" for ent p
  proof -
    have "\<exists>f'. (case fs_stat fs (sh_syspath s) of
        Some st \<Rightarrow> if dc_len p \<noteq> 0 then folder_addEntryChunk ?f ent True 0x1FF 0
          else folder_addEntryChunk ?f ent (S_ISDIR st) (st_mode st) (st_size st)
      | None \<Rightarrow> folder_addEntryChunk ?f ent True 0x1FF 0) = Ok f' \<and> fo_wf f'"
      using add by (cases "fs_stat fs (sh_syspath s)") auto
    then show ?thesis by (auto simp: folder_result_def)
  qed
  have old: "folder_result (Ok (Some ?f))" using wf by (simp add: folder_result_def)
  let ?p = "dch_skipLeading (dch_initWithStr (Some (drop (n + 1) (sh_urlpath s @ [NUL])))) (CHR ''/'')"
  obtain x p' ent where e: "dch_extractTillChr ?p (CHR ''/'') = (x, p', ent)" by (metis prod_cases3)
  show ?thesis unfolding add_subshare_def Let_def e prod.case
    by (rule folder_result_if, rule folder_result_if, rule folder_result_if, rule old, rule new, rule assms, rule assms)
qed

lemma add_subshares_total: "folder_result (Ok fo) \<Longrightarrow> folder_result (add_subshares fs u n ss fo)"
proof (induction ss arbitrary: fo)
  case (Cons s ss)
  then show ?case
    using add_subshare_total [OF Cons.prems, of fs u n s] by (auto simp: folder_result_def)
qed simp

lemma getSubShares_total: "\<exists>fo. config_getSubSharesForPath qs fs c u = Ok fo"
  using add_subshares_total [of None fs u "trim_slashes u" "cf_shares c"]
  by (auto simp: config_getSubSharesForPath_def folder_result_def)

lemma findCGI_total:
  assumes "q \<noteq> []"
  shows "\<exists>r. config_findCGI fnm fs c q = Ok r"
proof -
  obtain m where "config_isCGI fnm c q = Ok m" using isCGI_total [OF assms] by blast
  moreover have "case strrchr (CHR ''/'') q of None \<Rightarrow> True | Some p \<Rightarrow> p < length q \<and> q ! p = CHR ''/''"
    using strrchr_Some [of "CHR ''/''" q] by (auto split: option.splits)
  from cgi_loop_spec [OF assms this, of fnm fs c] obtain r where
    "cgi_loop fnm fs c q (strrchr (CHR ''/'') q) = Ok r" by blast
  ultimately show ?thesis by (auto simp: config_findCGI_def split: option.splits)
qed

lemma find_target_total: "q \<noteq> [] \<Longrightarrow> \<exists>t. find_target env q = Ok t"
  using isCGI_total [of q "re_fnm env" "re_config env"] findCGI_total [of q "re_fnm env" "re_fs env" "re_config env"]
    getSubShares_total [of "re_qs env" "re_fs env" "re_config env" q]
  by (auto simp: find_target_def Let_def split: option.splits)

lemma processFile_total: "CHR ''/'' \<in> set q \<Longrightarrow> \<exists>r. processFileReq env w q p onlyHead = Ok r"
  using error_page [of env _ q onlyHead False] strrchr_None [of "CHR ''/''" q]
  by (auto simp: processFileReq_def Let_def split: sum.splits option.splits) (metis cbind_simps(1))+

lemma serve_target_total:
  assumes "CHR ''/'' \<in> set q" "spawn_ok (re_spawn env)"
  shows "\<exists>r. serve_target env w h rhdr q t = Ok r"
proof -
  let ?head = "reqhdr_getMethod rhdr = ''HEAD''"
  obtain r1 where r1: "printMovedAddSlash (re_host env) q ?head = Ok r1" using moved_page by blast
  have r2: "\<exists>r. printErrorPage env e q ?head False = Ok r" for e using error_page by blast
  have r3: "\<exists>r. cbind (processFileReq env w q p ?head) (\<lambda>(resp, w'). Ok (h, Some resp, w')) = Ok r" for p
    using processFile_total [OF assms(1), of env w p ?head] by auto
  have r4: "\<exists>r. cbind (printErrorPage env e q ?head False) (\<lambda>resp. Ok (h, Some resp, w)) = Ok r" for e
    using r2 [of e] by auto
  show ?thesis unfolding serve_target_def Let_def r1 using r3 r4 assms(2) by (auto simp: cgiexe_new_result split: prod.splits)
qed

text \<open>C32: Every request is answered: with a path that begins with a slash, whatever the method, the rest of the
  path, the configuration and the answers of the system, as long as it has pipes and processes for a CGI program, the handler is created without an
  abort or an access outside the code's memory; and unless the method is none of \<open>GET\<close>,
  \<open>HEAD\<close> and \<open>POST\<close> (which gives a 405 with the methods allowed), exactly one of a response,
  a file manager and a CGI program answers.\<close>

theorem request_answered:
  assumes "reqhdr_getPath rhdr = Some q" and "q \<noteq> []" and "hd q = CHR ''/''" and "spawn_ok (re_spawn env)"
  shows "\<exists>h w'. reqhdlr_new env w rhdr peer = Ok (h, w') \<and>
    (if reqhdr_getMethod rhdr \<in> {''GET'', ''HEAD'', ''POST''}
     then [rh_response h \<noteq> None, rh_filemgr h \<noteq> None, rh_cgiexe h \<noteq> None] \<in>
            {[True, False, False], [False, True, False], [False, False, True]}
     else h = \<lparr>rh_peerAddr = peer, rh_filemgr = None, rh_cgiexe = None,
        rh_response = Some (rsndr_new (re_fstat env (- 1)) (''HTTP/1.1 405 Method Not Allowed'' @ CRLF @
          ''Allow: GET, HEAD, POST'' @ CRLF @ ''Server: filemanager-httpd'' @ CRLF) (Some []) (- 1)),
        rh_run = None\<rparr> \<and> w' = w)"
proof (cases "reqhdr_getMethod rhdr \<in> {''GET'', ''HEAD'', ''POST''}")
  case False
  then show ?thesis
    by (auto simp: reqhdlr_new_def finish_response_def resp_finish_def resp_appendHeader_def resp_new_def Let_def)
next
  case True
  let ?h0 = "\<lparr>rh_peerAddr = peer, rh_filemgr = None, rh_cgiexe = None, rh_response = None, rh_run = None\<rparr>"
  let ?head = "reqhdr_getMethod rhdr = ''HEAD''"
  have slash: "CHR ''/'' \<in> set q" using assms(2,3) by (metis list.set_sel(1))
  obtain r1 where "printMesgPage (re_host env) (resp_cmnStatus HTTP_403_FORBIDDEN) None q ?head False = Ok r1"
    using mesg_page by blast
  moreover obtain r2 where "printUnauthorized env w q ?head = Ok r2" using unauthorized_page by blast
  moreover obtain t where "find_target env q = Ok t" using find_target_total [OF assms(2)] by blast
  moreover obtain r3 where "serve_target env w ?h0 rhdr q t = Ok r3" using serve_target_total [OF slash assms(4)] by blast
  ultimately have "\<exists>r. doProcessRequest env w ?h0 rhdr = Ok r"
    by (cases r2; cases r3) (auto simp: doProcessRequest_def assms(1) Let_def)
  then obtain h resp w' where d: "doProcessRequest env w ?h0 rhdr = Ok (h, resp, w')" by auto
  have one: "[resp \<noteq> None, rh_filemgr h \<noteq> None, rh_cgiexe h \<noteq> None] \<in>
      {[True, False, False], [False, True, False], [False, False, True]}"
    using d
    by (auto simp: doProcessRequest_def serve_target_def assms(1) cbind_Ok Let_def
        split: if_splits prod.splits)
  show ?thesis using d True one by (auto simp: reqhdlr_new_def Let_def)
qed

text \<open>C33: Without authorization a request gets a challenge and nothing else: when the login failed, or the client has no privilege
  to get pages, every \<open>GET\<close>, \<open>HEAD\<close> or \<open>POST\<close> request is answered by status 401 with a new
  nonce; no file is opened, no folder managed, no program run, and nothing else changes.\<close>

theorem unauthorized_challenged:
  assumes "reqhdr_getMethod rhdr \<in> {''GET'', ''HEAD'', ''POST''}" and "reqhdr_getPath rhdr = Some q"
    and "reqhdr_getLoginState rhdr = LS_LOGIN_FAIL \<or> \<not> reqhdr_isActionAllowed (re_config env) rhdr PA_SERVE_PAGE"
  shows "\<exists>rs later. reqhdlr_new env w rhdr peer =
      Ok (\<lparr>rh_peerAddr = peer, rh_filemgr = None, rh_cgiexe = None, rh_response = Some rs, rh_run = None\<rparr>,
          w\<lparr>wo_nonce := nonce_step (re_now env) (wo_nonce w)\<rparr>) \<and>
    rs_fileDesc rs = - 1 \<and>
    rs_header rs = Some (''HTTP/1.1 401 Unauthorized'' @ CRLF @ ''Content-Type: text/html; charset=utf-8'' @ CRLF @
      ''WWW-Authenticate: '' @ fst (auth_getAuthResponseHeader (re_now env) (wo_nonce w)) @ CRLF @ later)"
proof -
  let ?h0 = "\<lparr>rh_peerAddr = peer, rh_filemgr = None, rh_cgiexe = None, rh_response = None, rh_run = None\<rparr>"
  obtain r later where r: "printUnauthorized env w q (reqhdr_getMethod rhdr = ''HEAD'') =
      Ok (r, w\<lparr>wo_nonce := nonce_step (re_now env) (wo_nonce w)\<rparr>)" "rb_fileDesc r = - 1"
      "rb_header r = ''HTTP/1.1 401 Unauthorized'' @ CRLF @ ''Content-Type: text/html; charset=utf-8'' @ CRLF @
        ''WWW-Authenticate: '' @ fst (auth_getAuthResponseHeader (re_now env) (wo_nonce w)) @ CRLF @ later"
    using unauthorized_page by blast
  have "doProcessRequest env w ?h0 rhdr = Ok (?h0, Some r, w\<lparr>wo_nonce := nonce_step (re_now env) (wo_nonce w)\<rparr>)"
    using assms(2,3) r(1) by (simp add: doProcessRequest_def Let_def)
  then have n: "reqhdlr_new env w rhdr peer =
      Ok (?h0\<lparr>rh_response := Some (finish_response env r)\<rparr>, w\<lparr>wo_nonce := nonce_step (re_now env) (wo_nonce w)\<rparr>)"
    using assms(1) by (auto simp: reqhdlr_new_def Let_def)
  have "rs_fileDesc (finish_response env r) = - 1" using finish_fd [of env r] r(2) by auto
  moreover have "\<exists>x. rs_header (finish_response env r) = Some (rb_header r @ x)"
    by (auto simp: finish_response_def resp_finish_def resp_appendHeader_def rsndr_new_def Let_def
        split: option.splits prod.splits if_splits)
  ultimately show ?thesis using n r(3) by fastforce
qed

subsection \<open>A file on the wire\<close>

definition file_header :: "bytes \<Rightarrow> bytes \<Rightarrow> bytes" where
  "file_header q p = ''HTTP/1.1 200 OK'' @ CRLF @ ''Content-Type: '' @ cttype_getContentTypeByFileExt p @ CRLF @
     ''Content-Disposition: inline; filename='' @ [QUOTE] @ drop (Suc (the (strrchr (CHR ''/'') q))) q @ [QUOTE] @ CRLF @
     ''Server: filemanager-httpd'' @ CRLF"

text \<open>The handler of a \<open>GET\<close> request for a file has its header and its descriptor.\<close>

lemma get_file_handler:
  assumes "reqhdr_getMethod rhdr = ''GET''" and "reqhdr_getPath rhdr = Some q" and "CHR ''/'' \<in> set q"
    and "reqhdr_getLoginState rhdr \<noteq> LS_LOGIN_FAIL" and "reqhdr_isActionAllowed (re_config env) rhdr PA_SERVE_PAGE"
    and "\<not> dotdot_in q" and "config_getSysPathForUrlPath (re_config env) q = Some p"
    and "fs_stat (re_fs env) p = Some st" and "st_kind st = KindReg" and "config_isCGI (re_fnm env) (re_config env) q = Ok False"
    and "re_open env p = Inr fd" and "re_fstat env fd = Some (True, length (re_content env p))"
  shows "reqhdlr_new env w rhdr peer = Ok (\<lparr>rh_peerAddr = peer, rh_filemgr = None, rh_cgiexe = None,
      rh_response = Some (rsndr_new (Some (True, length (re_content env p))) (file_header q p) (Some []) fd), rh_run = None\<rparr>,
    w\<lparr>wo_wire := (wo_wire w)\<lparr>w_file := re_content env p\<rparr>\<rparr>)"
proof -
  let ?h0 = "\<lparr>rh_peerAddr = peer, rh_filemgr = None, rh_cgiexe = None, rh_response = None, rh_run = None\<rparr>"
  let ?n = "length (re_content env p)" and ?c = "re_content env p"
  have dd: "\<not> has_dotdot q" using assms(6) has_dotdot_iff by blast
  obtain i where i: "strrchr (CHR ''/'') q = Some i" using assms(3) strrchr_None by blast
  have t: "find_target env q = Ok \<lparr>tg_sysPath = Some p, tg_folder = None, tg_errno = 0, tg_isFolder = False,
      tg_isCGI = False, tg_cgiUrl = None, tg_cgiSubPath = None\<rparr>"
    using assms(7-10) by (simp add: find_target_def Let_def S_ISREG_def S_ISDIR_def)
  define r where "r = fst (resp_enqFile (resp_appendHeader (resp_appendHeader (resp_new (resp_cmnStatus HTTP_200_OK) False)
      ''Content-Type'' (cttype_getContentTypeByFileExt p)) ''Content-Disposition''
      (''inline; filename='' @ [QUOTE] @ drop (Suc i) q @ [QUOTE])) fd)"
  have "doProcessRequest env w ?h0 rhdr = Ok (?h0, Some r, w\<lparr>wo_wire := (wo_wire w)\<lparr>w_file := ?c\<rparr>\<rparr>)"
    using assms(1,2,4,5) dd t i assms(11)
    by (simp add: doProcessRequest_def serve_target_def processFileReq_def r_def Let_def)
  moreover have "finish_response env r = rsndr_new (Some (True, ?n)) (file_header q p) (Some []) fd"
    using assms(12) i
    by (simp add: finish_response_def r_def resp_finish_def resp_appendHeader_def resp_enqFile_def resp_new_def
        resp_cmnStatus_def file_header_def)
  ultimately show ?thesis using assms(1) by (simp add: reqhdlr_new_def Let_def)
qed

text \<open>C27: A file that is asked for arrives.  For a \<open>GET\<close> of a path that is a regular file below a share and no CGI, by a client that
  may have it: the bytes on the wire, whatever a socket that blocks or fails takes at a time and in
  whatever pieces the file is read, are a beginning of the status line, the headers with the media type and the
  length, and the content of the file, with nothing behind it; and all of this when the sender is finished without closing
  the connection.  The handler, the response buffer and the sender together make them.\<close>

theorem get_file_arrives:
  assumes "reqhdr_getMethod rhdr = ''GET''" and "reqhdr_getPath rhdr = Some q" and "CHR ''/'' \<in> set q"
    and "reqhdr_getLoginState rhdr \<noteq> LS_LOGIN_FAIL" and "reqhdr_isActionAllowed (re_config env) rhdr PA_SERVE_PAGE"
    and "\<not> dotdot_in q" and "config_getSysPathForUrlPath (re_config env) q = Some p"
    and "fs_stat (re_fs env) p = Some st" and "st_kind st = KindReg" and "config_isCGI (re_fnm env) (re_config env) q = Ok False"
    and "re_open env p = Inr fd" and "0 \<le> fd" and "re_fstat env fd = Some (True, length (re_content env p))"
    and "wo_wire w = wire_new []" and "benign sched"
  shows "\<exists>h w' rs fin rs' wire dpr. reqhdlr_new env w rhdr peer = Ok (h, w') \<and> rh_response h = Some rs \<and>
    send_calls u rs sock (wo_wire w') sched = Ok (fin, rs', wire, dpr) \<and>
    (\<exists>later. w_sent wire @ later = file_header q p @ ''Content-Length: '' @
       to_base 10 (length (re_content env p)) @ CRLF @ CRLF @ re_content env p) \<and>
    (fin \<and> \<not> dpr_closeConn dpr \<longrightarrow> w_sent wire = file_header q p @ ''Content-Length: '' @
       to_base 10 (length (re_content env p)) @ CRLF @ CRLF @ re_content env p)"
proof -
  let ?n = "length (re_content env p)" and ?c = "re_content env p"
  let ?rs = "rsndr_new (Some (True, ?n)) (file_header q p) (Some []) fd"
  let ?h = "\<lparr>rh_peerAddr = peer, rh_filemgr = None, rh_cgiexe = None, rh_response = Some ?rs, rh_run = None\<rparr>"
  let ?w = "w\<lparr>wo_wire := (wo_wire w)\<lparr>w_file := ?c\<rparr>\<rparr>"
  let ?whole = "whole_response (file_header q p) (Some []) ?n ?c"
  have h: "reqhdlr_new env w rhdr peer = Ok (?h, ?w)"
    by (rule get_file_handler [OF assms(1-11) assms(13)])
  have whole: "?whole = file_header q p @ ''Content-Length: '' @ to_base 10 ?n @ CRLF @ CRLF @ ?c"
    by (simp add: whole_response_def fit_def)
  have wire: "wo_wire ?w = wire_new ?c" using assms(14) by (simp add: wire_new_def)
  note new = rsndr_new_delimited [of fd ?n "Some (True, ?n)" "Some []" "file_header q p" ?c, OF disjI2]
  have new: "rs_ok ?rs" "length_delimited ?whole (w_sent (wire_new ?c) @ unsent ?rs) (rs_nbytes ?rs) (rs_fileDesc ?rs)
      (w_file (wire_new ?c))"
    using new assms(12) by (simp_all add: wire_new_def)
  from delimited.calls_post [OF new benign_set [OF assms(15)], of u sock] obtain fin rs' wire dpr where
    s: "send_calls u ?rs sock (wire_new ?c) sched = Ok (fin, rs', wire, dpr)"
      "length_delimited ?whole (w_sent wire @ unsent rs') (rs_nbytes rs') (rs_fileDesc rs') (w_file wire)"
      "fin \<longrightarrow> dpr_closeConn dpr \<or> unsent rs' = [] \<and> rs_nbytes rs' = 0"
    by blast
  have "\<exists>later. w_sent wire @ later = ?whole" using s(2) by (auto simp: length_delimited_def)
  moreover have "fin \<and> \<not> dpr_closeConn dpr \<longrightarrow> w_sent wire = ?whole"
    using s(2,3) by (auto simp: length_delimited_def fit_def)
  moreover have "rh_response ?h = Some ?rs" by simp
  moreover have "send_calls u ?rs sock (wo_wire ?w) sched = Ok (fin, rs', wire, dpr)"
    unfolding wire by (rule s(1))
  ultimately show ?thesis using h unfolding whole [symmetric] by blast
qed

subsection \<open>An example\<close>

definition request_fs :: FileSys where
  "request_fs = \<lparr>fs_dir = (\<lambda>d. Inl ENOENT),
     fs_stat = (\<lambda>p. if p = ''/srv/a.txt'' then Some \<lparr>st_kind = KindReg, st_mode = 420, st_size = 5\<rparr> else None),
     fs_file = (\<lambda>p. None)\<rparr>"

definition example_env :: ReqEnv where
  "example_env = \<lparr>re_config = config_init\<lparr>cf_shares := [\<lparr>sh_urlpath = [], sh_syspath = ''/srv''\<rparr>]\<rparr>,
     re_host = ''host'', re_now = 7, re_fs = request_fs, re_sys = example_sys, re_upload = (\<lambda>k. example_upload_fs),
     re_fuel = 9, re_fnm = (\<lambda>f p n. False), re_qs = (\<lambda>cmp es. es), re_statErr = (\<lambda>p. ENOENT),
     re_open = (\<lambda>p. if p = ''/srv/a.txt'' then Inr 7 else Inl ENOENT),
     re_fstat = (\<lambda>fd. Some (True, 5)), re_content = (\<lambda>p. ''hello''), re_spawn = example_spawn, re_cgiOutput = []\<rparr>"

definition example_world :: World where
  "example_world = \<lparr>wo_nonce = 0, wo_uploads = [], wo_cgiWrites = [], wo_cgiStdin = [], wo_wire = wire_new [], wo_calls = [], wo_closed = []\<rparr>"

definition example_request :: "bytes \<Rightarrow> bytes \<Rightarrow> RequestHeader" where
  "example_request meth path = reqhdr_new\<lparr>rq_request := meth, rq_path := Some path, rq_inRequest := False\<rparr>"

lemma example_simps:
  "reqhdr_getMethod (example_request ''GET'' q) = ''GET''" "reqhdr_getPath (example_request m q) = Some q"
  "reqhdr_getLoginState (example_request m q) = LS_LOGGED_OUT"
  "reqhdr_isActionAllowed (re_config example_env) (example_request m q) PA_SERVE_PAGE"
  by (simp_all add: example_request_def reqhdr_new_def reqhdr_getMethod_def reqhdr_getPath_def reqhdr_getLoginState_def
      reqhdr_isActionAllowed_def config_isActionAllowed_def config_isActionAvailable_def example_env_def config_init_def)

lemma example_no_dotdot: "\<not> dotdot_in ''/a.txt''"
  unfolding has_dotdot_iff [symmetric] by code_simp

theorem get_file_arrives_witness:
  "\<exists>h w' rs fin rs' wire dpr. reqhdlr_new example_env example_world (example_request ''GET'' ''/a.txt'') None = Ok (h, w') \<and>
    rh_response h = Some rs \<and>
    send_calls NUL rs 4 (wo_wire w') [([Wrote 9, WErr EWOULDBLOCK], []), (replicate 9 (Wrote 99), [Got 3, Got 9, Got 9])] =
      Ok (fin, rs', wire, dpr) \<and>
    (\<exists>later. w_sent wire @ later = file_header ''/a.txt'' ''/srv/a.txt'' @ ''Content-Length: 5'' @ CRLF @ CRLF @ ''hello'')"
proof -
  let ?sched = "[([Wrote 9, WErr EWOULDBLOCK], []), (replicate 9 (Wrote 99), [Got 3, Got 9, Got 9])]"
  have b: "benign ?sched" by (simp add: benign_def)
  have s: "config_getSysPathForUrlPath (re_config example_env) ''/a.txt'' = Some ''/srv/a.txt''" by code_simp
  have st: "fs_stat (re_fs example_env) ''/srv/a.txt'' = Some \<lparr>st_kind = KindReg, st_mode = 420, st_size = 5\<rparr>"
    "config_isCGI (re_fnm example_env) (re_config example_env) ''/a.txt'' = Ok False"
    "re_open example_env ''/srv/a.txt'' = Inr 7"
    "re_fstat example_env 7 = Some (True, length (re_content example_env ''/srv/a.txt''))"
    "re_content example_env ''/srv/a.txt'' = ''hello''" "wo_wire example_world = wire_new []"
    by (simp_all add: example_env_def request_fs_def config_isCGI_def config_init_def example_world_def)
  have len: "to_base 10 (length ''hello'') = ''5''" by code_simp
  from get_file_arrives [OF example_simps(1,2) _ _ example_simps(4) example_no_dotdot s st(1) _ st(2,3) _ st(4,6) b,
      of None NUL 4]
  show ?thesis unfolding st(5) len by (auto simp: example_simps)
qed

theorem request_confined_witness:
  "\<exists>h w' rs p. reqhdlr_new example_env example_world (example_request ''GET'' ''/a.txt'') None = Ok (h, w') \<and>
     rh_response h = Some rs \<and> re_open example_env p = Inr (rs_fileDesc rs) \<and> may_serve example_env ''/a.txt'' p"
proof -
  have "case reqhdlr_new example_env example_world (example_request ''GET'' ''/a.txt'') None of
      Ok (h, w') \<Rightarrow> (case rh_response h of Some rs \<Rightarrow> rs_fileDesc rs = 7 | None \<Rightarrow> False) | _ \<Rightarrow> False"
    by code_simp
  then obtain h w' rs where h: "reqhdlr_new example_env example_world (example_request ''GET'' ''/a.txt'') None = Ok (h, w')"
      "rh_response h = Some rs" "rs_fileDesc rs = 7"
    by (auto split: cres.splits option.splits)
  have "\<forall>s \<in> set (cf_shares (re_config example_env)). NUL \<notin> set (sh_urlpath s)" by (simp add: example_env_def)
  from request_confined [OF h(1) example_simps(2) _ _ this] h show ?thesis by auto
qed

theorem request_answered_witness:
  "\<exists>h w'. reqhdlr_new example_env example_world (example_request ''GET'' ''/../x'') None = Ok (h, w') \<and>
     (rh_response h \<noteq> None \<or> rh_filemgr h \<noteq> None \<or> rh_cgiexe h \<noteq> None)"
  using request_answered [OF example_simps(2) [of "''GET''" "''/../x''"], of example_env example_world None] example_spawn_ok
  by (auto simp: example_simps example_env_def)

theorem unauthorized_challenged_witness:
  "\<exists>rs w'. reqhdlr_new example_env example_world ((example_request ''GET'' ''/a.txt'')\<lparr>rq_loginState := LS_LOGIN_FAIL\<rparr>) None =
     Ok (\<lparr>rh_peerAddr = None, rh_filemgr = None, rh_cgiexe = None, rh_response = Some rs, rh_run = None\<rparr>, w') \<and>
     rs_fileDesc rs = - 1 \<and> wo_calls w' = []"
proof -
  let ?r = "(example_request ''GET'' ''/a.txt'')\<lparr>rq_loginState := LS_LOGIN_FAIL\<rparr>"
  have "reqhdr_getMethod ?r \<in> {''GET'', ''HEAD'', ''POST''}" "reqhdr_getPath ?r = Some ''/a.txt''"
    "reqhdr_getLoginState ?r = LS_LOGIN_FAIL \<or> \<not> reqhdr_isActionAllowed (re_config example_env) ?r PA_SERVE_PAGE"
    by (simp_all add: example_request_def reqhdr_new_def reqhdr_getMethod_def reqhdr_getPath_def reqhdr_getLoginState_def)
  from unauthorized_challenged [OF this, of example_world None] show ?thesis
    by (auto simp: example_world_def)
qed

end
