(* ===== verification/Serverconnection.thy ===== *)
theory Serverconnection
  imports Reqhandler
begin

text \<open>
  \<open>src/serverconnection.c\<close>: the connection with a client, which reads requests with a \<open>Content-Length\<close>
  or in the chunked transfer encoding, hands their bodies to the request handler and has it send
  the responses.  \<open>sc_pending\<close> are the bytes of \<open>readBuffer\<close> not yet used; it is empty exactly when
  \<open>readSize\<close> is 0.  The pointer to the header is always set when it is used.  A call through a null
  handler is \<open>Undef\<close>.  A result \<open>None\<close> is a computation that does not end (the loop over the
  body, when the counts are inconsistent) or runs out of the fuel for removing a directory.
\<close>

datatype RequestReadState = RRS_IDLE | RRS_READ_HEAD | RRS_READ_BODY | RRS_READ_TRAILER | RRS_READ_FINISHED

record ServerConnection =
  sc_socketFd :: int
  sc_pending :: bytes
  sc_rrs :: RequestReadState
  sc_header :: RequestHeader
  sc_chunkHdr :: "bytes option"
  sc_handler :: "RequestHandler option"
  sc_bodyLen :: u64
  sc_bodyReadLen :: u64

definition conn_new :: "int \<Rightarrow> ServerConnection" where
  "conn_new socketFd = \<lparr>sc_socketFd = socketFd, sc_pending = [], sc_rrs = RRS_READ_HEAD, sc_header = reqhdr_new,
     sc_chunkHdr = None, sc_handler = None, sc_bodyLen = 0, sc_bodyReadLen = 0\<rparr>"

definition obind :: "'a cres option \<Rightarrow> ('a \<Rightarrow> 'b cres option) \<Rightarrow> 'b cres option" where
  "obind r f = (case r of None \<Rightarrow> None | Some (Ok x) \<Rightarrow> f x | Some Abort \<Rightarrow> Some Abort | Some Undef \<Rightarrow> Some Undef)"

lemma obind_simps [simp]:
  "obind None f = None" "obind (Some (Ok x)) f = f x" "obind (Some Abort) f = Some Abort"
  "obind (Some Undef) f = Some Undef"
  by (simp_all add: obind_def)

text \<open>\<open>peer\<close> is the client's address, when the system gives it.\<close>

definition onFinishedHeader ::
    "ReqEnv \<Rightarrow> bytes option \<Rightarrow> ServerConnection \<Rightarrow> World \<Rightarrow> (ServerConnection \<times> World) cres" where
  "onFinishedHeader env peer conn w =
     cbind (reqhdlr_new env w (sc_header conn) peer) (\<lambda>(h, w').
       let conn1 = conn\<lparr>sc_handler := Some h\<rparr> in
       if reqhdr_isChunkedTransferEncoding (sc_header conn)
       then Ok (conn1\<lparr>sc_chunkHdr := Some CRLF, sc_rrs := RRS_READ_BODY\<rparr>, w')
       else
         (let len = (case reqhdr_getHeaderVal (sc_header conn) ''Content-Length'' of
                Some val \<Rightarrow> of_nat (fst (strtoul 10 val)) | None \<Rightarrow> sc_bodyLen conn)
          in Ok (conn1\<lparr>sc_bodyLen := len, sc_rrs := (if 0 < len then RRS_READ_BODY else RRS_READ_FINISHED)\<rparr>, w')))"

text \<open>The line before a chunk, from the bytes at \<open>bol\<close>: the first two bytes of \<open>c\<close> end the chunk before.\<close>

definition chunk_size :: "bytes \<Rightarrow> u32" where
  "chunk_size line = of_nat (fst (strtoul 16 (cstr (drop 2 line))))"

definition chunk_line :: "ServerConnection \<Rightarrow> bytes \<Rightarrow> bytes \<Rightarrow> ServerConnection \<times> bytes" where
  "chunk_line conn c bol =
     (let k = (if length c < 2 then min (length bol) (2 - length c) else 0);
          c1 = c @ take k bol; bol1 = drop k bol
      in case memchr LF bol1 of
           Some i \<Rightarrow>
             (let addLen = chunk_size (c1 @ take i bol1);
                  conn1 = (if addLen = 0 then conn\<lparr>sc_rrs := RRS_READ_TRAILER\<rparr>
                           else conn\<lparr>sc_bodyLen := sc_bodyLen conn + ucast addLen\<rparr>)
              in (conn1\<lparr>sc_chunkHdr := Some []\<rparr>, drop (Suc i) bol1))
         | None \<Rightarrow> (conn\<lparr>sc_chunkHdr := Some (c1 @ bol1)\<rparr>, []))"

lemma chunk_line_length:
  "bol \<noteq> [] \<Longrightarrow> length (snd (chunk_line conn c bol)) < length bol"
  by (auto simp: chunk_line_def Let_def split: option.splits dest!: memchr_Some)

lemma chunk_line_le: "length (snd (chunk_line conn c bol)) \<le> length bol"
  using chunk_line_length [of bol conn c] by (cases "bol = []") (auto simp: chunk_line_def)

lemma chunk_line_eq:
  assumes "(conn', bol') = chunk_line conn c bol"
  shows "length bol' < length bol \<or> bol = [] \<and> bol' = []"
  using chunk_line_length [of bol conn c] chunk_line_le [of conn c bol] assms
  by (metis length_0_conv less_nat_zero_code linorder_neqE_nat not_less snd_conv)

text \<open>The number of bytes that belong to the body, and handing them to the handler; \<open>True\<close> when it did not take all.\<close>

definition body_part :: "ServerConnection \<Rightarrow> bytes \<Rightarrow> nat" where
  "body_part conn bol =
     (if sc_bodyLen conn < sc_bodyReadLen conn + of_nat (length bol)
      then unat (sc_bodyLen conn - sc_bodyReadLen conn) else length bol)"

definition give_body ::
    "ReqEnv \<Rightarrow> ServerConnection \<Rightarrow> DataProcessingResult \<Rightarrow> World \<Rightarrow> bytes \<Rightarrow>
     (ServerConnection \<times> DataProcessingResult \<times> World \<times> bytes \<times> bool) cres" where
  "give_body env conn dpr w bol =
     (let addLen = body_part conn bol
      in case sc_handler conn of
           None \<Rightarrow> Undef
         | Some h \<Rightarrow>
             cbind (reqhdlr_processData env w h (take addLen bol) dpr) (\<lambda>(h', n, dpr', w').
               Ok (conn\<lparr>sc_handler := Some h', sc_bodyReadLen := sc_bodyReadLen conn + of_nat n\<rparr>,
                   dpr', w', drop n bol, n < addLen)))"

lemma unat_diff_le:
  fixes a b :: u64
  assumes "b < a" "a < b + of_nat n"
  shows "unat (a - b) \<le> n"
proof (rule ccontr)
  assume "\<not> unat (a - b) \<le> n"
  then have n: "unat b + n < unat a" using assms(1) by (simp add: unat_sub less_imp_le less_diff_conv)
  then have "unat b + n < 2 ^ 64" using order_less_trans [OF _ unsigned_less [of a]] by simp
  then have "unat (b + of_nat n) = unat b + n" by (simp add: unat_word_ariths unat_of_nat)
  then show False using n assms(2) by (simp add: word_less_nat_alt)
qed

lemma body_part_le:
  assumes "sc_bodyReadLen conn < sc_bodyLen conn"
  shows "body_part conn bol \<le> length bol" "bol \<noteq> [] \<Longrightarrow> 0 < body_part conn bol"
  using assms unat_diff_le [OF assms] unat_eq_zero [of "sc_bodyLen conn - sc_bodyReadLen conn"]
  by (auto simp: body_part_def)

lemma give_body_length:
  assumes "give_body env conn dpr w bol = Ok (conn', dpr', w', bol', False)" "bol \<noteq> []"
    "sc_bodyReadLen conn < sc_bodyLen conn"
  shows "length bol' < length bol"
  using assms(1,2) body_part_le(2) [OF assms(3,2)]
  by (cases "sc_handler conn"; cases "reqhdlr_processData env w (the (sc_handler conn)) (take (body_part conn bol) bol) dpr")
    (auto simp: give_body_def Let_def)

definition body_step ::
    "ReqEnv \<Rightarrow> ServerConnection \<Rightarrow> DataProcessingResult \<Rightarrow> World \<Rightarrow> bytes \<Rightarrow>
     (ServerConnection \<times> DataProcessingResult \<times> World \<times> bytes \<times> bool) cres" where
  "body_step env conn dpr w bol =
     (if sc_bodyReadLen conn < sc_bodyLen conn then give_body env conn dpr w bol else Ok (conn, dpr, w, bol, False))"

lemma body_step_length:
  assumes "body_step env conn dpr w bol = Ok (conn', dpr', w', bol', False)" "bol \<noteq> []"
    "\<not> sc_bodyLen conn < sc_bodyReadLen conn"
  shows "length bol' < length bol \<or> bol' = bol \<and> sc_bodyReadLen conn' = sc_bodyLen conn'"
  using assms give_body_length [of env conn dpr w bol conn' dpr' w' bol'] by (auto simp: body_step_def split: if_splits)

function req_body_loop ::
    "ReqEnv \<Rightarrow> ServerConnection \<Rightarrow> DataProcessingResult \<Rightarrow> World \<Rightarrow> bytes \<Rightarrow>
     (ServerConnection \<times> DataProcessingResult \<times> World \<times> bytes) cres option" where
  "req_body_loop env conn dpr w bol =
     (if sc_rrs conn \<noteq> RRS_READ_BODY \<or> bol = [] then Some (Ok (conn, dpr, w, bol))
      else if sc_bodyLen conn < sc_bodyReadLen conn then None
      else
        (case body_step env conn dpr w bol of
           Abort \<Rightarrow> Some Abort
         | Undef \<Rightarrow> Some Undef
         | Ok (conn1, dpr1, w1, bol1, stop) \<Rightarrow>
             (if stop then Some (Ok (conn1, dpr1, w1, bol1))
              else if sc_bodyReadLen conn1 = sc_bodyLen conn1 then
                (case sc_chunkHdr conn1 of
                   None \<Rightarrow> Some (Ok (conn1\<lparr>sc_rrs := RRS_READ_FINISHED\<rparr>, dpr1, w1, bol1))
                 | Some c \<Rightarrow> (case chunk_line conn1 c bol1 of
                     (conn2, bol2) \<Rightarrow> req_body_loop env conn2 dpr1 w1 bol2))
              else req_body_loop env conn1 dpr1 w1 bol1)))"
  by pat_completeness auto
termination
proof (relation "measure (\<lambda>(env, conn, dpr, w, bol). length bol)", goal_cases)
  case 1
  show ?case by simp
next
  case 2
  then show ?case by (auto dest!: body_step_length chunk_line_eq)
next
  case 3
  then show ?case by (auto dest!: body_step_length)
qed

declare req_body_loop.simps [simp del]

definition appendBodyData ::
    "ReqEnv \<Rightarrow> ServerConnection \<Rightarrow> DataProcessingResult \<Rightarrow> World \<Rightarrow>
     (ServerConnection \<times> DataProcessingResult \<times> World) cres option" where
  "appendBodyData env conn dpr w =
     obind (req_body_loop env conn dpr w (sc_pending conn)) (\<lambda>(conn', dpr', w', rest).
       Some (Ok (conn'\<lparr>sc_pending := rest\<rparr>, dpr', w')))"

text \<open>The header, or the trailer, of the request; \<open>u\<close> is the byte a digest value without colon reads.\<close>

definition header_bytes :: "char \<Rightarrow> ReqEnv \<Rightarrow> ServerConnection \<Rightarrow> (ServerConnection \<times> bool) cres" where
  "header_bytes u env conn =
     cbind (reqhdr_appendData u (re_config env) (sc_header conn) (sc_pending conn)) (\<lambda>(hdr, r).
       Ok (case r of
             Some n \<Rightarrow> (conn\<lparr>sc_header := hdr, sc_pending := drop n (sc_pending conn)\<rparr>, True)
           | None \<Rightarrow> (conn\<lparr>sc_header := hdr, sc_pending := []\<rparr>, False)))"

definition read_head ::
    "char \<Rightarrow> ReqEnv \<Rightarrow> bytes option \<Rightarrow> ServerConnection \<Rightarrow> World \<Rightarrow> (ServerConnection \<times> World) cres" where
  "read_head u env peer conn w =
     (if sc_rrs conn = RRS_READ_HEAD
      then cbind (header_bytes u env conn) (\<lambda>(conn1, fin). if fin then onFinishedHeader env peer conn1 w else Ok (conn1, w))
      else Ok (conn, w))"

definition read_body_data ::
    "ReqEnv \<Rightarrow> ServerConnection \<Rightarrow> DataProcessingResult \<Rightarrow> World \<Rightarrow>
     (ServerConnection \<times> DataProcessingResult \<times> World) cres option" where
  "read_body_data env conn dpr w =
     (if sc_rrs conn = RRS_READ_BODY \<and> sc_pending conn \<noteq> [] then appendBodyData env conn dpr w
      else Some (Ok (conn, dpr, w)))"

definition read_trailer :: "char \<Rightarrow> ReqEnv \<Rightarrow> ServerConnection \<Rightarrow> ServerConnection cres" where
  "read_trailer u env conn =
     (if sc_rrs conn = RRS_READ_TRAILER \<and> sc_pending conn \<noteq> []
      then cbind (header_bytes u env conn) (\<lambda>(conn1, fin). Ok (if fin then conn1\<lparr>sc_rrs := RRS_READ_FINISHED\<rparr> else conn1))
      else Ok conn)"

definition request_completed ::
    "ReqEnv \<Rightarrow> ServerConnection \<Rightarrow> World \<Rightarrow> (ServerConnection \<times> World) cres option" where
  "request_completed env conn w =
     (case sc_handler conn of
        None \<Rightarrow> Some Undef
      | Some h \<Rightarrow>
          obind (reqhdlr_requestReadCompleted env w h (sc_header conn)) (\<lambda>(h', w').
            Some (Ok (conn\<lparr>sc_handler := Some h'\<rparr>, w'))))"

definition appendData ::
    "char \<Rightarrow> ReqEnv \<Rightarrow> bytes option \<Rightarrow> ServerConnection \<Rightarrow> DataProcessingResult \<Rightarrow> World \<Rightarrow>
     (ServerConnection \<times> DataProcessingResult \<times> World) cres option" where
  "appendData u env peer conn dpr w =
     (let conn0 = (if sc_rrs conn = RRS_IDLE then conn\<lparr>sc_header := reqhdr_new, sc_rrs := RRS_READ_HEAD\<rparr> else conn) in
      obind (Some (read_head u env peer conn0 w)) (\<lambda>(conn1, w1).
      obind (read_body_data env conn1 dpr w1) (\<lambda>(conn2, dpr2, w2).
      obind (Some (read_trailer u env conn2)) (\<lambda>conn3.
        if sc_rrs conn \<noteq> RRS_READ_FINISHED \<and> sc_rrs conn3 = RRS_READ_FINISHED
        then obind (request_completed env conn3 w2) (\<lambda>(conn4, w4). Some (Ok (conn4, dpr2, w4)))
        else Some (Ok (conn3, dpr2, w2))))))"

subsection \<open>Progress\<close>

lemma line_loop_pos: "line_loop proc st data = Ok (st', Some n) \<Longrightarrow> 0 < n \<and> data \<noteq> []"
proof (induction proc st data arbitrary: st' n rule: line_loop.induct)
  case (1 proc st data)
  then show ?case
    by (cases st) (auto simp: line_loop.simps [of proc _ data] cbind_Ok split: option.splits prod.splits if_splits)
qed

lemma header_bytes_less:
  assumes "header_bytes u env conn = Ok (conn', fin)"
  shows "if fin then length (sc_pending conn') < length (sc_pending conn) else sc_pending conn' = []"
  using assms by (auto simp: header_bytes_def reqhdr_appendData_def cbind_Ok dest!: line_loop_pos split: option.splits)

lemma header_bytes_same:
  assumes "header_bytes u env conn = Ok (conn', fin)"
  shows "sc_rrs conn' = sc_rrs conn" "sc_handler conn' = sc_handler conn" "sc_chunkHdr conn' = sc_chunkHdr conn"
    "sc_bodyLen conn' = sc_bodyLen conn" "sc_bodyReadLen conn' = sc_bodyReadLen conn"
  using assms by (auto simp: header_bytes_def cbind_Ok split: option.splits)

lemma cgi_write_stop:
  "cgi_write ce ws data dpr = (ce', dpr', n, got, ws') \<Longrightarrow> n < length data \<Longrightarrow> dpr_reqState dpr' \<noteq> DPR_READY"
proof (induction ws arbitrary: data ce' dpr' n got ws')
  case Nil
  then show ?case by (subst (asm) cgi_write.simps) (auto simp: dpr_setReqState_def split: if_splits)
next
  case (Cons a ws)
  show ?case
  proof (cases a)
    case (Wrote k)
    obtain ce1 dpr1 m w1 ws1 where "cgi_write ce ws (drop k data) dpr = (ce1, dpr1, m, w1, ws1)"
      by (metis prod_cases5)
    with Wrote Cons.prems Cons.IH [OF this] show ?thesis
      by (subst (asm) cgi_write.simps) (auto simp: Let_def min_def less_diff_conv add.commute split: if_splits)
  next
    case (WErr e)
    with Cons.prems show ?thesis
      by (subst (asm) cgi_write.simps) (auto simp: dpr_setReqState_def split: if_splits)
  qed
qed

lemma processData_stop:
  assumes "reqhdlr_processData env w h data dpr = Ok (h', n, dpr', w')" "n < length data"
  shows "dpr_reqState dpr' \<noteq> DPR_READY"
  using assms by (auto simp: reqhdlr_processData_def cgiexe_processData_def cbind_Ok dest: cgi_write_stop
      split: option.splits prod.splits)

lemma give_body_step:
  assumes "give_body env conn dpr w bol = Ok (conn', dpr', w', bol', stop)" "bol \<noteq> []"
    "sc_bodyReadLen conn < sc_bodyLen conn"
  shows "length bol' \<le> length bol" "sc_rrs conn' = sc_rrs conn" "sc_chunkHdr conn' = sc_chunkHdr conn"
    "stop \<Longrightarrow> dpr_reqState dpr' \<noteq> DPR_READY" "\<not> stop \<Longrightarrow> length bol' < length bol"
    "sc_bodyLen conn' = sc_bodyLen conn" "sc_pending conn' = sc_pending conn" "sc_handler conn' \<noteq> None"
    "sc_header conn' = sc_header conn"
  using assms(1) give_body_length [of env conn dpr w bol conn' dpr' w' bol'] body_part_le [OF assms(3), of bol] assms(2,3)
  by (auto simp: give_body_def Let_def cbind_Ok split: option.splits dest: processData_stop)

lemma body_step_same:
  assumes "body_step env conn dpr w bol = Ok (conn', dpr', w', bol', stop)" "bol \<noteq> []"
  shows "length bol' \<le> length bol" "sc_rrs conn' = sc_rrs conn" "sc_chunkHdr conn' = sc_chunkHdr conn"
    "sc_bodyLen conn' = sc_bodyLen conn" "sc_pending conn' = sc_pending conn" "sc_header conn' = sc_header conn"
    "stop \<Longrightarrow> dpr_reqState dpr' \<noteq> DPR_READY"
  using assms(1) give_body_step [of env conn dpr w bol conn' dpr' w' bol' stop] assms(2)
  by (auto simp: body_step_def split: if_splits)

lemma req_body_loop_progress:
  "req_body_loop env conn dpr w bol = Some (Ok (conn', dpr', w', rest)) \<Longrightarrow>
     length rest \<le> length bol \<and>
     (sc_rrs conn = RRS_READ_BODY \<and> bol \<noteq> [] \<longrightarrow>
        length rest < length bol \<or> dpr_reqState dpr' \<noteq> DPR_READY \<or> sc_rrs conn' = RRS_READ_FINISHED)"
proof (induction env conn dpr w bol rule: req_body_loop.induct)
  case (1 env conn dpr w bol)
  show ?case
  proof (cases "sc_rrs conn \<noteq> RRS_READ_BODY \<or> bol = []")
    case True
    then show ?thesis using "1.prems" by (subst (asm) req_body_loop.simps) auto
  next
    case False
    then have go: "\<not> sc_bodyLen conn < sc_bodyReadLen conn"
      using "1.prems" by (subst (asm) req_body_loop.simps) auto
    obtain conn1 dpr1 w1 bol1 stop where g: "body_step env conn dpr w bol = Ok (conn1, dpr1, w1, bol1, stop)"
      using "1.prems" False go by (subst (asm) req_body_loop.simps) (auto split: cres.splits)
    note r = "1.prems" [unfolded req_body_loop.simps [of env conn dpr w bol] g if_not_P [OF False] if_not_P [OF go], simplified]
    note same = body_step_same [OF g]
    have bol: "bol \<noteq> []" using False by simp
    note IH = "1.IH" [OF False go g refl refl refl refl]
    consider (stop) stop | (over) "\<not> stop" "sc_bodyReadLen conn1 = sc_bodyLen conn1" "sc_chunkHdr conn1 = None"
      | (line) c where "\<not> stop" "sc_bodyReadLen conn1 = sc_bodyLen conn1" "sc_chunkHdr conn1 = Some c"
      | (more) "\<not> stop" "sc_bodyReadLen conn1 \<noteq> sc_bodyLen conn1" by blast
    then show ?thesis
    proof cases
      case stop
      then show ?thesis using r same bol by auto
    next
      case over
      then show ?thesis using r same bol by auto
    next
      case line
      obtain conn2 bol2 where c: "chunk_line conn1 c bol1 = (conn2, bol2)" by fastforce
      have "req_body_loop env conn2 dpr1 w1 bol2 = Some (Ok (conn', dpr', w', rest))" using r line c by simp
      from IH(1) [OF line c [symmetric] this] show ?thesis
        using same(1) [OF bol] body_step_length [of env conn dpr w bol conn1 dpr1 w1 bol1] g go chunk_line_eq [OF c [symmetric]] bol line(1) by auto
    next
      case more
      have "req_body_loop env conn1 dpr1 w1 bol1 = Some (Ok (conn', dpr', w', rest))" using r more by simp
      from IH(2) [OF more this] show ?thesis
        using body_step_length [of env conn dpr w bol conn1 dpr1 w1 bol1] g bol go more by auto
    qed
  qed
qed

lemma obind_Ok: "obind r f = Some (Ok y) \<longleftrightarrow> (\<exists>x. r = Some (Ok x) \<and> f x = Some (Ok y))"
  by (cases r; cases "the r") auto

lemma onFinishedHeader_same:
  assumes "onFinishedHeader env peer conn w = Ok (conn', w')"
  shows "sc_pending conn' = sc_pending conn" "sc_header conn' = sc_header conn" "sc_handler conn' \<noteq> None"
  using assms by (auto simp: onFinishedHeader_def cbind_Ok Let_def split: if_splits prod.splits)

text \<open>The bytes that are there, and how near the end of the request is.\<close>

definition rrs_rank :: "RequestReadState \<Rightarrow> nat" where
  "rrs_rank r = (case r of RRS_IDLE \<Rightarrow> 0 | RRS_READ_HEAD \<Rightarrow> 0 | RRS_READ_FINISHED \<Rightarrow> 1 | _ \<Rightarrow> 2)"

definition work_left :: "ServerConnection \<Rightarrow> nat" where
  "work_left conn = 4 * length (sc_pending conn) + rrs_rank (sc_rrs conn)"

lemma rank_le: "rrs_rank r \<le> 2"
  by (simp add: rrs_rank_def split: RequestReadState.splits)

lemma less_work:
  assumes "length (sc_pending conn') < length (sc_pending conn)"
  shows "work_left conn' < work_left conn"
  using assms rank_le [of "sc_rrs conn'"] by (simp add: work_left_def)

lemma same_work: "sc_pending conn' = sc_pending conn \<Longrightarrow> sc_rrs conn' = sc_rrs conn \<Longrightarrow> work_left conn' = work_left conn"
  by (simp add: work_left_def)

lemma header_bytes_work:
  assumes "header_bytes u env conn = Ok (conn', fin)"
  shows "length (sc_pending conn') < length (sc_pending conn) \<or>
    \<not> fin \<and> sc_pending conn = [] \<and> sc_pending conn' = [] \<and> sc_rrs conn' = sc_rrs conn"
  using header_bytes_less [OF assms] header_bytes_same(1) [OF assms] by (cases "sc_pending conn") (auto split: if_splits)

lemma read_head_work:
  assumes "read_head u env peer conn w = Ok (conn', w')"
  shows "work_left conn' \<le> work_left conn"
    "sc_rrs conn = RRS_READ_HEAD \<Longrightarrow> sc_pending conn \<noteq> [] \<Longrightarrow> work_left conn' < work_left conn"
proof -
  have "conn' = conn \<or> sc_pending conn' = sc_pending conn \<and> sc_rrs conn' = sc_rrs conn \<and> sc_pending conn = [] \<or>
      length (sc_pending conn') < length (sc_pending conn)"
    "sc_rrs conn = RRS_READ_HEAD \<longrightarrow> sc_pending conn \<noteq> [] \<longrightarrow> length (sc_pending conn') < length (sc_pending conn)"
    using assms
    by (auto simp: read_head_def cbind_Ok dest!: header_bytes_work onFinishedHeader_same(1) split: if_splits)
  then show "work_left conn' \<le> work_left conn"
    "sc_rrs conn = RRS_READ_HEAD \<Longrightarrow> sc_pending conn \<noteq> [] \<Longrightarrow> work_left conn' < work_left conn"
    using less_work [of conn' conn] same_work [of conn' conn] by (auto intro: less_imp_le)
qed

lemma read_trailer_work:
  assumes "read_trailer u env conn = Ok conn'"
  shows "work_left conn' \<le> work_left conn"
    "sc_rrs conn = RRS_READ_TRAILER \<Longrightarrow> sc_pending conn \<noteq> [] \<Longrightarrow> work_left conn' < work_left conn"
proof -
  have "conn' = conn \<or> length (sc_pending conn') < length (sc_pending conn)"
    "sc_rrs conn = RRS_READ_TRAILER \<longrightarrow> sc_pending conn \<noteq> [] \<longrightarrow> length (sc_pending conn') < length (sc_pending conn)"
    using assms by (auto simp: read_trailer_def cbind_Ok dest!: header_bytes_work split: if_splits)
  then show "work_left conn' \<le> work_left conn"
    "sc_rrs conn = RRS_READ_TRAILER \<Longrightarrow> sc_pending conn \<noteq> [] \<Longrightarrow> work_left conn' < work_left conn"
    using less_work [of conn' conn] by (auto intro: less_imp_le)
qed

lemma appendBodyData_work:
  assumes "appendBodyData env conn dpr w = Some (Ok (conn', dpr', w'))" "sc_rrs conn = RRS_READ_BODY" "sc_pending conn \<noteq> []"
  shows "work_left conn' \<le> work_left conn" "work_left conn' < work_left conn \<or> dpr_reqState dpr' \<noteq> DPR_READY"
proof -
  have p: "length (sc_pending conn') \<le> length (sc_pending conn) \<and>
      (length (sc_pending conn') < length (sc_pending conn) \<or> dpr_reqState dpr' \<noteq> DPR_READY \<or>
       sc_rrs conn' = RRS_READ_FINISHED)"
    using assms by (auto simp: appendBodyData_def obind_Ok dest!: req_body_loop_progress)
  show "work_left conn' \<le> work_left conn" "work_left conn' < work_left conn \<or> dpr_reqState dpr' \<noteq> DPR_READY"
    using p rank_le [of "sc_rrs conn'"] assms(2) by (auto simp: work_left_def rrs_rank_def)
qed

lemma request_completed_same:
  assumes "request_completed env conn w = Some (Ok (conn', w'))"
  shows "work_left conn' = work_left conn"
  using assms by (auto simp: request_completed_def obind_Ok work_left_def split: option.splits)

lemma appendData_work:
  assumes "appendData u env peer conn dpr w = Some (Ok (conn', dpr', w'))"
    and "sc_pending conn \<noteq> []" "sc_rrs conn \<noteq> RRS_READ_FINISHED"
  shows "work_left conn' \<le> work_left conn" "work_left conn' < work_left conn \<or> dpr_reqState dpr' \<noteq> DPR_READY"
proof -
  define conn0 where "conn0 = (if sc_rrs conn = RRS_IDLE then conn\<lparr>sc_header := reqhdr_new, sc_rrs := RRS_READ_HEAD\<rparr> else conn)"
  have c0: "work_left conn0 = work_left conn" "sc_pending conn0 = sc_pending conn"
      "sc_rrs conn0 = (if sc_rrs conn = RRS_IDLE then RRS_READ_HEAD else sc_rrs conn)"
    by (simp_all add: conn0_def work_left_def rrs_rank_def)
  obtain conn1 w1 conn2 w2 conn3 where
    s: "read_head u env peer conn0 w = Ok (conn1, w1)"
      "read_body_data env conn1 dpr w1 = Some (Ok (conn2, dpr', w2))"
      "read_trailer u env conn2 = Ok conn3" "work_left conn' = work_left conn3"
    using assms(1) unfolding appendData_def Let_def conn0_def [symmetric]
    by (auto simp: obind_Ok dest: request_completed_same split: if_splits)
  have h: "sc_rrs conn \<in> {RRS_READ_BODY, RRS_READ_TRAILER} \<Longrightarrow> conn1 = conn"
    using s(1) c0(3) by (auto simp: read_head_def conn0_def)
  have b: "work_left conn2 \<le> work_left conn1"
      "sc_rrs conn1 = RRS_READ_BODY \<Longrightarrow> sc_pending conn1 \<noteq> [] \<Longrightarrow>
         work_left conn2 < work_left conn1 \<or> dpr_reqState dpr' \<noteq> DPR_READY"
      "sc_rrs conn1 = RRS_READ_TRAILER \<Longrightarrow> conn2 = conn1"
    using s(2) appendBodyData_work [of env conn1 dpr w1 conn2 dpr' w2] by (auto simp: read_body_data_def split: if_splits)
  note w = read_head_work [OF s(1)] b read_trailer_work [OF s(3)]
  show "work_left conn' \<le> work_left conn" using w(1,3,6) s(4) c0(1) by linarith
  show "work_left conn' < work_left conn \<or> dpr_reqState dpr' \<noteq> DPR_READY"
    using w s(4) c0 h assms(2,3) by (cases "sc_rrs conn") force+
qed

subsection \<open>The loop of the connection\<close>

text \<open>
  The answers of \<open>read\<close> on the socket: an error or bytes, none of them at the end of the file, at most as many as
  the buffer holds.  When they are used up the call would block.
\<close>

definition conn_read ::
    "ServerConnection \<Rightarrow> DataProcessingResult \<Rightarrow> (nat + bytes) list \<Rightarrow> bool \<Rightarrow>
     ServerConnection \<times> DataProcessingResult \<times> (nat + bytes) list \<times> bool" where
  "conn_read conn dpr reads idle =
     (if sc_pending conn \<noteq> [] then (conn, dpr, reads, idle)
      else case reads of
          [] \<Rightarrow> (conn, dpr_setReqState dpr DPR_AWAIT_READ (sc_socketFd conn), [], idle)
        | Inl e # rs \<Rightarrow> (conn, if e = EWOULDBLOCK then dpr_setReqState dpr DPR_AWAIT_READ (sc_socketFd conn)
                             else dpr_setCloseConn dpr, rs, idle)
        | Inr d # rs \<Rightarrow>
            (if d = [] then (conn, dpr_setCloseConn dpr, rs, idle)
             else (conn\<lparr>sc_pending := take 65536 d\<rparr>, dpr, rs, False)))"

definition reads_left :: "(nat + bytes) list \<Rightarrow> nat" where
  "reads_left reads = sum_list (map (\<lambda>a. case a of Inl _ \<Rightarrow> 1 | Inr d \<Rightarrow> 4 * length d + 1) reads)"

definition may_read :: "ServerConnection \<Rightarrow> DataProcessingResult \<Rightarrow> bool" where
  "may_read conn dpr = (\<not> dpr_closeConn dpr \<and> dpr_reqState dpr = DPR_READY \<and> sc_rrs conn \<noteq> RRS_READ_FINISHED)"

lemma conn_read_work:
  assumes "(conn', dpr', reads', idle') = conn_read conn dpr reads idle"
  shows "work_left conn' + reads_left reads' \<le> work_left conn + reads_left reads"
    "sc_pending conn' = [] \<Longrightarrow> dpr_closeConn dpr' \<or> dpr_reqState dpr' \<noteq> DPR_READY"
    "sc_rrs conn' = sc_rrs conn"
  using assms
  by (auto simp: conn_read_def reads_left_def work_left_def dpr_setReqState_def dpr_setCloseConn_def
      split: if_splits list.splits sum.splits)

lemma read_round_work:
  assumes "(conn1, dpr1, reads1, idle1) = conn_read conn dpr reads idle" "sc_pending conn1 \<noteq> []"
    "appendData u env peer conn1 dpr1 w = Some (Ok (conn2, dpr2, w2))" "may_read conn dpr"
  shows "work_left conn2 + reads_left reads1 \<le> work_left conn + reads_left reads \<and>
    (may_read conn2 dpr2 \<longrightarrow> work_left conn2 + reads_left reads1 < work_left conn + reads_left reads)"
proof -
  have f: "sc_rrs conn1 \<noteq> RRS_READ_FINISHED" using assms(4) conn_read_work(3) [OF assms(1)] by (simp add: may_read_def)
  note a = conn_read_work(1) [OF assms(1)] appendData_work [OF assms(3,2) f]
  show ?thesis using a unfolding may_read_def by linarith
qed

lemma obind_cong [fundef_cong]:
  assumes "r = r'" "\<And>x. r' = Some (Ok x) \<Longrightarrow> f x = f' x"
  shows "obind r f = obind r' f'"
  using assms by (auto simp: obind_def split: option.splits cres.splits)

function read_loop ::
    "char \<Rightarrow> ReqEnv \<Rightarrow> bytes option \<Rightarrow> ServerConnection \<Rightarrow> DataProcessingResult \<Rightarrow> World \<Rightarrow> (nat + bytes) list \<Rightarrow> bool \<Rightarrow>
     (ServerConnection \<times> DataProcessingResult \<times> World \<times> (nat + bytes) list \<times> bool) cres option" where
  "read_loop u env peer conn dpr w reads idle =
     (if \<not> may_read conn dpr then Some (Ok (conn, dpr, w, reads, idle))
      else case conn_read conn dpr reads idle of
          (conn1, dpr1, reads1, idle1) \<Rightarrow>
            if sc_pending conn1 = [] then read_loop u env peer conn1 dpr1 w reads1 idle1
            else obind (appendData u env peer conn1 dpr1 w) (\<lambda>(conn2, dpr2, w2).
                   read_loop u env peer conn2 dpr2 w2 reads1 idle1))"
  by pat_completeness auto
termination
proof (relation "measure (\<lambda>(u, env, peer, conn, dpr, w, reads, idle).
    2 * (work_left conn + reads_left reads) + (if may_read conn dpr then 1 else 0))", goal_cases)
  case 1
  show ?case by simp
next
  case 2
  then show ?case using conn_read_work by (fastforce simp: may_read_def)
next
  case (3 u env peer conn dpr w reads idle conn1 p1 dpr1 p2 reads1 idle1 r p3 conn2 p4)
  then show ?case by (auto dest!: read_round_work)
qed

declare read_loop.simps [simp del]

lemma read_loop_work:
  "read_loop u env peer conn dpr w reads idle = Some (Ok (conn', dpr', w', reads', idle')) \<Longrightarrow>
     work_left conn' + reads_left reads' \<le> work_left conn + reads_left reads"
proof (induction u env peer conn dpr w reads idle rule: read_loop.induct)
  case (1 u env peer conn dpr w reads idle)
  obtain conn1 dpr1 reads1 idle1 where r: "(conn1, dpr1, reads1, idle1) = conn_read conn dpr reads idle"
    by (metis prod_cases4)
  consider (stop) "\<not> may_read conn dpr" | (over) "may_read conn dpr" "sc_pending conn1 = []"
    | (data) "may_read conn dpr" "sc_pending conn1 \<noteq> []" by blast
  then show ?case
  proof cases
    case stop
    then show ?thesis using "1.prems" by (simp add: read_loop.simps)
  next
    case over
    then have "read_loop u env peer conn1 dpr1 w reads1 idle1 = Some (Ok (conn', dpr', w', reads', idle'))"
      using "1.prems" by (simp add: read_loop.simps [of u env peer conn] r [symmetric])
    from "1.IH"(1) [OF _ r refl refl over(2) this] show ?thesis
      using conn_read_work(1) [OF r] over(1) by simp
  next
    case data
    then obtain conn2 dpr2 w2 where a: "appendData u env peer conn1 dpr1 w = Some (Ok (conn2, dpr2, w2))"
        "read_loop u env peer conn2 dpr2 w2 reads1 idle1 = Some (Ok (conn', dpr', w', reads', idle'))"
      using "1.prems" by (auto simp: read_loop.simps [of u env peer conn] r [symmetric] obind_Ok)
    from "1.IH"(2) [OF _ r refl refl data(2) a(1) refl refl a(2)] show ?thesis
      using read_round_work [OF r data(2) a(1) data(1)] data(1) by simp
  qed
qed

text \<open>The response goes on; a handler that has sent it is freed.\<close>

definition progress_response ::
    "char \<Rightarrow> ReqEnv \<Rightarrow> ServerConnection \<Rightarrow> DataProcessingResult \<Rightarrow> World \<Rightarrow>
     (ServerConnection \<times> DataProcessingResult \<times> World) cres" where
  "progress_response u env conn dpr w =
     (case sc_handler conn of
        Some h \<Rightarrow>
          (if dpr_closeConn dpr then Ok (conn, dpr, w)
           else cbind (reqhdlr_progressResponse u env w h (sc_socketFd conn) dpr) (\<lambda>(fin, h', dpr', w').
             if fin then Ok (conn\<lparr>sc_handler := None\<rparr>, dpr', w'\<lparr>wo_calls := wo_calls w' @ fst (reqhdlr_free (Some h')),
                wo_closed := wo_closed w' @ snd (reqhdlr_free (Some h'))\<rparr>)
             else Ok (conn\<lparr>sc_handler := Some h'\<rparr>, dpr', w')))
      | None \<Rightarrow> Ok (conn, dpr, w))"

definition wants_close :: "RequestHeader \<Rightarrow> bool" where
  "wants_close hdr = (reqhdr_getVersion hdr = ''1.0'' \<or> reqhdr_getHeaderVal hdr ''Connection'' = Some ''close'')"

text \<open>The null pointer to the header is an empty header here, which \<open>appendData\<close> replaces before use.\<close>

definition next_request :: "ServerConnection \<Rightarrow> ServerConnection" where
  "next_request conn = conn\<lparr>sc_rrs := RRS_IDLE, sc_header := reqhdr_new, sc_chunkHdr := None, sc_bodyLen := 0, sc_bodyReadLen := 0\<rparr>"

lemma progress_response_same:
  assumes "progress_response u env conn dpr w = Ok (conn', dpr', w')"
  shows "work_left conn' = work_left conn" "sc_rrs conn' = sc_rrs conn"
  using assms by (auto simp: progress_response_def cbind_Ok work_left_def split: option.splits if_splits)

text \<open>\<open>log_fatal\<close> ends the process.\<close>

function process_loop ::
    "char \<Rightarrow> ReqEnv \<Rightarrow> bytes option \<Rightarrow> ServerConnection \<Rightarrow> DataProcessingResult \<Rightarrow> World \<Rightarrow> (nat + bytes) list \<Rightarrow> bool \<Rightarrow>
     (ServerConnection \<times> DataProcessingResult \<times> World \<times> (nat + bytes) list \<times> bool) cres option" where
  "process_loop u env peer conn dpr w reads idle =
     obind (read_loop u env peer conn dpr w reads idle) (\<lambda>(conn1, dpr1, w1, reads1, idle1).
     obind (Some (progress_response u env conn1 dpr1 w1)) (\<lambda>(conn2, dpr2, w2).
       if dpr_closeConn dpr2 \<or> sc_rrs conn2 \<noteq> RRS_READ_FINISHED \<or> sc_handler conn2 \<noteq> None
       then Some (Ok (conn2, dpr2, w2, reads1, idle1))
       else if dpr_reqState dpr2 \<noteq> DPR_READY \<or> dpr_respState dpr2 \<noteq> DPR_READY then Some Abort
       else if wants_close (sc_header conn2) then Some (Ok (conn2, dpr_setCloseConn dpr2, w2, reads1, idle1))
       else process_loop u env peer (next_request conn2) dpr2 w2 reads1 idle1))"
  by pat_completeness auto
termination
proof (relation "measure (\<lambda>(u, env, peer, conn, dpr, w, reads, idle). work_left conn + reads_left reads)", goal_cases)
  case 1
  show ?case by simp
next
  case (2 u env peer conn dpr w reads idle r conn1 p1 dpr1 p2 w1 p3 reads1 idle1 r2 conn2 p4 dpr2 w2)
  then have r: "read_loop u env peer conn dpr w reads idle = Some (Ok (conn1, dpr1, w1, reads1, idle1))"
    and p: "progress_response u env conn1 dpr1 w1 = Ok (conn2, dpr2, w2)" and f: "sc_rrs conn2 = RRS_READ_FINISHED" by auto
  have "work_left (next_request conn2) < work_left conn2" using f by (simp add: work_left_def next_request_def rrs_rank_def)
  then show ?case using read_loop_work [OF r] progress_response_same(1) [OF p] by simp
qed

declare process_loop.simps [simp del]

datatype ConnProcessingResult = CONN_IDLE | CONN_BUSY | CONN_TO_CLOSE

definition await_fd :: "DprState \<Rightarrow> int \<Rightarrow> DrsCall list" where
  "await_fd state fd = (case state of DPR_AWAIT_READ \<Rightarrow> [DrsSetReadFd fd] | DPR_AWAIT_WRITE \<Rightarrow> [DrsSetWriteFd fd] | DPR_READY \<Rightarrow> [])"

definition conn_processDataReady ::
    "char \<Rightarrow> ReqEnv \<Rightarrow> bytes option \<Rightarrow> ServerConnection \<Rightarrow> World \<Rightarrow> (nat + bytes) list \<Rightarrow> bool \<Rightarrow>
     (ServerConnection \<times> ConnProcessingResult \<times> DrsCall list \<times> World \<times> (nat + bytes) list) cres option" where
  "conn_processDataReady u env peer conn w reads closeIfIdle =
     obind (process_loop u env peer conn dpr_init w reads (sc_rrs conn = RRS_IDLE)) (\<lambda>(conn', dpr, w', reads', isVeryIdle).
       let close = (dpr_closeConn dpr \<or> closeIfIdle \<and> sc_rrs conn' = RRS_IDLE) in
       Some (Ok (conn', if close then CONN_TO_CLOSE else if isVeryIdle then CONN_IDLE else CONN_BUSY,
         if close then [] else await_fd (dpr_reqState dpr) (dpr_reqAwaitFd dpr) @ await_fd (dpr_respState dpr) (dpr_respAwaitFd dpr),
         w', reads')))"

text \<open>Freeing the connection: the calls on the file system and the descriptors it closes.\<close>

definition conn_free :: "ServerConnection option \<Rightarrow> FsCall list \<times> int list" where
  "conn_free conn = (case conn of None \<Rightarrow> ([], [])
     | Some c \<Rightarrow> (case reqhdlr_free (sc_handler c) of (calls, fds) \<Rightarrow> (calls, sc_socketFd c # fds)))"

subsection \<open>Termination\<close>

text \<open>
  The bytes of the body that were given to the handler never outnumber those announced, and the counts do not
  overflow while \<open>n\<close> more bytes come; before the end of the header none was given.
\<close>

definition counts_ok :: "ServerConnection \<Rightarrow> nat \<Rightarrow> bool" where
  "counts_ok conn n = (sc_bodyReadLen conn \<le> sc_bodyLen conn \<and> unat (sc_bodyReadLen conn) + n < 2 ^ 64 - 2 ^ 32 \<and>
     (sc_rrs conn \<in> {RRS_IDLE, RRS_READ_HEAD} \<longrightarrow> sc_bodyReadLen conn = 0))"

lemma add_u32:
  fixes a :: u64 and b :: u32
  assumes "unat a < 2 ^ 64 - 2 ^ 32"
  shows "unat (a + ucast b) = unat a + unat b" "a \<le> a + ucast b"
proof -
  have "unat b < 2 ^ 64" by (rule less_trans [OF unsigned_less]) simp
  then have "unat (ucast b :: u64) = unat b" by (simp add: unsigned_ucast_eq take_bit_nat_eq_self)
  moreover have "unat b < 2 ^ 32" by (rule less_le_trans [OF unsigned_less]) simp
  then have "unat a + unat b < 2 ^ 64" using assms by simp
  ultimately show "unat (a + ucast b) = unat a + unat b" by (simp add: unat_word_ariths)
  then show "a \<le> a + ucast b" by (simp add: word_le_nat_alt)
qed

lemma chunk_line_len:
  assumes "(conn', rest) = chunk_line conn c bol"
  shows "sc_bodyReadLen conn' = sc_bodyReadLen conn" "\<exists>b :: u32. sc_bodyLen conn' = sc_bodyLen conn + ucast b"
    "sc_handler conn' = sc_handler conn" "sc_pending conn' = sc_pending conn" "sc_rrs conn' \<in> {sc_rrs conn, RRS_READ_TRAILER}"
proof -
  have "\<exists>b :: u32. sc_bodyLen conn = sc_bodyLen conn + ucast b" by (intro exI [of _ 0]) simp
  then show "sc_bodyReadLen conn' = sc_bodyReadLen conn" "\<exists>b :: u32. sc_bodyLen conn' = sc_bodyLen conn + ucast b"
    "sc_handler conn' = sc_handler conn" "sc_pending conn' = sc_pending conn" "sc_rrs conn' \<in> {sc_rrs conn, RRS_READ_TRAILER}"
    using assms by (auto simp: chunk_line_def Let_def split: option.splits if_splits)
qed

lemma chunk_line_counts:
  assumes "(conn', rest) = chunk_line conn c bol" "sc_bodyReadLen conn = sc_bodyLen conn" "counts_ok conn (length bol + m)"
  shows "counts_ok conn' (length rest + m)"
proof -
  obtain b :: u32 where b: "sc_bodyLen conn' = sc_bodyLen conn + ucast b" using chunk_line_len(2) [OF assms(1)] by blast
  have "unat (sc_bodyLen conn) < 2 ^ 64 - 2 ^ 32" using assms(2,3) by (simp add: counts_ok_def)
  from add_u32(2) [OF this, of b] show ?thesis
    using assms(2,3) chunk_line_len(1,5) [OF assms(1)] b chunk_line_eq [OF assms(1)] by (auto simp: counts_ok_def)
qed

lemma cgi_write_le: "cgi_write ce ws data dpr = (ce', dpr', n, got, ws') \<Longrightarrow> n \<le> length data"
proof (induction ws arbitrary: data ce' dpr' n got ws')
  case Nil
  then show ?case by (subst (asm) cgi_write.simps) (auto split: if_splits)
next
  case (Cons a ws)
  show ?case
  proof (cases a)
    case (Wrote k)
    obtain ce1 dpr1 m w1 ws1 where "cgi_write ce ws (drop k data) dpr = (ce1, dpr1, m, w1, ws1)"
      by (metis prod_cases5)
    with Wrote Cons.prems Cons.IH [OF this] show ?thesis
      by (subst (asm) cgi_write.simps) (auto simp: Let_def min_def split: if_splits)
  next
    case (WErr e)
    with Cons.prems show ?thesis by (subst (asm) cgi_write.simps) (auto split: if_splits)
  qed
qed

lemma processData_le:
  assumes "reqhdlr_processData env w h data dpr = Ok (h', n, dpr', w')"
  shows "n \<le> length data"
  using assms by (auto simp: reqhdlr_processData_def cgiexe_processData_def cbind_Ok dest: cgi_write_le
      split: option.splits prod.splits)

lemma unat_add_nat:
  fixes a :: u64
  assumes "unat a + n < 2 ^ 64"
  shows "unat (a + of_nat n) = unat a + n"
  using assms by (simp add: unat_word_ariths unat_of_nat)

lemma body_part_add:
  assumes "sc_bodyReadLen conn < sc_bodyLen conn" "unat (sc_bodyReadLen conn) + length bol < 2 ^ 64"
  shows "unat (sc_bodyReadLen conn) + body_part conn bol \<le> unat (sc_bodyLen conn)"
proof (cases "sc_bodyLen conn < sc_bodyReadLen conn + of_nat (length bol)")
  case True
  then show ?thesis using assms(1) by (simp add: body_part_def unat_sub less_imp_le word_less_nat_alt)
next
  case False
  then have "body_part conn bol = length bol" by (simp add: body_part_def)
  then show ?thesis using False unat_add_nat [OF assms(2)] by (simp add: not_less word_le_nat_alt)
qed

lemma give_body_counts:
  assumes "give_body env conn dpr w bol = Ok (conn', dpr', w', bol', stop)" "sc_bodyReadLen conn < sc_bodyLen conn"
    "counts_ok conn (length bol + m)" "sc_rrs conn = RRS_READ_BODY"
  shows "counts_ok conn' (length bol' + m)"
proof -
  obtain h h' n where h: "reqhdlr_processData env w h (take (body_part conn bol) bol) dpr = Ok (h', n, dpr', w')"
      "conn' = conn\<lparr>sc_handler := Some h', sc_bodyReadLen := sc_bodyReadLen conn + of_nat n\<rparr>" "bol' = drop n bol"
    using assms(1) by (auto simp: give_body_def Let_def cbind_Ok split: option.splits)
  have c: "unat (sc_bodyReadLen conn) + length bol + m < 2 ^ 64 - 2 ^ 32" using assms(3) by (simp add: counts_ok_def)
  have n: "n \<le> body_part conn bol" "n \<le> length bol"
    using processData_le [OF h(1)] body_part_le(1) [OF assms(2), of bol] by simp_all
  then have a: "unat (sc_bodyReadLen conn + of_nat n) = unat (sc_bodyReadLen conn) + n"
    using c by (intro unat_add_nat) simp
  have "unat (sc_bodyReadLen conn) + body_part conn bol \<le> unat (sc_bodyLen conn)"
    using c by (intro body_part_add [OF assms(2)]) simp
  then show ?thesis using a n c assms(4) by (simp add: counts_ok_def h(2,3) word_le_nat_alt)
qed

lemma body_step_counts:
  assumes "body_step env conn dpr w bol = Ok (conn', dpr', w', bol', stop)" "counts_ok conn (length bol + m)"
    "sc_rrs conn = RRS_READ_BODY"
  shows "counts_ok conn' (length bol' + m)"
  using assms give_body_counts [of env conn dpr w bol conn' dpr' w' bol' stop m] by (auto simp: body_step_def split: if_splits)

lemma req_body_loop_counts:
  "counts_ok conn (length bol + m) \<Longrightarrow>
     \<exists>r. req_body_loop env conn dpr w bol = Some r \<and>
       (\<forall>conn' dpr' w' rest. r = Ok (conn', dpr', w', rest) \<longrightarrow> counts_ok conn' (length rest + m))"
proof (induction env conn dpr w bol rule: req_body_loop.induct)
  case (1 env conn dpr w bol)
  note unf = req_body_loop.simps [of env conn dpr w bol]
  show ?case
  proof (cases "sc_rrs conn \<noteq> RRS_READ_BODY \<or> bol = []")
    case True
    then show ?thesis using "1.prems" by (simp add: unf)
  next
    case False
    then have go: "\<not> sc_bodyLen conn < sc_bodyReadLen conn" using "1.prems" by (simp add: counts_ok_def not_less)
    note IH = "1.IH" [OF False go _ refl refl refl refl]
    show ?thesis
    proof (cases "body_step env conn dpr w bol")
      case (Ok x)
      obtain conn1 dpr1 w1 bol1 stop where x: "x = (conn1, dpr1, w1, bol1, stop)" by (metis prod_cases5)
      note g = Ok [unfolded x]
      have c1: "counts_ok conn1 (length bol1 + m)" using body_step_counts [OF g "1.prems"] False by blast
      consider (stop) stop | (over) "\<not> stop" "sc_bodyReadLen conn1 = sc_bodyLen conn1" "sc_chunkHdr conn1 = None"
        | (line) c where "\<not> stop" "sc_bodyReadLen conn1 = sc_bodyLen conn1" "sc_chunkHdr conn1 = Some c"
        | (more) "\<not> stop" "sc_bodyReadLen conn1 \<noteq> sc_bodyLen conn1" by blast
      then show ?thesis
      proof cases
        case stop
        then show ?thesis using g False go c1 by (simp add: unf)
      next
        case over
        then show ?thesis using g False go c1 by (simp add: unf) (simp add: counts_ok_def)
      next
        case line
        obtain conn2 bol2 where c: "(conn2, bol2) = chunk_line conn1 c bol1" by (metis surj_pair)
        from IH(1) [OF g line c chunk_line_counts [OF c line(2) c1]] show ?thesis
          using g False go line by (simp add: unf c [symmetric])
      next
        case more
        from IH(2) [OF g more c1] show ?thesis using g False go more by (simp add: unf)
      qed
    qed (use False go in \<open>simp_all add: unf\<close>)
  qed
qed

lemma post_ends:
  assumes "\<And>q. del_recursive n sys q \<noteq> None"
  shows "filemgr_processPost n sys fs c fm rhdr \<noteq> None"
proof -
  have "delete_file n sys p f r \<noteq> None" for p f r
    by (simp add: delete_file_def Let_def assms split: option.splits cres.splits prod.splits)
  then have "post_action n sys fs c p mp \<noteq> None" for p mp
    by (simp add: post_action_def Let_def)
  then show ?thesis by (simp add: filemgr_processPost_def Let_def split: option.splits)
qed

lemma requestReadCompleted_ends:
  assumes "\<And>q. del_recursive (re_fuel env) (re_sys env) q \<noteq> None"
  shows "reqhdlr_requestReadCompleted env w hdlr rhdr \<noteq> None"
proof -
  have "processFolderReq env w rhdr fm \<noteq> None" for fm
    by (simp add: processFolderReq_def Let_def post_ends [OF assms] del: not_None_eq)
  then show ?thesis by (simp add: reqhdlr_requestReadCompleted_def Let_def split: option.splits del: not_None_eq)
qed

definition reads_bytes :: "(nat + bytes) list \<Rightarrow> nat" where
  "reads_bytes reads = sum_list (map (\<lambda>a. case a of Inl _ \<Rightarrow> 0 | Inr d \<Rightarrow> length d) reads)"

text \<open>A computation ends, and when it returns the state is such that \<open>P\<close>.\<close>

definition ends_in :: "'a cres option \<Rightarrow> ('a \<Rightarrow> bool) \<Rightarrow> bool" where
  "ends_in r P = (\<exists>x. r = Some x \<and> (\<forall>y. x = Ok y \<longrightarrow> P y))"

lemma ends_in_simps [simp]:
  "ends_in (Some (Ok x)) P = P x" "ends_in (Some Abort) P" "ends_in (Some Undef) P"
  by (simp_all add: ends_in_def)

lemma ends_in_obind:
  assumes "ends_in r P" "\<And>x. r = Some (Ok x) \<Longrightarrow> P x \<Longrightarrow> ends_in (f x) Q"
  shows "ends_in (obind r f) Q"
  using assms by (cases r; cases "the r") (auto simp: ends_in_def)

lemma ends_in_Some: "(\<And>x. r = Ok x \<Longrightarrow> P x) \<Longrightarrow> ends_in (Some r) P"
  by (simp add: ends_in_def)

lemma header_bytes_counts:
  assumes "header_bytes u env conn = Ok (conn', fin)" "counts_ok conn (length (sc_pending conn) + m)"
  shows "counts_ok conn' (length (sc_pending conn') + m)"
  using assms header_bytes_same [OF assms(1)] header_bytes_work [OF assms(1)] by (auto simp: counts_ok_def)

lemma onFinishedHeader_counts:
  assumes "onFinishedHeader env peer conn w = Ok (conn', w')" "counts_ok conn (length (sc_pending conn) + m)"
    "sc_rrs conn = RRS_READ_HEAD"
  shows "counts_ok conn' (length (sc_pending conn') + m)"
  using assms by (auto simp: onFinishedHeader_def cbind_Ok Let_def counts_ok_def split: if_splits option.splits)

lemma read_head_counts:
  assumes "counts_ok conn (length (sc_pending conn) + m)"
  shows "ends_in (Some (read_head u env peer conn w)) (\<lambda>(conn', w'). counts_ok conn' (length (sc_pending conn') + m))"
proof (cases "sc_rrs conn = RRS_READ_HEAD")
  case True
  show ?thesis
  proof (cases "header_bytes u env conn")
    case (Ok x)
    obtain conn1 fin where x: "x = (conn1, fin)" by (cases x)
    have "counts_ok conn1 (length (sc_pending conn1) + m)" "sc_rrs conn1 = RRS_READ_HEAD"
      using header_bytes_counts [OF Ok [unfolded x] assms] header_bytes_same(1) [OF Ok [unfolded x]] True by simp_all
    note c = onFinishedHeader_counts [OF _ this]
    have "read_head u env peer conn w = (if fin then onFinishedHeader env peer conn1 w else Ok (conn1, w))"
      using True Ok x by (simp add: read_head_def)
    then show ?thesis using c [of env peer w] \<open>counts_ok conn1 _\<close> by (cases fin) (auto intro!: ends_in_Some)
  qed (use True in \<open>simp_all add: read_head_def\<close>)
qed (use assms in \<open>simp add: read_head_def\<close>)

lemma read_body_data_ends:
  assumes "counts_ok conn (length (sc_pending conn) + m)"
  shows "ends_in (read_body_data env conn dpr w) (\<lambda>(conn', dpr', w'). counts_ok conn' (length (sc_pending conn') + m))"
proof -
  have "ends_in (req_body_loop env conn dpr w (sc_pending conn)) (\<lambda>(conn', dpr', w', rest). counts_ok conn' (length rest + m))"
    using req_body_loop_counts [OF assms, of env dpr w] by (auto simp: ends_in_def)
  then have "ends_in (appendBodyData env conn dpr w) (\<lambda>(conn', dpr', w'). counts_ok conn' (length (sc_pending conn') + m))"
    unfolding appendBodyData_def by (rule ends_in_obind) (auto simp: counts_ok_def)
  then show ?thesis using assms by (simp add: read_body_data_def)
qed

lemma read_trailer_counts:
  assumes "counts_ok conn (length (sc_pending conn) + m)"
  shows "ends_in (Some (read_trailer u env conn)) (\<lambda>conn'. counts_ok conn' (length (sc_pending conn') + m))"
proof (rule ends_in_Some)
  fix conn' assume "read_trailer u env conn = Ok conn'"
  then consider "conn' = conn" | conn1 where "header_bytes u env conn = Ok (conn1, True)"
      "conn' = conn1\<lparr>sc_rrs := RRS_READ_FINISHED\<rparr>" | "header_bytes u env conn = Ok (conn', False)"
    by (auto simp: read_trailer_def cbind_Ok split: if_splits)
  then show "counts_ok conn' (length (sc_pending conn') + m)"
    by cases (use assms header_bytes_counts [of u env conn] in \<open>auto simp: counts_ok_def\<close>)
qed

lemma request_completed_ends:
  assumes "\<And>q. del_recursive (re_fuel env) (re_sys env) q \<noteq> None" "counts_ok conn (length (sc_pending conn) + m)"
  shows "ends_in (request_completed env conn w) (\<lambda>(conn', w'). counts_ok conn' (length (sc_pending conn') + m))"
proof (cases "sc_handler conn")
  case (Some h)
  have "ends_in (reqhdlr_requestReadCompleted env w h (sc_header conn)) (\<lambda>_. True)"
    using requestReadCompleted_ends [OF assms(1)] by (auto simp: ends_in_def)
  then show ?thesis unfolding request_completed_def Some option.case
    by (rule ends_in_obind) (use assms(2) in \<open>auto simp: counts_ok_def\<close>)
qed (simp add: request_completed_def)

lemma appendData_ends:
  assumes "\<And>q. del_recursive (re_fuel env) (re_sys env) q \<noteq> None" "counts_ok conn (length (sc_pending conn) + m)"
  shows "ends_in (appendData u env peer conn dpr w) (\<lambda>(conn', dpr', w'). counts_ok conn' (length (sc_pending conn') + m))"
proof -
  define conn0 where "conn0 = (if sc_rrs conn = RRS_IDLE then conn\<lparr>sc_header := reqhdr_new, sc_rrs := RRS_READ_HEAD\<rparr> else conn)"
  have c0: "counts_ok conn0 (length (sc_pending conn0) + m)" using assms(2) by (simp add: conn0_def counts_ok_def)
  show ?thesis
    unfolding appendData_def Let_def conn0_def [symmetric]
    by (rule ends_in_obind [OF read_head_counts [OF c0]], clarsimp,
        rule ends_in_obind [OF read_body_data_ends], assumption, clarsimp,
        rule ends_in_obind [OF read_trailer_counts], assumption, clarsimp,
        rule ends_in_obind [OF request_completed_ends [OF assms(1)]], auto)
qed

definition conn_counts :: "ServerConnection \<Rightarrow> (nat + bytes) list \<Rightarrow> bool" where
  "conn_counts conn reads = counts_ok conn (length (sc_pending conn) + reads_bytes reads)"

lemma conn_read_counts:
  assumes "(conn', dpr', reads', idle') = conn_read conn dpr reads idle" "conn_counts conn reads"
  shows "conn_counts conn' reads'"
  using assms
  by (auto simp: conn_read_def conn_counts_def counts_ok_def reads_bytes_def min_def split: if_splits list.splits sum.splits)

lemma read_loop_ends:
  assumes "\<And>q. del_recursive (re_fuel env) (re_sys env) q \<noteq> None"
  shows "conn_counts conn reads \<Longrightarrow> ends_in (read_loop u env peer conn dpr w reads idle)
    (\<lambda>(conn', dpr', w', reads', idle'). conn_counts conn' reads')"
  using assms
proof (induction u env peer conn dpr w reads idle rule: read_loop.induct)
  case (1 u env peer conn dpr w reads idle)
  obtain conn1 dpr1 reads1 idle1 where r: "(conn1, dpr1, reads1, idle1) = conn_read conn dpr reads idle"
    by (metis prod_cases4)
  have c1: "conn_counts conn1 reads1" using conn_read_counts [OF r "1.prems"(1)] .
  consider (stop) "\<not> may_read conn dpr" | (over) "may_read conn dpr" "sc_pending conn1 = []"
    | (data) "may_read conn dpr" "sc_pending conn1 \<noteq> []" by blast
  then show ?case
  proof cases
    case stop
    then show ?thesis using "1.prems" by (simp add: read_loop.simps)
  next
    case over
    then have "\<not> \<not> may_read conn dpr" by simp
    from "1.IH"(1) [OF this r refl refl over(2) c1 "1.prems"(2)] show ?thesis
      using over by (simp add: read_loop.simps [of u env peer conn] r [symmetric])
  next
    case data
    then have m: "\<not> \<not> may_read conn dpr" by simp
    have "ends_in (appendData u env peer conn1 dpr1 w) (\<lambda>(conn', dpr', w'). conn_counts conn' reads1)"
      using appendData_ends [OF "1.prems"(2)] c1 unfolding conn_counts_def by blast
    then have "ends_in (obind (appendData u env peer conn1 dpr1 w)
        (\<lambda>(conn2, dpr2, w2). read_loop u env peer conn2 dpr2 w2 reads1 idle1))
        (\<lambda>(conn', dpr', w', reads', idle'). conn_counts conn' reads')"
    proof (rule ends_in_obind)
      fix x assume x: "appendData u env peer conn1 dpr1 w = Some (Ok x)" "case x of (conn', dpr', w') \<Rightarrow> conn_counts conn' reads1"
      obtain conn2 dpr2 w2 where e: "x = (conn2, dpr2, w2)" by (cases x)
      from "1.IH"(2) [OF m r refl refl data(2) x(1) e [symmetric] refl _ "1.prems"(2)] x(2)
      show "ends_in (case x of (conn2, dpr2, w2) \<Rightarrow> read_loop u env peer conn2 dpr2 w2 reads1 idle1)
          (\<lambda>(conn', dpr', w', reads', idle'). conn_counts conn' reads')" unfolding e by simp
    qed
    then show ?thesis using data by (simp add: read_loop.simps [of u env peer conn] r [symmetric])
  qed
qed

lemma progress_response_counts:
  "conn_counts conn reads \<Longrightarrow>
     ends_in (Some (progress_response u env conn dpr w)) (\<lambda>(conn', dpr', w'). conn_counts conn' reads)"
  by (intro ends_in_Some) (auto simp: progress_response_def cbind_Ok conn_counts_def counts_ok_def split: option.splits if_splits)

lemma process_loop_ends:
  assumes "\<And>q. del_recursive (re_fuel env) (re_sys env) q \<noteq> None"
  shows "conn_counts conn reads \<Longrightarrow> ends_in (process_loop u env peer conn dpr w reads idle)
    (\<lambda>(conn', dpr', w', reads', idle'). conn_counts conn' reads')"
  using assms
proof (induction u env peer conn dpr w reads idle rule: process_loop.induct)
  case (1 u env peer conn dpr w reads idle)
  show ?case
    unfolding process_loop.simps [of u env peer conn]
  proof (rule ends_in_obind [OF read_loop_ends [OF "1.prems"(2,1)]])
    fix x assume x: "read_loop u env peer conn dpr w reads idle = Some (Ok x)"
      "case x of (conn', dpr', w', reads', idle') \<Rightarrow> conn_counts conn' reads'"
    obtain conn1 dpr1 w1 reads1 idle1 where e: "x = (conn1, dpr1, w1, reads1, idle1)" by (metis prod_cases5)
    have c1: "conn_counts conn1 reads1" using x(2) e by simp
    have "ends_in (if dpr_closeConn dpr2 \<or> sc_rrs conn2 \<noteq> RRS_READ_FINISHED \<or> sc_handler conn2 \<noteq> None
        then Some (Ok (conn2, dpr2, w2, reads1, idle1))
        else if dpr_reqState dpr2 \<noteq> DPR_READY \<or> dpr_respState dpr2 \<noteq> DPR_READY then Some Abort
        else if wants_close (sc_header conn2) then Some (Ok (conn2, dpr_setCloseConn dpr2, w2, reads1, idle1))
        else process_loop u env peer (next_request conn2) dpr2 w2 reads1 idle1)
      (\<lambda>(conn', dpr', w', reads', idle'). conn_counts conn' reads')"
      if a: "Some (progress_response u env conn1 dpr1 w1) = Some (Ok (conn2, dpr2, w2))" "conn_counts conn2 reads1" for conn2 dpr2 w2
    proof -
      have n: "conn_counts (next_request conn2) reads1" using a(2) by (simp add: conn_counts_def counts_ok_def next_request_def)
      show ?thesis
        using a(2) "1.IH" [OF x(1) e [symmetric] refl refl refl a(1) refl refl _ _ _ n "1.prems"(2)] by simp
    qed
    then show "ends_in (case x of (conn1, dpr1, w1, reads1, idle1) \<Rightarrow>
        obind (Some (progress_response u env conn1 dpr1 w1)) (\<lambda>(conn2, dpr2, w2).
          if dpr_closeConn dpr2 \<or> sc_rrs conn2 \<noteq> RRS_READ_FINISHED \<or> sc_handler conn2 \<noteq> None
          then Some (Ok (conn2, dpr2, w2, reads1, idle1))
          else if dpr_reqState dpr2 \<noteq> DPR_READY \<or> dpr_respState dpr2 \<noteq> DPR_READY then Some Abort
          else if wants_close (sc_header conn2) then Some (Ok (conn2, dpr_setCloseConn dpr2, w2, reads1, idle1))
          else process_loop u env peer (next_request conn2) dpr2 w2 reads1 idle1))
      (\<lambda>(conn', dpr', w', reads', idle'). conn_counts conn' reads')"
      unfolding e prod.case by (intro ends_in_obind [OF progress_response_counts [OF c1]]) auto
  qed
qed

lemma conn_processDataReady_ends:
  assumes "\<And>q. del_recursive (re_fuel env) (re_sys env) q \<noteq> None" and "conn_counts conn reads"
  shows "ends_in (conn_processDataReady u env peer conn w reads closeIfIdle) (\<lambda>(conn', res, drs, w', reads'). conn_counts conn' reads')"
  unfolding conn_processDataReady_def
  by (rule ends_in_obind [OF process_loop_ends [OF assms]]) (auto simp: Let_def)

text \<open>The server never hangs on a connection: whatever the client sends, in whatever pieces, and whatever the socket, the files,
  the pipes and the file system answer, \<open>conn_processDataReady\<close> comes to an end, as long as the client sent less
  than \<open>2^64 - 2^32\<close> bytes and no folder to delete is nested deeper than the fuel.  The loops over the bytes of a
  body, over the lines of a header, over the input and over the requests of the connection all end, and the
  counts are such that the next call ends as well.\<close>

theorem conn_ends:
  assumes "\<And>q. del_recursive (re_fuel env) (re_sys env) q \<noteq> None" and "conn_counts conn reads"
  shows "\<exists>r. conn_processDataReady u env peer conn w reads closeIfIdle = Some r \<and>
    (\<forall>conn' res drs w' reads'. r = Ok (conn', res, drs, w', reads') \<longrightarrow> conn_counts conn' reads')"
  using conn_processDataReady_ends [OF assms, of u peer w closeIfIdle] by (auto simp: ends_in_def)

theorem conn_ends_witness:
  "\<exists>r. conn_processDataReady NUL example_env None (conn_new 4) example_world
      [Inr (''POST /a.txt HTTP/1.1'' @ CRLF), Inr (''Transfer-Encoding: chunked'' @ CRLF @ CRLF @ ''1''), Inl EWOULDBLOCK] False = Some r"
proof -
  have "del_recursive (re_fuel example_env) (re_sys example_env) q \<noteq> None" for q
    by (simp add: example_env_def example_sys_def eval_nat_numeral)
  moreover have "conn_counts (conn_new 4)
      [Inr (''POST /a.txt HTTP/1.1'' @ CRLF), Inr (''Transfer-Encoding: chunked'' @ CRLF @ CRLF @ ''1''), Inl EWOULDBLOCK]"
    by (simp add: conn_counts_def counts_ok_def conn_new_def reads_bytes_def)
  ultimately show ?thesis using conn_ends [of example_env] by blast
qed

end
