(* ===== verification/Requestbody.thy ===== *)
theory Requestbody
  imports Serverconnection
begin

text \<open>
  The body of a request in the loop of \<open>appendBodyData\<close> (\<open>src/serverconnection.c\<close>): whatever bytes are in the buffer, a
  handler that takes all it is given gets exactly those of the body, in both encodings, and the bytes behind the
  body are left for the trailer or the next request.  Theory \<open>Bodycalls\<close> has the calls of the connection around the loop.
\<close>

subsection \<open>The chunked encoding\<close>

text \<open>An extension of a chunk, as it is printed behind the size.\<close>

definition ext_ok :: "bytes \<Rightarrow> bool" where
  "ext_ok e = ((e = [] \<or> hd e = CHR '';'') \<and> LF \<notin> set e \<and> NUL \<notin> set e)"

definition enc_chunk :: "bytes \<times> bytes \<Rightarrow> bytes" where
  "enc_chunk c = to_base 16 (length (snd c)) @ fst c @ CRLF @ snd c @ CRLF"

definition enc_body :: "(bytes \<times> bytes) list \<Rightarrow> bytes \<Rightarrow> bytes" where
  "enc_body cs e = concat (map enc_chunk cs) @ ''0'' @ e @ CRLF"

definition chunks_ok :: "(bytes \<times> bytes) list \<Rightarrow> bytes \<Rightarrow> bool" where
  "chunks_ok cs e = (ext_ok e \<and> list_all (\<lambda>(e, d). ext_ok e \<and> d \<noteq> [] \<and> length d < 2 ^ 32) cs)"

definition payload :: "(bytes \<times> bytes) list \<Rightarrow> bytes" where
  "payload cs = concat (map snd cs)"

text \<open>The line with the size that comes first, with the end of the chunk before it, and what follows it.\<close>

definition size_line :: "nat \<Rightarrow> bytes \<Rightarrow> bytes" where
  "size_line n e = CRLF @ to_base 16 n @ e @ [CR]"

definition first_line :: "(bytes \<times> bytes) list \<Rightarrow> bytes \<Rightarrow> bytes" where
  "first_line cs e = (case cs of [] \<Rightarrow> size_line 0 e | (e', d) # _ \<Rightarrow> size_line (length d) e')"

fun after_line :: "(bytes \<times> bytes) list \<Rightarrow> bytes \<Rightarrow> bytes" where
  "after_line [] e = []"
| "after_line ((e', d) # cs) e = d @ first_line cs e @ LF # after_line cs e"

lemma to_base_0: "to_base 16 0 = ''0''"
  by code_simp

lemma CRLF_eq: "CRLF = [CR, LF]"
  by simp

lemma enc_body_lines: "CRLF @ enc_body cs e = first_line cs e @ LF # after_line cs e"
proof (induction cs)
  case Nil
  show ?case by (simp add: enc_body_def first_line_def size_line_def to_base_0)
next
  case (Cons c cs)
  obtain e' d where c: "c = (e', d)" by (cases c)
  have "CRLF @ enc_body (c # cs) e = CRLF @ to_base 16 (length d) @ e' @ CRLF @ d @ CRLF @ enc_body cs e"
    by (simp add: enc_body_def enc_chunk_def c)
  also have "\<dots> = first_line (c # cs) e @ LF # after_line (c # cs) e"
    unfolding Cons.IH by (simp add: first_line_def size_line_def c)
  finally show ?case .
qed

lemma digit_char_facts:
  assumes "v < 16"
  shows "\<not> is_space (digit_char v) \<and> digit_char v \<noteq> CHR ''-'' \<and> digit_char v \<noteq> CHR ''+'' \<and> digit_char v \<noteq> NUL \<and>
    digit_char v \<noteq> LF \<and> c_tolower (digit_char v) \<noteq> CHR ''x'' \<and> digit_char v \<noteq> CR"
proof -
  have "list_all (\<lambda>v. \<not> is_space (digit_char v) \<and> digit_char v \<noteq> CHR ''-'' \<and> digit_char v \<noteq> CHR ''+'' \<and> digit_char v \<noteq> NUL \<and>
    digit_char v \<noteq> LF \<and> c_tolower (digit_char v) \<noteq> CHR ''x'' \<and> digit_char v \<noteq> CR) [0..<16]" by code_simp
  then show ?thesis using assms by (simp add: list_all_iff)
qed

lemma to_base_facts:
  assumes "c \<in> set (to_base 16 n)"
  shows "\<not> is_space c" "c \<noteq> CHR ''-''" "c \<noteq> CHR ''+''" "c \<noteq> NUL" "c \<noteq> LF" "c_tolower c \<noteq> CHR ''x''" "c \<noteq> CR"
    "digit_val 16 c \<noteq> None"
proof -
  obtain v where v: "v < 16" "c = digit_char v" using to_base_digits [OF _ _ assms] by auto
  then show "digit_val 16 c \<noteq> None" by (simp add: digit_val_digit_char)
  show "\<not> is_space c" "c \<noteq> CHR ''-''" "c \<noteq> CHR ''+''" "c \<noteq> NUL" "c \<noteq> LF" "c_tolower c \<noteq> CHR ''x''" "c \<noteq> CR"
    unfolding v(2) using digit_char_facts [OF v(1)] by blast+
qed

lemma strtoul_hex:
  assumes "n < 2 ^ 32" "x = CHR '';'' \<or> x = CR"
  shows "fst (strtoul 16 (to_base 16 n @ x # t)) = n"
proof -
  obtain c cs where h: "to_base 16 n = c # cs" by (cases "to_base 16 n") auto
  note f = to_base_facts [of _ n]
  have c: "\<not> is_space c" "c \<noteq> CHR ''-''" "c \<noteq> CHR ''+''" using f [of c] by (simp_all add: h)
  have nx: "c_tolower ((c # cs @ x # t) ! 1) \<noteq> CHR ''x''"
    using f(6) [of "hd cs"] assms(2) by (cases cs) (auto simp: h c_tolower_def)
  have "digits 16 (to_base 16 n @ x # t) = digits 16 (to_base 16 n) @ digits 16 (x # t)"
    by (rule digits_append) (use f(8) in blast)
  also have "digits 16 (x # t) = []" using assms(2) by (auto simp: digit_val_def)
  finally have "digits 16 (c # cs @ x # t) = digits 16 (to_base 16 n)" by (simp add: h)
  then have d: "num_of 16 (digits 16 (c # cs @ x # t)) = n" using digits_to_base [of 16 n] by simp
  have ne: "digits 16 (c # cs @ x # t) \<noteq> []" using f(8) [of c] by (auto simp: h split: option.splits)
  have sp: "takeWhile is_space (c # cs @ x # t) = []" using c(1) by simp
  have "strtoul 16 (c # cs @ x # t) = (n, length (digits 16 (c # cs @ x # t)))"
    unfolding strtoul_def Let_def sp using c(2,3) nx d ne assms(1) by (simp del: digits.simps)
  then show ?thesis by (simp add: h)
qed

lemma size_line_facts:
  assumes "ext_ok e"
  shows "take 2 (size_line n e) = CRLF" "LF \<notin> set (drop 2 (size_line n e))" "2 < length (size_line n e)"
    "n < 2 ^ 32 \<Longrightarrow> chunk_size (size_line n e) = of_nat n"
proof -
  have d: "drop 2 (size_line n e) = to_base 16 n @ e @ [CR]" by (simp add: size_line_def)
  show "take 2 (size_line n e) = CRLF" "2 < length (size_line n e)" by (simp_all add: size_line_def)
  show "LF \<notin> set (drop 2 (size_line n e))"
    unfolding d using assms to_base_facts(5) [of LF n] by (auto simp: ext_ok_def)
  have "NUL \<notin> set (to_base 16 n @ e @ [CR])" using assms to_base_facts(4) [of NUL n] by (auto simp: ext_ok_def)
  then have c: "cstr (to_base 16 n @ e @ [CR]) = to_base 16 n @ e @ [CR]" by (rule cstr_id)
  obtain x t where x: "e @ [CR] = x # t" "x = CHR '';'' \<or> x = CR" using assms by (cases e) (auto simp: ext_ok_def)
  show "chunk_size (size_line n e) = of_nat n" if "n < 2 ^ 32"
    unfolding chunk_size_def d c unfolding x(1) using strtoul_hex [OF that x(2), of t] by simp
qed

text \<open>The line is complete, or it is not.\<close>

lemma chunk_line_part:
  assumes "c @ b @ s = size_line n e" "ext_ok e"
  shows "chunk_line conn c b = (conn\<lparr>sc_chunkHdr := Some (c @ b)\<rparr>, [])"
proof -
  let ?k = "if length c < 2 then min (length b) (2 - length c) else 0"
  have "LF \<notin> set (drop ?k b)"
  proof
    assume "LF \<in> set (drop ?k b)"
    moreover have "set (drop ?k b) \<subseteq> set (drop 2 (c @ b @ s))"
      by (cases "length c < 2") (auto simp: min_def)
    ultimately show False using size_line_facts(2) [OF assms(2), of n] assms(1) by auto
  qed
  then have "memchr LF (drop ?k b) = None" by (simp add: memchr_None)
  then show ?thesis by (simp add: chunk_line_def Let_def)
qed

lemma chunk_line_whole:
  assumes "c @ s = size_line n e" "ext_ok e" "n < 2 ^ 32"
  shows "chunk_line conn c (s @ LF # t) =
    ((if n = 0 then conn\<lparr>sc_rrs := RRS_READ_TRAILER, sc_chunkHdr := Some []\<rparr>
      else conn\<lparr>sc_bodyLen := sc_bodyLen conn + of_nat n, sc_chunkHdr := Some []\<rparr>), t)"
proof -
  let ?k = "if length c < 2 then min (length (s @ LF # t)) (2 - length c) else 0"
  have len: "2 < length c + length s" using size_line_facts(3) [OF assms(2), of n] assms(1) by (metis length_append)
  then have k: "?k = (if length c < 2 then 2 - length c else 0)" "?k \<le> length s" by auto
  have d: "drop ?k s = drop 2 (c @ s) \<or> 2 \<le> length c \<and> drop ?k s = drop (2 - length c) s" using k by auto
  have "LF \<notin> set (drop ?k s)"
  proof
    assume a: "LF \<in> set (drop ?k s)"
    have "set (drop ?k s) \<subseteq> set (drop 2 (c @ s))" using k by (auto dest: in_set_dropD)
    then show False using a size_line_facts(2) [OF assms(2), of n] assms(1) by auto
  qed
  then have m: "memchr LF (drop ?k (s @ LF # t)) = Some (length s - ?k)"
    using k(2) memchr_append [of LF "drop ?k s" t] by simp
  have "c @ take ?k (s @ LF # t) @ take (length s - ?k) (drop ?k (s @ LF # t)) = c @ s"
    using k(2) by simp
  then have l: "(c @ take ?k (s @ LF # t)) @ take (length s - ?k) (drop ?k (s @ LF # t)) = size_line n e"
    using assms(1) by simp
  have r: "drop (Suc (length s - ?k)) (drop ?k (s @ LF # t)) = t" using k(2) by simp
  have sz: "chunk_size (size_line n e) = of_nat n" using size_line_facts(4) [OF assms(2,3)] .
  have z: "(of_nat n :: u32) = 0 \<longleftrightarrow> n = 0" using assms(3) by (auto simp: word_of_nat_eq_0_iff dest: nat_dvd_not_less)
  have u: "(ucast (of_nat n :: u32) :: u64) = of_nat n"
    using assms(3) by (simp add: unsigned_of_nat take_bit_nat_eq_self)
  show ?thesis
    unfolding chunk_line_def Let_def m option.case l r sz using z u by simp
qed

subsection \<open>The handler\<close>

text \<open>A handler that takes all bytes it is given: every one but a CGI program, whose pipe may block.\<close>

definition takes_all :: "RequestHandler \<Rightarrow> bool" where
  "takes_all h = (rh_filemgr h \<noteq> None \<or> rh_cgiexe h = None)"

text \<open>What the handler does with a sequence of pieces.\<close>

fun deliver ::
    "ReqEnv \<Rightarrow> DataProcessingResult \<Rightarrow> RequestHandler \<Rightarrow> World \<Rightarrow> bytes list \<Rightarrow> (RequestHandler \<times> World) cres" where
  "deliver env dpr h w [] = Ok (h, w)"
| "deliver env dpr h w (p # ps) =
     cbind (reqhdlr_processData env w h p dpr) (\<lambda>(h', n, dpr', w'). deliver env dpr' h' w' ps)"

lemma processData_takes_all:
  assumes "takes_all h" "reqhdlr_processData env w h data dpr = Ok (h', n, dpr', w')"
  shows "n = length data \<and> dpr' = dpr \<and> takes_all h'"
  using assms by (auto simp: takes_all_def reqhdlr_processData_def cbind_Ok split: option.splits)

subsection \<open>The bytes to come\<close>

text \<open>
  Where the connection stands in the body: \<open>S\<close> is what comes, \<open>pay\<close> the bytes of it for the handler, \<open>rest\<close> what
  is behind the body, and \<open>fin\<close> the state that follows.
\<close>

inductive body_at :: "ServerConnection \<Rightarrow> RequestReadState \<Rightarrow> bytes \<Rightarrow> bytes \<Rightarrow> bytes \<Rightarrow> bool" where
  in_data: "sc_chunkHdr conn = None \<Longrightarrow> sc_bodyReadLen conn \<le> sc_bodyLen conn \<Longrightarrow>
    length d = unat (sc_bodyLen conn - sc_bodyReadLen conn) \<Longrightarrow> body_at conn RRS_READ_FINISHED (d @ rest) d rest"
| in_line: "sc_chunkHdr conn = Some c \<Longrightarrow> sc_bodyReadLen conn = sc_bodyLen conn \<Longrightarrow> chunks_ok cs e \<Longrightarrow>
    c @ s = first_line cs e \<Longrightarrow> unat (sc_bodyLen conn) + length (payload cs) < 2 ^ 64 \<Longrightarrow>
    body_at conn RRS_READ_TRAILER (s @ LF # after_line cs e @ rest) (payload cs) rest"
| in_chunk: "sc_chunkHdr conn = Some [] \<Longrightarrow> sc_bodyReadLen conn < sc_bodyLen conn \<Longrightarrow>
    length d = unat (sc_bodyLen conn - sc_bodyReadLen conn) \<Longrightarrow> chunks_ok cs e \<Longrightarrow>
    unat (sc_bodyLen conn) + length (payload cs) < 2 ^ 64 \<Longrightarrow>
    body_at conn RRS_READ_TRAILER (d @ first_line cs e @ LF # after_line cs e @ rest) (d @ payload cs) rest"

text \<open>Both kinds of data, before the bytes \<open>T\<close>.\<close>

lemma body_at_data:
  assumes "body_at conn fin S pay rest" "sc_bodyReadLen conn < sc_bodyLen conn"
  obtains d T q where "S = d @ T" "pay = d @ q" "length d = unat (sc_bodyLen conn - sc_bodyReadLen conn)"
    "\<And>x d' conn'. d = x @ d' \<Longrightarrow> sc_chunkHdr conn' = sc_chunkHdr conn \<Longrightarrow> sc_bodyLen conn' = sc_bodyLen conn \<Longrightarrow>
       sc_bodyReadLen conn' \<le> sc_bodyLen conn' \<Longrightarrow>
       length d' = unat (sc_bodyLen conn' - sc_bodyReadLen conn') \<Longrightarrow> body_at conn' fin (d' @ T) (d' @ q) rest"
  using assms(1)
proof cases
  case in_data
  show ?thesis
    by (rule that [of pay rest "[]"]) (use in_data in \<open>auto intro: body_at.in_data\<close>)
next
  case in_line
  then show ?thesis using assms(2) by simp
next
  case (in_chunk d cs e)
  show ?thesis
  proof (rule that [of d "first_line cs e @ LF # after_line cs e @ rest" "payload cs"])
    fix x d' :: bytes and conn' :: ServerConnection
    assume c: "d = x @ d'" "sc_chunkHdr conn' = sc_chunkHdr conn" "sc_bodyLen conn' = sc_bodyLen conn"
      "sc_bodyReadLen conn' \<le> sc_bodyLen conn'" "length d' = unat (sc_bodyLen conn' - sc_bodyReadLen conn')"
    show "body_at conn' fin (d' @ first_line cs e @ LF # after_line cs e @ rest) (d' @ payload cs) rest"
    proof (cases "sc_bodyReadLen conn' = sc_bodyLen conn'")
      case True
      then have "d' = []" using c(5) by simp
      then show ?thesis
        using body_at.in_line [of conn' "[]" cs e "first_line cs e" rest] True c(2,3) in_chunk by simp
    next
      case False
      then show ?thesis using body_at.in_chunk [of conn' d' cs e rest] c in_chunk by simp
    qed
  qed (use in_chunk in auto)
qed

lemma unat_lt64: "unat (x :: u64) < 2 ^ 64"
  by (rule less_le_trans [OF unsigned_less]) simp

lemma body_part_min:
  assumes "sc_bodyReadLen conn < sc_bodyLen conn" "counts_ok conn (length p + m)"
  shows "body_part conn p = min (length p) (unat (sc_bodyLen conn - sc_bodyReadLen conn))"
proof -
  have a: "unat (sc_bodyReadLen conn + of_nat (length p)) = unat (sc_bodyReadLen conn) + length p"
    using assms(2) by (intro unat_add_nat) (simp add: counts_ok_def)
  have b: "unat (sc_bodyLen conn - sc_bodyReadLen conn) = unat (sc_bodyLen conn) - unat (sc_bodyReadLen conn)"
    using assms(1) by (simp add: unat_sub less_imp_le)
  show ?thesis
    unfolding body_part_def using a b assms(1) by (auto simp: word_less_nat_alt min_def)
qed

text \<open>The part of a round that hands data to the handler.\<close>

lemma step_delivers:
  assumes "body_step env conn dpr w p = Ok (conn1, dpr1, w1, b, stop)" "body_at conn fin (p @ S) pay rest"
    and "sc_handler conn = Some h" "takes_all h" "counts_ok conn (length p + m)" "p \<noteq> []"
  shows "\<exists>ps h1 pay1. \<not> stop \<and> dpr1 = dpr \<and> deliver env dpr h w ps = Ok (h1, w1) \<and> pay = concat ps @ pay1 \<and>
    sc_handler conn1 = Some h1 \<and> takes_all h1 \<and> body_at conn1 fin (b @ S) pay1 rest \<and>
    (b = [] \<or> sc_bodyReadLen conn1 = sc_bodyLen conn1) \<and> sc_rrs conn1 = sc_rrs conn"
proof (cases "sc_bodyReadLen conn < sc_bodyLen conn")
  case False
  then have "sc_bodyReadLen conn = sc_bodyLen conn" using assms(5) by (simp add: counts_ok_def)
  then show ?thesis
    using assms by (intro exI [of _ "[]"] exI [of _ h] exI [of _ pay]) (simp add: body_step_def)
next
  case True
  from body_at_data [OF assms(2) True] obtain d T q where S: "p @ S = d @ T" and pay: "pay = d @ q"
    and len: "length d = unat (sc_bodyLen conn - sc_bodyReadLen conn)"
    and next': "\<And>x d' conn'. d = x @ d' \<Longrightarrow> sc_chunkHdr conn' = sc_chunkHdr conn \<Longrightarrow> sc_bodyLen conn' = sc_bodyLen conn \<Longrightarrow>
       sc_bodyReadLen conn' \<le> sc_bodyLen conn' \<Longrightarrow>
       length d' = unat (sc_bodyLen conn' - sc_bodyReadLen conn') \<Longrightarrow> body_at conn' fin (d' @ T) (d' @ q) rest"
    by metis
  define n where "n = min (length p) (length d)"
  have bp: "body_part conn p = n" using body_part_min [OF True assms(5)] len by (simp add: n_def)
  obtain h1 k where g: "reqhdlr_processData env w h (take n p) dpr = Ok (h1, k, dpr1, w1)"
      "conn1 = conn\<lparr>sc_handler := Some h1, sc_bodyReadLen := sc_bodyReadLen conn + of_nat k\<rparr>" "b = drop k p" "stop = (k < n)"
    using assms(1,3) True by (auto simp: body_step_def give_body_def bp Let_def cbind_Ok)
  have k: "k = n" "dpr1 = dpr" "takes_all h1" using processData_takes_all [OF assms(4) g(1)] by (simp_all add: n_def)
  have take: "take n p = take n d" and rest: "drop n p @ S = drop n d @ T"
  proof -
    have "take n (p @ S) = take n (d @ T)" "drop n (p @ S) = drop n (d @ T)" using S by simp_all
    then show "take n p = take n d" "drop n p @ S = drop n d @ T" by (simp_all add: n_def)
  qed
  have bl: "unat (sc_bodyLen conn) = unat (sc_bodyReadLen conn) + length d"
    using True len by (simp add: unat_sub less_imp_le word_less_nat_alt)
  have nd: "n \<le> length d" by (simp add: n_def)
  have rl: "unat (sc_bodyReadLen conn + of_nat n) = unat (sc_bodyReadLen conn) + n"
    using bl nd unat_lt64 [of "sc_bodyLen conn"] by (intro unat_add_nat) simp
  have le: "sc_bodyReadLen conn1 \<le> sc_bodyLen conn1" using rl bl nd by (simp add: g(2) k word_le_nat_alt)
  have "body_at conn1 fin (drop n d @ T) (drop n d @ q) rest"
  proof (rule next' [of "take n d"])
    show "length (drop n d) = unat (sc_bodyLen conn1 - sc_bodyReadLen conn1)"
      using le rl bl by (simp add: g(2) k unat_sub)
  qed (use le in \<open>simp_all add: g(2)\<close>)
  moreover have "b = [] \<or> sc_bodyReadLen conn1 = sc_bodyLen conn1"
  proof (cases "length p \<le> length d")
    case False
    then have "n = length d" by (simp add: n_def)
    then show ?thesis using rl bl by (simp add: g(2) k word_unat_eq_iff)
  qed (simp add: g(3) k n_def)
  moreover have "pay = take n p @ drop n d @ q" using pay take by (simp flip: append_assoc)
  ultimately show ?thesis
    using k g rest
    by (intro exI [of _ "[take n p]"] exI [of _ h1] exI [of _ "drop n d @ q"]) auto
qed

text \<open>The part of a round that reads the line before a chunk.\<close>

lemma line_step:
  assumes "body_at conn fin (b @ S) pay rest" "sc_chunkHdr conn = Some c" "sc_bodyReadLen conn = sc_bodyLen conn"
    "(conn', b') = chunk_line conn c b"
  shows "sc_handler conn' = sc_handler conn \<and> fin = RRS_READ_TRAILER \<and>
    (sc_rrs conn' = RRS_READ_TRAILER \<and> pay = [] \<and> b' @ S = rest \<or>
     sc_rrs conn' = sc_rrs conn \<and> body_at conn' fin (b' @ S) pay rest)"
  using assms(1)
proof cases
  case in_data
  then show ?thesis using assms(2) by simp
next
  case in_chunk
  then show ?thesis using assms(3) by simp
next
  case (in_line c' cs e s)
  then have c': "c' = c" using assms(2) by simp
  obtain n e' where l: "c @ s = size_line n e'" "ext_ok e'" "n < 2 ^ 32"
      and cs: "(cs = [] \<and> n = 0) \<or> (\<exists>d cs'. cs = (e', d) # cs' \<and> n = length d \<and> d \<noteq> [])"
    using in_line c' by (cases cs) (auto simp: first_line_def chunks_ok_def split: prod.splits)
  define T where T: "T = after_line cs e @ rest"
  have "b @ S = s @ LF # T" using in_line by (simp add: T)
  then consider (part) us where "s = b @ us" "S = us @ LF # T" | (whole) t where "b = s @ LF # t" "T = t @ S"
    by (auto simp: append_eq_append_conv2 append_eq_Cons_conv)
  then show ?thesis
  proof cases
    case part
    have "chunk_line conn c b = (conn\<lparr>sc_chunkHdr := Some (c @ b)\<rparr>, [])"
      using chunk_line_part [of c b us] l part(1) by simp
    then have n: "conn' = conn\<lparr>sc_chunkHdr := Some (c @ b)\<rparr>" "b' = []" using assms(4) by simp_all
    have "body_at conn' RRS_READ_TRAILER (us @ LF # T) (payload cs) rest"
      unfolding T
      by (rule body_at.in_line [of _ "c @ b"]) (use in_line c' part in \<open>simp_all add: n T\<close>)
    then show ?thesis using in_line part(2) by (simp add: n)
  next
    case whole
    note w = assms(4) [unfolded whole(1) chunk_line_whole [OF l]]
    show ?thesis
      using cs
    proof
      assume "cs = [] \<and> n = 0"
      then show ?thesis using w whole(2) in_line by (simp add: payload_def T)
    next
      assume "\<exists>d cs'. cs = (e', d) # cs' \<and> n = length d \<and> d \<noteq> []"
      then obtain d cs' where d: "cs = (e', d) # cs'" "n = length d" "d \<noteq> []" by blast
      have n: "conn' = conn\<lparr>sc_bodyLen := sc_bodyLen conn + of_nat n, sc_chunkHdr := Some []\<rparr>" "b' = t"
        using w d by simp_all
      have u: "unat (of_nat n :: u64) = n" using unat_add_nat [of 0 n] l(3) by simp
      have a: "unat (sc_bodyLen conn + of_nat n) = unat (sc_bodyLen conn) + n"
        using in_line d by (intro unat_add_nat) (simp add: payload_def)
      have "body_at conn' RRS_READ_TRAILER (d @ first_line cs' e @ LF # after_line cs' e @ rest) (d @ payload cs') rest"
      proof (rule body_at.in_chunk)
        show "sc_bodyReadLen conn' < sc_bodyLen conn'" "length d = unat (sc_bodyLen conn' - sc_bodyReadLen conn')"
          using a d assms(3) by (simp_all add: n(1) word_less_nat_alt u [unfolded d(2)])
        show "chunks_ok cs' e" using in_line d by (simp add: chunks_ok_def)
        show "unat (sc_bodyLen conn') + length (payload cs') < 2 ^ 64"
          using a in_line d by (simp add: n(1) payload_def)
      qed (simp add: n(1))
      then show ?thesis using in_line whole(2) d by (simp add: n payload_def T)
    qed
  qed
qed

subsection \<open>The loop\<close>

lemma deliver_append:
  "deliver env dpr h w ps = Ok (h1, w1) \<Longrightarrow> takes_all h \<Longrightarrow> deliver env dpr h w (ps @ qs) = deliver env dpr h1 w1 qs"
proof (induction ps arbitrary: h w)
  case (Cons p ps)
  then obtain h2 n dpr2 w2 where r: "reqhdlr_processData env w h p dpr = Ok (h2, n, dpr2, w2)"
      "deliver env dpr2 h2 w2 ps = Ok (h1, w1)" by (auto simp: cbind_Ok)
  then have "dpr2 = dpr" "takes_all h2" using processData_takes_all [OF Cons.prems(2) r(1)] by simp_all
  then show ?case using Cons.IH r by simp
qed simp

text \<open>A body with a length is not complete while the loop waits for more.\<close>

definition awaiting :: "ServerConnection \<Rightarrow> bool" where
  "awaiting conn = (sc_chunkHdr conn = None \<longrightarrow> sc_bodyReadLen conn < sc_bodyLen conn)"

lemma body_at_trailer: "body_at conn RRS_READ_TRAILER S pay rest \<Longrightarrow> awaiting conn \<and> S \<noteq> []"
  by (erule body_at.cases) (auto simp: awaiting_def)

text \<open>
  What a run of the loop on \<open>p\<close> does, with \<open>S\<close> still to come: it takes part of the body, or all of it, or the handler
  failed on some piece.
\<close>

definition delivered ::
    "ReqEnv \<Rightarrow> DataProcessingResult \<Rightarrow> RequestHandler \<Rightarrow> World \<Rightarrow> RequestReadState \<Rightarrow> bytes \<Rightarrow> bytes \<Rightarrow> bytes \<Rightarrow>
     (ServerConnection \<times> DataProcessingResult \<times> World \<times> bytes) cres \<Rightarrow> bool" where
  "delivered env dpr h w fin S pay rest r =
     (case r of
        Abort \<Rightarrow> \<exists>ps. deliver env dpr h w ps = Abort
      | Undef \<Rightarrow> \<exists>ps. deliver env dpr h w ps = Undef
      | Ok (conn', dpr', w', q) \<Rightarrow> dpr' = dpr \<and>
         (\<exists>ps h'. deliver env dpr h w ps = Ok (h', w') \<and> sc_handler conn' = Some h' \<and> takes_all h' \<and>
           (sc_rrs conn' = fin \<and> q @ S = rest \<and> concat ps = pay \<or>
            sc_rrs conn' = RRS_READ_BODY \<and> q = [] \<and> awaiting conn' \<and> (\<exists>pay'. concat ps @ pay' = pay \<and> body_at conn' fin S pay' rest))))"

lemma delivered_more:
  assumes "sc_handler conn = Some h" "takes_all h" "sc_rrs conn = RRS_READ_BODY" "awaiting conn" "body_at conn fin S pay rest"
  shows "delivered env dpr h w fin S pay rest (Ok (conn, dpr, w, []))"
proof -
  have "deliver env dpr h w [] = Ok (h, w) \<and> concat [] @ pay = pay" by simp
  then show ?thesis unfolding delivered_def cres.case prod.case using assms by blast
qed

lemma delivered_all:
  assumes "sc_handler conn = Some h" "takes_all h" "sc_rrs conn = fin" "q @ S = rest"
  shows "delivered env dpr h w fin S [] rest (Ok (conn, dpr, w, q))"
proof -
  have "deliver env dpr h w [] = Ok (h, w) \<and> concat [] = ([] :: bytes)" by simp
  then show ?thesis unfolding delivered_def cres.case prod.case using assms by blast
qed

lemma delivered_trans:
  assumes "deliver env dpr h w ps = Ok (h1, w1)" "takes_all h" "delivered env dpr h1 w1 fin S pay1 rest r"
  shows "delivered env dpr h w fin S (concat ps @ pay1) rest r"
proof (cases r)
  case (Ok x)
  obtain conn' dpr' w' q where x: "x = (conn', dpr', w', q)" by (metis prod_cases4)
  obtain qs h' where d: "deliver env dpr h1 w1 qs = Ok (h', w')" "sc_handler conn' = Some h'" "takes_all h'" "dpr' = dpr"
      "sc_rrs conn' = fin \<and> q @ S = rest \<and> concat qs = pay1 \<or>
        sc_rrs conn' = RRS_READ_BODY \<and> q = [] \<and> awaiting conn' \<and> (\<exists>pay'. concat qs @ pay' = pay1 \<and> body_at conn' fin S pay' rest)"
    using assms(3) unfolding delivered_def Ok x by auto
  have "deliver env dpr h w (ps @ qs) = Ok (h', w')" using deliver_append [OF assms(1,2)] d(1) by simp
  then show ?thesis unfolding delivered_def Ok x cres.case prod.case using d(2-)
    by (intro conjI exI [of _ "ps @ qs"] exI [of _ h']) auto
next
  case Abort
  then show ?thesis using assms(3) deliver_append [OF assms(1,2)] unfolding delivered_def by simp metis
next
  case Undef
  then show ?thesis using assms(3) deliver_append [OF assms(1,2)] unfolding delivered_def by simp metis
qed

lemma step_fails:
  assumes "body_step env conn dpr w p = r" "r = Abort \<or> r = Undef" "sc_handler conn = Some h"
  shows "\<exists>d. reqhdlr_processData env w h d dpr = (if r = Abort then Abort else Undef)"
  using assms
  by (cases "reqhdlr_processData env w h (take (body_part conn p) p) dpr")
    (auto simp: body_step_def give_body_def Let_def split: if_splits)

lemma body_loop_delivers:
  "req_body_loop env conn dpr w p = Some r \<Longrightarrow> sc_rrs conn = RRS_READ_BODY \<Longrightarrow> sc_handler conn = Some h \<Longrightarrow>
     takes_all h \<Longrightarrow> counts_ok conn (length p + m) \<Longrightarrow> awaiting conn \<Longrightarrow> body_at conn fin (p @ S) pay rest \<Longrightarrow>
     delivered env dpr h w fin S pay rest r"
proof (induction env conn dpr w p arbitrary: h pay rule: req_body_loop.induct)
  case (1 env conn dpr w p)
  note unf = req_body_loop.simps [of env conn dpr w p]
  show ?case
  proof (cases "p = []")
    case True
    then have "r = Ok (conn, dpr, w, [])" using "1.prems"(1) [unfolded unf] by simp
    then show ?thesis using "1.prems"(2-4,6,7) True by (simp add: delivered_more)
  next
    case False
    then have loop: "\<not> (sc_rrs conn \<noteq> RRS_READ_BODY \<or> p = [])" using "1.prems"(2) by simp
    have go: "\<not> sc_bodyLen conn < sc_bodyReadLen conn" using "1.prems"(5) by (simp add: counts_ok_def not_less)
    show ?thesis
    proof (cases "body_step env conn dpr w p")
      case (Ok x)
      obtain conn1 dpr1 w1 b stop where x: "x = (conn1, dpr1, w1, b, stop)" by (metis prod_cases5)
      note g = Ok [unfolded x]
      obtain ps h1 pay1 where s: "\<not> stop" "dpr1 = dpr" "deliver env dpr h w ps = Ok (h1, w1)" "pay = concat ps @ pay1"
          "sc_handler conn1 = Some h1" "takes_all h1" "body_at conn1 fin (b @ S) pay1 rest"
          "b = [] \<or> sc_bodyReadLen conn1 = sc_bodyLen conn1" "sc_rrs conn1 = RRS_READ_BODY"
        using step_delivers [OF g "1.prems"(7,3,4,5) False] "1.prems"(2) by metis
      have c1: "counts_ok conn1 (length b + m)" using body_step_counts [OF g "1.prems"(5,2)] .
      note IH = "1.IH" [OF loop go g refl refl refl refl s(1)]
      have "delivered env dpr h1 w1 fin S pay1 rest r"
      proof (cases "sc_bodyReadLen conn1 = sc_bodyLen conn1")
        case False
        then have "b = []" "awaiting conn1" using s(8) c1 False by (auto simp: awaiting_def counts_ok_def order_less_le)
        from IH(2) [OF False _ s(9,5,6) c1 this(2) s(7)] show ?thesis
          using "1.prems"(1) loop go g s(1,2) False by (simp add: unf)
      next
        case True
        show ?thesis
        proof (cases "sc_chunkHdr conn1")
          case None
          have "r = Ok (conn1\<lparr>sc_rrs := RRS_READ_FINISHED\<rparr>, dpr1, w1, b)"
            using "1.prems"(1) loop go g s(1) True None by (simp add: unf)
          moreover have "fin = RRS_READ_FINISHED \<and> pay1 = [] \<and> b @ S = rest"
            using s(7) by cases (use True None in auto)
          ultimately show ?thesis using s(2,5,6) by (simp add: delivered_all)
        next
          case (Some c)
          obtain conn2 b2 where l: "(conn2, b2) = chunk_line conn1 c b" by (metis surj_pair)
          have r: "req_body_loop env conn2 dpr1 w1 b2 = Some r"
            using "1.prems"(1) loop go g s(1) True Some by (simp add: unf l [symmetric])
          have c2: "counts_ok conn2 (length b2 + m)" using chunk_line_counts [OF l True c1] .
          from line_step [OF s(7) Some True l] consider
            "sc_rrs conn2 = RRS_READ_TRAILER" "pay1 = []" "b2 @ S = rest" "fin = RRS_READ_TRAILER" "sc_handler conn2 = Some h1"
            | "sc_rrs conn2 = RRS_READ_BODY" "awaiting conn2" "body_at conn2 fin (b2 @ S) pay1 rest" "sc_handler conn2 = Some h1"
            using s(5,9) body_at_trailer [of conn2] by auto
          then show ?thesis
          proof cases
            case 1
            then have "r = Ok (conn2, dpr1, w1, b2)" using r by (simp add: req_body_loop.simps [of env conn2])
            then show ?thesis using 1 s(2,6) by (simp add: delivered_all)
          next
            case 2
            from IH(1) [OF True Some l r 2(1,4) s(6) c2 2(2,3)] show ?thesis using s(2) by simp
          qed
        qed
      qed
      then show ?thesis using delivered_trans [OF s(3) "1.prems"(4)] s(4) by simp
    next
      case Abort
      then have "r = Abort" using "1.prems"(1) loop go by (simp add: unf)
      moreover obtain d where "reqhdlr_processData env w h d dpr = Abort" using step_fails [OF Abort _ "1.prems"(3)] by auto
      then have "deliver env dpr h w [d] = Abort" by simp
      then have "\<exists>ps. deliver env dpr h w ps = Abort" ..
      ultimately show ?thesis by (simp add: delivered_def)
    next
      case Undef
      then have "r = Undef" using "1.prems"(1) loop go by (simp add: unf)
      moreover obtain d where "reqhdlr_processData env w h d dpr = Undef" using step_fails [OF Undef _ "1.prems"(3)] by auto
      then have "deliver env dpr h w [d] = Undef" by simp
      then have "\<exists>ps. deliver env dpr h w ps = Undef" ..
      ultimately show ?thesis by (simp add: delivered_def)
    qed
  qed
qed

lemma payload_length: "length (payload cs) \<le> length (enc_body cs e)"
  by (induction cs) (auto simp: payload_def enc_body_def enc_chunk_def)

text \<open>Where a connection stands when a body begins, chunked or with a length.\<close>

lemma chunked_starts:
  assumes "sc_chunkHdr conn = Some CRLF" "sc_bodyLen conn = 0" "sc_bodyReadLen conn = 0" "chunks_ok cs e"
    "length (enc_body cs e) < 2 ^ 64"
  shows "awaiting conn \<and> body_at conn RRS_READ_TRAILER (enc_body cs e @ rest) (payload cs) rest"
proof -
  have "CRLF @ enc_body cs e @ rest = first_line cs e @ LF # after_line cs e @ rest"
    using enc_body_lines [of cs e] by (metis append.assoc append_Cons)
  then have "enc_body cs e @ rest = drop 2 (first_line cs e @ LF # after_line cs e @ rest)"
    by (metis CRLF_eq append_eq_conv_conj length_Cons list.size(3) numeral_2_eq_2)
  moreover have "2 \<le> length (first_line cs e)" by (simp add: first_line_def size_line_def split: list.splits prod.splits)
  ultimately have body: "enc_body cs e @ rest = drop 2 (first_line cs e) @ LF # after_line cs e @ rest" by simp
  have fl: "CRLF @ drop 2 (first_line cs e) = first_line cs e"
    by (simp add: first_line_def size_line_def split: list.splits prod.splits)
  have "body_at conn RRS_READ_TRAILER (enc_body cs e @ rest) (payload cs) rest"
    unfolding body
    by (rule body_at.in_line [OF assms(1)]) (use assms(2-5) fl payload_length [of cs e] in simp_all)
  then show ?thesis using body_at_trailer by blast
qed

lemma length_starts:
  assumes "sc_chunkHdr conn = None" "sc_bodyLen conn = of_nat (length body)" "sc_bodyReadLen conn = 0" "body \<noteq> []"
    "length body < 2 ^ 64"
  shows "awaiting conn \<and> body_at conn RRS_READ_FINISHED (body @ rest) body rest"
proof -
  have u: "unat (sc_bodyLen conn) = length body"
    using unat_add_nat [of 0 "length body"] assms(2,5) by simp
  then have "sc_bodyReadLen conn < sc_bodyLen conn" using assms(3,4) by (simp add: word_less_nat_alt)
  moreover have "body_at conn RRS_READ_FINISHED (body @ rest) body rest"
    by (rule body_at.in_data) (use assms(1,3) u in simp_all)
  ultimately show ?thesis by (simp add: awaiting_def)
qed

text \<open>A connection that waits for more of the body has not got all of it.\<close>

lemma body_not_over:
  assumes "body_at conn fin [] pay rest" "awaiting conn"
  shows False
  using assms by cases (auto simp: awaiting_def unat_eq_zero)

subsection \<open>A response that is sent before the body is read\<close>

text \<open>
  The handler is freed when its response is sent, and the next byte of the body is given to a null pointer.
\<close>

lemma freed_handler_undefined:
  assumes "sc_rrs conn = RRS_READ_BODY" "sc_handler conn = None" "sc_bodyReadLen conn < sc_bodyLen conn" "p \<noteq> []"
  shows "req_body_loop env conn dpr w p = Some Undef"
  using assms by (simp add: req_body_loop.simps [of env conn] body_step_def give_body_def not_less less_imp_le Let_def)

end
