(* ===== verification/Cmdline.thy ===== *)
theory Cmdline
  imports Fmconfig
begin

text \<open>
  \<open>src/cmdline.c\<close>: the options of the program.  They come as \<open>getopt\<close> returns them; the global variables are
  the fields of a record.
\<close>

record CmdLine =
  cl_configLoc :: bytes
  cl_logLevel :: u32
  cl_inetd :: bool

definition cmdline_init :: "bytes \<Rightarrow> CmdLine" where
  "cmdline_init sysconfdir = \<lparr>cl_configLoc = sysconfdir @ ''/filemanager-httpd.d'', cl_logLevel = 0, cl_inetd = False\<rparr>"

definition usage :: bytes where
  "usage = [LF] @
     ''usage: filemanager-httpd [OPTIONS]'' @ [LF] @
     [LF] @
     ''options:'' @ [LF] @
     [TAB] @ ''-h             - prints this help'' @ [LF] @
     [LF] @
     [TAB] @ ''-c file|dir    - read configuration from the specified location'' @ [LF] @
     [TAB] @ ''                 instead of standard one. It may be a file or'' @ [LF] @
     [TAB] @ ''                 a directory. In case of a directory all files'' @ [LF] @
     [TAB] @ ''                 within, with '' @ [QUOTE] @ ''.conf'' @ [QUOTE] @ '' extension are read.'' @ [LF] @
     [LF] @
     [TAB] @ ''-d             - print some debug logs to standard output'' @ [LF] @
     [LF] @
     [TAB] @ ''-p user:pass   - print the user and password in encoded form,'' @ [LF] @
     [TAB] @ ''                 suitable for '' @ [QUOTE] @ ''credentials'' @ [QUOTE] @ '' option and exit'' @ [LF] @
     [LF] @
     [TAB] @ ''-i             - inetd mode (socket passed as standard input)'' @ [LF] @
     [LF]"

text \<open>The options as \<open>getopt\<close> returns them, with their arguments: the settings, what is printed, and the result.\<close>

fun cmdline_parse :: "(char \<times> bytes) list \<Rightarrow> CmdLine \<Rightarrow> CmdLine \<times> bytes \<times> bool" where
  "cmdline_parse [] cl = (cl, [], True)"
| "cmdline_parse ((opt, optarg) # os) cl =
     (if opt = CHR ''c'' then cmdline_parse os (cl\<lparr>cl_configLoc := optarg\<rparr>)
      else if opt = CHR ''d'' then cmdline_parse os (cl\<lparr>cl_logLevel := cl_logLevel cl + 1\<rparr>)
      else if opt = CHR ''i'' then cmdline_parse os (cl\<lparr>cl_inetd := True\<rparr>)
      else if opt = CHR ''p'' then (cl, config_getCredentialsEncoded optarg @ [LF], False)
      else (cl, usage, False))"

definition cmdline_getConfigLoc :: "CmdLine \<Rightarrow> bytes" where
  "cmdline_getConfigLoc cl = cl_configLoc cl"

definition cmdline_getLogLevel :: "CmdLine \<Rightarrow> u32" where
  "cmdline_getLogLevel cl = cl_logLevel cl"

definition cmdline_isInetdMode :: "CmdLine \<Rightarrow> bool" where
  "cmdline_isInetdMode cl = cl_inetd cl"

text \<open>Every \<open>-d\<close> raises the level of the log by one, and nothing else does.\<close>

lemma parse_level:
  "cmdline_parse opts cl = (cl', out, go) \<Longrightarrow>
     \<exists>k \<le> length (filter (\<lambda>x. fst x = CHR ''d'') opts). cmdline_getLogLevel cl' = cmdline_getLogLevel cl + of_nat k \<and>
       (go \<longrightarrow> k = length (filter (\<lambda>x. fst x = CHR ''d'') opts) \<and> out = [])"
proof (induction opts cl arbitrary: cl' rule: cmdline_parse.induct)
  case (2 opt optarg os cl)
  then show ?case
  proof (cases "opt = CHR ''d''")
    case True
    then have "cmdline_parse os (cl\<lparr>cl_logLevel := cl_logLevel cl + 1\<rparr>) = (cl', out, go)" using "2.prems" by simp
    from "2.IH"(2) [OF _ True this] True obtain k where "k \<le> length (filter (\<lambda>x. fst x = CHR ''d'') os)"
        "cmdline_getLogLevel cl' = cl_logLevel cl + 1 + of_nat k"
        "go \<longrightarrow> k = length (filter (\<lambda>x. fst x = CHR ''d'') os) \<and> out = []"
      by (auto simp: cmdline_getLogLevel_def)
    then show ?thesis using True by (intro exI [of _ "Suc k"]) (simp add: cmdline_getLogLevel_def)
  qed (auto simp: cmdline_getLogLevel_def split: if_splits)
qed (simp add: cmdline_getLogLevel_def)

end
