(* ===== verification/Mainloop.thy ===== *)
theory Mainloop
  imports Requestbody Cmdline
begin

text \<open>
  \<open>src/main.c\<close>: the loop that accepts connections and serves them, and the program.  The arrays of the loop have
  \<open>None\<close> where nothing was stored yet; reading that, or using an index outside, is \<open>Undef\<close>.  A connection is a
  value, so storing a pointer to one that was just served stores its new state.
\<close>

subsection \<open>Serving the connections\<close>

text \<open>
  What the connections share is the nonce counter; the rest of the world, the coming input and the address of the
  client belong to a descriptor, since it was accepted, and so do its flags.  \<open>mw_accepted\<close> are the descriptors that were accepted, and
  \<open>mw_closed\<close> has an entry for each connection that was freed: the descriptors \<open>conn_free\<close> closed, in order, and its world, with
  what was sent and done for it.
\<close>

record MainWorld =
  mw_nonce :: u64
  mw_fd :: "int \<Rightarrow> World"
  mw_reads :: "int \<Rightarrow> (nat + bytes) list"
  mw_peer :: "int \<Rightarrow> bytes option"
  mw_accepted :: "int list"
  mw_closed :: "(int list \<times> World) list"
  mw_flags :: "int \<Rightarrow> FdFlags"

definition serve_conn ::
    "char \<Rightarrow> ReqEnv \<Rightarrow> ServerConnection \<Rightarrow> bool \<Rightarrow> DataReadySelector \<Rightarrow> MainWorld \<Rightarrow>
     (ServerConnection \<times> ConnProcessingResult \<times> DataReadySelector \<times> MainWorld) cres option" where
  "serve_conn u env conn closeIfIdle drs w =
     (let fd = sc_socketFd conn in
      obind (conn_processDataReady u env (mw_peer w fd) conn ((mw_fd w fd)\<lparr>wo_nonce := mw_nonce w\<rparr>) (mw_reads w fd) closeIfIdle)
        (\<lambda>(conn', res, calls, cw, reads').
          obind (Some (drs_calls calls drs)) (\<lambda>drs'.
            Some (Ok (conn', res, drs', w\<lparr>mw_nonce := wo_nonce cw, mw_fd := (mw_fd w)(fd := cw),
              mw_reads := (mw_reads w)(fd := reads')\<rparr>)))))"

definition free_conn :: "ServerConnection \<Rightarrow> MainWorld \<Rightarrow> MainWorld" where
  "free_conn conn w =
     (let cw = mw_fd w (sc_socketFd conn); closed = conn_free (Some conn)
      in w\<lparr>mw_closed := mw_closed w @
           [(snd closed, cw\<lparr>wo_calls := wo_calls cw @ fst closed, wo_closed := wo_closed cw @ snd closed\<rparr>)]\<rparr>)"

definition arr_get :: "'a option list \<Rightarrow> nat \<Rightarrow> 'a cres" where
  "arr_get a i = (if i < length a then (case a ! i of Some x \<Rightarrow> Ok x | None \<Rightarrow> Undef) else Undef)"

definition arr_set :: "'a option list \<Rightarrow> nat \<Rightarrow> 'a \<Rightarrow> 'a option list cres" where
  "arr_set a i x = (if i < length a then Ok (a[i := Some x]) else Undef)"

record MainState =
  ms_connections :: "ServerConnection option list"
  ms_busy :: "ServerConnection option list"
  ms_connCount :: nat
  ms_drs :: DataReadySelector
  ms_warned :: bool

definition main_init :: "Config \<Rightarrow> MainState" where
  "main_init c = (let m = unat (config_getMaxClients c) in
     \<lparr>ms_connections = replicate m None, ms_busy = replicate m None, ms_connCount = 0, ms_drs = drs_new, ms_warned = False\<rparr>)"

text \<open>
  The answers of \<open>accept\<close>: a descriptor, with the answers of \<open>fcntl\<close> and what the world will answer for it, or an error.  When the answers are
  used up the call would block.
\<close>

datatype AcceptAns = Accepted int FcntlAns World "(nat + bytes) list" "bytes option" | AcceptFailed

definition open_conn :: "int \<Rightarrow> FdFlags \<Rightarrow> World \<Rightarrow> (nat + bytes) list \<Rightarrow> bytes option \<Rightarrow> MainWorld \<Rightarrow> MainWorld" where
  "open_conn fd fl cw reads peer w =
     w\<lparr>mw_flags := (mw_flags w)(fd := fl), mw_fd := (mw_fd w)(fd := cw\<lparr>wo_calls := [], wo_closed := []\<rparr>), mw_reads := (mw_reads w)(fd := reads), mw_peer := (mw_peer w)(fd := peer),
       mw_accepted := mw_accepted w @ [fd]\<rparr>"

fun accept_loop :: "nat \<Rightarrow> AcceptAns list \<Rightarrow> MainState \<Rightarrow> MainWorld \<Rightarrow> (MainState \<times> MainWorld) cres" where
  "accept_loop m (Accepted fd fa cw reads peer # as) st w =
     (if ms_connCount st < m then
        cbind (drs_setNonBlockingCloExecFlags fa) (\<lambda>fl.
        cbind (arr_set (ms_connections st) (ms_connCount st) (conn_new fd)) (\<lambda>a.
          accept_loop m as (st\<lparr>ms_connections := a, ms_connCount := ms_connCount st + 1\<rparr>) (open_conn fd fl cw reads peer w)))
      else Ok (st, w))"
| "accept_loop m _ st w = Ok (st, w)"

text \<open>The loop over the connections, from index \<open>i\<close> with \<open>idle\<close> and \<open>busy\<close> found so far.\<close>

function scan_loop ::
    "char \<Rightarrow> ReqEnv \<Rightarrow> nat \<Rightarrow> MainState \<Rightarrow> nat \<Rightarrow> nat \<Rightarrow> nat \<Rightarrow> MainWorld \<Rightarrow>
     (MainState \<times> nat \<times> nat \<times> MainWorld) cres option" where
  "scan_loop u env m st i idle busy w =
     (if i < ms_connCount st then
        obind (Some (arr_get (ms_connections st) i)) (\<lambda>c.
        obind (serve_conn u env c (ms_connCount st = m \<and> i = busy) (ms_drs st) w) (\<lambda>(c', res, drs', w').
          let st1 = st\<lparr>ms_drs := drs'\<rparr> in
          (case res of
             CONN_BUSY \<Rightarrow>
               obind (Some (arr_set (ms_busy st1) busy c')) (\<lambda>a.
                 scan_loop u env m (st\<lparr>ms_drs := drs', ms_busy := a\<rparr>) (i + 1) idle (busy + 1) w')
           | CONN_IDLE \<Rightarrow>
               obind (Some (arr_set (ms_connections st1) idle c')) (\<lambda>a.
                 scan_loop u env m (st\<lparr>ms_drs := drs', ms_connections := a\<rparr>) (i + 1) (idle + 1) busy w')
           | CONN_TO_CLOSE \<Rightarrow> scan_loop u env m (st\<lparr>ms_drs := drs'\<rparr>) (i + 1) idle busy (free_conn c' w'))))
      else Some (Ok (st, idle, busy, w)))"
  by pat_completeness auto
termination
  by (relation "measure (\<lambda>(u, env, m, st, i, idle, busy, w). ms_connCount st - i)") auto

declare scan_loop.simps [simp del]

text \<open>The busy connections go behind the idle ones.\<close>

fun copy_loop :: "nat \<Rightarrow> nat \<Rightarrow> nat \<Rightarrow> MainState \<Rightarrow> MainState cres" where
  "copy_loop 0 i idle st = Ok st"
| "copy_loop (Suc n) i idle st =
     cbind (arr_get (ms_busy st) i) (\<lambda>c.
     cbind (arr_set (ms_connections st) (idle + i) c) (\<lambda>a. copy_loop n (i + 1) idle (st\<lparr>ms_connections := a\<rparr>)))"

definition serve_all ::
    "char \<Rightarrow> ReqEnv \<Rightarrow> nat \<Rightarrow> MainState \<Rightarrow> MainWorld \<Rightarrow> (MainState \<times> MainWorld) cres option" where
  "serve_all u env m st w =
     obind (scan_loop u env m st 0 0 0 w) (\<lambda>(st1, idle, busy, w').
     obind (Some (copy_loop busy 0 idle st1)) (\<lambda>st2.
       Some (Ok (st2\<lparr>ms_connCount := idle + busy\<rparr>, w'))))"

text \<open>A round of the main loop, with the answers of \<open>select\<close> and \<open>accept\<close> and \<open>errno\<close> after it.\<close>

record RoundAns =
  ra_select :: bool
  ra_accept :: "AcceptAns list"
  ra_errno :: nat

definition mainloop_round ::
    "char \<Rightarrow> ReqEnv \<Rightarrow> nat \<Rightarrow> int \<Rightarrow> RoundAns \<Rightarrow> MainState \<Rightarrow> MainWorld \<Rightarrow> (MainState \<times> MainWorld) cres option" where
  "mainloop_round u env m listenfd ra st w =
     obind (Some (if ms_connCount st < m
                  then cbind (drs_setReadFd (ms_drs st) listenfd) (\<lambda>drs. Ok (st\<lparr>ms_drs := drs\<rparr>))
                  else Ok (st\<lparr>ms_warned := True\<rparr>))) (\<lambda>st1.
     obind (Some (drs_select (ra_select ra) (ms_drs st1))) (\<lambda>(drs, _, _, _).
     obind (Some (accept_loop m (ra_accept ra) (st1\<lparr>ms_drs := drs\<rparr>) w)) (\<lambda>(st2, w2).
       if m < ms_connCount st2 \<and> ra_errno ra \<noteq> EWOULDBLOCK then Some Abort
       else serve_all u env m st2 w2)))"

fun mainloop_rounds ::
    "char \<Rightarrow> ReqEnv \<Rightarrow> nat \<Rightarrow> int \<Rightarrow> RoundAns list \<Rightarrow> MainState \<Rightarrow> MainWorld \<Rightarrow> (MainState \<times> MainWorld) cres option" where
  "mainloop_rounds u env m listenfd [] st w = Some (Ok (st, w))"
| "mainloop_rounds u env m listenfd (ra # ras) st w =
     obind (mainloop_round u env m listenfd ra st w) (\<lambda>(st', w'). mainloop_rounds u env m listenfd ras st' w')"

text \<open>The start: \<open>socket\<close>, \<open>bind\<close> and \<open>listen\<close>, and the change of the user; failures end the process.\<close>

definition mainloop ::
    "char \<Rightarrow> ReqEnv \<Rightarrow> int \<Rightarrow> bool \<Rightarrow> bool \<Rightarrow> bool \<Rightarrow> FcntlAns \<Rightarrow> RoundAns list \<Rightarrow> MainWorld \<Rightarrow>
     (MainState \<times> MainWorld) cres option" where
  "mainloop u env listenfd bindOk listenOk userOk fa ras w =
     (if listenfd < 0 \<or> \<not> bindOk \<or> \<not> listenOk \<or> \<not> userOk then Some Abort
      else obind (Some (drs_setNonBlockingCloExecFlags fa)) (\<lambda>fl.
        mainloop_rounds u env (unat (config_getMaxClients (re_config env))) listenfd ras (main_init (re_config env))
          (w\<lparr>mw_flags := (mw_flags w)(listenfd := fl)\<rparr>)))"

text \<open>The loop for the socket of \<open>inetd\<close>, with the answers of \<open>select\<close>; \<open>True\<close> when the connection was closed.\<close>

fun inetd_loop ::
    "char \<Rightarrow> ReqEnv \<Rightarrow> bool list \<Rightarrow> ServerConnection \<Rightarrow> DataReadySelector \<Rightarrow> MainWorld \<Rightarrow> (bool \<times> MainWorld) cres option" where
  "inetd_loop u env sels conn drs w =
     obind (serve_conn u env conn False drs w) (\<lambda>(conn', res, drs', w').
       if res = CONN_TO_CLOSE then Some (Ok (True, free_conn conn' w'))
       else case sels of
           [] \<Rightarrow> Some (Ok (False, w'))
         | s # ss \<Rightarrow> obind (Some (drs_select s drs')) (\<lambda>(drs'', _, _, _). inetd_loop u env ss conn' drs'' w'))"

declare inetd_loop.simps [simp del]

definition mainloop_inetd ::
    "char \<Rightarrow> ReqEnv \<Rightarrow> bool \<Rightarrow> FcntlAns \<Rightarrow> bool list \<Rightarrow> MainWorld \<Rightarrow> (bool \<times> MainWorld) cres option" where
  "mainloop_inetd u env userOk fa sels w =
     (if \<not> userOk then Some Abort
      else obind (Some (drs_setNonBlockingCloExecFlags fa)) (\<lambda>fl.
        inetd_loop u env sels (conn_new 0) drs_new (w\<lparr>mw_flags := (mw_flags w)(0 := fl)\<rparr>)))"

text \<open>
  The program: the options and their output, and the world when the server stops.  \<open>env\<close> is the environment but for
  the configuration, which is read first; \<open>pw\<close> and \<open>setuid_ok\<close> are as for \<open>config_switchToTargetUser\<close>.
\<close>

definition main_prog ::
    "char \<Rightarrow> qsort_fun \<Rightarrow> FileSys \<Rightarrow> nat \<Rightarrow> (bytes \<Rightarrow> (nat \<times> nat) option) \<Rightarrow> (nat \<Rightarrow> bool) \<Rightarrow> bytes \<Rightarrow> bytes \<Rightarrow> ReqEnv \<Rightarrow>
     int \<Rightarrow> bool \<Rightarrow> bool \<Rightarrow> FcntlAns \<Rightarrow> RoundAns list \<Rightarrow> bool list \<Rightarrow> (char \<times> bytes) list \<Rightarrow> MainWorld \<Rightarrow> bytes \<times> MainWorld cres option" where
  "main_prog u qs fs euid pw setuid_ok htmldir sysconfdir env listenfd bindOk listenOk fa ras sels opts w =
     (case cmdline_parse opts (cmdline_init sysconfdir) of (cl, out, go) \<Rightarrow>
        (out,
         if \<not> go then Some (Ok w)
         else obind (Some (config_parse qs fs euid htmldir (cmdline_getConfigLoc cl))) (\<lambda>(c, _).
           let userOk = config_switchToTargetUser c euid pw setuid_ok; env' = env\<lparr>re_config := c\<rparr> in
           if cmdline_isInetdMode cl then obind (mainloop_inetd u env' userOk fa sels w) (\<lambda>(_, w'). Some (Ok w'))
           else obind (mainloop u env' listenfd bindOk listenOk userOk fa ras w) (\<lambda>(_, w'). Some (Ok w')))))"

subsection \<open>The table of connections\<close>

text \<open>The connections in the table, the most idle first, and what remains of them after a round.\<close>

definition table :: "nat \<Rightarrow> MainState \<Rightarrow> ServerConnection list \<Rightarrow> bool" where
  "table m st cs = (length (ms_connections st) = m \<and> length (ms_busy st) = m \<and> ms_connCount st = length cs \<and>
     length cs \<le> m \<and> take (length cs) (ms_connections st) = map Some cs)"

fun serve_list ::
    "char \<Rightarrow> ReqEnv \<Rightarrow> bool \<Rightarrow> ServerConnection list \<Rightarrow> DataReadySelector \<Rightarrow> MainWorld \<Rightarrow>
     ((ServerConnection \<times> ConnProcessingResult) list \<times> DataReadySelector \<times> MainWorld) cres option" where
  "serve_list u env closing [] drs w = Some (Ok ([], drs, w))"
| "serve_list u env closing (c # cs) drs w =
     obind (serve_conn u env c closing drs w) (\<lambda>(c', res, drs', w').
     obind (serve_list u env (closing \<and> res = CONN_BUSY) cs drs' (if res = CONN_TO_CLOSE then free_conn c' w' else w'))
       (\<lambda>(rs, drs'', w''). Some (Ok ((c', res) # rs, drs'', w''))))"

definition of_res :: "ConnProcessingResult \<Rightarrow> (ServerConnection \<times> ConnProcessingResult) list \<Rightarrow> ServerConnection list" where
  "of_res r rs = map fst (filter (\<lambda>x. snd x = r) rs)"

lemma of_res_simps [simp]:
  "of_res r [] = []" "of_res r ((c, r') # rs) = (if r' = r then c # of_res r rs else of_res r rs)"
  by (simp_all add: of_res_def)

lemma arr_get_Some: "take n a = map Some xs \<Longrightarrow> length xs = n \<Longrightarrow> n \<le> length a \<Longrightarrow> i < n \<Longrightarrow> arr_get a i = Ok (xs ! i)"
  by (metis arr_get_def nth_map nth_take option.case(2) order_less_le_trans)

text \<open>The state of the scan: what comes, and the idle and busy connections found.\<close>

definition scan_inv ::
    "nat \<Rightarrow> MainState \<Rightarrow> nat \<Rightarrow> ServerConnection list \<Rightarrow> ServerConnection list \<Rightarrow> ServerConnection list \<Rightarrow> bool" where
  "scan_inv m st i cs idles busys = (length (ms_connections st) = m \<and> length (ms_busy st) = m \<and>
     ms_connCount st = i + length cs \<and> i + length cs \<le> m \<and> length idles + length busys \<le> i \<and>
     take (length cs) (drop i (ms_connections st)) = map Some cs \<and>
     take (length idles) (ms_connections st) = map Some idles \<and> take (length busys) (ms_busy st) = map Some busys)"

lemma take_update_next: "take n a = map Some xs \<Longrightarrow> length xs = n \<Longrightarrow> n < length a \<Longrightarrow> take (Suc n) (a[n := Some x]) = map Some (xs @ [x])"
  by (simp add: take_Suc_conv_app_nth)

lemma scan_next:
  assumes "scan_inv m st i (c # cs) idles busys"
  shows "arr_get (ms_connections st) i = Ok c" "take (length cs) (drop (Suc i) (ms_connections st)) = map Some cs"
    "length idles < m" "length busys < m" "length idles \<le> i"
proof -
  have i: "i < length (ms_connections st)" using assms by (simp add: scan_inv_def)
  then have "take (Suc (length cs)) (ms_connections st ! i # drop (Suc i) (ms_connections st)) = Some c # map Some cs"
    using assms by (simp add: scan_inv_def Cons_nth_drop_Suc)
  then show "arr_get (ms_connections st) i = Ok c" "take (length cs) (drop (Suc i) (ms_connections st)) = map Some cs"
    using i by (simp_all add: arr_get_def)
  show "length idles < m" "length busys < m" "length idles \<le> i" using assms by (simp_all add: scan_inv_def)
qed

lemma scan_inv_busy:
  assumes "scan_inv m st i (c # cs) idles busys"
  shows "arr_set (ms_busy st) (length busys) c' = Ok ((ms_busy st)[length busys := Some c'])"
    "scan_inv m (st\<lparr>ms_drs := drs, ms_busy := (ms_busy st)[length busys := Some c']\<rparr>) (i + 1) cs idles (busys @ [c'])"
  using assms take_update_next [of "length busys" "ms_busy st" busys c'] scan_next [OF assms]
  by (auto simp: scan_inv_def arr_set_def)

lemma scan_inv_idle:
  assumes "scan_inv m st i (c # cs) idles busys"
  shows "arr_set (ms_connections st) (length idles) c' = Ok ((ms_connections st)[length idles := Some c'])"
    "scan_inv m (st\<lparr>ms_drs := drs, ms_connections := (ms_connections st)[length idles := Some c']\<rparr>) (i + 1) cs (idles @ [c']) busys"
  using assms take_update_next [of "length idles" "ms_connections st" idles c'] scan_next [OF assms]
  by (auto simp: scan_inv_def arr_set_def)

lemma scan_inv_close:
  assumes "scan_inv m st i (c # cs) idles busys"
  shows "scan_inv m (st\<lparr>ms_drs := drs\<rparr>) (i + 1) cs idles busys"
  using assms scan_next [OF assms] by (auto simp: scan_inv_def)

text \<open>The scan does what \<open>serve_list\<close> does, and sorts the connections.\<close>

definition same_run :: "'a cres option \<Rightarrow> 'b cres option \<Rightarrow> ('a \<Rightarrow> 'b \<Rightarrow> bool) \<Rightarrow> bool" where
  "same_run r s R = (case s of None \<Rightarrow> r = None | Some Abort \<Rightarrow> r = Some Abort | Some Undef \<Rightarrow> r = Some Undef
     | Some (Ok y) \<Rightarrow> \<exists>x. r = Some (Ok x) \<and> R x y)"

lemma same_run_simps [simp]:
  "same_run r None R = (r = None)" "same_run r (Some Abort) R = (r = Some Abort)" "same_run r (Some Undef) R = (r = Some Undef)"
  "same_run r (Some (Ok y)) R = (\<exists>x. r = Some (Ok x) \<and> R x y)"
  by (simp_all add: same_run_def)

lemma same_run_map:
  assumes "same_run r s R" "\<And>x y. R x y \<Longrightarrow> R' x (f y)"
  shows "same_run r (obind s (\<lambda>y. Some (Ok (f y)))) R'"
  using assms by (cases s; cases "the s") (auto simp: same_run_def)

lemma same_run_obind:
  assumes "\<And>x. s = Some (Ok x) \<Longrightarrow> same_run (f x) (g x) R"
  shows "same_run (obind s f) (obind s g) R"
  using assms by (cases s; cases "the s") (auto simp: same_run_def)

lemma scan_loop_serves:
  "scan_inv m st i cs idles busys \<Longrightarrow>
   same_run (scan_loop u env m st i (length idles) (length busys) w)
     (serve_list u env (ms_connCount st = m \<and> i = length busys) cs (ms_drs st) w)
     (\<lambda>(st', idle, busy, w') (rs, drs', w''). w' = w'' \<and> idle = length (idles @ of_res CONN_IDLE rs) \<and>
        busy = length (busys @ of_res CONN_BUSY rs) \<and> ms_drs st' = drs' \<and> ms_warned st' = ms_warned st \<and>
        scan_inv m st' (i + length cs) [] (idles @ of_res CONN_IDLE rs) (busys @ of_res CONN_BUSY rs))"
proof (induction cs arbitrary: st i idles busys w)
  case Nil
  then show ?case by (simp add: scan_loop.simps [of u env m st i] scan_inv_def)
next
  case (Cons c cs)
  have i: "i < ms_connCount st" using Cons.prems by (simp add: scan_inv_def)
  let ?closing = "ms_connCount st = m \<and> i = length busys"
  have unf: "scan_loop u env m st i (length idles) (length busys) w =
    obind (serve_conn u env c ?closing (ms_drs st) w) (\<lambda>(c', res, drs', w').
      (case res of
         CONN_BUSY \<Rightarrow> scan_loop u env m (st\<lparr>ms_drs := drs', ms_busy := (ms_busy st)[length busys := Some c']\<rparr>) (i + 1)
           (length idles) (length busys + 1) w'
       | CONN_IDLE \<Rightarrow> scan_loop u env m (st\<lparr>ms_drs := drs', ms_connections := (ms_connections st)[length idles := Some c']\<rparr>)
           (i + 1) (length idles + 1) (length busys) w'
       | CONN_TO_CLOSE \<Rightarrow> scan_loop u env m (st\<lparr>ms_drs := drs'\<rparr>) (i + 1) (length idles) (length busys) (free_conn c' w')))"
    unfolding scan_loop.simps [of u env m st i]
    using i scan_next(1) [OF Cons.prems] scan_inv_busy(1) [OF Cons.prems] scan_inv_idle(1) [OF Cons.prems]
    by (simp add: Let_def cong: ConnProcessingResult.case_cong)
  show ?case
    unfolding unf serve_list.simps
  proof (rule same_run_obind)
    fix x :: "ServerConnection \<times> ConnProcessingResult \<times> DataReadySelector \<times> MainWorld"
    obtain c' res drs' w' where x: "x = (c', res, drs', w')" by (metis prod_cases4)
    have n: "length busys \<le> i" "length idles \<le> i" using Cons.prems by (simp_all add: scan_inv_def)
    let ?R = "\<lambda>st i idles busys cs (st', idle, busy, w') (rs, drs', w''). w' = w'' \<and> idle = length (idles @ of_res CONN_IDLE rs) \<and>
        busy = length (busys @ of_res CONN_BUSY rs) \<and> ms_drs st' = drs' \<and> ms_warned st' = ms_warned st \<and>
        scan_inv m st' (i + length cs) [] (idles @ of_res CONN_IDLE rs) (busys @ of_res CONN_BUSY rs)"
    show "same_run (case x of (c', res, drs', w') \<Rightarrow> (case res of
         CONN_BUSY \<Rightarrow> scan_loop u env m (st\<lparr>ms_drs := drs', ms_busy := (ms_busy st)[length busys := Some c']\<rparr>) (i + 1)
           (length idles) (length busys + 1) w'
       | CONN_IDLE \<Rightarrow> scan_loop u env m (st\<lparr>ms_drs := drs', ms_connections := (ms_connections st)[length idles := Some c']\<rparr>)
           (i + 1) (length idles + 1) (length busys) w'
       | CONN_TO_CLOSE \<Rightarrow> scan_loop u env m (st\<lparr>ms_drs := drs'\<rparr>) (i + 1) (length idles) (length busys) (free_conn c' w')))
      (case x of (c', res, drs', w') \<Rightarrow> obind (serve_list u env (?closing \<and> res = CONN_BUSY) cs drs'
           (if res = CONN_TO_CLOSE then free_conn c' w' else w'))
         (\<lambda>(rs, drs'', w''). Some (Ok ((c', res) # rs, drs'', w'')))) (?R st i idles busys (c # cs))"
    proof (cases res)
      case CONN_BUSY
      have e: "(?closing \<and> res = CONN_BUSY) = (ms_connCount st = m \<and> i + 1 = length (busys @ [c']))" using CONN_BUSY by auto
      show ?thesis
        using same_run_map [OF Cons.IH [OF scan_inv_busy(2) [OF Cons.prems, of c' drs'], of w'],
            of "?R st i idles busys (c # cs)" "\<lambda>(rs, drs'', w''). ((c', CONN_BUSY) # rs, drs'', w'')"] CONN_BUSY
        unfolding x prod.case e by (simp add: split_def)
    next
      case CONN_IDLE
      have e: "(?closing \<and> res = CONN_BUSY) = (ms_connCount st = m \<and> i + 1 = length busys)" using CONN_IDLE n by auto
      show ?thesis
        using same_run_map [OF Cons.IH [OF scan_inv_idle(2) [OF Cons.prems, of c' drs'], of w'],
            of "?R st i idles busys (c # cs)" "\<lambda>(rs, drs'', w''). ((c', CONN_IDLE) # rs, drs'', w'')"] CONN_IDLE
        unfolding x prod.case e by (simp add: split_def)
    next
      case CONN_TO_CLOSE
      have e: "(?closing \<and> res = CONN_BUSY) = (ms_connCount st = m \<and> i + 1 = length busys)" using CONN_TO_CLOSE n by auto
      show ?thesis
        using same_run_map [OF Cons.IH [OF scan_inv_close [OF Cons.prems, of drs'], of "free_conn c' w'"],
            of "?R st i idles busys (c # cs)" "\<lambda>(rs, drs'', w''). ((c', CONN_TO_CLOSE) # rs, drs'', w'')"] CONN_TO_CLOSE
        unfolding x prod.case e by (simp add: split_def)
    qed
  qed
qed

lemma copy_loop_appends:
  "length (ms_connections st) = m \<Longrightarrow> take (length xs) (ms_connections st) = map Some xs \<Longrightarrow>
   take n (drop i (ms_busy st)) = map Some ys \<Longrightarrow> length xs + n \<le> m \<Longrightarrow> length ys = n \<Longrightarrow> length xs = idle + i \<Longrightarrow>
   \<exists>a. copy_loop n i idle st = Ok (st\<lparr>ms_connections := a\<rparr>) \<and> length a = m \<and> take (length xs + n) a = map Some (xs @ ys)"
proof (induction n arbitrary: i st xs ys)
  case 0
  then show ?case by (intro exI [of _ "ms_connections st"]) simp
next
  case (Suc n)
  obtain y zs where ys: "ys = y # zs" using Suc.prems(5) by (cases ys) auto
  have i: "i < length (ms_busy st)" using Suc.prems(3) ys by (metis drop_eq_Nil list.distinct(1) list.simps(9) not_less take_Nil)
  have d: "drop i (ms_busy st) = ms_busy st ! i # drop (Suc i) (ms_busy st)" using i by (simp add: Cons_nth_drop_Suc)
  have y: "arr_get (ms_busy st) i = Ok y" "take n (drop (Suc i) (ms_busy st)) = map Some zs"
    using Suc.prems(3) i ys unfolding d by (simp_all add: arr_get_def)
  let ?a = "(ms_connections st)[length xs := Some y]"
  have "\<exists>a. copy_loop n (i + 1) idle (st\<lparr>ms_connections := ?a\<rparr>) = Ok (st\<lparr>ms_connections := ?a\<rparr>\<lparr>ms_connections := a\<rparr>) \<and>
      length a = m \<and> take (length (xs @ [y]) + n) a = map Some ((xs @ [y]) @ zs)"
    by (rule Suc.IH) (use Suc.prems y ys take_update_next [of "length xs" "ms_connections st" xs y] in simp_all)
  then show ?case using Suc.prems(1,4,6) y(1) ys by (auto simp: arr_set_def)
qed

text \<open>Serving the table is serving the list of the connections, and putting the idle ones before the busy ones.\<close>

lemma serve_all_list:
  assumes "table m st cs"
  shows "same_run (serve_all u env m st w) (serve_list u env (length cs = m) cs (ms_drs st) w)
    (\<lambda>(st', w') (rs, drs', w''). w' = w'' \<and> ms_drs st' = drs' \<and> ms_warned st' = ms_warned st \<and>
       table m st' (of_res CONN_IDLE rs @ of_res CONN_BUSY rs))"
proof -
  have i: "scan_inv m st 0 cs [] []" using assms by (simp add: table_def scan_inv_def)
  have l: "ms_connCount st = length cs" using assms by (simp add: table_def)
  let ?run = "serve_list u env (length cs = m) cs (ms_drs st) w"
  note s = scan_loop_serves [OF i, of u env w, simplified, unfolded l]
  show ?thesis
  proof (cases "\<exists>y. ?run = Some (Ok y)")
    case False
    then show ?thesis using s by (cases ?run; cases "the ?run") (auto simp: serve_all_def)
  next
    case True
    then obtain rs drs' w'' where r: "?run = Some (Ok (rs, drs', w''))" by auto
    let ?I = "of_res CONN_IDLE rs" and ?B = "of_res CONN_BUSY rs"
    obtain st1 where st1: "scan_loop u env m st 0 0 0 w = Some (Ok (st1, length ?I, length ?B, w''))"
        "ms_drs st1 = drs'" "ms_warned st1 = ms_warned st" "scan_inv m st1 (length cs) [] ?I ?B"
      using s unfolding r by auto
    have le: "length ?I + length ?B \<le> m" using st1(4) by (simp add: scan_inv_def)
    obtain a where a: "copy_loop (length ?B) 0 (length ?I) st1 = Ok (st1\<lparr>ms_connections := a\<rparr>)" "length a = m"
        "take (length ?I + length ?B) a = map Some (?I @ ?B)"
      using copy_loop_appends [of st1 m ?I "length ?B" 0 ?B "length ?I"] st1(4) by (auto simp: scan_inv_def)
    show ?thesis using st1 a le unfolding r serve_all_def by (simp add: table_def scan_inv_def)
  qed
qed

fun accepted :: "nat \<Rightarrow> AcceptAns list \<Rightarrow> MainWorld \<Rightarrow> (ServerConnection list \<times> MainWorld) cres" where
  "accepted (Suc n) (Accepted fd fa cw reads peer # as) w =
     cbind (drs_setNonBlockingCloExecFlags fa) (\<lambda>fl.
     cbind (accepted n as (open_conn fd fl cw reads peer w)) (\<lambda>(cs, w'). Ok (conn_new fd # cs, w')))"
| "accepted _ _ w = Ok ([], w)"

lemma accept_loop_list:
  "table m st cs \<Longrightarrow> same_run (Some (accept_loop m as st w)) (Some (accepted (m - length cs) as w))
     (\<lambda>(st', w') (new, w''). w' = w'' \<and> table m st' (cs @ new) \<and> ms_drs st' = ms_drs st)"
proof (induction m as st w arbitrary: cs rule: accept_loop.induct)
  case (1 m fd fa cw reads peer as st w)
  show ?case
  proof (cases "length cs < m")
    case False
    have "\<not> ms_connCount st < m" using False "1.prems"(1) by (simp add: table_def)
    then show ?thesis using "1.prems" False by simp
  next
    case True
    then obtain n where n: "m - length cs = Suc n" "m - length (cs @ [conn_new fd]) = n" by (cases "m - length cs") auto
    let ?a = "(ms_connections st)[length cs := Some (conn_new fd)]"
    have a: "ms_connCount st < m" "arr_set (ms_connections st) (ms_connCount st) (conn_new fd) = Ok ?a"
        "table m (st\<lparr>ms_connections := ?a, ms_connCount := ms_connCount st + 1\<rparr>) (cs @ [conn_new fd])"
      using "1.prems"(1) True take_update_next [of "length cs" "ms_connections st" cs "conn_new fd"]
      by (simp_all add: table_def arr_set_def)
    show ?thesis
    proof (cases "drs_setNonBlockingCloExecFlags fa")
      case (Ok fl)
      from "1.IH" [OF a(1,3), of fl, unfolded n(2)]
      show ?thesis
        by (cases "accepted n as (open_conn fd fl cw reads peer w)") (auto simp: n(1) Ok a(1,2))
    qed (simp_all add: n(1) a(1))
  qed
qed simp_all

text \<open>What a round does with the list of the connections.\<close>

definition round_list ::
    "char \<Rightarrow> ReqEnv \<Rightarrow> nat \<Rightarrow> int \<Rightarrow> RoundAns \<Rightarrow> ServerConnection list \<Rightarrow> DataReadySelector \<Rightarrow> MainWorld \<Rightarrow>
     (ServerConnection list \<times> DataReadySelector \<times> MainWorld) cres option" where
  "round_list u env m listenfd ra cs drs w =
     obind (Some (if length cs < m then drs_setReadFd drs listenfd else Ok drs)) (\<lambda>_.
       if \<not> ra_select ra then Some Abort
       else obind (Some (accepted (m - length cs) (ra_accept ra) w)) (\<lambda>(new, w1).
         obind (serve_list u env (length (cs @ new) = m) (cs @ new) drs_new w1) (\<lambda>(rs, drs', w').
           Some (Ok (of_res CONN_IDLE rs @ of_res CONN_BUSY rs, drs', w')))))"

fun rounds_list ::
    "char \<Rightarrow> ReqEnv \<Rightarrow> nat \<Rightarrow> int \<Rightarrow> RoundAns list \<Rightarrow> ServerConnection list \<Rightarrow> DataReadySelector \<Rightarrow> MainWorld \<Rightarrow>
     (ServerConnection list \<times> DataReadySelector \<times> MainWorld) cres option" where
  "rounds_list u env m listenfd [] cs drs w = Some (Ok (cs, drs, w))"
| "rounds_list u env m listenfd (ra # ras) cs drs w =
     obind (round_list u env m listenfd ra cs drs w) (\<lambda>(cs', drs', w'). rounds_list u env m listenfd ras cs' drs' w')"

definition same_table :: "nat \<Rightarrow> MainState \<times> MainWorld \<Rightarrow> ServerConnection list \<times> DataReadySelector \<times> MainWorld \<Rightarrow> bool" where
  "same_table m x y = (case x of (st, w) \<Rightarrow> case y of (cs, drs, w') \<Rightarrow> w = w' \<and> ms_drs st = drs \<and> table m st cs)"

lemma same_run_mono: "same_run r s R \<Longrightarrow> (\<And>x y. R x y \<Longrightarrow> R' x y) \<Longrightarrow> same_run r s R'"
  by (cases s; cases "the s") (auto simp: same_run_def)

lemma same_run_bind:
  assumes "same_run r s R" "\<And>x y. R x y \<Longrightarrow> same_run (f x) (g y) R'"
  shows "same_run (obind r f) (obind s g) R'"
  using assms by (cases s; cases "the s") auto

lemma drs_selected: "drs\<lparr>drs_readFds := {}, drs_writeFds := {}, drs_numFds := 0\<rparr> = drs_new"
  by (simp add: drs_new_def)

lemma table_drs [simp]: "table m (st\<lparr>ms_drs := drs\<rparr>) cs = table m st cs" "table m (st\<lparr>ms_warned := b\<rparr>) cs = table m st cs"
  by (simp_all add: table_def)

lemma round_refines:
  assumes "table m st cs"
  shows "same_run (mainloop_round u env m listenfd ra st w) (round_list u env m listenfd ra cs (ms_drs st) w) (same_table m)"
proof -
  have n: "ms_connCount st = length cs" using assms by (simp add: table_def)
  have served: "same_run (obind (Some (accept_loop m (ra_accept ra) st1 w)) (\<lambda>(st2, w2).
         if m < ms_connCount st2 \<and> ra_errno ra \<noteq> EWOULDBLOCK then Some Abort else serve_all u env m st2 w2))
      (obind (Some (accepted (m - length cs) (ra_accept ra) w)) (\<lambda>(new, w1).
         obind (serve_list u env (length (cs @ new) = m) (cs @ new) drs_new w1) (\<lambda>(rs, drs', w').
         Some (Ok (of_res CONN_IDLE rs @ of_res CONN_BUSY rs, drs', w'))))) (same_table m)"
    if st1: "table m st1 cs" "ms_drs st1 = drs_new" for st1
  proof (rule same_run_bind [OF accept_loop_list [OF st1(1)]], clarify)
    fix st2 new w1
    assume st2: "table m st2 (cs @ new)" "ms_drs st2 = ms_drs st1"
    have le: "\<not> m < ms_connCount st2" using st2(1) by (simp add: table_def)
    show "same_run (if m < ms_connCount st2 \<and> ra_errno ra \<noteq> EWOULDBLOCK then Some Abort else serve_all u env m st2 w1)
        (obind (serve_list u env (length (cs @ new) = m) (cs @ new) drs_new w1) (\<lambda>(rs, drs', w').
         Some (Ok (of_res CONN_IDLE rs @ of_res CONN_BUSY rs, drs', w')))) (same_table m)"
      using same_run_map [OF serve_all_list [OF st2(1), of u env w1], of "same_table m"
          "\<lambda>(rs, drs', w'). (of_res CONN_IDLE rs @ of_res CONN_BUSY rs, drs', w')"] st2(2) st1(2) le
      by (auto simp: same_table_def split_def)
  qed
  show ?thesis
  proof (cases "length cs < m")
    case True
    then show ?thesis
      using served [of "st\<lparr>ms_drs := drs_new\<rparr>"] assms
      by (cases "drs_setReadFd (ms_drs st) listenfd")
        (simp_all add: mainloop_round_def round_list_def n drs_select_def drs_selected del: length_append)
  next
    case False
    then show ?thesis
      using served [of "st\<lparr>ms_warned := True, ms_drs := drs_new\<rparr>"] assms
      by (simp add: mainloop_round_def round_list_def n drs_select_def drs_selected del: length_append)
  qed
qed

lemma rounds_refine:
  "table m st cs \<Longrightarrow>
   same_run (mainloop_rounds u env m listenfd ras st w) (rounds_list u env m listenfd ras cs (ms_drs st) w) (same_table m)"
proof (induction ras arbitrary: st cs w)
  case Nil
  then show ?case by (simp add: same_table_def)
next
  case (Cons ra ras)
  show ?case
    unfolding mainloop_rounds.simps rounds_list.simps
    by (rule same_run_bind [OF round_refines [OF Cons.prems]]) (auto simp: same_table_def dest: Cons.IH)
qed

lemma table_init: "table (unat (config_getMaxClients c)) (main_init c) []"
  by (simp add: table_def main_init_def Let_def)

text \<open>C4: The main loop is a loop over a list of connections, the idle ones first, at most \<open>maxclients\<close> of them: each round it
  accepts new connections while there is room, serves every connection once in the order of the list, tells the
  first one that is not busy to close when there is no room, drops those that are closed and moves those that were
  busy to the end.  It never uses an index outside of its two arrays or a pointer that was not stored; and the test
  for an error of \<open>accept\<close> after the loop never holds.\<close>

theorem mainloop_refines_list:
  assumes "0 \<le> listenfd" "drs_setNonBlockingCloExecFlags fa = Ok fl"
  shows "same_run (mainloop u env listenfd True True True fa ras w)
    (rounds_list u env (unat (config_getMaxClients (re_config env))) listenfd ras [] drs_new
      (w\<lparr>mw_flags := (mw_flags w)(listenfd := fl)\<rparr>))
    (\<lambda>(st, w') (cs, drs, w''). w' = w'' \<and> ms_drs st = drs \<and> ms_connCount st = length cs \<and>
       length cs \<le> unat (config_getMaxClients (re_config env)) \<and> take (length cs) (ms_connections st) = map Some cs)"
proof -
  have "ms_drs (main_init (re_config env)) = drs_new" by (simp add: main_init_def Let_def)
  then show ?thesis
    using same_run_mono [OF rounds_refine [OF table_init [of "re_config env"], of u env listenfd ras
        "w\<lparr>mw_flags := (mw_flags w)(listenfd := fl)\<rparr>"]] assms
    by (auto simp: mainloop_def same_table_def table_def)
qed

subsection \<open>The end of a round\<close>

text \<open>A connection keeps its descriptor, and while it reads a body also the header of the request.\<close>

lemma chunk_line_frame: "chunk_line conn c bol = (conn', bol') \<Longrightarrow> sc_socketFd conn' = sc_socketFd conn \<and> sc_header conn' = sc_header conn"
  by (auto simp: chunk_line_def Let_def split: option.splits if_splits)

lemma body_step_frame: "body_step env conn dpr w bol = Ok (conn', x) \<Longrightarrow> sc_socketFd conn' = sc_socketFd conn \<and> sc_header conn' = sc_header conn"
  by (auto simp: body_step_def give_body_def Let_def cbind_Ok split: if_splits option.splits)

lemma req_body_loop_frame:
  "req_body_loop env conn dpr w bol = Some (Ok (conn', x)) \<Longrightarrow> sc_socketFd conn' = sc_socketFd conn \<and> sc_header conn' = sc_header conn"
proof (induction env conn dpr w bol rule: req_body_loop.induct)
  case (1 env conn dpr w bol)
  show ?case
  proof (cases "(sc_rrs conn \<noteq> RRS_READ_BODY \<or> bol = []) \<or> sc_bodyLen conn < sc_bodyReadLen conn")
    case True
    then show ?thesis using "1.prems" by (subst (asm) req_body_loop.simps) (auto split: if_splits)
  next
    case False
    then have go: "\<not> (sc_rrs conn \<noteq> RRS_READ_BODY \<or> bol = [])" "\<not> sc_bodyLen conn < sc_bodyReadLen conn" by auto
    obtain conn1 dpr1 w1 bol1 stop where g: "body_step env conn dpr w bol = Ok (conn1, dpr1, w1, bol1, stop)"
      using "1.prems" go by (subst (asm) req_body_loop.simps) (auto split: cres.splits)
    note r = "1.prems" [unfolded req_body_loop.simps [of env conn dpr w bol] g if_not_P [OF go(1)] if_not_P [OF go(2)], simplified]
    note IH = "1.IH" [OF go g refl refl refl refl]
    note fd = body_step_frame [OF g]
    show ?thesis
    proof (cases "stop \<or> sc_bodyReadLen conn1 = sc_bodyLen conn1 \<and> sc_chunkHdr conn1 = None")
      case True
      then show ?thesis using r fd by (auto split: if_splits)
    next
      case no: False
      show ?thesis
      proof (cases "sc_bodyReadLen conn1 = sc_bodyLen conn1")
        case True
        obtain c where "\<not> stop" "sc_chunkHdr conn1 = Some c" using no True by auto
        moreover obtain conn2 bol2 where "chunk_line conn1 c bol1 = (conn2, bol2)" by (metis surj_pair)
        ultimately have c: "\<not> stop" "sc_chunkHdr conn1 = Some c" "chunk_line conn1 c bol1 = (conn2, bol2)" by simp_all
        then show ?thesis using IH(1) [OF c(1) True c(2) c(3) [symmetric]] r True fd chunk_line_frame [OF c(3)] by simp
      next
        case False
        then show ?thesis using IH(2) [OF _ False] no r fd by simp
      qed
    qed
  qed
qed

lemma req_body_loop_fd: "req_body_loop env conn dpr w bol = Some (Ok (conn', x)) \<Longrightarrow> sc_socketFd conn' = sc_socketFd conn"
  by (drule req_body_loop_frame) simp

lemma header_bytes_fd: "header_bytes u env conn = Ok (conn', fin) \<Longrightarrow> sc_socketFd conn' = sc_socketFd conn"
  by (auto simp: header_bytes_def cbind_Ok split: option.splits)

lemma read_head_fd: "read_head u env peer conn w = Ok (conn', w') \<Longrightarrow> sc_socketFd conn' = sc_socketFd conn"
  by (auto simp: read_head_def onFinishedHeader_def cbind_Ok Let_def dest!: header_bytes_fd split: if_splits prod.splits)

lemma read_body_data_fd: "read_body_data env conn dpr w = Some (Ok (conn', x)) \<Longrightarrow> sc_socketFd conn' = sc_socketFd conn"
  by (auto simp: read_body_data_def appendBodyData_def obind_Ok dest!: req_body_loop_fd split: if_splits)

lemma read_trailer_fd: "read_trailer u env conn = Ok conn' \<Longrightarrow> sc_socketFd conn' = sc_socketFd conn"
  by (auto simp: read_trailer_def cbind_Ok dest!: header_bytes_fd split: if_splits)

lemma appendData_fd:
  assumes "appendData u env peer conn dpr w = Some (Ok (conn', x))"
  shows "sc_socketFd conn' = sc_socketFd conn"
proof -
  have "sc_socketFd (if sc_rrs conn = RRS_IDLE then conn\<lparr>sc_header := reqhdr_new, sc_rrs := RRS_READ_HEAD\<rparr> else conn) = sc_socketFd conn"
    by simp
  with assms show ?thesis
    unfolding appendData_def Let_def
    by (auto simp: obind_Ok request_completed_def dest!: read_head_fd read_body_data_fd read_trailer_fd split: if_splits option.splits)
qed

lemma conn_read_fd: "conn_read conn dpr reads idle = (conn', x) \<Longrightarrow> sc_socketFd conn' = sc_socketFd conn"
  by (auto simp: conn_read_def split: if_splits list.splits sum.splits)

lemma read_loop_fd:
  "read_loop u env peer conn dpr w reads idle = Some (Ok (conn', x)) \<Longrightarrow> sc_socketFd conn' = sc_socketFd conn"
proof (induction u env peer conn dpr w reads idle rule: read_loop.induct)
  case (1 u env peer conn dpr w reads idle)
  obtain conn1 dpr1 reads1 idle1 where r: "conn_read conn dpr reads idle = (conn1, dpr1, reads1, idle1)" by (metis prod_cases4)
  consider (stop) "\<not> may_read conn dpr" | (over) "may_read conn dpr" "sc_pending conn1 = []"
    | (data) "may_read conn dpr" "sc_pending conn1 \<noteq> []" by blast
  then show ?case
  proof cases
    case stop
    then show ?thesis using "1.prems" by (simp add: read_loop.simps)
  next
    case over
    then have "read_loop u env peer conn1 dpr1 w reads1 idle1 = Some (Ok (conn', x))"
      using "1.prems" by (simp add: read_loop.simps [of u env peer conn] r)
    from "1.IH"(1) [OF _ r [symmetric] refl refl over(2) this] show ?thesis using conn_read_fd [OF r] over(1) by simp
  next
    case data
    then obtain conn2 dpr2 w2 where a: "appendData u env peer conn1 dpr1 w = Some (Ok (conn2, dpr2, w2))"
        "read_loop u env peer conn2 dpr2 w2 reads1 idle1 = Some (Ok (conn', x))"
      using "1.prems" by (auto simp: read_loop.simps [of u env peer conn] r obind_Ok)
    from "1.IH"(2) [OF _ r [symmetric] refl refl data(2) a(1) refl refl a(2)] show ?thesis
      using conn_read_fd [OF r] appendData_fd [OF a(1)] data(1) by simp
  qed
qed

lemma progress_response_fd:
  "progress_response u env conn dpr w = Ok (conn', x) \<Longrightarrow> sc_socketFd conn' = sc_socketFd conn"
  by (auto simp: progress_response_def cbind_Ok split: option.splits if_splits)

lemma process_loop_fd:
  "process_loop u env peer conn dpr w reads idle = Some (Ok (conn', x)) \<Longrightarrow> sc_socketFd conn' = sc_socketFd conn"
proof (induction u env peer conn dpr w reads idle rule: process_loop.induct)
  case (1 u env peer conn dpr w reads idle)
  obtain conn1 dpr1 w1 reads1 idle1 conn2 dpr2 w2 where
    s: "read_loop u env peer conn dpr w reads idle = Some (Ok (conn1, dpr1, w1, reads1, idle1))"
      "progress_response u env conn1 dpr1 w1 = Ok (conn2, dpr2, w2)"
    using "1.prems" by (subst (asm) process_loop.simps) (auto simp: obind_Ok)
  have fd: "sc_socketFd conn2 = sc_socketFd conn" using read_loop_fd [OF s(1)] progress_response_fd [OF s(2)] by simp
  note r = "1.prems" [unfolded process_loop.simps [of u env peer conn] s(1) obind_simps prod.case s(2)]
  note IH = "1.IH" [OF s(1) refl refl refl refl _ refl refl, unfolded s(2)]
  show ?case using r IH fd by (auto simp: next_request_def split: if_splits)
qed

lemma processDataReady_fd:
  assumes "conn_processDataReady u env peer conn w reads closeIfIdle = Some (Ok (conn', x))"
  shows "sc_socketFd conn' = sc_socketFd conn"
  using assms by (auto simp: conn_processDataReady_def obind_Ok Let_def dest!: process_loop_fd)

text \<open>No two connections have the same descriptor, and the counts of each allow for what its client still sends.\<close>

definition serving :: "ServerConnection list \<Rightarrow> MainWorld \<Rightarrow> bool" where
  "serving cs w = (distinct (map sc_socketFd cs) \<and> (\<forall>c \<in> set cs. conn_counts c (mw_reads w (sc_socketFd c))))"

lemma serve_conn_ends:
  assumes "\<And>q. del_recursive (re_fuel env) (re_sys env) q \<noteq> None" and "conn_counts c (mw_reads w (sc_socketFd c))"
  shows "ends_in (serve_conn u env c closing drs w) (\<lambda>(c', res, drs', w'). sc_socketFd c' = sc_socketFd c \<and>
    conn_counts c' (mw_reads w' (sc_socketFd c)) \<and> (\<forall>fd. fd \<noteq> sc_socketFd c \<longrightarrow> mw_reads w' fd = mw_reads w fd))"
proof -
  let ?cw = "(mw_fd w (sc_socketFd c))\<lparr>wo_nonce := mw_nonce w\<rparr>"
  obtain r where r: "conn_processDataReady u env (mw_peer w (sc_socketFd c)) c ?cw (mw_reads w (sc_socketFd c)) closing = Some r"
      "\<And>conn' res drs w' reads'. r = Ok (conn', res, drs, w', reads') \<Longrightarrow> conn_counts conn' reads'"
    using conn_processDataReady_ends [OF assms, of u "mw_peer w (sc_socketFd c)" ?cw closing] by (auto simp: ends_in_def)
  show ?thesis
  proof (cases r)
    case (Ok x)
    obtain c' res calls cw reads' where x: "x = (c', res, calls, cw, reads')" by (metis prod_cases5)
    show ?thesis
      using r Ok x processDataReady_fd [of u env _ c ?cw _ closing c']
      by (cases "drs_calls calls drs") (auto simp: serve_conn_def Let_def ends_in_def)
  qed (use r in \<open>simp_all add: serve_conn_def Let_def ends_in_def\<close>)
qed

lemma serving_Cons:
  "serving (c # cs) w \<longleftrightarrow> sc_socketFd c \<notin> sc_socketFd ` set cs \<and> conn_counts c (mw_reads w (sc_socketFd c)) \<and> serving cs w"
  by (auto simp: serving_def)

lemma serving_cong:
  assumes "serving cs w" "\<And>c. c \<in> set cs \<Longrightarrow> mw_reads w' (sc_socketFd c) = mw_reads w (sc_socketFd c)"
  shows "serving cs w'"
  using assms by (simp add: serving_def)

lemma free_conn_reads [simp]: "mw_reads (free_conn c w) = mw_reads w"
  by (simp add: free_conn_def Let_def)

lemma serve_list_ends:
  assumes "\<And>q. del_recursive (re_fuel env) (re_sys env) q \<noteq> None"
  shows "serving cs w \<Longrightarrow> ends_in (serve_list u env closing cs drs w) (\<lambda>(rs, drs', w').
    map (sc_socketFd \<circ> fst) rs = map sc_socketFd cs \<and> serving (map fst rs) w' \<and>
    (\<forall>fd. fd \<notin> sc_socketFd ` set cs \<longrightarrow> mw_reads w' fd = mw_reads w fd))"
proof (induction cs arbitrary: closing drs w)
  case Nil
  then show ?case by (simp add: serving_def)
next
  case (Cons c cs)
  note c = Cons.prems [unfolded serving_Cons]
  show ?case
    unfolding serve_list.simps
  proof (rule ends_in_obind [OF serve_conn_ends [OF assms]], goal_cases)
    case 1
    show ?case using c by simp
  next
    case (2 x)
    obtain c' res drs' w' where x: "x = (c', res, drs', w')" by (metis prod_cases4)
    let ?w = "if res = CONN_TO_CLOSE then free_conn c' w' else w'"
    have fd: "sc_socketFd c' = sc_socketFd c" "conn_counts c' (mw_reads ?w (sc_socketFd c))"
        "\<And>fd. fd \<noteq> sc_socketFd c \<Longrightarrow> mw_reads ?w fd = mw_reads w fd" using 2(2) unfolding x by auto
    have r: "mw_reads ?w = mw_reads w'" by simp
    have "serving cs ?w" by (rule serving_cong [of cs w]) (use c fd(3) [unfolded r] in \<open>auto simp: r image_iff\<close>)
    note IH = Cons.IH [OF this, of "closing \<and> res = CONN_BUSY" drs']
    show ?case
      unfolding x prod.case
    proof (rule ends_in_obind [OF IH], clarify)
      fix rs :: "(ServerConnection \<times> ConnProcessingResult) list" and drs'' w''
      assume f: "map (sc_socketFd \<circ> fst) rs = map sc_socketFd cs" and s: "serving (map fst rs) w''"
        and o: "\<forall>fd. fd \<notin> sc_socketFd ` set cs \<longrightarrow> mw_reads w'' fd = mw_reads ?w fd"
      have "sc_socketFd ` set (map fst rs) = sc_socketFd ` set cs" using arg_cong [OF f, of set] by (simp add: image_comp)
      then have "serving (c' # map fst rs) w''" using s o c fd(1,2) by (simp add: serving_Cons)
      then show "ends_in (Some (Ok ((c', res) # rs, drs'', w''))) (\<lambda>(rs, drs', w').
          map (sc_socketFd \<circ> fst) rs = map sc_socketFd (c # cs) \<and> serving (map fst rs) w' \<and>
          (\<forall>fd. fd \<notin> sc_socketFd ` set (c # cs) \<longrightarrow> mw_reads w' fd = mw_reads w fd))"
        using f o fd(1,3) by simp
    qed
  qed
qed

text \<open>The connections that stay are served on.\<close>

lemma serving_kept:
  assumes "serving (map fst rs) w"
  shows "serving (of_res CONN_IDLE rs @ of_res CONN_BUSY rs) w"
proof -
  have "distinct (map (sc_socketFd \<circ> fst) rs)" using assms by (simp add: serving_def comp_def)
  then have "distinct (map sc_socketFd (of_res CONN_IDLE rs @ of_res CONN_BUSY rs))"
  proof (induction rs)
    case (Cons x rs)
    have "sc_socketFd ` set (of_res r rs) \<subseteq> (sc_socketFd \<circ> fst) ` set rs" for r by (auto simp: of_res_def)
    with Cons show ?case by (cases x) auto
  qed simp
  then show ?thesis using assms by (auto simp: serving_def of_res_def)
qed

text \<open>What the kernel promises: it gives no descriptor that is open; the clients do not send too much.\<close>

fun answers_ok :: "nat \<Rightarrow> AcceptAns list \<Rightarrow> int set \<Rightarrow> bool" where
  "answers_ok (Suc n) (Accepted fd fa cw reads peer # as) used =
     (fd \<notin> used \<and> conn_counts (conn_new fd) reads \<and> answers_ok n as (insert fd used))"
| "answers_ok _ _ used = True"

lemma accepted_serving:
  "serving cs w \<Longrightarrow> answers_ok n as (sc_socketFd ` set cs) \<Longrightarrow> accepted n as w = Ok (new, w') \<Longrightarrow> serving (cs @ new) w'"
proof (induction n as w arbitrary: cs new rule: accepted.induct)
  case (1 n fd fa cw reads peer as w)
  obtain fl new' where n: "drs_setNonBlockingCloExecFlags fa = Ok fl"
      "accepted n as (open_conn fd fl cw reads peer w) = Ok (new', w')" "new = conn_new fd # new'"
    using "1.prems"(3) by (auto simp: cbind_Ok)
  have fd: "sc_socketFd (conn_new fd) = fd" by (simp add: conn_new_def)
  have "serving (cs @ [conn_new fd]) (open_conn fd fl cw reads peer w)"
    using "1.prems"(1,2) fd by (auto simp: serving_def open_conn_def)
  from "1.IH" [OF this _ n(2)] show ?case using "1.prems"(2) n(3) fd by simp
qed simp_all

lemma same_run_ends:
  assumes "same_run r s R" "ends_in s P"
  shows "ends_in r (\<lambda>x. \<exists>y. R x y \<and> P y)"
  using assms by (cases s; cases "the s") (auto simp: ends_in_def)

lemma round_list_ends:
  assumes "\<And>q. del_recursive (re_fuel env) (re_sys env) q \<noteq> None"
    and "serving cs w" "answers_ok (m - length cs) (ra_accept ra) (sc_socketFd ` set cs)"
  shows "ends_in (round_list u env m listenfd ra cs drs w) (\<lambda>(cs', drs', w'). serving cs' w')"
proof -
  have "ends_in (obind (Some (accepted (m - length cs) (ra_accept ra) w)) (\<lambda>(new, w1).
      obind (serve_list u env (length (cs @ new) = m) (cs @ new) drs_new w1) (\<lambda>(rs, drs', w').
      Some (Ok (of_res CONN_IDLE rs @ of_res CONN_BUSY rs, drs', w'))))) (\<lambda>(cs', drs', w'). serving cs' w')"
  proof (rule ends_in_obind [OF ends_in_Some [of _ "\<lambda>(new, w1). serving (cs @ new) w1"]], goal_cases)
    case (1 x)
    then show ?case using accepted_serving [OF assms(2,3)] by (cases x) auto
  next
    case (2 x)
    obtain new w1 where x: "x = (new, w1)" "serving (cs @ new) w1" using 2 by (cases x) auto
    show ?case
      unfolding x(1) prod.case
      by (rule ends_in_obind [OF serve_list_ends [OF assms(1) x(2)]]) (auto simp: serving_kept)
  qed
  then show ?thesis
    unfolding round_list_def by (intro ends_in_obind [OF ends_in_Some [of _ "\<lambda>_. True"]]) auto
qed

text \<open>C14: No client makes the server hang: a round of the main loop comes to an end, whatever the clients send and whatever the
  system answers, as long as it gives no descriptor that is open, a client sent less than \<open>2^64 - 2^32\<close> bytes to
  its connection, and no folder to delete is nested deeper than the fuel.  After the round the table is in order
  again and the next one ends as well.\<close>

theorem round_ends:
  assumes "\<And>q. del_recursive (re_fuel env) (re_sys env) q \<noteq> None"
    and "table m st cs" "serving cs w" "answers_ok (m - length cs) (ra_accept ra) (sc_socketFd ` set cs)"
  shows "\<exists>r. mainloop_round u env m listenfd ra st w = Some r \<and>
    (\<forall>st' w'. r = Ok (st', w') \<longrightarrow> (\<exists>cs'. table m st' cs' \<and> serving cs' w'))"
  using same_run_ends [OF round_refines [OF assms(2)] round_list_ends [OF assms(1,3,4)], of u listenfd]
  by (auto simp: ends_in_def same_table_def)

subsection \<open>The descriptors\<close>

text \<open>
  The sockets that were closed: \<open>conn_free\<close> closes the socket of its connection first, before the descriptors of the handler.
  Every descriptor that was accepted is one of a connection, or was closed; as often as it was accepted.
\<close>

definition closed_sockets :: "MainWorld \<Rightarrow> int list" where
  "closed_sockets w = concat (map (\<lambda>(fds, cw). take 1 fds) (mw_closed w))"

definition ledger :: "ServerConnection list \<Rightarrow> MainWorld \<Rightarrow> bool" where
  "ledger cs w = (mset (mw_accepted w) = mset (map sc_socketFd cs) + mset (closed_sockets w))"

lemma serve_conn_same:
  assumes "serve_conn u env c closing drs w = Some (Ok (c', res, drs', w'))"
  shows "sc_socketFd c' = sc_socketFd c" "mw_accepted w' = mw_accepted w" "closed_sockets w' = closed_sockets w"
  using assms by (auto simp: closed_sockets_def serve_conn_def Let_def obind_Ok dest!: processDataReady_fd)

lemma free_conn_closes [simp]:
  "mw_accepted (free_conn c w) = mw_accepted w" "closed_sockets (free_conn c w) = closed_sockets w @ [sc_socketFd c]"
  by (simp_all add: free_conn_def closed_sockets_def conn_free_def Let_def split: prod.splits)

lemma serve_list_ledger:
  "serve_list u env closing cs drs w = Some (Ok (rs, drs', w')) \<Longrightarrow>
   mset (map sc_socketFd cs) + mset (closed_sockets w) =
     mset (map sc_socketFd (of_res CONN_IDLE rs @ of_res CONN_BUSY rs)) + mset (closed_sockets w') \<and>
   mw_accepted w' = mw_accepted w"
proof (induction cs arbitrary: closing drs w rs)
  case Nil
  then show ?case by simp
next
  case (Cons c cs)
  obtain c' res drs1 w1 rs' where s: "serve_conn u env c closing drs w = Some (Ok (c', res, drs1, w1))"
      "serve_list u env (closing \<and> res = CONN_BUSY) cs drs1 (if res = CONN_TO_CLOSE then free_conn c' w1 else w1) = Some (Ok (rs', drs', w'))"
      "rs = (c', res) # rs'"
    using Cons.prems by (auto simp: obind_Ok)
  show ?case using Cons.IH [OF s(2)] serve_conn_same [OF s(1)] s(3) by (cases res) (auto simp: ac_simps)
qed

lemma accepted_ledger: "ledger cs w \<Longrightarrow> accepted n as w = Ok (new, w') \<Longrightarrow> ledger (cs @ new) w'"
proof (induction n as w arbitrary: cs new rule: accepted.induct)
  case (1 n fd fa cw reads peer as w)
  obtain fl new' where n: "drs_setNonBlockingCloExecFlags fa = Ok fl"
      "accepted n as (open_conn fd fl cw reads peer w) = Ok (new', w')" "new = conn_new fd # new'"
    using "1.prems"(2) by (auto simp: cbind_Ok)
  have "ledger (cs @ [conn_new fd]) (open_conn fd fl cw reads peer w)"
    using "1.prems"(1) by (simp add: ledger_def open_conn_def conn_new_def closed_sockets_def)
  from "1.IH" [OF this n(2)] show ?case using n(3) by simp
qed simp_all

lemma round_ledger:
  assumes "round_list u env m listenfd ra cs drs w = Some (Ok (cs', drs', w'))" "ledger cs w"
  shows "ledger cs' w'"
proof -
  obtain new w1 rs where new: "accepted (m - length cs) (ra_accept ra) w = Ok (new, w1)" and
      r: "serve_list u env (length (cs @ new) = m) (cs @ new) drs_new w1 = Some (Ok (rs, drs', w'))"
      "cs' = of_res CONN_IDLE rs @ of_res CONN_BUSY rs"
    using assms(1) unfolding round_list_def by (auto simp: obind_Ok split: if_splits)
  show ?thesis using serve_list_ledger [OF r(1)] accepted_ledger [OF assms(2) new] r(2) by (simp add: ledger_def)
qed

lemma rounds_ledger:
  "rounds_list u env m listenfd ras cs drs w = Some (Ok (cs', drs', w')) \<Longrightarrow> ledger cs w \<Longrightarrow> ledger cs' w'"
  by (induction ras arbitrary: cs drs w) (auto simp: obind_Ok dest: round_ledger)

lemma same_run_Ok: "same_run (Some (Ok x)) s R \<Longrightarrow> \<exists>y. s = Some (Ok y) \<and> R x y"
  by (cases s; cases "the s") auto

text \<open>C31: No socket is leaked or closed twice: at the end of any number of rounds the descriptors that \<open>accept\<close> returned are those
  of the connections in the table, at most \<open>maxclients\<close>, and those that \<open>conn_free\<close> closed as the socket of its
  connection, each as often as it was returned; and every connection that was freed had its socket closed.\<close>

theorem descriptors_accounted:
  assumes "mainloop u env listenfd bindOk listenOk userOk fa ras w = Some (Ok (st, w'))" "mw_accepted w = []" "mw_closed w = []"
  shows "\<exists>cs. take (ms_connCount st) (ms_connections st) = map Some cs \<and>
    length cs \<le> unat (config_getMaxClients (re_config env)) \<and>
    mset (mw_accepted w') = mset (map sc_socketFd cs) + mset (concat (map (\<lambda>(fds, cw). take 1 fds) (mw_closed w')))"
proof -
  let ?m = "unat (config_getMaxClients (re_config env))"
  obtain fl where m: "mainloop_rounds u env ?m listenfd ras (main_init (re_config env)) (w\<lparr>mw_flags := (mw_flags w)(listenfd := fl)\<rparr>) =
      Some (Ok (st, w'))" (is "mainloop_rounds _ _ _ _ _ _ ?w = _")
    using assms(1) by (auto simp: mainloop_def obind_Ok split: if_splits)
  from same_run_Ok [OF rounds_refine [OF table_init [of "re_config env"], of u env listenfd ras ?w, unfolded m]]
  obtain cs drs where r: "rounds_list u env ?m listenfd ras [] (ms_drs (main_init (re_config env))) ?w = Some (Ok (cs, drs, w'))"
      "table ?m st cs" by (auto simp: same_table_def)
  have "ledger cs w'" by (rule rounds_ledger [OF r(1)]) (simp add: ledger_def closed_sockets_def assms(2,3))
  then show ?thesis using r(2) by (auto simp: table_def ledger_def closed_sockets_def)
qed

text \<open>A round in which one client connects and sends nothing, and another one connects and goes away.\<close>

definition example_main :: MainWorld where
  "example_main = \<lparr>mw_nonce = 0, mw_fd = (\<lambda>_. example_world), mw_reads = (\<lambda>_. []), mw_peer = (\<lambda>_. None),
     mw_accepted = [], mw_closed = [], mw_flags = (\<lambda>_. (0, 0))\<rparr>"

definition example_round :: RoundAns where
  "example_round = \<lparr>ra_select = True, ra_accept = [Accepted 4 fcntl_ok example_world [] None, Accepted 5 fcntl_ok example_world [Inr []] None],
     ra_errno = EWOULDBLOCK\<rparr>"

lemma silent_client:
  "conn_processDataReady u env peer (conn_new fd) w [] False = Some (Ok (conn_new fd, CONN_BUSY, [DrsSetReadFd fd], w, []))"
  by (simp add: conn_processDataReady_def process_loop.simps read_loop.simps may_read_def conn_read_def conn_new_def dpr_init_def
      dpr_setReqState_def progress_response_def await_fd_def)

lemma gone_client:
  "conn_processDataReady u env peer (conn_new fd) w [Inr []] False = Some (Ok (conn_new fd, CONN_TO_CLOSE, [], w, []))"
  by (simp add: conn_processDataReady_def process_loop.simps read_loop.simps may_read_def conn_read_def conn_new_def dpr_init_def
      dpr_setCloseConn_def progress_response_def await_fd_def)

lemma example_rounds:
  "\<exists>w'. rounds_list NUL example_env (unat (config_getMaxClients (re_config example_env))) 3 [example_round] [] drs_new
       (example_main\<lparr>mw_flags := (mw_flags example_main)(3 := (0x802, 1))\<rparr>) =
     Some (Ok ([conn_new 4], \<lparr>drs_readFds = {4}, drs_writeFds = {}, drs_numFds = 5\<rparr>, w')) \<and>
     mw_accepted w' = [4, 5] \<and> closed_sockets w' = [5]"
proof -
  have m: "unat (config_getMaxClients (re_config example_env)) = Suc (Suc 8)"
    by (simp add: config_getMaxClients_def example_env_def config_init_def)
  have fd: "sc_socketFd (conn_new fd) = fd" for fd by (simp add: conn_new_def)
  show ?thesis
    unfolding m
    by (simp add: round_list_def example_round_def example_main_def open_conn_def serve_conn_def fd silent_client gone_client fcntl_ok_flags
        drs_setReadFd_def fd_set_add_def drs_new_def free_conn_def conn_free_def closed_sockets_def Let_def eval_nat_numeral split: prod.splits)
qed

theorem mainloop_refines_list_witness:
  "\<exists>st w'. mainloop NUL example_env 3 True True True fcntl_ok [example_round] example_main = Some (Ok (st, w')) \<and>
     ms_connCount st = 1 \<and> take 1 (ms_connections st) = [Some (conn_new 4)] \<and> drs_readFds (ms_drs st) = {4}"
  using example_rounds mainloop_refines_list [OF _ fcntl_ok_flags, of 3 NUL example_env "[example_round]" example_main] by fastforce

theorem descriptors_accounted_witness:
  "\<exists>st w' cs. mainloop NUL example_env 3 True True True fcntl_ok [example_round] example_main = Some (Ok (st, w')) \<and>
     take (ms_connCount st) (ms_connections st) = map Some cs \<and>
     mset (mw_accepted w') = mset (map sc_socketFd cs) + mset (concat (map (\<lambda>(fds, cw). take 1 fds) (mw_closed w')))"
proof -
  have "ms_drs (main_init (re_config example_env)) = drs_new" by (simp add: main_init_def Let_def)
  then obtain st w' where r: "mainloop NUL example_env 3 True True True fcntl_ok [example_round] example_main = Some (Ok (st, w'))"
    using example_rounds rounds_refine [OF table_init [of "re_config example_env"], of NUL example_env 3 "[example_round]" "example_main\<lparr>mw_flags := (mw_flags example_main)(3 := (0x802, 1))\<rparr>"]
    by (auto simp: mainloop_def fcntl_ok_flags)
  moreover have "mw_accepted example_main = []" "mw_closed example_main = []" by (simp_all add: example_main_def)
  ultimately show ?thesis using descriptors_accounted by blast
qed

theorem round_ends_witness:
  "\<exists>r. mainloop_round NUL example_env 10 3 example_round (main_init (re_config example_env)) example_main = Some r \<and>
     (\<forall>st' w'. r = Ok (st', w') \<longrightarrow> (\<exists>cs'. table 10 st' cs' \<and> serving cs' w'))"
proof (rule round_ends)
  show "table 10 (main_init (re_config example_env)) []"
    using table_init [of "re_config example_env"] by (simp add: config_getMaxClients_def example_env_def config_init_def)
  show "del_recursive (re_fuel example_env) (re_sys example_env) q \<noteq> None" for q
    by (simp add: example_env_def example_sys_def eval_nat_numeral)
  show "serving [] example_main" by (simp add: serving_def)
  have "conn_counts (conn_new 4) []" "conn_counts (conn_new 5) [Inr []]"
    by (simp_all add: conn_counts_def counts_ok_def conn_new_def reads_bytes_def)
  then show "answers_ok (10 - length []) (ra_accept example_round) (sc_socketFd ` set [])"
    by (simp add: example_round_def eval_nat_numeral)
qed

text \<open>
  The number of clients is not bounded by \<open>FD_SETSIZE\<close>: waiting for a client whose descriptor is not below it writes
  behind the set of descriptors.
\<close>

lemma many_clients_undefined:
  assumes "1024 \<le> fd" "mw_reads w fd = []"
  shows "serve_conn u env (conn_new fd) False drs w = Some Undef"
proof -
  have "sc_socketFd (conn_new fd) = fd" by (simp add: conn_new_def)
  then show ?thesis using assms by (simp add: serve_conn_def Let_def silent_client drs_setReadFd_def fd_set_add_def)
qed

text \<open>With \<open>-p\<close> the program only prints the encoded credentials; an unknown option only prints the usage.\<close>

lemma option_p_only_prints:
  "main_prog u qs fs euid pw setuid_ok htmldir sysconfdir env listenfd bindOk listenOk fa ras sels [(CHR ''p'', up)] w =
     (config_getCredentialsEncoded up @ [LF], Some (Ok w))"
  by (simp add: main_prog_def)

end
