(* ===== verification/Session.thy ===== *)
theory Session
  imports Mainloop
begin

text \<open>
  A whole session of a client on a connection that stays open: requests that arrive in any pieces, also several in
  one piece, are read, handled and answered by the operations of \<open>Requestheader\<close>, \<open>Reqhandler\<close>,
  \<open>Responsesender\<close> and \<open>Serverconnection\<close> together.
\<close>

subsection \<open>The header of a request\<close>

text \<open>What completes a request without a body.\<close>

definition header_completes ::
    "ReqEnv \<Rightarrow> bytes option \<Rightarrow> ServerConnection \<Rightarrow> World \<Rightarrow> RequestHeader \<Rightarrow> (bytes \<Rightarrow> ServerConnection) \<Rightarrow> World \<Rightarrow> bool" where
  "header_completes env peer conn w t done w' = (\<forall>pd.
     onFinishedHeader env peer (conn\<lparr>sc_header := t, sc_pending := pd\<rparr>) w = Ok (done pd, w') \<and>
     sc_rrs (done pd) = RRS_READ_FINISHED \<and> request_completed env (done pd) w' = Some (Ok (done pd, w')))"

definition ready_dpr :: "DataProcessingResult \<Rightarrow> bool" where
  "ready_dpr dpr = (\<not> dpr_closeConn dpr \<and> dpr_reqState dpr = DPR_READY)"

lemma appendData_last:
  assumes "sc_rrs conn = RRS_READ_HEAD" "header_completes env peer conn w t done w'"
    and "reqhdr_appendData u (re_config env) (sc_header conn) (sc_pending conn) = Ok (t, Some n)"
  shows "appendData u env peer conn dpr w = Some (Ok (done (drop n (sc_pending conn)), dpr, w'))"
proof -
  let ?pd = "drop n (sc_pending conn)"
  note d = assms(2) [unfolded header_completes_def, rule_format, of ?pd]
  have "header_bytes u env conn = Ok (conn\<lparr>sc_header := t, sc_pending := ?pd\<rparr>, True)"
    using assms(3) by (simp add: header_bytes_def)
  then have "read_head u env peer conn w = Ok (done ?pd, w')" using assms(1) d by (simp add: read_head_def)
  then show ?thesis
    using assms(1) d by (simp add: appendData_def read_body_data_def read_trailer_def)
qed

lemma appendData_part:
  assumes "sc_rrs conn = RRS_READ_HEAD" "reqhdr_appendData u (re_config env) (sc_header conn) (sc_pending conn) = Ok (t, None)"
  shows "appendData u env peer conn dpr w = Some (Ok (conn\<lparr>sc_header := t, sc_pending := []\<rparr>, dpr, w))"
proof -
  have "header_bytes u env conn = Ok (conn\<lparr>sc_header := t, sc_pending := []\<rparr>, False)"
    using assms(2) by (simp add: header_bytes_def)
  then show ?thesis
    using assms(1) by (simp add: appendData_def read_head_def read_body_data_def read_trailer_def)
qed

lemma appendData_idle:
  assumes "sc_rrs conn = RRS_IDLE"
  shows "appendData u env peer conn dpr w = appendData u env peer (conn\<lparr>sc_header := reqhdr_new, sc_rrs := RRS_READ_HEAD\<rparr>) dpr w"
  using assms by (simp add: appendData_def)

text \<open>Bytes that are there are handed on, whether they were read now or before.\<close>

lemma read_loop_pending:
  assumes "may_read conn dpr" "sc_pending conn \<noteq> []" "appendData u env peer conn dpr w = Some (Ok (conn', dpr', w'))"
  shows "read_loop u env peer conn dpr w reads idle = read_loop u env peer conn' dpr' w' reads idle"
  using assms by (simp add: read_loop.simps [of u env peer conn dpr w reads idle] conn_read_def)

lemma read_loop_input:
  assumes "may_read conn dpr" "sc_pending conn = []" "p \<noteq> []" "length p \<le> 65536"
  shows "read_loop u env peer conn dpr w (Inr p # reads) idle =
    read_loop u env peer (conn\<lparr>sc_pending := p\<rparr>) dpr w reads False"
proof -
  have m: "may_read (conn\<lparr>sc_pending := p\<rparr>) dpr" using assms(1) by (simp add: may_read_def)
  show ?thesis
    using assms m by (simp add: read_loop.simps [of u env peer conn dpr w "Inr p # reads" idle]
        read_loop.simps [of u env peer "conn\<lparr>sc_pending := p\<rparr>" dpr w reads False] conn_read_def)
qed

lemma read_loop_finished:
  "sc_rrs conn = RRS_READ_FINISHED \<Longrightarrow> read_loop u env peer conn dpr w reads idle = Some (Ok (conn, dpr, w, reads, idle))"
  by (simp add: read_loop.simps may_read_def)

text \<open>
  From a state of the header that \<open>x\<close> completes: the bytes of \<open>x\<close> are read, in whatever pieces, and what follows
  them stays in the buffer or is not yet read.
\<close>

definition pieces_ok :: "bytes list \<Rightarrow> bool" where
  "pieces_ok ps = (\<forall>p \<in> set ps. p \<noteq> [] \<and> length p \<le> 65536)"

lemma read_request_pending:
  assumes head: "sc_rrs conn = RRS_READ_HEAD" "reqhdr_inv (sc_header conn)" and x: "no_nul x"
    and feed: "reqhdr_appendData u (re_config env) (sc_header conn) x = Ok (t, Some (length x))"
    and eq: "sc_pending conn @ unread = x @ rest" and ne: "sc_pending conn \<noteq> []" and dpr: "ready_dpr dpr"
    and comp: "header_completes env peer conn w t done w'"
  shows "(\<exists>pd. pd @ unread = rest \<and> read_loop u env peer conn dpr w reads idle = Some (Ok (done pd, dpr, w', reads, idle))) \<or>
    (\<exists>h y. reqhdr_inv h \<and> no_nul y \<and> reqhdr_appendData u (re_config env) h y = Ok (t, Some (length y)) \<and> unread = y @ rest \<and>
       read_loop u env peer conn dpr w reads idle =
       read_loop u env peer (conn\<lparr>sc_header := h, sc_pending := []\<rparr>) dpr w reads idle)"
proof -
  let ?d = "sc_pending conn"
  have m: "may_read conn dpr" using head(1) dpr by (simp add: may_read_def ready_dpr_def)
  have fin: "read_loop u env peer conn dpr w reads idle = Some (Ok (done (drop n ?d), dpr, w', reads, idle))"
    if "reqhdr_appendData u (re_config env) (sc_header conn) ?d = Ok (t, Some n)" for n
    using read_loop_pending [OF m ne appendData_last [OF head(1) comp that]] comp
    by (simp add: read_loop_finished header_completes_def)
  consider ys where "?d = x @ ys" | ys where "x = ?d @ ys" "unread = ys @ rest"
    using eq by (auto simp: append_eq_append_conv2)
  then show ?thesis
  proof cases
    case 1
    then have "reqhdr_appendData u (re_config env) (sc_header conn) ?d = Ok (t, Some (length x))"
      using reqhdr.feed_done [OF head(2) x feed] by simp
    then have "read_loop u env peer conn dpr w reads idle = Some (Ok (done ys, dpr, w', reads, idle))"
      using fin 1 by simp
    then show ?thesis using 1 eq by (intro disjI1 exI [of _ ys]) simp
  next
    case 2
    have d: "no_nul ?d" "no_nul ys" using x 2(1) by simp_all
    obtain h r where f: "reqhdr_appendData u (re_config env) (sc_header conn) ?d = Ok (h, r)"
      using reqhdr.feed_defined [OF head(2) d(1)] by (metis surj_pair)
    show ?thesis
    proof (cases r)
      case (Some n)
      then have "reqhdr_appendData u (re_config env) (sc_header conn) x = Ok (h, Some n)" "n \<le> length ?d"
        using reqhdr.feed_done [OF head(2) d(1)] f 2(1) by simp_all
      then have "h = t" "n = length x" "ys = []" using feed 2(1) by auto
      then have "read_loop u env peer conn dpr w reads idle = Some (Ok (done [], dpr, w', reads, idle))"
        using fin [of n] f Some 2(1) by simp
      then show ?thesis using 2(2) \<open>ys = []\<close> by (intro disjI1 exI [of _ "[]"]) simp
    next
      case None
      have i: "reqhdr_inv h" using reqhdr.feed_inv [OF head(2) d(1)] f None by simp
      obtain v q where v: "reqhdr_appendData u (re_config env) h ys = Ok (v, q)"
        using reqhdr.feed_defined [OF i d(2)] by (metis surj_pair)
      have "cbind (reqhdr_appendData u (re_config env) h ys) (\<lambda>(s, r). Ok (s, map_option ((+) (length ?d)) r)) = Ok (t, Some (length x))"
        using reqhdr.feed_more [OF head(2) d(1), of u "re_config env" h ys] f None feed 2(1) by simp
      then have "v = t" "q = Some (length ys)" using v 2(1) by auto
      then have "reqhdr_appendData u (re_config env) h ys = Ok (t, Some (length ys))" using v by simp
      moreover have "read_loop u env peer conn dpr w reads idle =
          read_loop u env peer (conn\<lparr>sc_header := h, sc_pending := []\<rparr>) dpr w reads idle"
        by (rule read_loop_pending [OF m ne appendData_part [OF head(1)]]) (use f None in simp)
      ultimately show ?thesis using i d(2) 2(2) by blast
    qed
  qed
qed

lemma header_completes_upd [simp]:
  "header_completes env peer (conn\<lparr>sc_header := h\<rparr>) = header_completes env peer conn"
  "header_completes env peer (conn\<lparr>sc_pending := d\<rparr>) = header_completes env peer conn"
  by (intro ext; simp add: header_completes_def)+

lemma read_request_pieces:
  assumes "sc_rrs conn = RRS_READ_HEAD" "reqhdr_inv (sc_header conn)" "no_nul x"
    and "reqhdr_appendData u (re_config env) (sc_header conn) x = Ok (t, Some (length x))"
    and "concat ps = x @ rest" "pieces_ok ps" "sc_pending conn = []" "ready_dpr dpr"
    and "header_completes env peer conn w t done w'"
  shows "\<exists>pd ps'. pd @ concat ps' = rest \<and> pieces_ok ps' \<and>
    read_loop u env peer conn dpr w (map Inr ps) idle = Some (Ok (done pd, dpr, w', map Inr ps', False))"
  using assms
proof (induction ps arbitrary: conn x idle)
  case Nil
  then have "x = []" by simp
  then show ?case using Nil.prems(4) reqhdr.feed_nil [OF Nil.prems(2), of u "re_config env"] by simp
next
  case (Cons p ps)
  have p: "p \<noteq> []" "length p \<le> 65536" "pieces_ok ps" using Cons.prems(6) by (simp_all add: pieces_ok_def)
  have m: "may_read conn dpr" using Cons.prems(1,8) by (simp add: may_read_def ready_dpr_def)
  note inp = read_loop_input [OF m Cons.prems(7) p(1,2), of u env peer w "map Inr ps" idle]
  let ?c = "conn\<lparr>sc_pending := p\<rparr>"
  have "sc_rrs ?c = RRS_READ_HEAD" "reqhdr_inv (sc_header ?c)"
    "reqhdr_appendData u (re_config env) (sc_header ?c) x = Ok (t, Some (length x))"
    "sc_pending ?c @ concat ps = x @ rest" "sc_pending ?c \<noteq> []" "header_completes env peer ?c w t done w'"
    using Cons.prems p by simp_all
  from read_request_pending [OF this(1,2) Cons.prems(3) this(3,4,5) Cons.prems(8) this(6), of "map Inr ps" False] show ?case
  proof (elim disjE exE conjE)
    fix pd
    assume "pd @ concat ps = rest" "read_loop u env peer ?c dpr w (map Inr ps) False = Some (Ok (done pd, dpr, w', map Inr ps, False))"
    then show ?thesis using inp p(3) by auto
  next
    fix h y
    assume a: "reqhdr_inv h" "no_nul y" "reqhdr_appendData u (re_config env) h y = Ok (t, Some (length y))" "concat ps = y @ rest"
      and r: "read_loop u env peer ?c dpr w (map Inr ps) False =
        read_loop u env peer (?c\<lparr>sc_header := h, sc_pending := []\<rparr>) dpr w (map Inr ps) False"
    let ?d = "?c\<lparr>sc_header := h, sc_pending := []\<rparr>"
    have "\<exists>pd ps'. pd @ concat ps' = rest \<and> pieces_ok ps' \<and>
        read_loop u env peer ?d dpr w (map Inr ps) False = Some (Ok (done pd, dpr, w', map Inr ps', False))"
      by (rule Cons.IH [OF _ _ a(2)]) (use Cons.prems a p(3) in simp_all)
    then show ?thesis using inp r by simp
  qed
qed

text \<open>The same when some bytes are there already.\<close>

lemma read_request:
  assumes "sc_rrs conn = RRS_READ_HEAD" "reqhdr_inv (sc_header conn)" "no_nul x"
    and "reqhdr_appendData u (re_config env) (sc_header conn) x = Ok (t, Some (length x))"
    and "sc_pending conn @ concat ps = x @ rest" "pieces_ok ps" "ready_dpr dpr"
    and "header_completes env peer conn w t done w'"
  shows "\<exists>pd ps' idle'. pd @ concat ps' = rest \<and> pieces_ok ps' \<and> (idle' \<longrightarrow> idle) \<and>
    read_loop u env peer conn dpr w (map Inr ps) idle = Some (Ok (done pd, dpr, w', map Inr ps', idle'))"
proof (cases "sc_pending conn = []")
  case True
  then have "concat ps = x @ rest" using assms(5) by simp
  from read_request_pieces [OF assms(1-4) this assms(6) True assms(7,8), of idle] obtain pd ps' where
    "pd @ concat ps' = rest" "pieces_ok ps'" "read_loop u env peer conn dpr w (map Inr ps) idle = Some (Ok (done pd, dpr, w', map Inr ps', False))"
    by auto
  then show ?thesis by (intro exI [of _ pd] exI [of _ ps'] exI [of _ False]) simp
next
  case False
  from read_request_pending [OF assms(1-5) False assms(7,8), of "map Inr ps" idle] show ?thesis
  proof (elim disjE exE conjE)
    fix h y
    assume a: "reqhdr_inv h" "no_nul y" "reqhdr_appendData u (re_config env) h y = Ok (t, Some (length y))" "concat ps = y @ rest"
      and r: "read_loop u env peer conn dpr w (map Inr ps) idle =
        read_loop u env peer (conn\<lparr>sc_header := h, sc_pending := []\<rparr>) dpr w (map Inr ps) idle"
    let ?d = "conn\<lparr>sc_header := h, sc_pending := []\<rparr>"
    have "\<exists>pd ps'. pd @ concat ps' = rest \<and> pieces_ok ps' \<and>
        read_loop u env peer ?d dpr w (map Inr ps) idle = Some (Ok (done pd, dpr, w', map Inr ps', False))"
      by (rule read_request_pieces [OF _ _ a(2)]) (use assms a in simp_all)
    then obtain pd ps' where "pd @ concat ps' = rest" "pieces_ok ps'"
        "read_loop u env peer conn dpr w (map Inr ps) idle = Some (Ok (done pd, dpr, w', map Inr ps', False))"
      using r by (elim exE conjE) (rule that, simp_all)
    then show ?thesis by (intro exI [of _ pd] exI [of _ ps'] exI [of _ False]) simp
  qed (use assms(6) in blast)
qed

lemma read_loop_idle:
  assumes "sc_rrs conn = RRS_IDLE" "sc_pending conn \<noteq> [] \<or> ps \<noteq> []" "pieces_ok ps" "ready_dpr dpr"
  shows "read_loop u env peer conn dpr w (map Inr ps) idle =
    read_loop u env peer (conn\<lparr>sc_header := reqhdr_new, sc_rrs := RRS_READ_HEAD\<rparr>) dpr w (map Inr ps) idle"
proof -
  let ?h = "\<lambda>conn. conn\<lparr>sc_header := reqhdr_new, sc_rrs := RRS_READ_HEAD\<rparr>"
  have m: "may_read c dpr" "may_read (?h c) dpr" if "sc_rrs c = RRS_IDLE" for c
    using assms(4) that by (simp_all add: may_read_def ready_dpr_def)
  have p: "read_loop u env peer c dpr w reads i = read_loop u env peer (?h c) dpr w reads i"
    if "sc_rrs c = RRS_IDLE" "sc_pending c \<noteq> []" for c reads i
    using m [OF that(1)] that
    by (simp add: read_loop.simps [of u env peer c] read_loop.simps [of u env peer "?h c"] conn_read_def appendData_idle)
  show ?thesis
  proof (cases "sc_pending conn = []")
    case False
    then show ?thesis using p [OF assms(1)] by blast
  next
    case True
    then obtain q qs where ps: "ps = q # qs" using assms(2) by (cases ps) auto
    have q: "q \<noteq> []" "length q \<le> 65536" using assms(3) ps by (simp_all add: pieces_ok_def)
    have comm: "(?h conn)\<lparr>sc_pending := q\<rparr> = ?h (conn\<lparr>sc_pending := q\<rparr>)" by simp
    show ?thesis
      unfolding ps list.map
      using read_loop_input [OF m(1) [OF assms(1)] True q, of u env peer w "map Inr qs" idle]
        read_loop_input [OF m(2) [OF assms(1)] _ q, of u env peer w "map Inr qs" idle]
        p [of "conn\<lparr>sc_pending := q\<rparr>" "map Inr qs" False] assms(1) True q(1)
      unfolding comm by simp
  qed
qed

subsection \<open>A request for a file\<close>

text \<open>A \<open>GET\<close> request as a client prints it: what it escapes, the path, the query, the version and the headers.\<close>

record GetRequest =
  gr_escape :: "char \<Rightarrow> bool"
  gr_path :: bytes
  gr_query :: "bytes option"
  gr_version :: bytes
  gr_headers :: "(bytes \<times> bytes) list"

definition print_get :: "GetRequest \<Rightarrow> bytes" where
  "print_get g = print_request (gr_escape g) ''GET'' (gr_path g) (gr_query g) (gr_version g) (gr_headers g)"

definition login_of_get :: "char \<Rightarrow> ReqEnv \<Rightarrow> GetRequest \<Rightarrow> LoginState" where
  "login_of_get u env g = login_of u (re_config env) ''GET'' LS_LOGGED_OUT (gr_headers g)"

text \<open>A request without a body, on a connection that is to stay open, by a client that may read files.\<close>

definition get_ok :: "char \<Rightarrow> ReqEnv \<Rightarrow> GetRequest \<Rightarrow> bool" where
  "get_ok u env g = (request_ok (gr_escape g) ''GET'' (gr_path g) (gr_query g) (gr_version g) \<and>
     (\<forall>h \<in> set (gr_headers g). header_ok h) \<and>
     first_header ''Transfer-Encoding'' (gr_headers g) = None \<and> first_header ''Content-Length'' (gr_headers g) = None \<and>
     map_option skip_blanks (first_header ''Connection'' (gr_headers g)) \<noteq> Some ''close'' \<and> gr_version g \<noteq> ''1.0'' \<and>
     login_of_get u env g \<noteq> LS_LOGIN_FAIL \<and>
     config_isActionAllowed (re_config env) PA_SERVE_PAGE (login_of_get u env g = LS_LOGGED_IN))"

text \<open>The path is that of a file below a share.\<close>

definition file_ok :: "ReqEnv \<Rightarrow> bytes \<Rightarrow> bytes \<Rightarrow> bool" where
  "file_ok env q p = (CHR ''/'' \<in> set q \<and> \<not> dotdot_in q \<and> config_getSysPathForUrlPath (re_config env) q = Some p \<and>
     (\<exists>st. fs_stat (re_fs env) p = Some st \<and> st_kind st = KindReg) \<and> config_isCGI (re_fnm env) (re_config env) q = Ok False \<and>
     (\<exists>fd. re_open env p = Inr fd \<and> 0 \<le> fd \<and> re_fstat env fd = Some (True, length (re_content env p))))"

definition file_response :: "ReqEnv \<Rightarrow> bytes \<Rightarrow> bytes \<Rightarrow> bytes" where
  "file_response env q p = file_header q p @ ''Content-Length: '' @ to_base 10 (length (re_content env p)) @ CRLF @ CRLF @ re_content env p"

definition get_header :: "char \<Rightarrow> ReqEnv \<Rightarrow> GetRequest \<Rightarrow> RequestHeader" where
  "get_header u env g = \<lparr>rq_request = ''GET'', rq_path = Some (gr_path g), rq_query = gr_query g, rq_version = gr_version g,
     rq_headers = map stored_header (gr_headers g), rq_inRequest = False, rq_loginState = login_of_get u env g, rq_cur = []\<rparr>"

lemma get_header_read:
  assumes "get_ok u env g"
  shows "reqhdr_appendData u (re_config env) reqhdr_new (print_get g) = Ok (get_header u env g, Some (length (print_get g)))"
    "no_nul (print_get g)" "print_get g \<noteq> []"
proof -
  have r: "request_ok (gr_escape g) ''GET'' (gr_path g) (gr_query g) (gr_version g)" "\<forall>h \<in> set (gr_headers g). header_ok h"
    using assms by (simp_all add: get_ok_def)
  show "reqhdr_appendData u (re_config env) reqhdr_new (print_get g) = Ok (get_header u env g, Some (length (print_get g)))"
    unfolding print_get_def by (subst reqhdr_append_request [OF r]) (simp add: get_header_def login_of_get_def)
  show "no_nul (print_get g)" "print_get g \<noteq> []"
    using request_line_chars [OF r(1)] no_nul_headers [OF r(2)] by (simp_all add: print_get_def print_request_def)
qed

lemma get_header_facts:
  assumes "get_ok u env g"
  shows "reqhdr_getMethod (get_header u env g) = ''GET''" "reqhdr_getPath (get_header u env g) = Some (gr_path g)"
    "reqhdr_getLoginState (get_header u env g) \<noteq> LS_LOGIN_FAIL"
    "reqhdr_isActionAllowed (re_config env) (get_header u env g) PA_SERVE_PAGE"
    "\<not> reqhdr_isChunkedTransferEncoding (get_header u env g)"
    "reqhdr_getHeaderVal (get_header u env g) ''Content-Length'' = None" "\<not> wants_close (get_header u env g)"
proof -
  have v: "reqhdr_getHeaderVal (get_header u env g) n = map_option skip_blanks (first_header n (gr_headers g))" for n
    using assms header_val_stored [of "gr_headers g" n] by (simp add: reqhdr_getHeaderVal_def get_header_def get_ok_def)
  show "reqhdr_getMethod (get_header u env g) = ''GET''" "reqhdr_getPath (get_header u env g) = Some (gr_path g)"
    by (simp_all add: get_header_def reqhdr_getMethod_def reqhdr_getPath_def)
  show "reqhdr_getLoginState (get_header u env g) \<noteq> LS_LOGIN_FAIL"
    "reqhdr_isActionAllowed (re_config env) (get_header u env g) PA_SERVE_PAGE"
    using assms by (simp_all add: get_header_def reqhdr_getLoginState_def reqhdr_isActionAllowed_def get_ok_def)
  show "\<not> reqhdr_isChunkedTransferEncoding (get_header u env g)" "\<not> wants_close (get_header u env g)"
    "reqhdr_getHeaderVal (get_header u env g) ''Content-Length'' = None"
    using assms v by (simp_all add: reqhdr_isChunkedTransferEncoding_def wants_close_def reqhdr_getVersion_def get_ok_def,
      simp add: get_header_def)
qed

definition file_handler :: "ReqEnv \<Rightarrow> bytes option \<Rightarrow> bytes \<Rightarrow> bytes \<Rightarrow> int \<Rightarrow> RequestHandler" where
  "file_handler env peer q p fd = \<lparr>rh_peerAddr = peer, rh_filemgr = None, rh_cgiexe = None,
     rh_response = Some (rsndr_new (Some (True, length (re_content env p))) (file_header q p) (Some []) fd), rh_run = None\<rparr>"

definition on_wire :: "World \<Rightarrow> bytes \<Rightarrow> World" where
  "on_wire w c = w\<lparr>wo_wire := (wo_wire w)\<lparr>w_file := c\<rparr>\<rparr>"

definition answering :: "ServerConnection \<Rightarrow> RequestHeader \<Rightarrow> RequestHandler \<Rightarrow> bytes \<Rightarrow> ServerConnection" where
  "answering conn t h pd = conn\<lparr>sc_header := t, sc_pending := pd, sc_handler := Some h, sc_bodyLen := 0, sc_rrs := RRS_READ_FINISHED\<rparr>"

lemma get_completes:
  assumes "get_ok u env g" "file_ok env (gr_path g) p" "sc_bodyLen conn = 0" "re_open env p = Inr fd"
  shows "header_completes env peer conn w (get_header u env g)
    (answering conn (get_header u env g) (file_handler env peer (gr_path g) p fd)) (on_wire w (re_content env p))"
proof -
  obtain st where f: "CHR ''/'' \<in> set (gr_path g)" "\<not> dotdot_in (gr_path g)"
      "config_getSysPathForUrlPath (re_config env) (gr_path g) = Some p" "fs_stat (re_fs env) p = Some st" "st_kind st = KindReg"
      "config_isCGI (re_fnm env) (re_config env) (gr_path g) = Ok False" "0 \<le> fd"
      "re_fstat env fd = Some (True, length (re_content env p))"
    using assms(2,4) by (auto simp: file_ok_def)
  note h = get_header_facts [OF assms(1)]
  have "reqhdlr_new env w (get_header u env g) peer = Ok (file_handler env peer (gr_path g) p fd, on_wire w (re_content env p))"
    unfolding file_handler_def on_wire_def
    by (rule get_file_handler [OF h(1,2) f(1) h(3,4) f(2-6) assms(4) f(8)])
  then show ?thesis
    using h(5,6) assms(3)
    by (simp add: header_completes_def onFinishedHeader_def answering_def request_completed_def reqhdlr_requestReadCompleted_def
        file_handler_def)
qed

text \<open>The response is sent at once when the socket takes bytes as long as there are some and the file does not block.\<close>

lemma progress_file:
  assumes "get_ok u env g" "file_ok env (gr_path g) p" "re_open env p = Inr fd"
    and "willing (wo_wire w)" "length (file_response env (gr_path g) p) < length (w_writes (wo_wire w))"
    and "length (re_content env p) + 1 < length (w_reads (wo_wire w))"
  shows "\<exists>w2. progress_response u env (answering conn t (file_handler env peer (gr_path g) p fd) pd) dpr_init
      (on_wire w (re_content env p)) = Ok ((answering conn t (file_handler env peer (gr_path g) p fd) pd)\<lparr>sc_handler := None\<rparr>, dpr_init, w2) \<and>
    w_sent (wo_wire w2) = w_sent (wo_wire w) @ file_response env (gr_path g) p \<and> willing (wo_wire w2) \<and>
    length (w_writes (wo_wire w)) \<le> length (w_writes (wo_wire w2)) + length (file_response env (gr_path g) p) \<and>
    length (w_reads (wo_wire w)) \<le> length (w_reads (wo_wire w2)) + length (re_content env p) + 1"
proof -
  let ?c = "re_content env p" and ?h = "file_header (gr_path g) p"
  let ?w = "(wo_wire w)\<lparr>w_file := ?c\<rparr>"
  have whole: "whole_response ?h (Some []) (length ?c) ?c = file_response env (gr_path g) p"
    by (simp add: whole_response_def fit_def file_response_def)
  have fd: "fd = - 1 \<and> length ?c = 0 \<or> 0 \<le> fd \<and> (Some (True, length ?c) = Some (True, length ?c) \<or> Some [] = None \<and> length ?c = 0)"
    using assms(2,3) by (auto simp: file_ok_def)
  have "willing ?w" "\<not> dpr_closeConn dpr_init" using assms(4) by (simp_all add: willing_def dpr_init_def)
  from send_completes [OF fd this(1) _ _ this(2), of ?h, simplified whole] assms(5,6) obtain rs w' where
    s: "rsndr_send u (rsndr_new (Some (True, length ?c)) ?h (Some []) fd) (sc_socketFd conn) ?w dpr_init = Ok (True, rs, w', dpr_init)"
      "w_sent w' = w_sent (wo_wire w) @ file_response env (gr_path g) p" "willing w'"
      "length (w_writes (wo_wire w)) \<le> length (w_writes w') + length (file_response env (gr_path g) p)"
      "length (w_reads (wo_wire w)) \<le> length (w_reads w') + length ?c + 1"
    by (fastforce simp: whole)
  have r: "reqhdlr_progressResponse u env (on_wire w ?c) (file_handler env peer (gr_path g) p fd) (sc_socketFd conn) dpr_init =
      Ok (True, (file_handler env peer (gr_path g) p fd)\<lparr>rh_response := Some rs\<rparr>, dpr_init, (on_wire w ?c)\<lparr>wo_wire := w'\<rparr>)"
    using s(1) by (simp add: reqhdlr_progressResponse_def file_handler_def on_wire_def)
  show ?thesis
    using s(2-5) r by (simp add: progress_response_def answering_def dpr_init_def)
qed

subsection \<open>A session\<close>

definition answers :: "ReqEnv \<Rightarrow> (GetRequest \<times> bytes) list \<Rightarrow> bytes" where
  "answers env gs = concat (map (\<lambda>(g, p). file_response env (gr_path g) p) gs)"

definition file_reads :: "ReqEnv \<Rightarrow> (GetRequest \<times> bytes) list \<Rightarrow> nat" where
  "file_reads env gs = sum_list (map (\<lambda>(g, p). length (re_content env p) + 1) gs)"

definition session_ok :: "char \<Rightarrow> ReqEnv \<Rightarrow> (GetRequest \<times> bytes) list \<Rightarrow> bool" where
  "session_ok u env gs = (\<forall>(g, p) \<in> set gs. get_ok u env g \<and> file_ok env (gr_path g) p)"

lemma next_request_answered:
  "next_request ((answering ((conn_new sock)\<lparr>sc_pending := pd0, sc_rrs := r\<rparr>) t h pd)\<lparr>sc_handler := None\<rparr>) =
     (conn_new sock)\<lparr>sc_pending := pd, sc_rrs := RRS_IDLE\<rparr>"
  by (simp add: next_request_def answering_def conn_new_def)

lemma pieces_empty: "pieces_ok ps \<Longrightarrow> concat ps = [] \<Longrightarrow> ps = []"
  by (cases ps) (auto simp: pieces_ok_def)

lemma session_step:
  assumes "get_ok u env g" "file_ok env (gr_path g) p" "r \<in> {RRS_IDLE, RRS_READ_HEAD}"
    and "pd @ concat ps = print_get g @ rest" "pieces_ok ps" "willing (wo_wire w)"
    and "length (file_response env (gr_path g) p) < length (w_writes (wo_wire w))"
    and "length (re_content env p) + 1 < length (w_reads (wo_wire w))"
  shows "\<exists>pd' ps' idle' w2. pd' @ concat ps' = rest \<and> pieces_ok ps' \<and> (idle' \<longrightarrow> idle) \<and>
    process_loop u env peer ((conn_new sock)\<lparr>sc_pending := pd, sc_rrs := r\<rparr>) dpr_init w (map Inr ps) idle =
    process_loop u env peer ((conn_new sock)\<lparr>sc_pending := pd', sc_rrs := RRS_IDLE\<rparr>) dpr_init w2 (map Inr ps') idle' \<and>
    w_sent (wo_wire w2) = w_sent (wo_wire w) @ file_response env (gr_path g) p \<and> willing (wo_wire w2) \<and>
    length (w_writes (wo_wire w)) \<le> length (w_writes (wo_wire w2)) + length (file_response env (gr_path g) p) \<and>
    length (w_reads (wo_wire w)) \<le> length (w_reads (wo_wire w2)) + length (re_content env p) + 1"
proof -
  obtain fd where fd: "re_open env p = Inr fd" using assms(2) by (auto simp: file_ok_def)
  let ?start = "(conn_new sock)\<lparr>sc_pending := pd, sc_rrs := r\<rparr>" and ?t = "get_header u env g"
  let ?c = "(conn_new sock)\<lparr>sc_pending := pd, sc_rrs := RRS_READ_HEAD\<rparr>"
  let ?h = "file_handler env peer (gr_path g) p fd"
  let ?ans = "\<lambda>pd'. answering ?c ?t ?h pd'"
  note hd = get_header_read [OF assms(1)]
  have dpr: "ready_dpr dpr_init" by (simp add: ready_dpr_def dpr_init_def)
  have ne: "pd \<noteq> [] \<or> ps \<noteq> []" using assms(4) hd(3) by auto
  have start: "read_loop u env peer ?start dpr_init w (map Inr ps) idle = read_loop u env peer ?c dpr_init w (map Inr ps) idle"
    using assms(3) read_loop_idle [of ?start ps dpr_init u env peer w idle, OF _ _ assms(5) dpr] ne by (auto simp: conn_new_def)
  have comp: "header_completes env peer ?c w ?t ?ans (on_wire w (re_content env p))"
    by (rule get_completes [OF assms(1,2) _ fd]) (simp add: conn_new_def)
  have "\<exists>pd' ps' idle'. pd' @ concat ps' = rest \<and> pieces_ok ps' \<and> (idle' \<longrightarrow> idle) \<and>
      read_loop u env peer ?c dpr_init w (map Inr ps) idle =
      Some (Ok (?ans pd', dpr_init, on_wire w (re_content env p), map Inr ps', idle'))"
    by (rule read_request [OF _ _ hd(2) _ _ assms(5) dpr comp]) (use hd(1) assms(4) in \<open>simp_all add: conn_new_def reqhdr_inv_def reqhdr_new_def\<close>)
  then obtain pd' ps' idle' where r: "pd' @ concat ps' = rest" "pieces_ok ps'" "idle' \<longrightarrow> idle"
      "read_loop u env peer ?c dpr_init w (map Inr ps) idle =
       Some (Ok (?ans pd', dpr_init, on_wire w (re_content env p), map Inr ps', idle'))"
    by (elim exE conjE) (rule that)
  note rl = trans [OF start r(4)]
  obtain w2 where w2: "progress_response u env (?ans pd') dpr_init (on_wire w (re_content env p)) =
        Ok ((?ans pd')\<lparr>sc_handler := None\<rparr>, dpr_init, w2)"
      "w_sent (wo_wire w2) = w_sent (wo_wire w) @ file_response env (gr_path g) p" "willing (wo_wire w2)"
      "length (w_writes (wo_wire w)) \<le> length (w_writes (wo_wire w2)) + length (file_response env (gr_path g) p)"
      "length (w_reads (wo_wire w)) \<le> length (w_reads (wo_wire w2)) + length (re_content env p) + 1"
    using progress_file [OF assms(1,2) fd assms(6-8)] by blast
  have a: "sc_rrs (?ans pd') = RRS_READ_FINISHED" "sc_header (?ans pd') = ?t" by (simp_all add: answering_def)
  have d: "\<not> dpr_closeConn dpr_init" "dpr_reqState dpr_init = DPR_READY" "dpr_respState dpr_init = DPR_READY"
    by (simp_all add: dpr_init_def)
  have "process_loop u env peer ?start dpr_init w (map Inr ps) idle =
      process_loop u env peer (next_request ((?ans pd')\<lparr>sc_handler := None\<rparr>)) dpr_init w2 (map Inr ps') idle'"
    using a d get_header_facts(7) [OF assms(1)]
    by (simp add: process_loop.simps [of u env peer ?start] rl w2(1))
  then have step: "process_loop u env peer ?start dpr_init w (map Inr ps) idle =
      process_loop u env peer ((conn_new sock)\<lparr>sc_pending := pd', sc_rrs := RRS_IDLE\<rparr>) dpr_init w2 (map Inr ps') idle'"
    by (simp only: next_request_answered)
  show ?thesis
    by (intro exI [of _ pd'] exI [of _ ps'] exI [of _ idle'] exI [of _ w2] conjI)
      (use r(1-3) step w2(2-5) in simp_all)
qed

lemma waiting_client:
  assumes "r \<in> {RRS_IDLE, RRS_READ_HEAD}"
  shows "process_loop u env peer ((conn_new sock)\<lparr>sc_pending := [], sc_rrs := r\<rparr>) dpr_init w [] idle =
    Some (Ok ((conn_new sock)\<lparr>sc_rrs := r\<rparr>, dpr_setReqState dpr_init DPR_AWAIT_READ sock, w, [], idle))"
  using assms
  by (auto simp: process_loop.simps read_loop.simps may_read_def conn_read_def conn_new_def dpr_init_def dpr_setReqState_def
      progress_response_def)

lemma session_loop:
  "session_ok u env gs \<Longrightarrow> r \<in> {RRS_IDLE, RRS_READ_HEAD} \<Longrightarrow> pd @ concat ps = concat (map (print_get \<circ> fst) gs) \<Longrightarrow> pieces_ok ps \<Longrightarrow>
   willing (wo_wire w) \<Longrightarrow> length (answers env gs) < length (w_writes (wo_wire w)) \<Longrightarrow>
   file_reads env gs < length (w_reads (wo_wire w)) \<Longrightarrow>
   \<exists>w' idle'. process_loop u env peer ((conn_new sock)\<lparr>sc_pending := pd, sc_rrs := r\<rparr>) dpr_init w (map Inr ps) idle =
     Some (Ok ((conn_new sock)\<lparr>sc_rrs := (if gs = [] then r else RRS_IDLE)\<rparr>, dpr_setReqState dpr_init DPR_AWAIT_READ sock, w', [], idle')) \<and>
     w_sent (wo_wire w') = w_sent (wo_wire w) @ answers env gs \<and> (idle' \<longrightarrow> idle)"
proof (induction gs arbitrary: r pd ps w idle)
  case Nil
  then have "pd = []" "ps = []" using pieces_empty by auto
  then show ?case using waiting_client [OF Nil.prems(2)] by (simp add: answers_def)
next
  case (Cons gp gs)
  obtain g p where gp: "gp = (g, p)" by fastforce
  have g: "get_ok u env g" "file_ok env (gr_path g) p" "session_ok u env gs" using Cons.prems(1) gp by (simp_all add: session_ok_def)
  let ?rest = "concat (map (print_get \<circ> fst) gs)"
  have eq: "pd @ concat ps = print_get g @ ?rest" using Cons.prems(3) gp by (simp add: comp_def)
  have len: "length (answers env (gp # gs)) = length (file_response env (gr_path g) p) + length (answers env gs)"
      "file_reads env (gp # gs) = length (re_content env p) + 1 + file_reads env gs"
    by (simp_all add: gp answers_def file_reads_def)
  have room: "length (file_response env (gr_path g) p) < length (w_writes (wo_wire w))"
      "length (re_content env p) + 1 < length (w_reads (wo_wire w))"
    using Cons.prems(6,7) len by simp_all
  from session_step [OF g(1,2) Cons.prems(2) eq Cons.prems(4,5) room, of idle peer sock] obtain pd' ps' idle1 w2 where
    s: "pd' @ concat ps' = ?rest" "pieces_ok ps'" "idle1 \<longrightarrow> idle"
      "process_loop u env peer ((conn_new sock)\<lparr>sc_pending := pd, sc_rrs := r\<rparr>) dpr_init w (map Inr ps) idle =
       process_loop u env peer ((conn_new sock)\<lparr>sc_pending := pd', sc_rrs := RRS_IDLE\<rparr>) dpr_init w2 (map Inr ps') idle1"
      "w_sent (wo_wire w2) = w_sent (wo_wire w) @ file_response env (gr_path g) p" "willing (wo_wire w2)"
      "length (w_writes (wo_wire w)) \<le> length (w_writes (wo_wire w2)) + length (file_response env (gr_path g) p)"
      "length (w_reads (wo_wire w)) \<le> length (w_reads (wo_wire w2)) + length (re_content env p) + 1"
    by blast
  have "length (answers env gs) < length (w_writes (wo_wire w2))" "file_reads env gs < length (w_reads (wo_wire w2))"
    using s(7,8) Cons.prems(6,7) len by linarith+
  from Cons.IH [OF g(3) _ s(1,2,6) this, of RRS_IDLE idle1] obtain w' idle' where
    "process_loop u env peer ((conn_new sock)\<lparr>sc_pending := pd', sc_rrs := RRS_IDLE\<rparr>) dpr_init w2 (map Inr ps') idle1 =
      Some (Ok ((conn_new sock)\<lparr>sc_rrs := RRS_IDLE\<rparr>, dpr_setReqState dpr_init DPR_AWAIT_READ sock, w', [], idle'))"
    "w_sent (wo_wire w') = w_sent (wo_wire w2) @ answers env gs" "idle' \<longrightarrow> idle1"
    by auto
  then show ?case using s(3,4,5) by (auto simp: gp answers_def)
qed

text \<open>C1: A client is served: it connects and sends any number of \<open>GET\<close> requests for files it may have, printed in any escaping and
  with any further headers, in any pieces, also many requests in a piece or many pieces of a request.  When the
  socket takes at least a byte at a time and the files do not block, one call of \<open>conn_processDataReady\<close> reads
  them all and sends, in their order, exactly the responses with the headers and the contents of the files; then the
  connection is open, holds nothing, and waits for the next request.\<close>

theorem session_served:
  assumes "session_ok u env gs" "concat ps = concat (map (print_get \<circ> fst) gs)" "pieces_ok ps" "gs \<noteq> []"
    and "willing (wo_wire w)" "length (answers env gs) < length (w_writes (wo_wire w))"
    and "file_reads env gs < length (w_reads (wo_wire w))"
  shows "\<exists>w'. conn_processDataReady u env peer (conn_new sock) w (map Inr ps) False =
      Some (Ok ((conn_new sock)\<lparr>sc_rrs := RRS_IDLE\<rparr>, CONN_BUSY, [DrsSetReadFd sock], w', [])) \<and>
    w_sent (wo_wire w') = w_sent (wo_wire w) @ answers env gs"
proof -
  have c: "conn_new sock = (conn_new sock)\<lparr>sc_pending := [], sc_rrs := RRS_READ_HEAD\<rparr>" by (simp add: conn_new_def)
  have "[] @ concat ps = concat (map (print_get \<circ> fst) gs)" "RRS_READ_HEAD \<in> {RRS_IDLE, RRS_READ_HEAD}" using assms(2) by simp_all
  from session_loop [OF assms(1) this(2,1) assms(3,5-7), of peer sock False] obtain w' where
    s: "process_loop u env peer (conn_new sock) dpr_init w (map Inr ps) False =
        Some (Ok ((conn_new sock)\<lparr>sc_rrs := RRS_IDLE\<rparr>, dpr_setReqState dpr_init DPR_AWAIT_READ sock, w', [], False))"
      "w_sent (wo_wire w') = w_sent (wo_wire w) @ answers env gs"
    using assms(4) unfolding c [symmetric] by auto
  have "sc_rrs (conn_new sock) \<noteq> RRS_IDLE" by (simp add: conn_new_def)
  then show ?thesis
    using s by (simp add: conn_processDataReady_def dpr_setReqState_def dpr_init_def await_fd_def)
qed

text \<open>Two requests for a file, in three pieces.\<close>

definition example_get :: GetRequest where
  "example_get = \<lparr>gr_escape = (\<lambda>c. c \<in> set ('' ?%'' @ [LF])), gr_path = ''/a.txt'', gr_query = None, gr_version = ''1.1'',
     gr_headers = [(''Host'', '' h'')]\<rparr>"

definition example_pieces :: "bytes list" where
  "example_pieces = [''GET /a'', ''.txt HTTP/1.1'' @ CRLF @ ''Host: h'' @ CRLF @ CRLF @ ''GET /a.txt HTTP/1.1'' @ [CR],
     [LF] @ ''Host: h'' @ CRLF @ CRLF]"

lemma example_session:
  "session_ok NUL example_env [(example_get, ''/srv/a.txt''), (example_get, ''/srv/a.txt'')]"
proof -
  have "config_getSysPathForUrlPath (re_config example_env) ''/a.txt'' = Some ''/srv/a.txt''" by code_simp
  then have "file_ok example_env (gr_path example_get) ''/srv/a.txt''"
    using example_no_dotdot
    by (simp add: file_ok_def example_get_def example_env_def request_fs_def config_isCGI_def config_init_def)
  moreover have "login_of_get NUL example_env example_get = LS_LOGGED_OUT"
    unfolding login_of_get_def example_get_def by (simp add: login_of_def first_header_def strcasecmp_eq_def)
  then have "get_ok NUL example_env example_get"
    using example_simps(4)
    by (simp add: get_ok_def example_get_def request_ok_def header_ok_def first_header_def strcasecmp_eq_def reqhdr_isActionAllowed_def
        example_request_def reqhdr_new_def)
  ultimately show ?thesis by (simp add: session_ok_def)
qed

theorem session_served_witness:
  "\<exists>w w'. conn_processDataReady NUL example_env None (conn_new 4) w (map Inr example_pieces) False =
      Some (Ok ((conn_new 4)\<lparr>sc_rrs := RRS_IDLE\<rparr>, CONN_BUSY, [DrsSetReadFd 4], w', [])) \<and>
    w_sent (wo_wire w') = concat (replicate 2 (file_header ''/a.txt'' ''/srv/a.txt'' @ ''Content-Length: 5'' @ CRLF @ CRLF @ ''hello''))"
proof -
  let ?gs = "[(example_get, ''/srv/a.txt''), (example_get, ''/srv/a.txt'')]"
  let ?w = "example_world\<lparr>wo_wire := \<lparr>w_sent = [], w_writes = replicate (Suc (length (answers example_env ?gs))) (Wrote 3),
      w_reads = replicate (Suc (file_reads example_env ?gs)) (Got 2), w_file = []\<rparr>\<rparr>"
  have e: "print_get example_get = ''GET /a.txt HTTP/1.1'' @ CRLF @ ''Host: h'' @ CRLF @ CRLF" by code_simp
  have c: "concat example_pieces = concat (map (print_get \<circ> fst) ?gs)" by (simp add: e example_pieces_def)
  have p: "pieces_ok example_pieces" by (simp add: example_pieces_def pieces_ok_def)
  have wl: "willing (wo_wire ?w)" by (simp add: willing_def list_all_iff)
  have five: "to_base 10 (length ''hello'') = ''5''" by code_simp
  have "re_content example_env ''/srv/a.txt'' = ''hello''" by (simp add: example_env_def)
  then have a: "answers example_env ?gs = concat (replicate 2 (file_header ''/a.txt'' ''/srv/a.txt'' @ ''Content-Length: 5'' @ CRLF @ CRLF @ ''hello''))"
    using five by (simp add: answers_def file_response_def example_get_def eval_nat_numeral)
  from session_served [OF example_session c p _ wl] obtain w' where
    "conn_processDataReady NUL example_env None (conn_new 4) ?w (map Inr example_pieces) False =
      Some (Ok ((conn_new 4)\<lparr>sc_rrs := RRS_IDLE\<rparr>, CONN_BUSY, [DrsSetReadFd 4], w', []))"
    "w_sent (wo_wire w') = answers example_env ?gs"
    by auto
  then show ?thesis unfolding a by blast
qed

end
