(* ===== verification/Bodycalls.thy ===== *)
theory Bodycalls
  imports Session
begin

text \<open>
  The body of a form over the calls of \<open>conn_processDataReady\<close> (\<open>src/serverconnection.c\<close>), with all that a call does: it reads
  until the socket would block, feeds the bytes to the handler and lets it go on with the response.  A form is the only body
  the server itself uses; its handler has no response before the body is complete, so the calls in between leave it
  alone.  (A handler that answers before is freed, see \<open>freed_handler_undefined\<close>, and a CGI program may block.)
\<close>

subsection \<open>Calls one after the other\<close>

text \<open>
  The calls for one connection as the main loop makes them, until it is to be closed: with what the socket has to read at each
  of them, and whether the table is full; \<open>left\<close> was not yet read.
\<close>

fun conn_calls ::
    "char \<Rightarrow> ReqEnv \<Rightarrow> bytes option \<Rightarrow> ServerConnection \<Rightarrow> World \<Rightarrow> (nat + bytes) list \<Rightarrow> (bool \<times> (nat + bytes) list) list \<Rightarrow>
     (ServerConnection \<times> World \<times> (nat + bytes) list) cres option" where
  "conn_calls u env peer conn w left [] = Some (Ok (conn, w, left))"
| "conn_calls u env peer conn w left ((closeIfIdle, reads) # cs) =
     obind (conn_processDataReady u env peer conn w (left @ reads) closeIfIdle) (\<lambda>(conn', res, calls, w', left').
       if res = CONN_TO_CLOSE then Some (Ok (conn', w', left')) else conn_calls u env peer conn' w' left' cs)"

text \<open>What follows the end of a body: with a length the request is complete, otherwise the trailer comes.\<close>

definition after_body ::
    "ReqEnv \<Rightarrow> ServerConnection \<Rightarrow> World \<Rightarrow> (ServerConnection \<Rightarrow> World \<Rightarrow> 'a cres option) \<Rightarrow> 'a cres option" where
  "after_body env conn w k =
     (if sc_rrs conn = RRS_READ_FINISHED then obind (request_completed env conn w) (\<lambda>(c, w'). k c w') else k conn w)"

lemma obind_assoc: "obind (obind r f) g = obind r (\<lambda>x. obind (f x) g)"
  by (cases r; cases "the r") auto

lemma obind_after_body: "obind (after_body env conn w k) f = after_body env conn w (\<lambda>c w'. obind (k c w') f)"
  by (auto simp: after_body_def obind_assoc intro!: obind_cong [OF refl])

lemma after_body_cong:
  assumes "\<And>c w'. sc_rrs c = sc_rrs conn \<Longrightarrow> k c w' = k' c w'"
  shows "after_body env conn w k = after_body env conn w k'"
proof -
  have "sc_rrs c = sc_rrs conn" if "request_completed env conn w = Some (Ok (c, w'))" for c w'
    using that by (auto simp: request_completed_def obind_Ok split: option.splits)
  then show ?thesis using assms by (auto simp: after_body_def intro!: obind_cong [OF refl])
qed

subsection \<open>The handler of a form\<close>

definition form_handler :: "RequestHandler \<Rightarrow> bool" where
  "form_handler h = (rh_filemgr h \<noteq> None \<and> rh_cgiexe h = None \<and> rh_response h = None)"

definition with_form :: "RequestHandler \<Rightarrow> FileManager \<Rightarrow> RequestHandler" where
  "with_form h fm = h\<lparr>rh_filemgr := Some fm\<rparr>"

lemma with_form_simps [simp]:
  "with_form (with_form h fm) fm' = with_form h fm'" "rh_filemgr (with_form h fm) = Some fm"
  "rh_cgiexe (with_form h fm) = rh_cgiexe h" "rh_response (with_form h fm) = rh_response h"
  "takes_all (with_form h fm)" "rh_filemgr h = Some fm \<Longrightarrow> with_form h fm = h"
  by (simp_all add: with_form_def takes_all_def)

lemma feed_body_append:
  "feed_body fs as fm ps = Ok (fm', as') \<Longrightarrow> feed_body fs as fm (ps @ qs) = feed_body fs as' fm' qs"
  by (induction ps arbitrary: as fm) (auto simp: cbind_Ok)

lemma deliver_form:
  "\<exists>fm' as. feed_body (re_upload env) (wo_uploads w) fm ps = Ok (fm', as) \<and>
     deliver env dpr (with_form h fm) w ps = Ok (with_form h fm', w\<lparr>wo_uploads := as\<rparr>)"
proof (induction ps arbitrary: fm w)
  case (Cons p ps)
  obtain fm1 as1 where c: "filemgr_consumeBodyBytes (re_upload env) (wo_uploads w) fm p = Ok (fm1, as1)"
    using feed_body_total [of "re_upload env" "wo_uploads w" fm "[p]"] by (auto simp: cbind_Ok)
  have "reqhdlr_processData env w (with_form h fm) p dpr = Ok (with_form h fm1, length p, dpr, w\<lparr>wo_uploads := as1\<rparr>)"
    using c by (simp add: reqhdlr_processData_def) (simp add: with_form_def)
  then show ?case using Cons.IH [of "w\<lparr>wo_uploads := as1\<rparr>" fm1] c by simp
qed simp

subsection \<open>A call in the middle of the body\<close>

text \<open>
  The connection is in the body of a form; \<open>S\<close> are the bytes that come, the buffer included, \<open>pay\<close> those of
  them for the handler and \<open>rest\<close> what is behind the body.
\<close>

definition form_at ::
    "RequestReadState \<Rightarrow> RequestHandler \<Rightarrow> bytes \<Rightarrow> ServerConnection \<Rightarrow> FileManager \<Rightarrow> bytes \<Rightarrow> bytes \<Rightarrow> bool" where
  "form_at fin h rest conn fm S pay = (sc_rrs conn = RRS_READ_BODY \<and> fin \<in> {RRS_READ_TRAILER, RRS_READ_FINISHED} \<and>
     sc_handler conn = Some (with_form h fm) \<and> counts_ok conn (length S) \<and> awaiting conn \<and> body_at conn fin S pay rest)"

text \<open>The body is complete: the handler got all of it, and \<open>left\<close> is in the buffer.\<close>

definition form_read ::
    "RequestReadState \<Rightarrow> RequestHandler \<Rightarrow> ServerConnection \<Rightarrow> ServerConnection \<Rightarrow> FileManager \<Rightarrow> bool" where
  "form_read fin h conn conn' fm' = (sc_rrs conn' = fin \<and> sc_handler conn' = Some (with_form h fm') \<and>
     sc_header conn' = sc_header conn \<and> sc_socketFd conn' = sc_socketFd conn)"

lemma body_at_pending [simp]: "body_at (conn\<lparr>sc_pending := d\<rparr>) fin S pay rest = body_at conn fin S pay rest"
proof -
  have "body_at (c\<lparr>sc_pending := d\<rparr>) fin S pay rest" if "body_at c fin S pay rest" for c d
    using that by cases (auto intro: body_at.intros)
  from this [of conn d] this [of "conn\<lparr>sc_pending := d\<rparr>" "sc_pending conn"] show ?thesis by auto
qed

lemma form_at_pending [simp]: "form_at fin h rest (conn\<lparr>sc_pending := d\<rparr>) = form_at fin h rest conn"
  by (intro ext) (simp add: form_at_def counts_ok_def awaiting_def)

lemma form_loop:
  assumes "form_at fin h rest conn fm (p @ S) pay"
  obtains (more) conn' fm' as qs pay' where "feed_body (re_upload env) (wo_uploads w) fm qs = Ok (fm', as)"
      "pay = concat qs @ pay'" "form_at fin h rest conn' fm' S pay'" "sc_header conn' = sc_header conn"
      "sc_socketFd conn' = sc_socketFd conn" "req_body_loop env conn dpr w p = Some (Ok (conn', dpr, w\<lparr>wo_uploads := as\<rparr>, []))"
    | (all) conn' fm' as q qs where "feed_body (re_upload env) (wo_uploads w) fm qs = Ok (fm', as)" "pay = concat qs"
      "form_read fin h conn conn' fm'" "q @ S = rest" "fin \<in> {RRS_READ_TRAILER, RRS_READ_FINISHED}"
      "req_body_loop env conn dpr w p = Some (Ok (conn', dpr, w\<lparr>wo_uploads := as\<rparr>, q))"
proof -
  note f = assms [unfolded form_at_def]
  have c: "counts_ok conn (length p + length S)" using f by simp
  obtain r where r: "req_body_loop env conn dpr w p = Some r"
      "\<forall>conn' dpr' w' q. r = Ok (conn', dpr', w', q) \<longrightarrow> counts_ok conn' (length q + length S)"
    using req_body_loop_counts [OF c, of env dpr w] by blast
  have "delivered env dpr (with_form h fm) w fin S pay rest r"
    using body_loop_delivers [OF r(1) _ _ _ c] f by simp
  note delivered = this
  have fed: "\<exists>fm' as. feed_body (re_upload env) (wo_uploads w) fm ps = Ok (fm', as) \<and>
      deliver env dpr (with_form h fm) w ps = Ok (with_form h fm', w\<lparr>wo_uploads := as\<rparr>)" for ps
    by (rule deliver_form)
  have ok: "deliver env dpr (with_form h fm) w ps \<noteq> Abort" "deliver env dpr (with_form h fm) w ps \<noteq> Undef" for ps
    using fed [of ps] by auto
  obtain x where x: "r = Ok x" using delivered ok unfolding delivered_def by (cases r) simp_all
  obtain conn' dpr' w' q where "x = (conn', dpr', w', q)" by (metis prod_cases4)
  then obtain qs h' where o: "r = Ok (conn', dpr, w', q)"
      "deliver env dpr (with_form h fm) w qs = Ok (h', w')" "sc_handler conn' = Some h'"
      "sc_rrs conn' = fin \<and> q @ S = rest \<and> concat qs = pay \<or>
        sc_rrs conn' = RRS_READ_BODY \<and> q = [] \<and> awaiting conn' \<and> (\<exists>pay'. concat qs @ pay' = pay \<and> body_at conn' fin S pay' rest)"
    using delivered unfolding delivered_def x by auto
  obtain fm' as where d: "feed_body (re_upload env) (wo_uploads w) fm qs = Ok (fm', as)" "h' = with_form h fm'"
      "w' = w\<lparr>wo_uploads := as\<rparr>" using fed [of qs] o(2) by auto
  note same = req_body_loop_frame [OF r(1) [unfolded o(1)]]
  have run: "req_body_loop env conn dpr w p = Some (Ok (conn', dpr, w\<lparr>wo_uploads := as\<rparr>, q))" using r(1) o(1) d(3) by simp
  from o(4) show thesis
  proof (elim disjE conjE exE)
    assume "sc_rrs conn' = fin" "q @ S = rest" "concat qs = pay"
    then show thesis using all [OF d(1) _ _ _ _ run] o(3) d(2) same f by (simp add: form_read_def)
  next
    fix pay' assume p: "sc_rrs conn' = RRS_READ_BODY" "q = []" "awaiting conn'" "concat qs @ pay' = pay" "body_at conn' fin S pay' rest"
    have "counts_ok conn' (length S)" using r(2) o(1) p(2) by simp
    then have at: "form_at fin h rest conn' fm' S pay'" using p o(3) d(2) f by (simp add: form_at_def)
    show thesis by (rule more [OF d(1) p(4) [symmetric] at _ _ run [unfolded p(2)]]) (use same in simp_all)
  qed
qed

text \<open>The bytes in the buffer, with \<open>S\<close> still to be read.\<close>

definition form_step ::
    "char \<Rightarrow> ReqEnv \<Rightarrow> bytes option \<Rightarrow> RequestReadState \<Rightarrow> RequestHandler \<Rightarrow> bytes \<Rightarrow> ServerConnection \<Rightarrow> World \<Rightarrow>
     FileManager \<Rightarrow> bytes list \<Rightarrow> bytes \<Rightarrow> bytes \<Rightarrow> DataProcessingResult \<Rightarrow> bool" where
  "form_step u env peer fin h rest conn w fm ps S pay dpr =
     ((\<exists>conn' fm' as qs pay'. feed_body (re_upload env) (wo_uploads w) fm qs = Ok (fm', as) \<and> pay = concat qs @ pay' \<and>
         sc_pending conn' = [] \<and> form_at fin h rest conn' fm' S pay' \<and> sc_header conn' = sc_header conn \<and>
         sc_socketFd conn' = sc_socketFd conn \<and>
         (\<forall>R. read_loop u env peer conn dpr w (map Inr ps @ R) False =
            read_loop u env peer conn' dpr (w\<lparr>wo_uploads := as\<rparr>) R False)) \<or>
      (\<exists>conn' fm' as qs ps'. feed_body (re_upload env) (wo_uploads w) fm qs = Ok (fm', as) \<and> pay = concat qs \<and>
         form_read fin h conn conn' fm' \<and> sc_pending conn' @ concat ps' @ S = rest \<and>
         (\<forall>R. read_loop u env peer conn dpr w (map Inr ps @ R) False =
            after_body env conn' (w\<lparr>wo_uploads := as\<rparr>) (\<lambda>c w'. read_loop u env peer c dpr w' (map Inr ps' @ R) False))))"

lemma read_loop_data:
  assumes "may_read conn dpr" "sc_pending conn \<noteq> []"
  shows "read_loop u env peer conn dpr w R idle =
    obind (appendData u env peer conn dpr w) (\<lambda>(conn', dpr', w'). read_loop u env peer conn' dpr' w' R idle)"
  using assms by (simp add: read_loop.simps [of u env peer conn dpr w R idle] conn_read_def)

lemma appendData_trailer_empty:
  "sc_rrs conn = RRS_READ_TRAILER \<Longrightarrow> sc_pending conn = [] \<Longrightarrow> appendData u env peer conn dpr w = Some (Ok (conn, dpr, w))"
  by (simp add: appendData_def read_head_def read_body_data_def read_trailer_def)

lemma appendData_body:
  assumes "sc_rrs conn = RRS_READ_BODY" "sc_pending conn \<noteq> []"
    "req_body_loop env conn dpr w (sc_pending conn) = Some (Ok (conn', dpr, w', q))"
  shows "sc_rrs conn' = RRS_READ_BODY \<Longrightarrow> appendData u env peer conn dpr w = Some (Ok (conn'\<lparr>sc_pending := q\<rparr>, dpr, w'))"
    "sc_rrs conn' = RRS_READ_FINISHED \<Longrightarrow> appendData u env peer conn dpr w =
      obind (request_completed env (conn'\<lparr>sc_pending := q\<rparr>) w') (\<lambda>(c, w''). Some (Ok (c, dpr, w'')))"
    "sc_rrs conn' = RRS_READ_TRAILER \<Longrightarrow>
      appendData u env peer conn dpr w = appendData u env peer (conn'\<lparr>sc_pending := q\<rparr>) dpr w'"
  using assms by (simp_all add: appendData_def read_head_def read_body_data_def appendBodyData_def read_trailer_def)

text \<open>Behind the header the bytes in the buffer are read as those of the body, as in a call of their own.\<close>

lemma body_behind_header:
  assumes "read_head u env peer conn w = Ok (conn1, w1)" "sc_rrs conn = RRS_READ_HEAD" "sc_rrs conn1 = RRS_READ_BODY"
  shows "appendData u env peer conn dpr w = appendData u env peer conn1 dpr w1"
  using assms by (simp add: appendData_def) (simp add: read_head_def)

lemma form_step_pending:
  assumes "form_at fin h rest conn fm (sc_pending conn @ concat ps @ S) pay" "sc_pending conn \<noteq> []" "ready_dpr dpr"
  shows "form_step u env peer fin h rest conn w fm [] (concat ps @ S) pay dpr"
proof -
  have f: "sc_rrs conn = RRS_READ_BODY" and m: "may_read conn dpr"
    using assms(1,3) by (simp_all add: form_at_def may_read_def ready_dpr_def)
  note run = read_loop_data [OF m assms(2)]
  from assms(1) show ?thesis
  proof (cases rule: form_loop [where w = w and dpr = dpr and env = env])
    case (more conn' fm' as qs pay')
    have "sc_rrs conn' = RRS_READ_BODY" using more(3) by (simp add: form_at_def)
    note a = appendData_body(1) [OF f assms(2) more(6) this]
    have "read_loop u env peer conn dpr w R False = read_loop u env peer (conn'\<lparr>sc_pending := []\<rparr>) dpr (w\<lparr>wo_uploads := as\<rparr>) R False" for R
      by (simp add: run a)
    then show ?thesis unfolding form_step_def using more
      by (intro disjI1 exI [of _ "conn'\<lparr>sc_pending := []\<rparr>"] exI [of _ fm'] exI [of _ as] exI [of _ qs] exI [of _ pay']) simp
  next
    case (all conn' fm' as q qs)
    let ?c = "conn'\<lparr>sc_pending := q\<rparr>" and ?w = "w\<lparr>wo_uploads := as\<rparr>"
    have rrs: "sc_rrs conn' = fin" using all(3) by (simp add: form_read_def)
    have "read_loop u env peer conn dpr w R False = after_body env ?c ?w (\<lambda>c w'. read_loop u env peer c dpr w' R False)" for R
    proof (cases "fin = RRS_READ_FINISHED")
      case True
      then show ?thesis
        using rrs by (simp add: run appendData_body(2) [OF f assms(2) all(6)] after_body_def obind_assoc)
          (auto intro!: obind_cong [OF refl])
    next
      case False
      then have t: "sc_rrs conn' = RRS_READ_TRAILER" using all(5) rrs by simp
      have mc: "may_read ?c dpr" using t m by (simp add: may_read_def)
      have "read_loop u env peer conn dpr w R False =
          obind (appendData u env peer ?c dpr ?w) (\<lambda>(conn', dpr', w'). read_loop u env peer conn' dpr' w' R False)"
        using appendData_body(3) [OF f assms(2) all(6) t] by (simp add: run)
      also have "\<dots> = read_loop u env peer ?c dpr ?w R False"
        using read_loop_data [OF mc] appendData_trailer_empty [of ?c] t by (cases "q = []") simp_all
      finally show ?thesis using t by (simp add: after_body_def)
    qed
    then show ?thesis unfolding form_step_def using all
      by (intro disjI2 exI [of _ ?c] exI [of _ fm'] exI [of _ as] exI [of _ qs] exI [of _ "[]"]) (simp add: form_read_def)
  qed
qed

text \<open>A step, and then what follows it.\<close>

lemma form_step_trans:
  assumes "feed_body (re_upload env) (wo_uploads w) fm qs = Ok (fm1, as1)"
    and "sc_header conn1 = sc_header conn" "sc_socketFd conn1 = sc_socketFd conn"
    and "\<And>R. read_loop u env peer conn dpr w (map Inr ps @ R) False =
      read_loop u env peer conn1 dpr (w\<lparr>wo_uploads := as1\<rparr>) (map Inr ps1 @ R) False"
    and "form_step u env peer fin h rest conn1 (w\<lparr>wo_uploads := as1\<rparr>) fm1 ps1 S pay1 dpr"
  shows "form_step u env peer fin h rest conn w fm ps S (concat qs @ pay1) dpr"
proof -
  have f: "feed_body (re_upload env) (wo_uploads w) fm (qs @ qs') = feed_body (re_upload env) as1 fm1 qs'" for qs'
    by (rule feed_body_append [OF assms(1)])
  from assms(5) show ?thesis
    unfolding form_step_def
  proof (elim disjE exE conjE, goal_cases)
    case (1 conn' fm' as qs' pay')
    then show ?case
      using f [of qs'] assms(2-4)
      by (intro disjI1 exI [of _ conn'] exI [of _ fm'] exI [of _ as] exI [of _ "qs @ qs'"] exI [of _ pay']) simp
  next
    case (2 conn' fm' as qs' ps')
    then show ?case
      using f [of qs'] assms(2-4)
      by (intro disjI2 exI [of _ conn'] exI [of _ fm'] exI [of _ as] exI [of _ "qs @ qs'"] exI [of _ ps']) (simp add: form_read_def)
  qed
qed

lemma form_step_later:
  assumes "form_step u env peer fin h rest conn w fm [] (concat ps @ S) pay dpr"
    and next': "\<And>conn' fm' as pay'. form_at fin h rest conn' fm' (concat ps @ S) pay' \<Longrightarrow> sc_pending conn' = [] \<Longrightarrow>
      form_step u env peer fin h rest conn' (w\<lparr>wo_uploads := as\<rparr>) fm' ps S pay' dpr"
  shows "form_step u env peer fin h rest conn w fm ps S pay dpr"
  using assms(1) unfolding form_step_def [of u env peer fin h rest conn w fm "[]"]
proof (elim disjE exE conjE, goal_cases)
  case (1 conn' fm' as qs pay')
  show ?case
    unfolding 1(2) by (rule form_step_trans [OF 1(1,5,6) _ next' [OF 1(4,3)]]) (use 1(7) in simp)
next
  case (2 conn' fm' as qs ps')
  have "sc_pending conn' @ concat (ps' @ ps) @ S = rest" using 2(4) by simp
  moreover have "\<forall>R. read_loop u env peer conn dpr w (map Inr ps @ R) False =
      after_body env conn' (w\<lparr>wo_uploads := as\<rparr>) (\<lambda>c w'. read_loop u env peer c dpr w' (map Inr (ps' @ ps) @ R) False)"
    using 2(5) by simp
  ultimately show ?case unfolding form_step_def using 2(1-3) by blast
qed

lemma form_step_empty:
  "form_at fin h rest conn fm (concat ps @ S) pay \<Longrightarrow> sc_pending conn = [] \<Longrightarrow> pieces_ok ps \<Longrightarrow> ready_dpr dpr \<Longrightarrow>
     form_step u env peer fin h rest conn w fm ps S pay dpr"
proof (induction ps arbitrary: conn fm pay w)
  case Nil
  then show ?case unfolding form_step_def
    by (intro disjI1 exI [of _ conn] exI [of _ fm] exI [of _ "wo_uploads w"] exI [of _ "[]"] exI [of _ pay]) simp
next
  case (Cons p ps)
  let ?c = "conn\<lparr>sc_pending := p\<rparr>"
  have p: "p \<noteq> []" "length p \<le> 65536" "pieces_ok ps" using Cons.prems(3) by (simp_all add: pieces_ok_def)
  have m: "may_read conn dpr" using Cons.prems(1,4) by (simp add: form_at_def may_read_def ready_dpr_def)
  have "form_step u env peer fin h rest ?c w fm [] (concat ps @ S) pay dpr"
    using form_step_pending [of fin h rest ?c fm ps S pay] Cons.prems(1,4) p(1) by simp
  then have s: "form_step u env peer fin h rest ?c w fm ps S pay dpr"
    by (rule form_step_later) (use Cons.IH p(3) Cons.prems(4) in blast)
  have "form_step u env peer fin h rest conn w fm (p # ps) S (concat [] @ pay) dpr"
  proof (rule form_step_trans)
    show "feed_body (re_upload env) (wo_uploads w) fm [] = Ok (fm, wo_uploads w)" by simp
    show "read_loop u env peer conn dpr w (map Inr (p # ps) @ R) False =
        read_loop u env peer ?c dpr (w\<lparr>wo_uploads := wo_uploads w\<rparr>) (map Inr ps @ R) False" for R
      using read_loop_input [OF m Cons.prems(2) p(1,2), of u env peer w "map Inr ps @ R" False] by simp
  qed (use s in simp_all)
  then show ?case by simp
qed

lemma form_step_all:
  assumes "form_at fin h rest conn fm (sc_pending conn @ concat ps @ S) pay" "pieces_ok ps" "ready_dpr dpr"
  shows "form_step u env peer fin h rest conn w fm ps S pay dpr"
proof (cases "sc_pending conn = []")
  case True
  then show ?thesis using form_step_empty assms by simp
next
  case False
  from form_step_pending [OF assms(1) False assms(3)] show ?thesis
    by (rule form_step_later) (use form_step_empty assms(2,3) in blast)
qed

subsection \<open>The calls\<close>

lemma ready_init [simp]: "ready_dpr dpr_init"
  by (simp add: ready_dpr_def dpr_init_def)

lemma form_waits:
  assumes "form_at fin h rest conn fm S pay" "form_handler h" "sc_pending conn = []"
  shows "process_loop u env peer conn dpr_init w [] False =
    Some (Ok (conn, dpr_setReqState dpr_init DPR_AWAIT_READ (sc_socketFd conn), w, [], False))"
proof -
  let ?d = "dpr_setReqState dpr_init DPR_AWAIT_READ (sc_socketFd conn)"
  have f: "sc_rrs conn = RRS_READ_BODY" "sc_handler conn = Some (with_form h fm)" using assms(1) by (simp_all add: form_at_def)
  have "read_loop u env peer conn dpr_init w [] False = Some (Ok (conn, ?d, w, [], False))"
    using f(1) assms(3) by (simp add: read_loop.simps may_read_def conn_read_def dpr_init_def dpr_setReqState_def)
  moreover have "reqhdlr_progressResponse u env w (with_form h fm) (sc_socketFd conn) ?d = Ok (False, with_form h fm, ?d, w)"
    using assms(2) by (simp add: reqhdlr_progressResponse_def form_handler_def)
  moreover have "conn\<lparr>sc_handler := Some (with_form h fm)\<rparr> = conn" using f(2) by simp
  ultimately show ?thesis
    using f by (simp add: process_loop.simps [of u env peer conn] progress_response_def dpr_init_def dpr_setReqState_def)
qed

text \<open>A round of the loop depends on the connection by what was read.\<close>

lemma process_loop_reads:
  "\<exists>F. \<forall>conn dpr w reads idle. process_loop u env peer conn dpr w reads idle = obind (read_loop u env peer conn dpr w reads idle) F"
  by (intro exI allI) (rule process_loop.simps)

text \<open>A call that does not bring the end of the body waits for more of it, and one that brings it goes on behind it.\<close>

lemma form_call:
  assumes "form_at fin h rest conn fm (sc_pending conn @ concat ps @ S) pay" "form_handler h" "pieces_ok ps"
  shows "(\<exists>conn' fm' as qs pay'. feed_body (re_upload env) (wo_uploads w) fm qs = Ok (fm', as) \<and> pay = concat qs @ pay' \<and>
      sc_pending conn' = [] \<and> form_at fin h rest conn' fm' S pay' \<and> sc_header conn' = sc_header conn \<and>
      sc_socketFd conn' = sc_socketFd conn \<and>
      conn_processDataReady u env peer conn w (map Inr ps) cl =
        Some (Ok (conn', CONN_BUSY, [DrsSetReadFd (sc_socketFd conn)], w\<lparr>wo_uploads := as\<rparr>, []))) \<or>
    (\<exists>conn' fm' as qs ps'. feed_body (re_upload env) (wo_uploads w) fm qs = Ok (fm', as) \<and> pay = concat qs \<and>
      form_read fin h conn conn' fm' \<and> sc_pending conn' @ concat ps' @ S = rest \<and>
      (\<forall>R. conn_processDataReady u env peer conn w (map Inr ps @ R) cl =
         after_body env conn' (w\<lparr>wo_uploads := as\<rparr>) (\<lambda>c w'. conn_processDataReady u env peer c w' (map Inr ps' @ R) cl)))"
proof -
  have rrs: "sc_rrs conn = RRS_READ_BODY" and fin: "fin \<in> {RRS_READ_TRAILER, RRS_READ_FINISHED}"
    using assms(1) by (simp_all add: form_at_def)
  obtain F where F: "\<And>conn dpr w reads idle. process_loop u env peer conn dpr w reads idle = obind (read_loop u env peer conn dpr w reads idle) F"
    using process_loop_reads [of u env peer] by blast
  from form_step_all [OF assms(1,3) ready_init, of u env peer w] show ?thesis
    unfolding form_step_def
  proof (elim disjE exE conjE, goal_cases)
    case (1 conn' fm' as qs pay')
    have "process_loop u env peer conn dpr_init w (map Inr ps) False = process_loop u env peer conn' dpr_init (w\<lparr>wo_uploads := as\<rparr>) [] False"
      using F 1(7) [rule_format, of "[]"] by simp
    then have "conn_processDataReady u env peer conn w (map Inr ps) cl =
        Some (Ok (conn', CONN_BUSY, [DrsSetReadFd (sc_socketFd conn)], w\<lparr>wo_uploads := as\<rparr>, []))"
      using form_waits [OF 1(4) assms(2) 1(3)] rrs 1(4,6)
      by (simp add: conn_processDataReady_def Let_def dpr_init_def dpr_setReqState_def await_fd_def form_at_def)
    then show ?case using 1(1-6) by blast
  next
    case (2 conn' fm' as qs ps')
    have r': "sc_rrs conn' \<noteq> RRS_IDLE" using 2(3) fin by (auto simp: form_read_def)
    have p: "process_loop u env peer conn dpr_init w (map Inr ps @ R) False =
        after_body env conn' (w\<lparr>wo_uploads := as\<rparr>) (\<lambda>c w'. process_loop u env peer c dpr_init w' (map Inr ps' @ R) False)" for R
      using F 2(5) by (simp add: obind_after_body)
    have "conn_processDataReady u env peer conn w (map Inr ps @ R) cl =
        after_body env conn' (w\<lparr>wo_uploads := as\<rparr>) (\<lambda>c w'. conn_processDataReady u env peer c w' (map Inr ps' @ R) cl)" for R
      unfolding conn_processDataReady_def
      by (simp add: rrs p obind_after_body) (rule after_body_cong, simp add: r')
    then show ?case using 2(1-4) by blast
  qed
qed

text \<open>All the calls, the last of which brings the end of the body.\<close>

definition with_pieces :: "bool \<times> bytes list \<Rightarrow> bool \<times> (nat + bytes) list" where
  "with_pieces = (\<lambda>(closeIfIdle, ps). (closeIfIdle, map Inr ps))"

lemma form_calls:
  "form_at fin h rest conn fm (sc_pending conn @ concat (concat (map snd calls)) @ concat ps) pay \<Longrightarrow> form_handler h \<Longrightarrow>
     \<forall>c \<in> set calls. pieces_ok (snd c) \<Longrightarrow> pieces_ok ps \<Longrightarrow> calls \<noteq> [] \<longrightarrow> length rest < length (concat ps) \<Longrightarrow>
   \<exists>conn' fm' as qs ps'. feed_body (re_upload env) (wo_uploads w) fm qs = Ok (fm', as) \<and> pay = concat qs \<and>
     form_read fin h conn conn' fm' \<and> sc_pending conn' @ concat ps' = rest \<and>
     (\<forall>R later. conn_calls u env peer conn w [] (map with_pieces calls @ (cl, map Inr ps @ R) # later) =
        after_body env conn' (w\<lparr>wo_uploads := as\<rparr>) (\<lambda>c w'. conn_calls u env peer c w' [] ((cl, map Inr ps' @ R) # later)))"
proof (induction calls arbitrary: conn fm pay w)
  case Nil
  then have "form_at fin h rest conn fm (sc_pending conn @ concat ps @ []) pay" by simp
  from form_call [OF this Nil.prems(2,4), of env w u peer cl] show ?case
  proof (elim disjE exE conjE, goal_cases)
    case (1 conn' fm' as qs pay')
    then have False using body_not_over [of conn' fin pay' rest] by (simp add: form_at_def)
    then show ?case ..
  next
    case (2 conn' fm' as qs ps')
    then show ?case
      by (intro exI [of _ conn'] exI [of _ fm'] exI [of _ as] exI [of _ qs] exI [of _ ps']) (simp add: obind_after_body)
  qed
next
  case (Cons c calls)
  obtain b p where c: "c = (b, p)" by (cases c)
  let ?S = "concat (concat (map snd calls)) @ concat ps"
  have at: "form_at fin h rest conn fm (sc_pending conn @ concat p @ ?S) pay" using Cons.prems(1) by (simp add: c)
  have p: "pieces_ok p" "\<forall>c \<in> set calls. pieces_ok (snd c)" using Cons.prems(3) by (simp_all add: c)
  from form_call [OF at Cons.prems(2) p(1), of env w u peer b] show ?case
  proof (elim disjE exE conjE, goal_cases)
    case (1 conn' fm' as qs pay')
    have "form_at fin h rest conn' fm' (sc_pending conn' @ ?S) pay'" using 1(3,4) by simp
    from Cons.IH [OF this Cons.prems(2) p(2) Cons.prems(4), of "w\<lparr>wo_uploads := as\<rparr>"] Cons.prems(5)
    obtain conn2 fm2 as2 qs2 ps2 where 2: "feed_body (re_upload env) as fm' qs2 = Ok (fm2, as2)" "pay' = concat qs2"
        "form_read fin h conn' conn2 fm2" "sc_pending conn2 @ concat ps2 = rest"
        "\<forall>R later. conn_calls u env peer conn' (w\<lparr>wo_uploads := as\<rparr>) [] (map with_pieces calls @ (cl, map Inr ps @ R) # later) =
          after_body env conn2 (w\<lparr>wo_uploads := as2\<rparr>) (\<lambda>c w'. conn_calls u env peer c w' [] ((cl, map Inr ps2 @ R) # later))"
      by auto
    have "feed_body (re_upload env) (wo_uploads w) fm (qs @ qs2) = Ok (fm2, as2)"
      using feed_body_append [OF 1(1)] 2(1) by simp
    moreover have "\<forall>R later. conn_calls u env peer conn w [] (map with_pieces (c # calls) @ (cl, map Inr ps @ R) # later) =
        after_body env conn2 (w\<lparr>wo_uploads := as2\<rparr>) (\<lambda>c w'. conn_calls u env peer c w' [] ((cl, map Inr ps2 @ R) # later))"
      using 1(7) 2(5) by (simp add: c with_pieces_def)
    ultimately show ?case using 1(2,5,6) 2(2-4)
      by (intro exI [of _ conn2] exI [of _ fm2] exI [of _ as2] exI [of _ "qs @ qs2"] exI [of _ ps2]) (simp add: form_read_def)
  next
    case (2 conn' fm' as qs ps')
    then have "length (concat ps) \<le> length rest" by (metis length_append le_add2 add.assoc)
    then show ?case using Cons.prems(5) by simp
  qed
qed

subsection \<open>A form arrives whole\<close>

text \<open>C8: The body of a form in the chunked encoding arrives whole, however the network cuts it and whatever calls it takes.  After
  the header of a request for the file manager, the chunks, of any number, each with less than \<open>2 ^ 32\<close> bytes and with or
  without extensions, are read by \<open>conn_processDataReady\<close>, partly from the buffer, over any number of calls and in any
  pieces, less than \<open>2 ^ 64 - 2 ^ 32\<close> bytes in all; the last call may bring anything behind the body.  Then the file manager
  was given pieces that make up exactly the data of the chunks, and everything that follows is what the connection does
  at the trailer, with exactly the bytes behind the body left.  (Bodies for a CGI program, which may block, and for a
  handler that has answered already, which is freed, are not covered.)\<close>

theorem chunked_body_delivered:
  assumes "sc_rrs conn = RRS_READ_BODY" and "sc_chunkHdr conn = Some CRLF" and "sc_bodyLen conn = 0" and "sc_bodyReadLen conn = 0"
    and "sc_handler conn = Some h" and "rh_filemgr h = Some fm" and "rh_cgiexe h = None" and "rh_response h = None"
    and "chunks_ok cs e"
    and "sc_pending conn @ concat (concat (map snd calls)) @ concat ps = enc_body cs e @ rest"
    and "length (enc_body cs e @ rest) < 2 ^ 64 - 2 ^ 32"
    and "\<forall>c \<in> set calls. pieces_ok (snd c)" and "pieces_ok ps" and "calls \<noteq> [] \<longrightarrow> length rest < length (concat ps)"
  shows "\<exists>qs fm' as conn' ps'. feed_body (re_upload env) (wo_uploads w) fm qs = Ok (fm', as) \<and> concat qs = payload cs \<and>
    sc_rrs conn' = RRS_READ_TRAILER \<and> sc_handler conn' = Some (h\<lparr>rh_filemgr := Some fm'\<rparr>) \<and>
    sc_header conn' = sc_header conn \<and> sc_socketFd conn' = sc_socketFd conn \<and> sc_pending conn' @ concat ps' = rest \<and>
    (\<forall>R later. conn_calls u env peer conn w [] (map with_pieces calls @ (cl, map Inr ps @ R) # later) =
       conn_calls u env peer conn' (w\<lparr>wo_uploads := as\<rparr>) [] ((cl, map Inr ps' @ R) # later))"
proof -
  have "form_at RRS_READ_TRAILER h rest conn fm (enc_body cs e @ rest) (payload cs)"
    using chunked_starts [OF assms(2-4,9), of rest] assms(1,4-6,11) by (simp add: form_at_def counts_ok_def)
  from form_calls [OF this [folded assms(10)] _ assms(12-14), of env w u peer cl] assms(6-8) show ?thesis
    by (force simp: form_handler_def form_read_def with_form_def after_body_def)
qed

text \<open>C28: The body of a form with a length arrives whole, and nothing else does.  After the header of a request for the file
  manager the file manager is given exactly as many bytes as the \<open>Content-Length\<close> says, over any number of calls of
  \<open>conn_processDataReady\<close> and in any pieces, less than \<open>2 ^ 64 - 2 ^ 32\<close> bytes in all; then the request is complete
  (\<open>reqhdlr_requestReadCompleted\<close>), and the bytes behind the body, the next request, are left.  (As for the chunked
  encoding, CGI programs and handlers that have answered already are not covered.)\<close>

theorem length_body_delivered:
  assumes "sc_rrs conn = RRS_READ_BODY" and "sc_chunkHdr conn = None" and "sc_bodyLen conn = of_nat (length body)"
    and "sc_bodyReadLen conn = 0" and "body \<noteq> []"
    and "sc_handler conn = Some h" and "rh_filemgr h = Some fm" and "rh_cgiexe h = None" and "rh_response h = None"
    and "sc_pending conn @ concat (concat (map snd calls)) @ concat ps = body @ rest"
    and "length (body @ rest) < 2 ^ 64 - 2 ^ 32"
    and "\<forall>c \<in> set calls. pieces_ok (snd c)" and "pieces_ok ps" and "calls \<noteq> [] \<longrightarrow> length rest < length (concat ps)"
  shows "\<exists>qs fm' as conn' ps'. feed_body (re_upload env) (wo_uploads w) fm qs = Ok (fm', as) \<and> concat qs = body \<and>
    sc_rrs conn' = RRS_READ_FINISHED \<and> sc_handler conn' = Some (h\<lparr>rh_filemgr := Some fm'\<rparr>) \<and>
    sc_header conn' = sc_header conn \<and> sc_socketFd conn' = sc_socketFd conn \<and> sc_pending conn' @ concat ps' = rest \<and>
    (\<forall>R later. conn_calls u env peer conn w [] (map with_pieces calls @ (cl, map Inr ps @ R) # later) =
       obind (request_completed env conn' (w\<lparr>wo_uploads := as\<rparr>)) (\<lambda>(c, w').
         conn_calls u env peer c w' [] ((cl, map Inr ps' @ R) # later)))"
proof -
  have "form_at RRS_READ_FINISHED h rest conn fm (body @ rest) body"
    using length_starts [OF assms(2-5), of rest] assms(1,4,6,7,11) by (simp add: form_at_def counts_ok_def)
  from form_calls [OF this [folded assms(10)] _ assms(12-14), of env w u peer cl] assms(7-9) show ?thesis
    by (force simp: form_handler_def form_read_def with_form_def after_body_def)
qed

text \<open>A form for the folder \<open>/srv\<close>, before its body.\<close>

definition example_form :: FileManager where
  "example_form = filemgr_new example_sys (re_config example_env) (Some ''/srv'') (example_request ''POST'' ''/'')"

definition form_conn :: ServerConnection where
  "form_conn = (conn_new 4)\<lparr>sc_rrs := RRS_READ_BODY, sc_handler :=
     Some \<lparr>rh_peerAddr = None, rh_filemgr = Some example_form, rh_cgiexe = None, rh_response = None, rh_run = None\<rparr>\<rparr>"

theorem chunked_body_delivered_witness:
  "\<exists>qs fm' as conn' ps'. feed_body (re_upload example_env) [] example_form qs = Ok (fm', as) \<and> concat qs = ''abc'' \<and>
     sc_rrs conn' = RRS_READ_TRAILER \<and> sc_pending conn' @ concat ps' = CRLF @ ''GET'' \<and>
     conn_calls NUL example_env None (form_conn\<lparr>sc_chunkHdr := Some CRLF\<rparr>) example_world []
       [(False, [Inr (''3;x=1'' @ [CR]), Inr ([LF] @ ''ab'')]), (True, [Inr (''c'' @ CRLF @ ''0'' @ [CR]), Inr ([LF] @ CRLF @ ''GET'')])] =
     conn_calls NUL example_env None conn' (example_world\<lparr>wo_uploads := as\<rparr>) [] [(True, map Inr ps')]"
proof -
  let ?c = "form_conn\<lparr>sc_chunkHdr := Some CRLF\<rparr>"
  let ?h = "\<lparr>rh_peerAddr = None, rh_filemgr = Some example_form, rh_cgiexe = None, rh_response = None, rh_run = None\<rparr>"
  let ?calls = "[(False, [''3;x=1'' @ [CR], [LF] @ ''ab''])]"
  let ?ps = "[''c'' @ CRLF @ ''0'' @ [CR], [LF] @ CRLF @ ''GET'']"
  have h: "rh_filemgr ?h = Some example_form" "rh_cgiexe ?h = None" "rh_response ?h = None" by simp_all
  have c: "sc_rrs ?c = RRS_READ_BODY" "sc_chunkHdr ?c = Some CRLF" "sc_bodyLen ?c = 0" "sc_bodyReadLen ?c = 0"
    "sc_handler ?c = Some ?h" by (simp_all add: form_conn_def conn_new_def)
  have k: "chunks_ok [('';x=1'', ''abc'')] []" by (simp add: chunks_ok_def ext_ok_def)
  have "to_base 16 3 = ''3''" by code_simp
  then have e: "sc_pending ?c @ concat (concat (map snd ?calls)) @ concat ?ps = enc_body [('';x=1'', ''abc'')] [] @ CRLF @ ''GET''"
    by (simp add: enc_body_def enc_chunk_def eval_nat_numeral form_conn_def conn_new_def)
  have n: "length (enc_body [('';x=1'', ''abc'')] [] @ CRLF @ ''GET'') < 2 ^ 64 - 2 ^ 32" unfolding e [symmetric]
    by (simp add: form_conn_def conn_new_def)
  have p: "\<forall>c \<in> set ?calls. pieces_ok (snd c)" "pieces_ok ?ps" "?calls \<noteq> [] \<longrightarrow> length (CRLF @ ''GET'') < length (concat ?ps)"
    by (simp_all add: pieces_ok_def)
  from chunked_body_delivered [OF c h k e n p, of example_env example_world NUL None True]
  obtain qs fm' as conn' ps' where "feed_body (re_upload example_env) [] example_form qs = Ok (fm', as)" "concat qs = ''abc''"
      "sc_rrs conn' = RRS_READ_TRAILER" "sc_pending conn' @ concat ps' = CRLF @ ''GET''"
      "\<forall>R later. conn_calls NUL example_env None ?c example_world [] (map with_pieces ?calls @ (True, map Inr ?ps @ R) # later) =
         conn_calls NUL example_env None conn' (example_world\<lparr>wo_uploads := as\<rparr>) [] ((True, map Inr ps' @ R) # later)"
    by (auto simp: payload_def example_world_def)
  moreover note this(5) [rule_format, of "[]" "[]", unfolded with_pieces_def, simplified]
  ultimately show ?thesis by (intro exI [of _ qs] exI [of _ fm'] exI [of _ as] exI [of _ conn'] exI [of _ ps']) simp
qed

theorem length_body_delivered_witness:
  "\<exists>qs fm' as conn' ps'. feed_body (re_upload example_env) [] example_form qs = Ok (fm', as) \<and> concat qs = ''abc'' \<and>
     sc_rrs conn' = RRS_READ_FINISHED \<and> sc_pending conn' @ concat ps' = ''GET'' \<and>
     conn_calls NUL example_env None (form_conn\<lparr>sc_bodyLen := 3\<rparr>) example_world []
       [(False, [Inr ''a'']), (False, [Inr ''bcGE'', Inr ''T''])] =
     obind (request_completed example_env conn' (example_world\<lparr>wo_uploads := as\<rparr>)) (\<lambda>(c, w').
       conn_calls NUL example_env None c w' [] [(False, map Inr ps')])"
proof -
  let ?c = "form_conn\<lparr>sc_bodyLen := 3\<rparr>"
  let ?h = "\<lparr>rh_peerAddr = None, rh_filemgr = Some example_form, rh_cgiexe = None, rh_response = None, rh_run = None\<rparr>"
  let ?calls = "[(False, [''a''])]" and ?ps = "[''bcGE'', ''T'']"
  have h: "rh_filemgr ?h = Some example_form" "rh_cgiexe ?h = None" "rh_response ?h = None" by simp_all
  have c: "sc_rrs ?c = RRS_READ_BODY" "sc_chunkHdr ?c = None" "sc_bodyLen ?c = of_nat (length ''abc'')" "sc_bodyReadLen ?c = 0"
    "''abc'' \<noteq> []" "sc_handler ?c = Some ?h" by (simp_all add: form_conn_def conn_new_def)
  have e: "sc_pending ?c @ concat (concat (map snd ?calls)) @ concat ?ps = ''abc'' @ ''GET''"
    by (simp add: form_conn_def conn_new_def)
  have n: "length (''abc'' @ ''GET'') < 2 ^ 64 - 2 ^ 32" by simp
  have p: "\<forall>c \<in> set ?calls. pieces_ok (snd c)" "pieces_ok ?ps" "?calls \<noteq> [] \<longrightarrow> length ''GET'' < length (concat ?ps)"
    by (simp_all add: pieces_ok_def)
  from length_body_delivered [OF c h e n p, of example_env example_world NUL None False]
  obtain qs fm' as conn' ps' where "feed_body (re_upload example_env) [] example_form qs = Ok (fm', as)" "concat qs = ''abc''"
      "sc_rrs conn' = RRS_READ_FINISHED" "sc_pending conn' @ concat ps' = ''GET''"
      "\<forall>R later. conn_calls NUL example_env None ?c example_world [] (map with_pieces ?calls @ (False, map Inr ?ps @ R) # later) =
         obind (request_completed example_env conn' (example_world\<lparr>wo_uploads := as\<rparr>)) (\<lambda>(c, w').
           conn_calls NUL example_env None c w' [] ((False, map Inr ps' @ R) # later))"
    by (auto simp: example_world_def)
  moreover note this(5) [rule_format, of "[]" "[]", unfolded with_pieces_def, simplified]
  ultimately show ?thesis by (intro exI [of _ qs] exI [of _ fm'] exI [of _ as] exI [of _ conn'] exI [of _ ps']) simp
qed

end
