(* ===== verification/Connstate.thy ===== *)
theory Connstate
  imports Serverconnection
begin

text \<open>
  The states of a connection (\<open>src/serverconnection.c\<close>) between two calls of \<open>conn_processDataReady\<close>: what its
  fields hold in each of the \<open>RequestReadState\<close>s, what the connection waits for, and that the sanity check
  that ends the server with an internal error never fails.
\<close>

subsection \<open>What the parts of a call leave to wait for\<close>

lemma cgi_write_dpr:
  "cgi_write ce ws data dpr = (ce', dpr', n, got, ws') \<Longrightarrow>
     dpr' = (if n < length data then dpr_setReqState dpr DPR_AWAIT_WRITE (ce_inFd ce') else dpr)"
proof (induction ws arbitrary: data ce' dpr' n got ws')
  case Nil
  then show ?case by (subst (asm) cgi_write.simps) (auto split: if_splits)
next
  case (Cons a ws)
  show ?case
  proof (cases a)
    case (Wrote k)
    obtain ce1 dpr1 m w1 ws1 where c: "cgi_write ce ws (drop k data) dpr = (ce1, dpr1, m, w1, ws1)"
      by (metis prod_cases5)
    have "m \<le> length (drop k data)" using cgi_write_le [OF c] .
    with Wrote Cons.prems Cons.IH [OF c] c show ?thesis
      by (subst (asm) cgi_write.simps) (auto simp: Let_def min_def split: if_splits)
  next
    case (WErr e)
    with Cons.prems show ?thesis by (subst (asm) cgi_write.simps) (auto split: if_splits)
  qed
qed

text \<open>After the bytes of a body nothing is to wait for, or the program that does not take them.\<close>

definition after_body :: "DataProcessingResult \<Rightarrow> ServerConnection \<Rightarrow> DataProcessingResult \<Rightarrow> bool" where
  "after_body dpr conn' dpr' = (dpr' = dpr \<or> sc_rrs conn' = RRS_READ_BODY \<and>
     (\<exists>h ce. sc_handler conn' = Some h \<and> rh_cgiexe h = Some ce \<and> dpr' = dpr_setReqState dpr DPR_AWAIT_WRITE (ce_inFd ce)))"

lemma processData_dpr:
  assumes "reqhdlr_processData env w h data dpr = Ok (h', n, dpr', w')"
  shows "if n < length data then \<exists>ce. rh_cgiexe h' = Some ce \<and> dpr' = dpr_setReqState dpr DPR_AWAIT_WRITE (ce_inFd ce)
    else dpr' = dpr"
  using assms by (auto simp: reqhdlr_processData_def cgiexe_processData_def cbind_Ok dest: cgi_write_dpr
      split: option.splits prod.splits)

lemma body_step_dpr:
  assumes "body_step env conn dpr w bol = Ok (conn', dpr', w', bol', stop)" "bol \<noteq> []" "sc_rrs conn = RRS_READ_BODY"
  shows "if stop then after_body dpr conn' dpr' else dpr' = dpr"
  using assms(1,3) body_step_same(2) [OF assms(1,2)]
  by (auto simp: body_step_def give_body_def after_body_def Let_def cbind_Ok split: if_splits option.splits
      dest!: processData_dpr)

subsection \<open>The states\<close>

text \<open>Nothing of a request is there but what the header holds.\<close>

definition fresh :: "ServerConnection \<Rightarrow> bool" where
  "fresh conn = (sc_handler conn = None \<and> sc_chunkHdr conn = None \<and> sc_bodyLen conn = 0 \<and> sc_bodyReadLen conn = 0)"

text \<open>A handler that has a response, or a program that will give one.\<close>

definition can_answer :: "RequestHandler \<Rightarrow> bool" where
  "can_answer h = (rh_response h \<noteq> None \<or> rh_cgiexe h \<noteq> None)"

definition conn_inv :: "ServerConnection \<Rightarrow> bool" where
  "conn_inv conn = (case sc_rrs conn of
       RRS_IDLE \<Rightarrow> fresh conn | RRS_READ_HEAD \<Rightarrow> fresh conn | RRS_READ_BODY \<Rightarrow> True
     | RRS_READ_TRAILER \<Rightarrow> sc_chunkHdr conn \<noteq> None
     | RRS_READ_FINISHED \<Rightarrow> \<exists>h. sc_handler conn = Some h \<and> can_answer h)"

text \<open>Between two calls no bytes are left over but those of a body that a program does not take, or of the next request.\<close>

definition conn_wf :: "ServerConnection \<Rightarrow> bool" where
  "conn_wf conn = (conn_inv conn \<and>
     (sc_rrs conn \<in> {RRS_IDLE, RRS_READ_HEAD, RRS_READ_TRAILER} \<longrightarrow> sc_pending conn = []))"

lemma conn_new_wf: "conn_wf (conn_new fd)"
  by (simp add: conn_wf_def conn_inv_def conn_new_def fresh_def)

lemma next_request_inv: "sc_handler conn = None \<Longrightarrow> conn_inv (next_request conn)"
  by (simp add: conn_inv_def next_request_def fresh_def)

subsection \<open>Reading\<close>

lemma read_head_inv:
  assumes "read_head u env peer conn w = Ok (conn', w')" "conn_inv conn" "sc_rrs conn \<notin> {RRS_IDLE, RRS_READ_FINISHED}"
  shows "sc_rrs conn' = RRS_READ_FINISHED \<or> conn_inv conn'" "sc_rrs conn' \<noteq> RRS_IDLE"
    "sc_rrs conn' = RRS_READ_HEAD \<Longrightarrow> sc_pending conn' = []"
proof -
  have "conn' = conn \<and> w' = w" if "sc_rrs conn \<noteq> RRS_READ_HEAD" using assms(1) that by (simp add: read_head_def)
  moreover have "(sc_rrs conn' = RRS_READ_HEAD \<and> fresh conn' \<and> sc_pending conn' = []) \<or>
      sc_rrs conn' = RRS_READ_BODY \<or> sc_rrs conn' = RRS_READ_FINISHED" if h: "sc_rrs conn = RRS_READ_HEAD"
  proof -
    obtain conn1 fin where b: "header_bytes u env conn = Ok (conn1, fin)"
      using assms(1) h by (auto simp: read_head_def cbind_Ok)
    note same = header_bytes_same [OF b]
    show ?thesis
    proof (cases fin)
      case True
      then have "onFinishedHeader env peer conn1 w = Ok (conn', w')" using assms(1) h b by (simp add: read_head_def)
      then show ?thesis by (auto simp: onFinishedHeader_def cbind_Ok Let_def split: if_splits prod.splits)
    next
      case False
      then have "conn' = conn1" using assms(1) h b by (simp add: read_head_def)
      moreover have "sc_pending conn1 = []" using b False by (auto simp: header_bytes_def cbind_Ok split: option.splits)
      ultimately show ?thesis using same h assms(2) by (simp add: conn_inv_def fresh_def)
    qed
  qed
  ultimately have "(sc_rrs conn' = RRS_READ_FINISHED \<or> conn_inv conn') \<and> sc_rrs conn' \<noteq> RRS_IDLE \<and>
    (sc_rrs conn' = RRS_READ_HEAD \<longrightarrow> sc_pending conn' = [])"
    using assms(2,3) by (cases "sc_rrs conn = RRS_READ_HEAD") (auto simp: conn_inv_def)
  then show "sc_rrs conn' = RRS_READ_FINISHED \<or> conn_inv conn'" "sc_rrs conn' \<noteq> RRS_IDLE"
    "sc_rrs conn' = RRS_READ_HEAD \<Longrightarrow> sc_pending conn' = []" by blast+
qed

lemma chunk_line_inv:
  "chunk_line conn c bol = (conn', bol') \<Longrightarrow> sc_rrs conn = RRS_READ_BODY \<Longrightarrow>
     sc_rrs conn' \<in> {RRS_READ_BODY, RRS_READ_TRAILER} \<and> sc_chunkHdr conn' \<noteq> None"
  by (auto simp: chunk_line_def Let_def split: option.splits if_splits)

lemma after_body_refl [simp]: "after_body dpr conn dpr"
  by (simp add: after_body_def)

lemma req_body_loop_inv:
  "req_body_loop env conn dpr w bol = Some (Ok (conn', dpr', w', rest)) \<Longrightarrow>
   sc_rrs conn \<in> {RRS_READ_BODY, RRS_READ_TRAILER} \<Longrightarrow> sc_rrs conn = RRS_READ_TRAILER \<longrightarrow> sc_chunkHdr conn \<noteq> None \<Longrightarrow>
     after_body dpr conn' dpr' \<and> (sc_rrs conn' = RRS_READ_FINISHED \<or> conn_inv conn') \<and>
     sc_rrs conn' \<notin> {RRS_IDLE, RRS_READ_HEAD}"
proof (induction env conn dpr w bol rule: req_body_loop.induct)
  case (1 env conn dpr w bol)
  show ?case
  proof (cases "sc_rrs conn \<noteq> RRS_READ_BODY \<or> bol = []")
    case True
    then show ?thesis using "1.prems" by (subst (asm) req_body_loop.simps) (auto simp: conn_inv_def)
  next
    case False
    then have go: "\<not> sc_bodyLen conn < sc_bodyReadLen conn"
      using "1.prems"(1) by (subst (asm) req_body_loop.simps) auto
    obtain conn1 dpr1 w1 bol1 stop where g: "body_step env conn dpr w bol = Ok (conn1, dpr1, w1, bol1, stop)"
      using "1.prems"(1) False go by (subst (asm) req_body_loop.simps) (auto split: cres.splits)
    note r = "1.prems"(1) [unfolded req_body_loop.simps [of env conn dpr w bol] g if_not_P [OF False] if_not_P [OF go], simplified]
    have bol: "bol \<noteq> []" "sc_rrs conn = RRS_READ_BODY" using False by auto
    have rrs: "sc_rrs conn1 = RRS_READ_BODY" using body_step_same(2) [OF g bol(1)] bol(2) by simp
    note d = body_step_dpr [OF g bol]
    note IH = "1.IH" [OF False go g refl refl refl refl]
    consider (stop) stop | (over) "\<not> stop" "sc_bodyReadLen conn1 = sc_bodyLen conn1" "sc_chunkHdr conn1 = None"
      | (line) c where "\<not> stop" "sc_bodyReadLen conn1 = sc_bodyLen conn1" "sc_chunkHdr conn1 = Some c"
      | (more) "\<not> stop" "sc_bodyReadLen conn1 \<noteq> sc_bodyLen conn1" by blast
    then show ?thesis
    proof cases
      case stop
      then show ?thesis using r rrs d by (auto simp: conn_inv_def)
    next
      case over
      then show ?thesis using r d by auto
    next
      case line
      obtain conn2 bol2 where c: "chunk_line conn1 c bol1 = (conn2, bol2)" by fastforce
      have "req_body_loop env conn2 dpr1 w1 bol2 = Some (Ok (conn', dpr', w', rest))" using r line c by simp
      from IH(1) [OF line c [symmetric] this] show ?thesis using chunk_line_inv [OF c rrs] d line(1) by simp
    next
      case more
      have "req_body_loop env conn1 dpr1 w1 bol1 = Some (Ok (conn', dpr', w', rest))" using r more by simp
      from IH(2) [OF more this] show ?thesis using rrs d more(1) by simp
    qed
  qed
qed

text \<open>What is left to wait for when a call stops reading.\<close>

definition settled :: "ServerConnection \<Rightarrow> DataProcessingResult \<Rightarrow> bool" where
  "settled conn dpr = (dpr_reqState dpr \<noteq> DPR_READY \<longrightarrow> sc_rrs conn \<noteq> RRS_READ_FINISHED \<and>
     (dpr_reqAwaitFd dpr = sc_socketFd conn \<and> sc_pending conn = [] \<or>
      sc_rrs conn = RRS_READ_BODY \<and> (\<exists>h ce. sc_handler conn = Some h \<and> rh_cgiexe h = Some ce \<and> dpr_reqAwaitFd dpr = ce_inFd ce)))"

definition resp_same :: "DataProcessingResult \<Rightarrow> DataProcessingResult \<Rightarrow> bool" where
  "resp_same dpr dpr' = (dpr_respState dpr' = dpr_respState dpr \<and> dpr_respAwaitFd dpr' = dpr_respAwaitFd dpr)"

lemma requestReadCompleted_answers:
  assumes "reqhdlr_requestReadCompleted env w h hdr = Some (Ok (h', w'))"
  shows "can_answer h'"
  using assms by (auto simp: reqhdlr_requestReadCompleted_def can_answer_def cbind_Ok split: option.splits)

lemma read_trailer_inv:
  assumes "read_trailer u env conn = Ok conn'" "sc_rrs conn = RRS_READ_FINISHED \<or> conn_inv conn"
  shows "sc_rrs conn' = RRS_READ_FINISHED \<or> conn_inv conn'" "sc_rrs conn \<noteq> RRS_READ_TRAILER \<Longrightarrow> conn' = conn"
proof -
  have "conn' = conn" if "sc_rrs conn \<noteq> RRS_READ_TRAILER \<or> sc_pending conn = []"
    using assms(1) that by (auto simp: read_trailer_def)
  moreover have "sc_rrs conn' = RRS_READ_FINISHED \<or> conn_inv conn'"
    if t: "sc_rrs conn = RRS_READ_TRAILER" "sc_pending conn \<noteq> []"
  proof -
    obtain conn1 fin where h: "header_bytes u env conn = Ok (conn1, fin)"
        "conn' = (if fin then conn1\<lparr>sc_rrs := RRS_READ_FINISHED\<rparr> else conn1)"
      using assms(1) t by (auto simp: read_trailer_def cbind_Ok)
    show ?thesis using header_bytes_same [OF h(1)] h(2) t(1) assms(2) by (auto simp: conn_inv_def)
  qed
  ultimately show "sc_rrs conn' = RRS_READ_FINISHED \<or> conn_inv conn'" "sc_rrs conn \<noteq> RRS_READ_TRAILER \<Longrightarrow> conn' = conn"
    using assms(2) by blast+
qed

lemma read_body_data_inv:
  assumes "read_body_data env conn dpr w = Some (Ok (conn', dpr', w'))" "sc_rrs conn = RRS_READ_FINISHED \<or> conn_inv conn"
  shows "sc_rrs conn' = RRS_READ_FINISHED \<or> conn_inv conn'" "after_body dpr conn' dpr'"
proof -
  have "(sc_rrs conn' = RRS_READ_FINISHED \<or> conn_inv conn') \<and> after_body dpr conn' dpr'"
    if b: "sc_rrs conn = RRS_READ_BODY" "sc_pending conn \<noteq> []"
  proof -
    obtain conn1 rest where l: "req_body_loop env conn dpr w (sc_pending conn) = Some (Ok (conn1, dpr', w', rest))"
        "conn' = conn1\<lparr>sc_pending := rest\<rparr>"
      using assms(1) b by (auto simp: read_body_data_def appendBodyData_def obind_Ok)
    show ?thesis using req_body_loop_inv [OF l(1)] l(2) b(1)
      by (auto simp: after_body_def conn_inv_def fresh_def split: RequestReadState.splits)
  qed
  moreover have "conn' = conn \<and> dpr' = dpr" if "\<not> (sc_rrs conn = RRS_READ_BODY \<and> sc_pending conn \<noteq> [])"
    using assms(1) that by (auto simp: read_body_data_def split: if_splits)
  ultimately show "sc_rrs conn' = RRS_READ_FINISHED \<or> conn_inv conn'" "after_body dpr conn' dpr'"
    using assms(2) after_body_refl by blast+
qed

lemma appendData_inv:
  assumes "appendData u env peer conn dpr w = Some (Ok (conn', dpr', w'))" "conn_inv conn" "sc_rrs conn \<noteq> RRS_READ_FINISHED"
    "dpr_reqState dpr = DPR_READY"
  shows "conn_inv conn' \<and> settled conn' dpr' \<and> resp_same dpr dpr' \<and> dpr_closeConn dpr' = dpr_closeConn dpr"
proof -
  let ?c = "if sc_rrs conn = RRS_IDLE then conn\<lparr>sc_header := reqhdr_new, sc_rrs := RRS_READ_HEAD\<rparr> else conn"
  have c0: "conn_inv ?c" "sc_rrs ?c \<notin> {RRS_IDLE, RRS_READ_FINISHED}"
    using assms(2,3) by (auto simp: conn_inv_def fresh_def)
  obtain conn1 w1 conn2 dpr2 w2 conn3 where
    1: "read_head u env peer ?c w = Ok (conn1, w1)" and
    2: "read_body_data env conn1 dpr w1 = Some (Ok (conn2, dpr2, w2))" and
    3: "read_trailer u env conn2 = Ok conn3" and
    4: "(if sc_rrs conn \<noteq> RRS_READ_FINISHED \<and> sc_rrs conn3 = RRS_READ_FINISHED
        then obind (request_completed env conn3 w2) (\<lambda>(conn4, w4). Some (Ok (conn4, dpr2, w4)))
        else Some (Ok (conn3, dpr2, w2))) = Some (Ok (conn', dpr', w'))"
    using assms(1) unfolding appendData_def Let_def by (fastforce simp: obind_Ok)
  note i1 = read_head_inv(1) [OF 1 c0]
  note i2 = read_body_data_inv [OF 2 i1]
  note i3 = read_trailer_inv [OF 3 i2(1)]
  have d: "dpr' = dpr2" using 4 by (auto simp: obind_Ok split: if_splits)
  have e: "after_body dpr conn' dpr2 \<and> conn_inv conn'"
  proof (cases "sc_rrs conn3 = RRS_READ_FINISHED")
    case True
    then have "request_completed env conn3 w2 = Some (Ok (conn', w'))" using 4 assms(3) d by (auto simp: obind_Ok)
    then obtain h' where "conn' = conn3\<lparr>sc_handler := Some h'\<rparr>" "can_answer h'"
      using requestReadCompleted_answers by (auto simp: request_completed_def obind_Ok split: option.splits)
    then have "conn_inv conn'" using True by (simp add: conn_inv_def)
    moreover have "dpr2 = dpr"
      using i2(2) i3(2) True by (auto simp: after_body_def)
    ultimately show ?thesis by simp
  next
    case False
    then have "conn' = conn3" using 4 by simp
    moreover have "after_body dpr conn3 dpr2"
      using i2(2) i3(2) by (auto simp: after_body_def)
    ultimately show ?thesis using i3(1) False by simp
  qed
  then show ?thesis
    using assms(4) d by (auto simp: after_body_def settled_def resp_same_def dpr_setReqState_def)
qed

lemma conn_read_inv:
  assumes "conn_read conn dpr reads idle = (conn1, dpr1, reads1, idle1)"
  shows "conn_inv conn \<Longrightarrow> conn_inv conn1" "sc_rrs conn1 = sc_rrs conn" "resp_same dpr dpr1"
    "sc_pending conn1 \<noteq> [] \<Longrightarrow> dpr1 = dpr"
    "sc_rrs conn \<noteq> RRS_READ_FINISHED \<Longrightarrow> dpr_reqState dpr = DPR_READY \<Longrightarrow> settled conn1 dpr1"
    "sc_pending conn = [] \<Longrightarrow> idle1 \<Longrightarrow> idle \<and> conn1 = conn \<and> (dpr_closeConn dpr1 \<or> dpr_reqState dpr1 \<noteq> DPR_READY)"
  using assms
  by (auto simp: conn_read_def conn_inv_def fresh_def settled_def resp_same_def dpr_setReqState_def dpr_setCloseConn_def
      split: if_splits list.splits sum.splits RequestReadState.splits)

lemma read_loop_inv:
  "read_loop u env peer conn dpr w reads idle = Some (Ok (conn', dpr', w', reads', idle')) \<Longrightarrow> conn_inv conn \<Longrightarrow>
   settled conn dpr \<Longrightarrow> conn_inv conn' \<and> settled conn' dpr' \<and> resp_same dpr dpr' \<and> \<not> may_read conn' dpr'"
proof (induction u env peer conn dpr w reads idle rule: read_loop.induct)
  case (1 u env peer conn dpr w reads idle)
  obtain conn1 dpr1 reads1 idle1 where r: "conn_read conn dpr reads idle = (conn1, dpr1, reads1, idle1)"
    by (metis prod_cases4)
  note i = conn_read_inv [OF r]
  consider (stop) "\<not> may_read conn dpr" | (over) "may_read conn dpr" "sc_pending conn1 = []"
    | (data) "may_read conn dpr" "sc_pending conn1 \<noteq> []" by blast
  then show ?case
  proof cases
    case stop
    then show ?thesis using "1.prems" by (simp add: read_loop.simps resp_same_def)
  next
    case over
    then have "read_loop u env peer conn1 dpr1 w reads1 idle1 = Some (Ok (conn', dpr', w', reads', idle'))"
      using "1.prems" by (simp add: read_loop.simps [of u env peer conn] r)
    from "1.IH"(1) [OF _ r [symmetric] refl refl over(2) this] show ?thesis
      using i(1,3,5) "1.prems"(2) over(1) by (auto simp: may_read_def resp_same_def)
  next
    case data
    then obtain conn2 dpr2 w2 where a: "appendData u env peer conn1 dpr1 w = Some (Ok (conn2, dpr2, w2))"
        "read_loop u env peer conn2 dpr2 w2 reads1 idle1 = Some (Ok (conn', dpr', w', reads', idle'))"
      using "1.prems" by (auto simp: read_loop.simps [of u env peer conn] r obind_Ok)
    have "conn_inv conn1" "sc_rrs conn1 \<noteq> RRS_READ_FINISHED" "dpr_reqState dpr1 = DPR_READY"
      using i(1,2,4) data "1.prems"(2) by (auto simp: may_read_def)
    from appendData_inv [OF a(1) this] "1.IH"(2) [OF _ r [symmetric] refl refl data(2) a(1) refl refl a(2)] show ?thesis
      using i(4) data by (auto simp: resp_same_def)
  qed
qed

subsection \<open>Responding\<close>

text \<open>The descriptors that belong to a connection.\<close>

definition handler_fds :: "RequestHandler \<Rightarrow> int set" where
  "handler_fds h = (case rh_cgiexe h of None \<Rightarrow> {} | Some ce \<Rightarrow> {ce_inFd ce, ce_outFd ce}) \<union>
     (case rh_response h of None \<Rightarrow> {} | Some rs \<Rightarrow> {rs_fileDesc rs})"

definition conn_fds :: "ServerConnection \<Rightarrow> int set" where
  "conn_fds conn = insert (sc_socketFd conn) (case sc_handler conn of None \<Rightarrow> {} | Some h \<Rightarrow> handler_fds h)"

text \<open>What is waited for after a step of the response: nothing when it is finished, else one of the descriptors \<open>fds\<close>.\<close>

definition resp_waits :: "bool \<Rightarrow> DataProcessingResult \<Rightarrow> DataProcessingResult \<Rightarrow> int set \<Rightarrow> bool" where
  "resp_waits fin dpr dpr' fds = (dpr_reqState dpr' = dpr_reqState dpr \<and> dpr_reqAwaitFd dpr' = dpr_reqAwaitFd dpr \<and>
     (if fin then resp_same dpr dpr'
      else dpr_closeConn dpr' = dpr_closeConn dpr \<and> dpr_respState dpr' \<noteq> DPR_READY \<and> dpr_respAwaitFd dpr' \<in> fds))"

lemma write_error_waits: "write_error e fd dpr = (fin, dpr') \<Longrightarrow> fd \<in> fds \<Longrightarrow> resp_waits fin dpr dpr' fds"
  by (auto simp: write_error_def resp_waits_def resp_same_def dpr_setRespState_def dpr_setCloseConn_def split: if_splits)

lemma fill_known_waits:
  assumes "fill_known u rs body w dpr = Ok (rs', w', dpr')" "0 < rs_nbytes rs"
  shows "dpr' = (if rs_dataSize rs' = 0 then dpr_setRespState dpr DPR_AWAIT_READ (rs_fileDesc rs') else dpr)"
proof -
  define toFill where "toFill = (if rs_nbytes rs < 65536 then nat (rs_nbytes rs) else 65536)"
  have pos: "0 < toFill" using assms(2) by (simp add: toFill_def)
  let ?fd = "rs_fileDesc rs"
  obtain b1 filled rd w1 where
    r: "(if 0 \<le> ?fd then read_fill toFill 0 (buf_grow u toFill body) w else Ok (buf_grow u toFill body, 0, Inl 1, w)) = Ok (b1, filled, rd, w1)"
    using assms(1) unfolding fill_known_def Let_def toFill_def [symmetric] by (auto simp: cbind_Ok)
  let ?fd1 = "if 0 \<le> ?fd \<and> filled < toFill \<and> rd \<noteq> Inr EWOULDBLOCK then - 1 else ?fd"
  obtain b2 filled2 where
    f: "(if filled < toFill \<and> ?fd1 < 0
         then cbind (buf_set b1 filled (toFill - filled) (replicate (toFill - filled) NUL)) (\<lambda>b2. Ok (b2, toFill))
         else Ok (b1, filled)) = Ok (b2, filled2)" and
    e: "rs_dataSize rs' = filled2" "rs_fileDesc rs' = ?fd1"
      "dpr' = (if 0 \<le> ?fd \<and> filled < toFill \<and> rd = Inr EWOULDBLOCK \<and> filled = 0
               then dpr_setRespState dpr DPR_AWAIT_READ ?fd else dpr)"
    using assms(1) unfolding fill_known_def Let_def toFill_def [symmetric] r cbind_simps by (auto simp: cbind_Ok)
  show ?thesis
  proof (cases "filled < toFill \<and> ?fd1 < 0")
    case True
    then have "filled2 = toFill" using f by (auto simp: cbind_Ok)
    then show ?thesis using e True pos by (auto split: if_splits)
  next
    case False
    then have "filled2 = filled" using f by (simp split: if_splits)
    then show ?thesis using e False pos by (auto split: if_splits)
  qed
qed

lemma fill_chunked_waits:
  assumes "fill_chunked u rs body w dpr = Ok (rs', w', dpr')"
  shows "dpr' = (if rs_dataSize rs' = 0 then dpr_setRespState dpr DPR_AWAIT_READ (rs_fileDesc rs') else dpr)"
  using assms unfolding fill_chunked_def Let_def
  by (simp only: cbind_Ok split_paired_Ex prod.case cres.inject prod.inject) (elim exE conjE, hypsubst, simp (no_asm))

lemma fillBuffer_waits:
  assumes "fillBuffer u rs body w dpr = Ok (rs', w', dpr')" "rs_nbytes rs \<noteq> 0"
  shows "dpr' = (if rs_dataSize rs' = 0 then dpr_setRespState dpr DPR_AWAIT_READ (rs_fileDesc rs') else dpr)"
proof (cases "0 \<le> rs_nbytes rs")
  case True
  then show ?thesis using fill_known_waits [of u rs body w dpr rs' w' dpr'] assms by (simp add: fillBuffer_def)
next
  case False
  then show ?thesis using fill_chunked_waits [of u rs body w dpr rs' w' dpr'] assms(1) by (simp add: fillBuffer_def)
qed

lemma body_loop_waits:
  "body_loop u rs body fd w dpr = Ok (fin, rs', w', dpr') \<Longrightarrow> resp_waits fin dpr dpr' {fd, rs_fileDesc rs'}"
proof (induction u rs body fd w dpr rule: body_loop.induct)
  case (1 u rs body fd w dpr)
  obtain off err w1 where l: "write_loop (take (rs_dataSize rs) body) (rs_dataOffset rs) w = (off, err, w1)" by (metis prod_cases3)
  have sz: "\<not> length body < rs_dataSize rs" using "1.prems" by (subst (asm) body_loop.simps) auto
  note run = "1.prems" [unfolded body_loop.simps [of u rs] if_not_P [OF sz] l prod.case Let_def]
  show ?case
  proof (cases err)
    case (Some e)
    obtain res dpr1 where w: "write_error e fd dpr = (res, dpr1)" by fastforce
    show ?thesis using run Some w write_error_waits [OF w, of "{fd, rs_fileDesc rs'}"] by simp
  next
    case None
    let ?rs1 = "rs\<lparr>rs_dataOffset := off\<rparr>"
    show ?thesis
    proof (cases "rs_nbytes rs = 0")
      case True
      then show ?thesis using run None by (simp add: resp_waits_def resp_same_def)
    next
      case False
      obtain rs2 w2 dpr2 where f: "fillBuffer u ?rs1 body w1 dpr = Ok (rs2, w2, dpr2)"
        using run None False by (cases "fillBuffer u ?rs1 body w1 dpr") auto
      note wt = fillBuffer_waits [OF f, simplified, OF False]
      show ?thesis
      proof (cases "rs_dataSize rs2 = 0")
        case True
        then show ?thesis using run None False f wt by (auto simp: resp_waits_def dpr_setRespState_def)
      next
        case more: False
        have "body_loop u rs2 (the (rs_body rs2)) fd w2 dpr = Ok (fin, rs', w', dpr')"
          using run None False f wt more by simp
        with "1.IH" [OF sz l [symmetric] refl None _ _ f refl refl more] show ?thesis using False wt more by simp
      qed
    qed
  qed
qed

lemma rsndr_send_waits:
  assumes "rsndr_send u rs fd w dpr = Ok (fin, rs', w', dpr')"
  shows "resp_waits fin dpr dpr' {fd, rs_fileDesc rs'}"
proof -
  have body: "resp_waits fin dpr dpr' {fd, rs_fileDesc rs'}" if "send_body u rs1 fd w1 dpr = Ok (fin, rs', w', dpr')" for rs1 w1
  proof (cases "rs_body rs1")
    case None
    then show ?thesis using that by (auto simp: send_body_def resp_waits_def resp_same_def)
  next
    case (Some b)
    then show ?thesis using that by (auto simp: send_body_def intro: body_loop_waits)
  qed
  show ?thesis
  proof (cases "rs_header rs")
    case None
    then show ?thesis using assms body by (simp add: rsndr_send_def)
  next
    case (Some h)
    obtain off err w1 where l: "write_loop h (rs_dataOffset rs) w = (off, err, w1)" by (metis prod_cases3)
    show ?thesis
    proof (cases err)
      case None
      then show ?thesis using assms Some l body by (simp add: rsndr_send_def)
    next
      case err: (Some e)
      obtain res dpr1 where w: "write_error e fd dpr = (res, dpr1)" by fastforce
      show ?thesis using assms Some l err w write_error_waits [OF w, of "{fd, rs_fileDesc rs'}"]
        by (simp add: rsndr_send_def)
    qed
  qed
qed

lemma cgi_read_ends: "cgi_read ce w = Ok (ce', rd, n, w') \<Longrightarrow> ce_inFd ce' = ce_inFd ce \<and> ce_outFd ce' = ce_outFd ce"
proof (induction ce w rule: cgi_read.induct)
  case (1 ce w)
  then show ?case
    by (subst (asm) (2) cgi_read.simps) (auto simp: cbind_Ok split: prod.splits sum.splits if_splits option.splits)
qed

lemma progressResponse_waits:
  assumes "reqhdlr_progressResponse u env w h fd dpr = Ok (fin, h', dpr', w')" "can_answer h"
  shows "resp_waits fin dpr dpr' (insert fd (handler_fds h'))" "can_answer h'"
    "map_option ce_inFd (rh_cgiexe h') = map_option ce_inFd (rh_cgiexe h)"
proof -
  let ?r = "resp_waits fin dpr dpr' (insert fd (handler_fds h')) \<and> can_answer h' \<and>
    map_option ce_inFd (rh_cgiexe h') = map_option ce_inFd (rh_cgiexe h)"
  have send: "resp_waits fin dpr dpr' (insert fd (handler_fds h')) \<and> can_answer h' \<and> rh_cgiexe h' = rh_cgiexe h1"
    if r: "rh_response h1 = Some rs" "rsndr_send u rs fd w1 dpr = Ok (fin, rs', wire, dpr')" "h' = h1\<lparr>rh_response := Some rs'\<rparr>"
    for h1 rs rs' wire w1
  proof -
    have "{fd, rs_fileDesc rs'} \<subseteq> insert fd (handler_fds h')" using r(3) by (auto simp: handler_fds_def)
    then show ?thesis using rsndr_send_waits [OF r(2)] r(3) by (auto simp: resp_waits_def can_answer_def)
  qed
  have ?r
  proof (cases "rh_response h")
    case (Some rs)
    then show ?thesis using assms(1) send [OF Some] by (auto simp: reqhdlr_progressResponse_def cbind_Ok)
  next
    case None
    then obtain ce where ce: "rh_cgiexe h = Some ce" using assms(2) by (auto simp: can_answer_def)
    then obtain resp ce1 dpr1 wire where g: "cgiexe_getResponse ce dpr (wo_wire w) = Ok (resp, ce1, dpr1, wire)"
      using assms(1) None by (auto simp: reqhdlr_progressResponse_def cbind_Ok)
    have ends: "ce_inFd ce1 = ce_inFd ce"
      "resp = None \<Longrightarrow> dpr1 = dpr_setRespState dpr DPR_AWAIT_READ (ce_outFd ce1)" "resp \<noteq> None \<Longrightarrow> dpr1 = dpr"
      using g by (auto simp: cgiexe_getResponse_def cbind_Ok dest!: cgi_read_ends split: option.splits sum.splits if_splits)
    show ?thesis
    proof (cases resp)
      case r: None
      then show ?thesis using assms(1) None ce g ends
        by (auto simp: reqhdlr_progressResponse_def can_answer_def handler_fds_def resp_waits_def dpr_setRespState_def)
    next
      case (Some r)
      then show ?thesis using assms(1) None ce g ends
          send [of "h\<lparr>rh_cgiexe := Some ce1, rh_response := Some (finish_response env r)\<rparr>" "finish_response env r"]
        by (auto simp: reqhdlr_progressResponse_def cbind_Ok)
    qed
  qed
  then show "resp_waits fin dpr dpr' (insert fd (handler_fds h'))" "can_answer h'"
    "map_option ce_inFd (rh_cgiexe h') = map_option ce_inFd (rh_cgiexe h)" by blast+
qed

subsection \<open>A call\<close>

text \<open>The handler was freed while the body of the request is still being read.\<close>

definition orphaned :: "ServerConnection \<Rightarrow> bool" where
  "orphaned conn = (sc_rrs conn = RRS_READ_BODY \<and> sc_handler conn = None)"

text \<open>How a call ends that does not close the connection: its state is in order, and it waits for a descriptor.\<close>

definition rests :: "ServerConnection \<Rightarrow> DataProcessingResult \<Rightarrow> bool" where
  "rests conn dpr = (conn_wf conn \<and> (dpr_reqState dpr \<noteq> DPR_READY \<or> dpr_respState dpr \<noteq> DPR_READY) \<and>
     (dpr_reqState dpr \<noteq> DPR_READY \<longrightarrow> dpr_reqAwaitFd dpr \<in> conn_fds conn \<or> orphaned conn) \<and>
     (dpr_respState dpr \<noteq> DPR_READY \<longrightarrow> dpr_respAwaitFd dpr \<in> conn_fds conn))"

text \<open>After reading and a step of the response the connection rests, or its request is done with nothing left to wait for.\<close>

lemma respond_inv:
  assumes "progress_response u env conn dpr w = Ok (conn', dpr', w')" "conn_inv conn" "settled conn dpr"
    "\<not> may_read conn dpr" "dpr_respState dpr = DPR_READY" "\<not> dpr_closeConn dpr'"
  shows "if sc_rrs conn' \<noteq> RRS_READ_FINISHED \<or> sc_handler conn' \<noteq> None then rests conn' dpr'
    else dpr_reqState dpr' = DPR_READY \<and> dpr_respState dpr' = DPR_READY"
proof -
  have rrs: "sc_rrs conn' = sc_rrs conn" using progress_response_same(2) [OF assms(1)] .
  have pend: "sc_pending conn' = sc_pending conn" "sc_socketFd conn' = sc_socketFd conn" "sc_chunkHdr conn' = sc_chunkHdr conn"
      "sc_bodyLen conn' = sc_bodyLen conn" "sc_bodyReadLen conn' = sc_bodyReadLen conn"
    using assms(1) by (auto simp: progress_response_def cbind_Ok split: option.splits if_splits)
  have req: "sc_rrs conn \<noteq> RRS_READ_FINISHED \<Longrightarrow> \<not> dpr_closeConn dpr \<Longrightarrow> dpr_reqState dpr \<noteq> DPR_READY"
    using assms(4) by (simp add: may_read_def)
  show ?thesis
  proof (cases "sc_handler conn")
    case None
    then have same: "conn' = conn" "dpr' = dpr" using assms(1) by (simp_all add: progress_response_def)
    have "sc_rrs conn \<noteq> RRS_READ_FINISHED" using assms(2) None by (auto simp: conn_inv_def)
    then show ?thesis
      using same req assms(2,3,5,6) None by (auto simp: rests_def conn_wf_def settled_def conn_fds_def)
  next
    case (Some h)
    show ?thesis
    proof (cases "dpr_closeConn dpr")
      case True
      then show ?thesis using assms(1,6) Some by (simp add: progress_response_def)
    next
      case still: False
      obtain fin h' w1 where p: "reqhdlr_progressResponse u env w h (sc_socketFd conn) dpr = Ok (fin, h', dpr', w1)"
          "conn' = conn\<lparr>sc_handler := if fin then None else Some h'\<rparr>"
        using assms(1) Some still by (auto simp: progress_response_def cbind_Ok split: if_splits)
      show ?thesis
      proof (cases "can_answer h")
        case False
        then have same: "\<not> fin" "h' = h" "dpr' = dpr" using p(1) by (auto simp: reqhdlr_progressResponse_def can_answer_def)
        have fin: "sc_rrs conn \<noteq> RRS_READ_FINISHED" using assms(2) Some False by (auto simp: conn_inv_def)
        have "conn' = conn" using p(2) same Some by simp
        then show ?thesis
          using same req [OF fin still] fin assms(2,3,5) Some
          by (auto simp: rests_def conn_wf_def settled_def conn_fds_def handler_fds_def conn_inv_def fresh_def split: RequestReadState.splits)
      next
        case True
        note q = progressResponse_waits [OF p(1) True]
        have busy: "sc_rrs conn \<notin> {RRS_IDLE, RRS_READ_HEAD}" using assms(2) Some by (auto simp: conn_inv_def fresh_def)
        show ?thesis
        proof (cases fin)
          case f: True
          then have d: "sc_handler conn' = None" "dpr_respState dpr' = DPR_READY" "dpr_reqState dpr' = dpr_reqState dpr"
              "dpr_reqAwaitFd dpr' = dpr_reqAwaitFd dpr"
            using p(2) q(1) assms(5) by (simp_all add: resp_waits_def resp_same_def)
          show ?thesis
            using d rrs pend req [OF _ still] busy assms(2,3)
            by (auto simp: rests_def conn_wf_def settled_def conn_fds_def orphaned_def conn_inv_def split: RequestReadState.splits)
        next
          case f: False
          then have d: "sc_handler conn' = Some h'" "dpr_respState dpr' \<noteq> DPR_READY" "dpr_reqState dpr' = dpr_reqState dpr"
              "dpr_reqAwaitFd dpr' = dpr_reqAwaitFd dpr" "dpr_respAwaitFd dpr' \<in> conn_fds conn'"
            using p(2) q(1) by (simp_all add: resp_waits_def conn_fds_def)
          have cgi: "ce_inFd ce \<in> conn_fds conn'" if "rh_cgiexe h = Some ce" for ce
            using q(3) d(1) that by (auto simp: conn_fds_def handler_fds_def)
          have sock: "sc_socketFd conn \<in> conn_fds conn'" by (simp add: conn_fds_def pend)
          show ?thesis
            using d(1,2,5) q(2) cgi sock rrs pend req [OF _ still] busy assms(2,3) Some
            by (auto simp: rests_def conn_wf_def settled_def d(3,4) conn_inv_def split: RequestReadState.splits)
        qed
      qed
    qed
  qed
qed

lemma process_loop_rests:
  "process_loop u env peer conn dpr w reads idle = Some (Ok (conn', dpr', w', reads', idle')) \<Longrightarrow> conn_inv conn \<Longrightarrow>
   settled conn dpr \<Longrightarrow> dpr_respState dpr = DPR_READY \<Longrightarrow> dpr_closeConn dpr' \<or> rests conn' dpr'"
proof (induction u env peer conn dpr w reads idle rule: process_loop.induct)
  case (1 u env peer conn dpr w reads idle)
  obtain conn1 dpr1 w1 reads1 idle1 conn2 dpr2 w2 where
    r: "read_loop u env peer conn dpr w reads idle = Some (Ok (conn1, dpr1, w1, reads1, idle1))" and
    p: "progress_response u env conn1 dpr1 w1 = Ok (conn2, dpr2, w2)"
    using "1.prems"(1) by (subst (asm) process_loop.simps) (fastforce simp: obind_Ok)
  have p': "Some (progress_response u env conn1 dpr1 w1) = Some (Ok (conn2, dpr2, w2))" using p by simp
  note i = read_loop_inv [OF r "1.prems"(2,3)]
  note run = "1.prems"(1) [unfolded process_loop.simps [of u env peer conn] r obind_simps prod.case p, simplified]
  have "dpr_respState dpr1 = DPR_READY" using i "1.prems"(4) by (simp add: resp_same_def)
  note resp = respond_inv [OF p _ _ _ this]
  show ?case
  proof (cases "dpr_closeConn dpr2 \<or> sc_rrs conn2 \<noteq> RRS_READ_FINISHED \<or> sc_handler conn2 \<noteq> None")
    case True
    then have "conn' = conn2" "dpr' = dpr2" using run by auto
    then show ?thesis using True resp i by (cases "dpr_closeConn dpr2") (auto split: if_splits)
  next
    case False
    then have ready: "dpr_reqState dpr2 = DPR_READY" "dpr_respState dpr2 = DPR_READY" using resp i by auto
    show ?thesis
    proof (cases "wants_close (sc_header conn2)")
      case True
      then show ?thesis using run False ready by (auto simp: dpr_setCloseConn_def)
    next
      case again: False
      have "process_loop u env peer (next_request conn2) dpr2 w2 reads1 idle1 = Some (Ok (conn', dpr', w', reads', idle'))"
        using run False ready again by simp
      from "1.IH" [OF r refl refl refl refl p' refl refl False _ again this next_request_inv] show ?thesis
        using ready False by (simp add: settled_def)
    qed
  qed
qed

text \<open>A connection on which nothing was read stays as it was.\<close>

lemma read_loop_untouched:
  "read_loop u env peer conn dpr w reads idle = Some (Ok (conn', dpr', w', reads', idle')) \<Longrightarrow> idle' \<Longrightarrow>
   idle \<and> (sc_pending conn = [] \<longrightarrow> conn' = conn)"
proof (induction u env peer conn dpr w reads idle rule: read_loop.induct)
  case (1 u env peer conn dpr w reads idle)
  obtain conn1 dpr1 reads1 idle1 where r: "conn_read conn dpr reads idle = (conn1, dpr1, reads1, idle1)"
    by (metis prod_cases4)
  have mono: "idle1 \<Longrightarrow> idle" using r by (auto simp: conn_read_def split: if_splits list.splits sum.splits)
  note i = conn_read_inv(4,6) [OF r]
  consider (stop) "\<not> may_read conn dpr" | (over) "may_read conn dpr" "sc_pending conn1 = []"
    | (data) "may_read conn dpr" "sc_pending conn1 \<noteq> []" by blast
  then show ?case
  proof cases
    case stop
    then show ?thesis using "1.prems" by (simp add: read_loop.simps)
  next
    case over
    then have "read_loop u env peer conn1 dpr1 w reads1 idle1 = Some (Ok (conn', dpr', w', reads', idle'))"
      using "1.prems" by (simp add: read_loop.simps [of u env peer conn] r)
    from "1.IH"(1) [OF _ r [symmetric] refl refl over(2) this "1.prems"(2)] show ?thesis
      using over i(2) mono by auto
  next
    case data
    then obtain conn2 dpr2 w2 where a: "appendData u env peer conn1 dpr1 w = Some (Ok (conn2, dpr2, w2))"
        "read_loop u env peer conn2 dpr2 w2 reads1 idle1 = Some (Ok (conn', dpr', w', reads', idle'))"
      using "1.prems" by (auto simp: read_loop.simps [of u env peer conn] r obind_Ok)
    from "1.IH"(2) [OF _ r [symmetric] refl refl data(2) a(1) refl refl a(2) "1.prems"(2)] show ?thesis
      using data i mono by auto
  qed
qed

lemma process_loop_untouched:
  "process_loop u env peer conn dpr w reads idle = Some (Ok (conn', dpr', w', reads', idle')) \<Longrightarrow> idle' \<Longrightarrow>
   idle \<and> (sc_pending conn = [] \<and> sc_rrs conn = RRS_IDLE \<longrightarrow> sc_rrs conn' = RRS_IDLE)"
proof (induction u env peer conn dpr w reads idle rule: process_loop.induct)
  case (1 u env peer conn dpr w reads idle)
  obtain conn1 dpr1 w1 reads1 idle1 conn2 dpr2 w2 where
    r: "read_loop u env peer conn dpr w reads idle = Some (Ok (conn1, dpr1, w1, reads1, idle1))" and
    p: "progress_response u env conn1 dpr1 w1 = Ok (conn2, dpr2, w2)"
    using "1.prems"(1) by (subst (asm) process_loop.simps) (fastforce simp: obind_Ok)
  have p': "Some (progress_response u env conn1 dpr1 w1) = Some (Ok (conn2, dpr2, w2))" using p by simp
  note run = "1.prems"(1) [unfolded process_loop.simps [of u env peer conn] r obind_simps prod.case p, simplified]
  note rrs = progress_response_same(2) [OF p]
  have "idle1"
  proof (rule ccontr)
    assume "\<not> idle1"
    then show False
      using run "1.prems"(2) "1.IH" [OF r refl refl refl refl p' refl refl] by (auto split: if_splits)
  qed
  from read_loop_untouched [OF r this] show ?case
    using run rrs by (auto split: if_splits)
qed

text \<open>What a call of \<open>conn_processDataReady\<close> leaves of a connection that it does not close.\<close>

lemma conn_call:
  assumes "conn_processDataReady u env peer conn w reads closeIfIdle = Some (Ok (conn', res, calls, w', reads'))"
    "conn_wf conn" "res \<noteq> CONN_TO_CLOSE"
  shows "conn_wf conn'" "calls \<noteq> []" "\<forall>c \<in> set calls. call_fd c \<in> conn_fds conn' \<or> orphaned conn'"
    "res = CONN_IDLE \<Longrightarrow> sc_rrs conn' = RRS_IDLE" "closeIfIdle \<Longrightarrow> sc_rrs conn' \<noteq> RRS_IDLE"
proof -
  obtain dpr idle where
    p: "process_loop u env peer conn dpr_init w reads (sc_rrs conn = RRS_IDLE) = Some (Ok (conn', dpr, w', reads', idle))" and
    c: "\<not> dpr_closeConn dpr" "closeIfIdle \<Longrightarrow> sc_rrs conn' \<noteq> RRS_IDLE"
      "calls = await_fd (dpr_reqState dpr) (dpr_reqAwaitFd dpr) @ await_fd (dpr_respState dpr) (dpr_respAwaitFd dpr)"
      "res = (if idle then CONN_IDLE else CONN_BUSY)"
    using assms(1,3) by (auto simp: conn_processDataReady_def obind_Ok Let_def split: if_splits)
  have "rests conn' dpr"
    using process_loop_rests [OF p] assms(2) c(1) by (auto simp: conn_wf_def settled_def dpr_init_def)
  then show "conn_wf conn'" "calls \<noteq> []" "\<forall>c \<in> set calls. call_fd c \<in> conn_fds conn' \<or> orphaned conn'"
    using c(3) by (auto simp: rests_def await_fd_def split: DprState.splits)
  show "closeIfIdle \<Longrightarrow> sc_rrs conn' \<noteq> RRS_IDLE" by (rule c(2))
  show "sc_rrs conn' = RRS_IDLE" if "res = CONN_IDLE"
    using process_loop_untouched [OF p] c(4) that assms(2) by (auto simp: conn_wf_def split: if_splits)
qed

subsection \<open>The sanity check\<close>

text \<open>The loop over the requests without the check that ends the server with an internal error.\<close>

function serve_requests ::
    "char \<Rightarrow> ReqEnv \<Rightarrow> bytes option \<Rightarrow> ServerConnection \<Rightarrow> DataProcessingResult \<Rightarrow> World \<Rightarrow> (nat + bytes) list \<Rightarrow> bool \<Rightarrow>
     (ServerConnection \<times> DataProcessingResult \<times> World \<times> (nat + bytes) list \<times> bool) cres option" where
  "serve_requests u env peer conn dpr w reads idle =
     obind (read_loop u env peer conn dpr w reads idle) (\<lambda>(conn1, dpr1, w1, reads1, idle1).
     obind (Some (progress_response u env conn1 dpr1 w1)) (\<lambda>(conn2, dpr2, w2).
       if dpr_closeConn dpr2 \<or> sc_rrs conn2 \<noteq> RRS_READ_FINISHED \<or> sc_handler conn2 \<noteq> None
       then Some (Ok (conn2, dpr2, w2, reads1, idle1))
       else if wants_close (sc_header conn2) then Some (Ok (conn2, dpr_setCloseConn dpr2, w2, reads1, idle1))
       else serve_requests u env peer (next_request conn2) dpr2 w2 reads1 idle1))"
  by pat_completeness auto
termination
proof (relation "measure (\<lambda>(u, env, peer, conn, dpr, w, reads, idle). work_left conn + reads_left reads)", goal_cases)
  case 1
  show ?case by simp
next
  case (2 u env peer conn dpr w reads idle r conn1 p1 dpr1 p2 w1 p3 reads1 idle1 r2 conn2 p4 dpr2 w2)
  then have r: "read_loop u env peer conn dpr w reads idle = Some (Ok (conn1, dpr1, w1, reads1, idle1))"
    and p: "progress_response u env conn1 dpr1 w1 = Ok (conn2, dpr2, w2)" and f: "sc_rrs conn2 = RRS_READ_FINISHED" by auto
  have "work_left (next_request conn2) < work_left conn2" using f by (simp add: work_left_def next_request_def rrs_rank_def)
  then show ?case using read_loop_work [OF r] progress_response_same(1) [OF p] by simp
qed

declare serve_requests.simps [simp del]

lemma sanity_check:
  "conn_inv conn \<Longrightarrow> settled conn dpr \<Longrightarrow> dpr_respState dpr = DPR_READY \<Longrightarrow>
   process_loop u env peer conn dpr w reads idle = serve_requests u env peer conn dpr w reads idle"
proof (induction u env peer conn dpr w reads idle rule: process_loop.induct)
  case (1 u env peer conn dpr w reads idle)
  show ?case
    unfolding process_loop.simps [of u env peer conn] serve_requests.simps [of u env peer conn]
  proof (rule obind_cong [OF refl], clarify, rule obind_cong [OF refl], clarify)
    fix conn1 dpr1 w1 reads1 idle1 conn2 dpr2 w2
    assume r: "read_loop u env peer conn dpr w reads idle = Some (Ok (conn1, dpr1, w1, reads1, idle1))"
      and p: "progress_response u env conn1 dpr1 w1 = Ok (conn2, dpr2, w2)"
    have p': "Some (progress_response u env conn1 dpr1 w1) = Some (Ok (conn2, dpr2, w2))" using p by simp
    note i = read_loop_inv [OF r "1.prems"(1,2)]
    have "dpr_respState dpr1 = DPR_READY" using i "1.prems"(3) by (simp add: resp_same_def)
    note resp = respond_inv [OF p _ _ _ this]
    let ?stop = "dpr_closeConn dpr2 \<or> sc_rrs conn2 \<noteq> RRS_READ_FINISHED \<or> sc_handler conn2 \<noteq> None"
    have ready: "dpr_reqState dpr2 = DPR_READY" "dpr_respState dpr2 = DPR_READY" if "\<not> ?stop" using resp i that by auto
    have "process_loop u env peer (next_request conn2) dpr2 w2 reads1 idle1 = serve_requests u env peer (next_request conn2) dpr2 w2 reads1 idle1"
      if s: "\<not> ?stop" and c: "\<not> wants_close (sc_header conn2)"
      using "1.IH" [OF r refl refl refl refl p' refl refl s _ c next_request_inv] ready [OF s] s by (simp add: settled_def)
    then show "(if ?stop then Some (Ok (conn2, dpr2, w2, reads1, idle1))
        else if dpr_reqState dpr2 \<noteq> DPR_READY \<or> dpr_respState dpr2 \<noteq> DPR_READY then Some Abort
        else if wants_close (sc_header conn2) then Some (Ok (conn2, dpr_setCloseConn dpr2, w2, reads1, idle1))
        else process_loop u env peer (next_request conn2) dpr2 w2 reads1 idle1) =
      (if ?stop then Some (Ok (conn2, dpr2, w2, reads1, idle1))
        else if wants_close (sc_header conn2) then Some (Ok (conn2, dpr_setCloseConn dpr2, w2, reads1, idle1))
        else serve_requests u env peer (next_request conn2) dpr2 w2 reads1 idle1)"
      using ready by auto
  qed
qed

subsection \<open>Reachable states\<close>

text \<open>The states a connection can be in between two calls, whatever the client and the system do.\<close>

inductive conn_reachable :: "int \<Rightarrow> ServerConnection \<Rightarrow> bool" for fd where
  new: "conn_reachable fd (conn_new fd)"
| call: "conn_reachable fd conn \<Longrightarrow>
     conn_processDataReady u env peer conn w reads closeIfIdle = Some (Ok (conn', res, calls, w', reads')) \<Longrightarrow>
     res \<noteq> CONN_TO_CLOSE \<Longrightarrow> conn_reachable fd conn'"

lemma reachable_wf: "conn_reachable fd conn \<Longrightarrow> conn_wf conn"
  by (induction rule: conn_reachable.induct) (auto intro: conn_new_wf conn_call(1))

text \<open>C30: The states of a connection are what their names say: between two calls, whatever was received and whatever the system
  answered, an idle connection and one that reads the header of a request have no handler, no
  counts and no bytes left over; the trailer is only read of a chunked request; and a request that was read has
  a handler with a response, or with a program that will give one.\<close>

theorem states_in_order:
  assumes "conn_reachable fd conn"
  shows "case sc_rrs conn of
      RRS_READ_BODY \<Rightarrow> True
    | RRS_READ_TRAILER \<Rightarrow> sc_chunkHdr conn \<noteq> None \<and> sc_pending conn = []
    | RRS_READ_FINISHED \<Rightarrow> (case sc_handler conn of None \<Rightarrow> False | Some h \<Rightarrow> rh_response h \<noteq> None \<or> rh_cgiexe h \<noteq> None)
    | _ \<Rightarrow> sc_handler conn = None \<and> sc_chunkHdr conn = None \<and> sc_bodyLen conn = 0 \<and> sc_bodyReadLen conn = 0 \<and>
        sc_pending conn = []"
  using reachable_wf [OF assms]
  by (auto simp: conn_wf_def conn_inv_def fresh_def can_answer_def split: RequestReadState.splits option.splits)

theorem states_in_order_witness:
  "sc_rrs (conn_new 4) = RRS_READ_HEAD \<and> sc_handler (conn_new 4) = None \<and> sc_pending (conn_new 4) = []"
proof -
  have "sc_rrs (conn_new 4) = RRS_READ_HEAD" by (simp add: conn_new_def)
  with states_in_order [OF conn_reachable.new [of 4]] show ?thesis by simp
qed

text \<open>C29: The sanity check never fails: no client and no answer of the system ends the server with the internal error of
  \<open>conn_processDataReady\<close>.  In every state that a connection can reach the loop over its requests does exactly
  what it would do without the check.\<close>

theorem internal_error_unreachable:
  assumes "conn_reachable fd conn"
  shows "process_loop u env peer conn dpr_init w reads idle = serve_requests u env peer conn dpr_init w reads idle"
  using reachable_wf [OF assms] by (intro sanity_check) (auto simp: conn_wf_def settled_def dpr_init_def)

theorem internal_error_unreachable_witness:
  "serve_requests NUL example_env None (conn_new 4) dpr_init example_world [Inr []] True =
     Some (Ok (conn_new 4, dpr_setCloseConn dpr_init, example_world, [], True))"
proof -
  have "process_loop NUL example_env None (conn_new 4) dpr_init example_world [Inr []] True =
      Some (Ok (conn_new 4, dpr_setCloseConn dpr_init, example_world, [], True))"
    by (simp add: process_loop.simps read_loop.simps may_read_def conn_read_def conn_new_def dpr_init_def
        dpr_setCloseConn_def progress_response_def)
  with internal_error_unreachable [OF conn_reachable.new [of 4]] show ?thesis by metis
qed

subsection \<open>A program that answers early\<close>

text \<open>
  A response that is sent while a program does not take more of the body: the handler is freed, which closes the pipe
  \<open>inFd\<close> to the program, and then that descriptor is given to the selector; \<open>select\<close> fails for a closed
  descriptor, which ends the server.
\<close>

definition early_handler :: "int \<Rightarrow> RequestHandler" where
  "early_handler inFd = \<lparr>rh_peerAddr = None, rh_filemgr = None,
     rh_cgiexe = Some \<lparr>ce_onlyHead = False, ce_inFd = inFd, ce_outFd = - 1, ce_header = datahdr_new\<rparr>,
     rh_response = Some \<lparr>rs_header = None, rs_body = Some [], rs_fileDesc = - 1, rs_dataSize = 0, rs_dataOffset = 0, rs_nbytes = 0\<rparr>,
     rh_run = None\<rparr>"

lemma early_answer_waits_for_closed:
  assumes "0 \<le> inFd" "wo_cgiWrites w = []" "0 < n"
  shows "\<exists>conn' w'. conn_processDataReady u env peer
      ((conn_new fd)\<lparr>sc_rrs := RRS_READ_BODY, sc_bodyLen := n, sc_pending := [c], sc_handler := Some (early_handler inFd)\<rparr>)
      w reads False = Some (Ok (conn', CONN_BUSY, [DrsSetWriteFd inFd], w', reads)) \<and>
    sc_handler conn' = None \<and> wo_closed w' = wo_closed w @ [inFd]"
  using assms less_imp_neq [OF assms(3), symmetric]
  by (simp add: conn_processDataReady_def process_loop.simps read_loop.simps may_read_def conn_read_def conn_new_def dpr_init_def
      early_handler_def appendData_def read_head_def read_body_data_def appendBodyData_def req_body_loop.simps body_step_def
      give_body_def body_part_def reqhdlr_processData_def cgiexe_processData_def cgi_write.simps dpr_setReqState_def
      read_trailer_def progress_response_def reqhdlr_progressResponse_def rsndr_send_def send_body_def body_loop.simps
      write_loop.simps await_fd_def reqhdlr_free_def cgiexe_free_def rsndr_free_def Let_def)

end
