(* ===== verification/Server.thy ===== *)
theory Server
  imports Mainloop Connstate
begin

text \<open>
  The server (\<open>src/main.c\<close>) as a transition system: a step is a round of the main loop.  In every state it can
  reach, the connections of the table are in the states of theory \<open>Connstate\<close>, their descriptors never block, and each
  of them is waited for; and clients between two requests never keep the table full, but clients that send nothing do.
\<close>

subsection \<open>What a round does for the connections\<close>

definition drs_fds :: "DataReadySelector \<Rightarrow> int set" where
  "drs_fds drs = drs_readFds drs \<union> drs_writeFds drs"

text \<open>
  One of the descriptors that are waited for is the connection's.  A connection that lost its handler may wait
  for a descriptor of the handler.
\<close>

definition awaited :: "DataReadySelector \<Rightarrow> ServerConnection \<Rightarrow> bool" where
  "awaited drs conn = (if orphaned conn then drs_fds drs \<noteq> {} else conn_fds conn \<inter> drs_fds drs \<noteq> {})"

lemma awaited_mono: "awaited drs conn \<Longrightarrow> drs_fds drs \<subseteq> drs_fds drs' \<Longrightarrow> awaited drs' conn"
  by (auto simp: awaited_def split: if_splits)

lemma drs_calls_adds:
  assumes "drs_calls calls drs = Ok drs'" "drs_inv drs"
  shows "drs_inv drs'" "drs_fds drs' = drs_fds drs \<union> call_fd ` set calls"
proof -
  have "\<forall>c \<in> set calls. 0 \<le> call_fd c \<and> call_fd c < 1024"
    using drs_calls_undef [of calls drs] assms(1) by auto
  from drs_calls_inv [OF assms(2) this] assms(1) fds_of_calls [of calls]
  show "drs_inv drs'" "drs_fds drs' = drs_fds drs \<union> call_fd ` set calls" by (auto simp: drs_fds_def)
qed

lemma serve_conn_awaits:
  assumes "serve_conn u env c closing drs w = Some (Ok (c', res, drs', w'))" "conn_wf c" "drs_inv drs"
  shows "drs_inv drs'" "drs_fds drs \<subseteq> drs_fds drs'" "mw_flags w' = mw_flags w" "sc_socketFd c' = sc_socketFd c"
    "res \<noteq> CONN_TO_CLOSE \<Longrightarrow> conn_wf c' \<and> awaited drs' c' \<and> (closing \<longrightarrow> res = CONN_BUSY \<and> sc_rrs c' \<noteq> RRS_IDLE)"
proof -
  let ?fd = "sc_socketFd c"
  obtain calls cw reads' where
    p: "conn_processDataReady u env (mw_peer w ?fd) c ((mw_fd w ?fd)\<lparr>wo_nonce := mw_nonce w\<rparr>) (mw_reads w ?fd) closing =
        Some (Ok (c', res, calls, cw, reads'))" and
    d: "drs_calls calls drs = Ok drs'" and "mw_flags w' = mw_flags w"
    using assms(1) by (auto simp: serve_conn_def Let_def obind_Ok)
  then show "drs_inv drs'" "drs_fds drs \<subseteq> drs_fds drs'" "mw_flags w' = mw_flags w" "sc_socketFd c' = sc_socketFd c"
    using drs_calls_adds [OF d assms(3)] processDataReady_fd [OF p] by auto
  show "conn_wf c' \<and> awaited drs' c' \<and> (closing \<longrightarrow> res = CONN_BUSY \<and> sc_rrs c' \<noteq> RRS_IDLE)" if r: "res \<noteq> CONN_TO_CLOSE"
  proof -
    note call = conn_call [OF p assms(2) r]
    obtain k where k: "k \<in> set calls" using call(2) by (cases calls) auto
    then have "call_fd k \<in> drs_fds drs'" using drs_calls_adds(2) [OF d assms(3)] by auto
    then have "awaited drs' c'" using call(3) k by (auto simp: awaited_def)
    then show ?thesis using call(1,4,5) r by (cases res) auto
  qed
qed

text \<open>The state of a connection of the table: in order, with a descriptor that does not block.\<close>

definition conn_ok :: "MainWorld \<Rightarrow> ServerConnection \<Rightarrow> bool" where
  "conn_ok w conn = (conn_wf conn \<and> safe_flags (mw_flags w (sc_socketFd conn)))"

lemma free_conn_flags [simp]: "mw_flags (free_conn c w) = mw_flags w"
  by (simp add: free_conn_def Let_def)

lemma serve_list_ok:
  "serve_list u env closing cs drs w = Some (Ok (rs, drs', w')) \<Longrightarrow> \<forall>c \<in> set cs. conn_ok w c \<Longrightarrow> drs_inv drs \<Longrightarrow>
   drs_inv drs' \<and> drs_fds drs \<subseteq> drs_fds drs' \<and> mw_flags w' = mw_flags w \<and> length rs = length cs \<and>
   (\<forall>(c', res) \<in> set rs. res \<noteq> CONN_TO_CLOSE \<longrightarrow> conn_ok w c' \<and> awaited drs' c') \<and>
   (closing \<and> (\<forall>(c', res) \<in> set rs. res \<noteq> CONN_TO_CLOSE) \<longrightarrow> (\<forall>(c', res) \<in> set rs. sc_rrs c' \<noteq> RRS_IDLE))"
proof (induction cs arbitrary: closing drs w rs)
  case Nil
  then show ?case by simp
next
  case (Cons c cs)
  obtain c' res drs1 w1 rs' where s: "serve_conn u env c closing drs w = Some (Ok (c', res, drs1, w1))"
      "serve_list u env (closing \<and> res = CONN_BUSY) cs drs1 (if res = CONN_TO_CLOSE then free_conn c' w1 else w1) = Some (Ok (rs', drs', w'))"
      "rs = (c', res) # rs'"
    using Cons.prems(1) by (auto simp: obind_Ok)
  have c: "conn_wf c" "safe_flags (mw_flags w (sc_socketFd c))" using Cons.prems(2) by (simp_all add: conn_ok_def)
  note a = serve_conn_awaits [OF s(1) c(1) Cons.prems(3)]
  have w: "mw_flags (if res = CONN_TO_CLOSE then free_conn c' w1 else w1) = mw_flags w" using a(3) by simp
  have "\<forall>c \<in> set cs. conn_ok (if res = CONN_TO_CLOSE then free_conn c' w1 else w1) c"
    using Cons.prems(2) w by (simp add: conn_ok_def)
  note IH = Cons.IH [OF s(2) this a(1)]
  have ok: "conn_ok (if res = CONN_TO_CLOSE then free_conn c' w1 else w1) = conn_ok w" using w by (simp add: conn_ok_def fun_eq_iff)
  have head: "res \<noteq> CONN_TO_CLOSE \<longrightarrow> conn_ok w c' \<and> awaited drs' c' \<and> (closing \<longrightarrow> res = CONN_BUSY \<and> sc_rrs c' \<noteq> RRS_IDLE)"
    using a(4,5) c(2) awaited_mono [of drs1 c' drs'] IH by (auto simp: conn_ok_def)
  show ?case using IH [unfolded ok w] head a(2) s(3) by auto
qed

lemma accepted_ok:
  "accepted n as w = Ok (new, w') \<Longrightarrow> \<forall>c \<in> set cs. conn_ok w c \<Longrightarrow> \<forall>c \<in> set (cs @ new). conn_ok w' c"
proof (induction n as w arbitrary: cs new rule: accepted.induct)
  case (1 n fd fa cw reads peer as w)
  obtain fl new' where n: "drs_setNonBlockingCloExecFlags fa = Ok fl"
      "accepted n as (open_conn fd fl cw reads peer w) = Ok (new', w')" "new = conn_new fd # new'"
    using "1.prems"(1) by (auto simp: cbind_Ok)
  have "sc_socketFd (conn_new fd) = fd" by (simp add: conn_new_def)
  then have "\<forall>c \<in> set (cs @ [conn_new fd]). conn_ok (open_conn fd fl cw reads peer w) c"
    using "1.prems"(2) flags_safe(1) [OF n(1)] conn_new_wf by (auto simp: conn_ok_def open_conn_def)
  from "1.IH" [OF n(2) this] show ?case using n(3) by simp
qed simp_all

lemma accepted_length: "accepted n as w = Ok (new, w') \<Longrightarrow> length new \<le> n"
  by (induction n as w arbitrary: new rule: accepted.induct) (auto simp: cbind_Ok)

lemma drs_new_inv: "drs_inv drs_new" "drs_fds drs_new = {}"
  by (simp_all add: drs_inv_def drs_new_def drs_fds_def)

lemma of_res_sub: "set (of_res r rs) = {c. (c, r) \<in> set rs}"
  by (force simp: of_res_def image_iff)

lemma kept_all:
  "length (of_res CONN_IDLE rs @ of_res CONN_BUSY rs) \<le> length rs \<and>
   (length (of_res CONN_IDLE rs @ of_res CONN_BUSY rs) = length rs \<longrightarrow> (\<forall>(c, res) \<in> set rs. res \<noteq> CONN_TO_CLOSE))"
proof (induction rs)
  case (Cons x rs)
  obtain c res where "x = (c, res)" by fastforce
  with Cons show ?case by (cases res) auto
qed simp

lemma round_list_ok:
  assumes "round_list u env m listenfd ra cs drs w = Some (Ok (cs', drs', w'))" "\<forall>c \<in> set cs. conn_ok w c" "length cs \<le> m"
  shows "drs_inv drs'" "\<forall>c \<in> set cs'. conn_ok w' c \<and> awaited drs' c"
    "length cs' = m \<Longrightarrow> \<forall>c \<in> set cs'. sc_rrs c \<noteq> RRS_IDLE"
proof -
  obtain new w1 rs where new: "accepted (m - length cs) (ra_accept ra) w = Ok (new, w1)" and
      r: "serve_list u env (length (cs @ new) = m) (cs @ new) drs_new w1 = Some (Ok (rs, drs', w'))"
      "cs' = of_res CONN_IDLE rs @ of_res CONN_BUSY rs"
    using assms(1) unfolding round_list_def by (auto simp: obind_Ok split: if_splits)
  note s = serve_list_ok [OF r(1) accepted_ok [OF new assms(2)] drs_new_inv(1)]
  have ok: "conn_ok w' = conn_ok w1" using s by (simp add: conn_ok_def fun_eq_iff)
  show "drs_inv drs'" using s by blast
  show "\<forall>c \<in> set cs'. conn_ok w' c \<and> awaited drs' c"
    using s unfolding ok r(2) by (auto simp: of_res_sub)
  have len: "length (cs @ new) \<le> m"
    using accepted_length [OF new] assms(3) by simp
  show "\<forall>c \<in> set cs'. sc_rrs c \<noteq> RRS_IDLE" if "length cs' = m"
  proof -
    have "length cs' = length rs \<and> length (cs @ new) = m" using kept_all [of rs] s len r(2) that by simp
    then have "\<forall>(c, res) \<in> set rs. sc_rrs c \<noteq> RRS_IDLE" using s kept_all [of rs] r(2) by simp
    then show ?thesis using r(2) by (auto simp: of_res_sub)
  qed
qed

subsection \<open>The transition system\<close>

text \<open>The number of clients the arrays of the loop have room for.\<close>

definition max_clients :: "ReqEnv \<Rightarrow> nat" where
  "max_clients env = unat (config_getMaxClients (re_config env))"

text \<open>A step of the server: a round, with any answers of the system.\<close>

inductive server_step :: "char \<Rightarrow> ReqEnv \<Rightarrow> int \<Rightarrow> MainState \<times> MainWorld \<Rightarrow> MainState \<times> MainWorld \<Rightarrow> bool"
  for u env listenfd where
  round: "mainloop_round u env (max_clients env) listenfd ra st w = Some (Ok (st', w')) \<Longrightarrow>
     server_step u env listenfd (st, w) (st', w')"

inductive_cases server_stepE: "server_step u env listenfd (st, w) (st', w')"

inductive server_reachable :: "char \<Rightarrow> ReqEnv \<Rightarrow> int \<Rightarrow> MainState \<times> MainWorld \<Rightarrow> bool" for u env listenfd where
  start: "drs_setNonBlockingCloExecFlags fa = Ok fl \<Longrightarrow> mw_accepted w = [] \<Longrightarrow> mw_closed w = [] \<Longrightarrow>
     server_reachable u env listenfd (main_init (re_config env), w\<lparr>mw_flags := (mw_flags w)(listenfd := fl)\<rparr>)"
| step: "server_reachable u env listenfd s \<Longrightarrow> server_step u env listenfd s s' \<Longrightarrow> server_reachable u env listenfd s'"

text \<open>What the program computes is reachable.\<close>

lemma rounds_reachable:
  "mainloop_rounds u env (max_clients env) listenfd ras st w = Some (Ok (st', w')) \<Longrightarrow>
   server_reachable u env listenfd (st, w) \<Longrightarrow> server_reachable u env listenfd (st', w')"
proof (induction ras arbitrary: st w)
  case (Cons ra ras)
  then obtain st1 w1 where r: "mainloop_round u env (max_clients env) listenfd ra st w = Some (Ok (st1, w1))"
      "mainloop_rounds u env (max_clients env) listenfd ras st1 w1 = Some (Ok (st', w'))"
    by (auto simp: obind_Ok)
  show ?case by (rule Cons.IH [OF r(2) server_reachable.step [OF Cons.prems(2) server_step.round [OF r(1)]]])
qed simp

lemma mainloop_reachable:
  assumes "mainloop u env listenfd bindOk listenOk userOk fa ras w = Some (Ok (st, w'))" "mw_accepted w = []" "mw_closed w = []"
  shows "server_reachable u env listenfd (st, w')"
proof -
  obtain fl where "drs_setNonBlockingCloExecFlags fa = Ok fl" and
      r: "mainloop_rounds u env (max_clients env) listenfd ras (main_init (re_config env)) (w\<lparr>mw_flags := (mw_flags w)(listenfd := fl)\<rparr>) =
        Some (Ok (st, w'))"
    using assms(1) by (auto simp: mainloop_def obind_Ok max_clients_def split: if_splits)
  from rounds_reachable [OF r server_reachable.start [OF this(1) assms(2,3)]] show ?thesis .
qed

text \<open>The invariant of the server; the connections of the table are the list \<open>cs\<close>.\<close>

definition server_inv :: "nat \<Rightarrow> MainState \<times> MainWorld \<Rightarrow> ServerConnection list \<Rightarrow> bool" where
  "server_inv m s cs = (case s of (st, w) \<Rightarrow> table m st cs \<and> ledger cs w \<and> drs_inv (ms_drs st) \<and>
     (\<forall>c \<in> set cs. conn_ok w c \<and> awaited (ms_drs st) c))"

lemma server_start_inv:
  assumes "mw_accepted w = []" "mw_closed w = []"
  shows "server_inv (max_clients env) (main_init (re_config env), w\<lparr>mw_flags := f\<rparr>) []"
proof -
  have "ms_drs (main_init (re_config env)) = drs_new" by (simp add: main_init_def Let_def)
  then show ?thesis
    using table_init [of "re_config env"] drs_new_inv assms by (simp add: server_inv_def max_clients_def ledger_def closed_sockets_def)
qed

lemma server_step_inv:
  assumes "server_step u env listenfd (st, w) (st', w')" "server_inv (max_clients env) (st, w) cs"
  shows "\<exists>cs'. server_inv (max_clients env) (st', w') cs' \<and>
    (length cs' = max_clients env \<longrightarrow> (\<forall>c \<in> set cs'. sc_rrs c \<noteq> RRS_IDLE))"
proof -
  obtain ra where 1: "mainloop_round u env (max_clients env) listenfd ra st w = Some (Ok (st', w'))"
    using assms(1) by (rule server_stepE)
  note inv = assms(2) [unfolded server_inv_def prod.case]
  have t: "table (max_clients env) st cs" using inv by blast
  from same_run_Ok [OF round_refines [OF t, of u env listenfd ra w, unfolded 1]]
  obtain cs' drs where r: "round_list u env (max_clients env) listenfd ra cs (ms_drs st) w = Some (Ok (cs', drs, w'))"
      "ms_drs st' = drs" "table (max_clients env) st' cs'" by (auto simp: same_table_def)
  have "length cs \<le> max_clients env" using t by (simp add: table_def)
  note ok = round_list_ok [OF r(1) _ this]
  show ?thesis
    using ok inv r(2,3) round_ledger [OF r(1)] by (intro exI [of _ cs']) (auto simp: server_inv_def)
qed

lemma server_reachable_inv: "server_reachable u env listenfd s \<Longrightarrow> \<exists>cs. server_inv (max_clients env) s cs"
proof (induction rule: server_reachable.induct)
  case (start fa fl w)
  then show ?case using server_start_inv by blast
next
  case (step s s')
  then show ?case using server_step_inv by (cases s; cases s') blast
qed

text \<open>C5: The invariant of the server: in every state it reaches, whatever the clients and the system do, the connections of
  the table are in order (the states of \<open>Connstate\<close>), reading and writing them never blocks and no CGI program
  inherits them, and none is forgotten: the next \<open>select\<close> waits for a descriptor of each of them, its socket, the
  pipe to or from its CGI program or the file it is sent (when the handler was freed while the body is still read, for some
  descriptor).\<close>

theorem server_invariant:
  assumes "server_reachable u env listenfd (st, w)"
  shows "\<exists>cs. take (ms_connCount st) (ms_connections st) = map Some cs \<and> length cs = ms_connCount st \<and>
    (\<forall>c \<in> set cs. conn_wf c \<and> safe_flags (mw_flags w (sc_socketFd c)) \<and>
       (if orphaned c then drs_readFds (ms_drs st) \<union> drs_writeFds (ms_drs st) \<noteq> {}
        else conn_fds c \<inter> (drs_readFds (ms_drs st) \<union> drs_writeFds (ms_drs st)) \<noteq> {}))"
  using server_reachable_inv [OF assms]
  by (auto simp: server_inv_def table_def conn_ok_def awaited_def drs_fds_def split: if_splits)

text \<open>C6: Clients that are kept alive between requests do not fill the table: when it is full after a round, no connection in it is in
  the state \<open>RRS_IDLE\<close>, where a request was answered and nothing of the next one has come; while there are such connections, one
  of them is closed, so that there is room.  Each connection of a full table has a request under way, or is at the header
  of its first request, of which nothing needs to have come: those are never closed (see \<open>silent_clients_lock_out\<close>).\<close>

theorem kept_alive_clients_make_room:
  assumes "server_reachable u env listenfd (st, w)"
    and "mainloop_round u env (unat (config_getMaxClients (re_config env))) listenfd ra st w = Some (Ok (st', w'))"
    and "ms_connCount st' = unat (config_getMaxClients (re_config env))"
  shows "\<forall>c \<in> set (ms_connections st'). \<exists>conn. c = Some conn \<and> sc_rrs conn \<noteq> RRS_IDLE"
proof -
  obtain cs where "server_inv (max_clients env) (st, w) cs" using server_reachable_inv [OF assms(1)] by blast
  from server_step_inv [OF server_step.round [OF assms(2) [folded max_clients_def]] this]
  obtain cs' where c: "table (max_clients env) st' cs'" "length cs' = max_clients env \<longrightarrow> (\<forall>c \<in> set cs'. sc_rrs c \<noteq> RRS_IDLE)"
    by (auto simp: server_inv_def)
  then have "take (length cs') (ms_connections st') = map Some cs'" "length (ms_connections st') = length cs'"
    using assms(3) by (simp_all add: table_def max_clients_def)
  then have e: "ms_connections st' = map Some cs'" by simp
  have "length cs' = max_clients env" using c(1) assms(3) by (simp add: table_def max_clients_def)
  then show ?thesis using c(2) by (simp add: e)
qed

subsection \<open>Clients that send nothing\<close>

text \<open>
  A connection starts at the header of its first request, not idle, so a client that connects and sends nothing keeps its place:
  when such clients fill the table, then in any number of rounds none of them is closed and no other client is accepted.
\<close>

lemma silent_round:
  "conn_processDataReady u env peer (conn_new fd) w [] b = Some (Ok (conn_new fd, CONN_BUSY, [DrsSetReadFd fd], w, []))"
  using silent_client [of u env peer fd w] by (cases b) (auto simp: conn_processDataReady_def obind_Ok Let_def conn_new_def)

lemma silent_list:
  "\<forall>fd \<in> set fds. mw_reads w fd = [] \<and> 0 \<le> fd \<and> fd < 1024 \<Longrightarrow>
   \<exists>drs' w'. serve_list u env closing (map conn_new fds) drs w = Some (Ok (map (\<lambda>fd. (conn_new fd, CONN_BUSY)) fds, drs', w')) \<and>
     mw_reads w' = mw_reads w \<and> mw_accepted w' = mw_accepted w"
proof (induction fds arbitrary: closing drs w)
  case (Cons fd fds)
  let ?w = "w\<lparr>mw_fd := (mw_fd w)(fd := (mw_fd w fd)\<lparr>wo_nonce := mw_nonce w\<rparr>)\<rparr>"
  have c: "sc_socketFd (conn_new fd) = fd" by (simp add: conn_new_def)
  have "(mw_reads w)(fd := []) = mw_reads w" using Cons.prems by auto
  then obtain drs1 where s: "serve_conn u env (conn_new fd) closing drs w = Some (Ok (conn_new fd, CONN_BUSY, drs1, ?w))"
    using Cons.prems by (auto simp: serve_conn_def c silent_round drs_setReadFd_def fd_set_add_def)
  have "\<forall>fd \<in> set fds. mw_reads ?w fd = [] \<and> 0 \<le> fd \<and> fd < 1024" using Cons.prems by simp
  from Cons.IH [OF this, of closing drs1] show ?case using s by auto
qed simp

lemma silent_clients_stay:
  assumes "table m st (map conn_new fds)" "length fds = m" "ra_select ra"
    and "\<forall>fd \<in> set fds. mw_reads w fd = [] \<and> 0 \<le> fd \<and> fd < 1024"
  shows "\<exists>st' w'. mainloop_round u env m listenfd ra st w = Some (Ok (st', w')) \<and> table m st' (map conn_new fds) \<and>
    mw_reads w' = mw_reads w \<and> mw_accepted w' = mw_accepted w"
proof -
  obtain drs' w' where s: "serve_list u env True (map conn_new fds) drs_new w =
      Some (Ok (map (\<lambda>fd. (conn_new fd, CONN_BUSY)) fds, drs', w'))" "mw_reads w' = mw_reads w" "mw_accepted w' = mw_accepted w"
    using silent_list [OF assms(4), of u env True drs_new] by blast
  have "of_res CONN_IDLE (map (\<lambda>fd. (conn_new fd, CONN_BUSY)) fds) = []"
    "of_res CONN_BUSY (map (\<lambda>fd. (conn_new fd, CONN_BUSY)) fds) = map conn_new fds"
    by (simp_all add: of_res_def)
  then have "round_list u env m listenfd ra (map conn_new fds) (ms_drs st) w = Some (Ok (map conn_new fds, drs', w'))"
    using assms(2,3) s(1) by (simp add: round_list_def)
  then show ?thesis using round_refines [OF assms(1), of u env listenfd ra w] s(2,3) by (auto simp: same_table_def)
qed

lemma silent_clients_lock_out:
  "table m st (map conn_new fds) \<Longrightarrow> length fds = m \<Longrightarrow> \<forall>ra \<in> set ras. ra_select ra \<Longrightarrow>
   \<forall>fd \<in> set fds. mw_reads w fd = [] \<and> 0 \<le> fd \<and> fd < 1024 \<Longrightarrow>
   \<exists>st' w'. mainloop_rounds u env m listenfd ras st w = Some (Ok (st', w')) \<and> table m st' (map conn_new fds) \<and>
     mw_accepted w' = mw_accepted w"
proof (induction ras arbitrary: st w)
  case (Cons ra ras)
  obtain st1 w1 where r: "mainloop_round u env m listenfd ra st w = Some (Ok (st1, w1))" "table m st1 (map conn_new fds)"
      "mw_reads w1 = mw_reads w" "mw_accepted w1 = mw_accepted w"
    using silent_clients_stay [OF Cons.prems(1,2) _ Cons.prems(4), of ra u env listenfd] Cons.prems(3) by auto
  show ?case using Cons.IH [OF r(2) Cons.prems(2), of w1] Cons.prems(3,4) r by simp
qed simp

text \<open>A server with room for one client, which connects and sends nothing.\<close>

definition small_env :: ReqEnv where
  "small_env = example_env\<lparr>re_config := (re_config example_env)\<lparr>cf_maxClients := 1\<rparr>\<rparr>"

definition small_start :: "MainState \<times> MainWorld" where
  "small_start = (main_init (re_config small_env), example_main\<lparr>mw_flags := (mw_flags example_main)(3 := (0x802, 1))\<rparr>)"

lemma small_reachable: "server_reachable NUL small_env 3 small_start"
  unfolding small_start_def
  by (rule server_reachable.start [OF fcntl_ok_flags]) (simp_all add: example_main_def)

lemma small_round:
  "\<exists>st w. mainloop_round NUL small_env (unat (config_getMaxClients (re_config small_env))) 3 example_round (fst small_start) (snd small_start) =
     Some (Ok (st, w)) \<and> ms_connCount st = 1 \<and> ms_connections st = [Some (conn_new 4)]"
proof -
  have m: "unat (config_getMaxClients (re_config small_env)) = Suc 0"
    by (simp add: config_getMaxClients_def small_env_def)
  have fd: "sc_socketFd (conn_new fd) = fd" for fd by (simp add: conn_new_def)
  show ?thesis
    unfolding m small_start_def fst_conv snd_conv
    by (simp add: m main_init_def Let_def mainloop_round_def example_round_def example_main_def open_conn_def serve_conn_def fd
        drs_setReadFd_def fd_set_add_def drs_new_def drs_select_def arr_set_def arr_get_def serve_all_def scan_loop.simps
        fcntl_ok_flags silent_round copy_loop.simps(2))
qed

theorem server_invariant_witness:
  "\<exists>st w cs. server_reachable NUL small_env 3 (st, w) \<and> take 1 (ms_connections st) = map Some cs \<and> cs = [conn_new 4] \<and>
     safe_flags (mw_flags w 4) \<and> drs_readFds (ms_drs st) \<union> drs_writeFds (ms_drs st) \<noteq> {}"
proof -
  obtain st w where r: "mainloop_round NUL small_env (max_clients small_env) 3 example_round (fst small_start) (snd small_start) = Some (Ok (st, w))"
      and c: "ms_connCount st = 1" "ms_connections st = [Some (conn_new 4)]"
    using small_round unfolding max_clients_def by blast
  have "server_step NUL small_env 3 small_start (st, w)"
    using server_step.round [OF r] by simp
  from server_reachable.step [OF small_reachable this] have s: "server_reachable NUL small_env 3 (st, w)" .
  from server_invariant [OF this] c s show ?thesis
    by (fastforce simp: conn_new_def orphaned_def)
qed

theorem kept_alive_clients_make_room_witness:
  "\<exists>st w. mainloop_round NUL small_env (unat (config_getMaxClients (re_config small_env))) 3 example_round (fst small_start) (snd small_start) =
     Some (Ok (st, w)) \<and> (\<forall>c \<in> set (ms_connections st). \<exists>conn. c = Some conn \<and> sc_rrs conn \<noteq> RRS_IDLE)"
proof -
  obtain st w where r: "mainloop_round NUL small_env (unat (config_getMaxClients (re_config small_env))) 3 example_round
        (fst small_start) (snd small_start) = Some (Ok (st, w))" and "ms_connCount st = 1"
    using small_round by blast
  moreover have "unat (config_getMaxClients (re_config small_env)) = 1"
    by (simp add: config_getMaxClients_def small_env_def)
  ultimately show ?thesis
    using kept_alive_clients_make_room [of NUL small_env 3 "fst small_start" "snd small_start"] small_reachable by auto
qed

end
