(* ===== verification/Readonly.thy ===== *)
theory Readonly
  imports Server
begin

text \<open>
  What no connection can change: the interface \<open>conn_invariant\<close> for an invariant of the request handler and its world,
  which the loops of a connection keep when the operations of the handler do (\<open>src/serverconnection.c\<close>), and its use for a
  server whose configuration lets nobody modify files: no client makes it change the file system.
\<close>

subsection \<open>Invariants of a connection\<close>

locale conn_invariant =
  fixes env :: ReqEnv and P :: "RequestHandler option \<Rightarrow> World \<Rightarrow> bool"
  assumes created: "reqhdlr_new env w hdr peer = Ok (h, w') \<Longrightarrow> P None w \<Longrightarrow> P (Some h) w'"
    and body: "reqhdlr_processData env w h d dpr = Ok (h', n, dpr', w') \<Longrightarrow> P (Some h) w \<Longrightarrow> P (Some h') w'"
    and completed: "reqhdlr_requestReadCompleted env w h hdr = Some (Ok (h', w')) \<Longrightarrow> P (Some h) w \<Longrightarrow> P (Some h') w'"
    and progressed: "reqhdlr_progressResponse u env w h fd dpr = Ok (fin, h', dpr', w') \<Longrightarrow> P (Some h) w \<Longrightarrow> P (Some h') w'"
    and freed: "P (Some h) w \<Longrightarrow> P None (w\<lparr>wo_calls := wo_calls w @ fst (reqhdlr_free (Some h)),
                  wo_closed := wo_closed w @ snd (reqhdlr_free (Some h))\<rparr>)"
begin

lemma read_head_keeps:
  assumes "read_head u env peer conn w = Ok (conn', w')" "conn_inv conn" "P (sc_handler conn) w"
  shows "P (sc_handler conn') w'"
proof (cases "sc_rrs conn = RRS_READ_HEAD")
  case True
  then obtain conn1 fin where b: "header_bytes u env conn = Ok (conn1, fin)"
      "(if fin then onFinishedHeader env peer conn1 w else Ok (conn1, w)) = Ok (conn', w')"
    using assms(1) by (auto simp: read_head_def cbind_Ok)
  have "sc_handler conn1 = None" "P None w"
    using header_bytes_same(2) [OF b(1)] assms(2,3) True by (auto simp: conn_inv_def fresh_def)
  then show ?thesis
    using b(2) by (auto simp: onFinishedHeader_def cbind_Ok Let_def split: if_splits dest: created)
qed (use assms(1,3) in \<open>simp add: read_head_def\<close>)

lemma body_step_keeps:
  "body_step env conn dpr w bol = Ok (conn', dpr', w', bol', stop) \<Longrightarrow> P (sc_handler conn) w \<Longrightarrow> P (sc_handler conn') w'"
  by (auto simp: body_step_def give_body_def Let_def cbind_Ok split: if_splits option.splits dest: body)

lemma chunk_line_handler: "chunk_line conn c bol = (conn', bol') \<Longrightarrow> sc_handler conn' = sc_handler conn"
  by (auto simp: chunk_line_def Let_def split: option.splits if_splits)

lemma req_body_loop_keeps:
  "req_body_loop e conn dpr w bol = Some (Ok (conn', dpr', w', rest)) \<Longrightarrow> e = env \<Longrightarrow> P (sc_handler conn) w \<Longrightarrow>
   P (sc_handler conn') w'"
proof (induction e conn dpr w bol rule: req_body_loop.induct)
  case (1 e conn dpr w bol)
  show ?case
  proof (cases "sc_rrs conn \<noteq> RRS_READ_BODY \<or> bol = []")
    case True
    then show ?thesis using "1.prems" by (subst (asm) req_body_loop.simps) auto
  next
    case False
    then have go: "\<not> sc_bodyLen conn < sc_bodyReadLen conn"
      using "1.prems"(1) by (subst (asm) req_body_loop.simps) auto
    obtain conn1 dpr1 w1 bol1 stop where g: "body_step e conn dpr w bol = Ok (conn1, dpr1, w1, bol1, stop)"
      using "1.prems"(1) False go by (subst (asm) req_body_loop.simps) (auto split: cres.splits)
    note r = "1.prems"(1) [unfolded req_body_loop.simps [of e conn dpr w bol] g if_not_P [OF False] if_not_P [OF go], simplified]
    have p: "P (sc_handler conn1) w1" using body_step_keeps g "1.prems"(2,3) by blast
    note IH = "1.IH" [OF False go g refl refl refl refl]
    consider (stop) "stop \<or> sc_bodyReadLen conn1 = sc_bodyLen conn1 \<and> sc_chunkHdr conn1 = None"
      | (line) c where "\<not> stop" "sc_bodyReadLen conn1 = sc_bodyLen conn1" "sc_chunkHdr conn1 = Some c"
      | (more) "\<not> stop" "sc_bodyReadLen conn1 \<noteq> sc_bodyLen conn1"
      by (cases "sc_chunkHdr conn1") auto
    then show ?thesis
    proof cases
      case stop
      then show ?thesis using r p by (auto split: if_splits)
    next
      case line
      obtain conn2 bol2 where c: "chunk_line conn1 c bol1 = (conn2, bol2)" by fastforce
      have "req_body_loop e conn2 dpr1 w1 bol2 = Some (Ok (conn', dpr', w', rest))" using r line c by simp
      from IH(1) [OF line c [symmetric] this "1.prems"(2)] show ?thesis using p chunk_line_handler [OF c] by simp
    next
      case more
      have "req_body_loop e conn1 dpr1 w1 bol1 = Some (Ok (conn', dpr', w', rest))" using r more by simp
      from IH(2) [OF more this "1.prems"(2) p] show ?thesis .
    qed
  qed
qed

lemma appendData_keeps:
  assumes "appendData u env peer conn dpr w = Some (Ok (conn', dpr', w'))" "conn_inv conn" "P (sc_handler conn) w"
  shows "P (sc_handler conn') w'"
proof -
  let ?c = "if sc_rrs conn = RRS_IDLE then conn\<lparr>sc_header := reqhdr_new, sc_rrs := RRS_READ_HEAD\<rparr> else conn"
  have c0: "conn_inv ?c" "P (sc_handler ?c) w" using assms(2,3) by (auto simp: conn_inv_def fresh_def)
  obtain conn1 w1 conn2 dpr2 w2 conn3 where
    1: "read_head u env peer ?c w = Ok (conn1, w1)" and
    2: "read_body_data env conn1 dpr w1 = Some (Ok (conn2, dpr2, w2))" and
    3: "read_trailer u env conn2 = Ok conn3" and
    4: "(if sc_rrs conn \<noteq> RRS_READ_FINISHED \<and> sc_rrs conn3 = RRS_READ_FINISHED
        then obind (request_completed env conn3 w2) (\<lambda>(conn4, w4). Some (Ok (conn4, dpr2, w4)))
        else Some (Ok (conn3, dpr2, w2))) = Some (Ok (conn', dpr', w'))"
    using assms(1) unfolding appendData_def Let_def by (fastforce simp: obind_Ok)
  have "P (sc_handler conn1) w1" by (rule read_head_keeps [OF 1 c0])
  then have "P (sc_handler conn2) w2"
    using 2 by (auto simp: read_body_data_def appendBodyData_def obind_Ok split: if_splits dest: req_body_loop_keeps)
  moreover have "sc_handler conn3 = sc_handler conn2"
    using 3 by (auto simp: read_trailer_def cbind_Ok split: if_splits dest!: header_bytes_same(2))
  ultimately have "P (sc_handler conn3) w2" by simp
  then show ?thesis
    using 4 by (auto simp: request_completed_def obind_Ok split: if_splits option.splits dest: completed)
qed

lemma read_loop_keeps:
  "read_loop u e peer conn dpr w reads idle = Some (Ok (conn', dpr', w', reads', idle')) \<Longrightarrow> e = env \<Longrightarrow> conn_inv conn \<Longrightarrow>
   P (sc_handler conn) w \<Longrightarrow> P (sc_handler conn') w'"
proof (induction u e peer conn dpr w reads idle rule: read_loop.induct)
  case (1 u e peer conn dpr w reads idle)
  obtain conn1 dpr1 reads1 idle1 where r: "conn_read conn dpr reads idle = (conn1, dpr1, reads1, idle1)"
    by (metis prod_cases4)
  have h: "sc_handler conn1 = sc_handler conn" using r by (auto simp: conn_read_def split: if_splits list.splits sum.splits)
  note i = conn_read_inv [OF r]
  consider (stop) "\<not> may_read conn dpr" | (over) "may_read conn dpr" "sc_pending conn1 = []"
    | (data) "may_read conn dpr" "sc_pending conn1 \<noteq> []" by blast
  then show ?case
  proof cases
    case stop
    then show ?thesis using "1.prems" by (simp add: read_loop.simps)
  next
    case over
    then have "read_loop u e peer conn1 dpr1 w reads1 idle1 = Some (Ok (conn', dpr', w', reads', idle'))"
      using "1.prems"(1) by (simp add: read_loop.simps [of u e peer conn] r)
    from "1.IH"(1) [OF _ r [symmetric] refl refl over(2) this "1.prems"(2)] show ?thesis
      using i(1) h "1.prems"(3,4) over(1) by simp
  next
    case data
    then obtain conn2 dpr2 w2 where a: "appendData u e peer conn1 dpr1 w = Some (Ok (conn2, dpr2, w2))"
        "read_loop u e peer conn2 dpr2 w2 reads1 idle1 = Some (Ok (conn', dpr', w', reads', idle'))"
      using "1.prems"(1) by (auto simp: read_loop.simps [of u e peer conn] r obind_Ok)
    have c: "conn_inv conn1" "sc_rrs conn1 \<noteq> RRS_READ_FINISHED" "dpr_reqState dpr1 = DPR_READY"
      using i(1,2,4) data "1.prems"(3) by (auto simp: may_read_def)
    have "conn_inv conn2" "P (sc_handler conn2) w2"
      using appendData_inv [OF a(1) c] appendData_keeps [OF a(1) [unfolded "1.prems"(2)] c(1)] "1.prems"(4) h by simp_all
    with "1.IH"(2) [OF _ r [symmetric] refl refl data(2) a(1) refl refl a(2) "1.prems"(2)] data(1) show ?thesis by simp
  qed
qed

lemma progress_response_keeps:
  assumes "progress_response u env conn dpr w = Ok (conn', dpr', w')" "P (sc_handler conn) w"
  shows "P (sc_handler conn') w'"
proof (cases "sc_handler conn = None \<or> dpr_closeConn dpr")
  case True
  then show ?thesis using assms by (auto simp: progress_response_def split: option.splits)
next
  case False
  then obtain h fin h' w1 where h: "sc_handler conn = Some h" and
      p: "reqhdlr_progressResponse u env w h (sc_socketFd conn) dpr = Ok (fin, h', dpr', w1)" and
      r: "if fin then conn' = conn\<lparr>sc_handler := None\<rparr> \<and> w' = w1\<lparr>wo_calls := wo_calls w1 @ fst (reqhdlr_free (Some h')),
            wo_closed := wo_closed w1 @ snd (reqhdlr_free (Some h'))\<rparr>
          else conn' = conn\<lparr>sc_handler := Some h'\<rparr> \<and> w' = w1"
    using assms(1) by (auto simp: progress_response_def cbind_Ok split: if_splits)
  have "P (Some h') w1" using progressed [OF p] assms(2) h by simp
  then show ?thesis using r freed [of h' w1] by (auto split: if_splits)
qed

lemma process_loop_keeps:
  "process_loop u e peer conn dpr w reads idle = Some (Ok (conn', dpr', w', reads', idle')) \<Longrightarrow> e = env \<Longrightarrow> conn_inv conn \<Longrightarrow>
   settled conn dpr \<Longrightarrow> dpr_respState dpr = DPR_READY \<Longrightarrow> P (sc_handler conn) w \<Longrightarrow> P (sc_handler conn') w'"
proof (induction u e peer conn dpr w reads idle rule: process_loop.induct)
  case (1 u e peer conn dpr w reads idle)
  obtain conn1 dpr1 w1 reads1 idle1 conn2 dpr2 w2 where
    r: "read_loop u e peer conn dpr w reads idle = Some (Ok (conn1, dpr1, w1, reads1, idle1))" and
    p: "progress_response u e conn1 dpr1 w1 = Ok (conn2, dpr2, w2)"
    using "1.prems"(1) by (subst (asm) process_loop.simps) (fastforce simp: obind_Ok)
  have p': "Some (progress_response u e conn1 dpr1 w1) = Some (Ok (conn2, dpr2, w2))" using p by simp
  note run = "1.prems"(1) [unfolded process_loop.simps [of u e peer conn] r obind_simps prod.case p, simplified]
  have keep: "P (sc_handler conn2) w2"
    using progress_response_keeps [OF p [unfolded "1.prems"(2)]] read_loop_keeps [OF r "1.prems"(2,3,6)] by simp
  show ?case
  proof (cases "dpr_closeConn dpr2 \<or> sc_rrs conn2 \<noteq> RRS_READ_FINISHED \<or> sc_handler conn2 \<noteq> None \<or>
      dpr_reqState dpr2 \<noteq> DPR_READY \<or> dpr_respState dpr2 \<noteq> DPR_READY \<or> wants_close (sc_header conn2)")
    case True
    then show ?thesis using run keep by (auto split: if_splits)
  next
    case False
    then have s: "\<not> (dpr_closeConn dpr2 \<or> sc_rrs conn2 \<noteq> RRS_READ_FINISHED \<or> sc_handler conn2 \<noteq> None)"
      "\<not> (dpr_reqState dpr2 \<noteq> DPR_READY \<or> dpr_respState dpr2 \<noteq> DPR_READY)" "\<not> wants_close (sc_header conn2)" by auto
    have "process_loop u e peer (next_request conn2) dpr2 w2 reads1 idle1 = Some (Ok (conn', dpr', w', reads', idle'))"
      using run False by simp
    from "1.IH" [OF r refl refl refl refl p' refl refl s this "1.prems"(2) next_request_inv] show ?thesis
      using s keep by (simp add: settled_def next_request_def)
  qed
qed

lemma conn_keeps:
  assumes "conn_processDataReady u env peer conn w reads closeIfIdle = Some (Ok (conn', res, calls, w', reads'))" "conn_wf conn"
    "P (sc_handler conn) w"
  shows "P (sc_handler conn') w'"
  using assms process_loop_keeps [OF _ refl, of u peer conn dpr_init w reads "sc_rrs conn = RRS_IDLE"]
  by (auto simp: conn_processDataReady_def obind_Ok Let_def conn_wf_def settled_def dpr_init_def)

end

subsection \<open>A server that lets nobody modify files\<close>

text \<open>A handler whose form opened no file and made no call.\<close>

definition handler_idle :: "RequestHandler \<Rightarrow> bool" where
  "handler_idle h = (case rh_filemgr h of None \<Rightarrow> True | Some fm \<Rightarrow> fm_idle fm)"

definition readonly :: "ReqEnv \<Rightarrow> bool" where
  "readonly env = (cf_availOps (re_config env) \<noteq> DO_ALL)"

definition readonly_inv :: "ReqEnv \<Rightarrow> RequestHandler option \<Rightarrow> World \<Rightarrow> bool" where
  "readonly_inv env h w = (readonly env \<longrightarrow> wo_calls w = [] \<and> (\<forall>x. h = Some x \<longrightarrow> handler_idle x))"

lemma readonly_denied: "readonly env \<Longrightarrow> \<not> reqhdr_isActionAllowed (re_config env) rhdr PA_MODIFY"
  by (simp add: readonly_def reqhdr_isActionAllowed_def config_isActionAllowed_def config_isActionAvailable_def)

lemma unauthorized_calls: "printUnauthorized env w urlPath onlyHead = Ok (r, w') \<Longrightarrow> wo_calls w' = wo_calls w"
  using unauthorized_page [of env w urlPath onlyHead] by auto

lemma serve_target_readonly:
  assumes "serve_target env w h rhdr q t = Ok (h', resp, w')" "readonly env" "rh_filemgr h = None"
  shows "handler_idle h' \<and> wo_calls w' = wo_calls w"
  using assms(1,3) filemgr_new_idle [OF readonly_denied [OF assms(2)]]
  by (auto simp: serve_target_def processFileReq_def handler_idle_def cbind_Ok Let_def
      split: if_splits prod.splits sum.splits option.splits)

lemma created_readonly:
  assumes "reqhdlr_new env w hdr peer = Ok (h, w')" "readonly env"
  shows "handler_idle h \<and> wo_calls w' = wo_calls w"
proof -
  let ?h0 = "\<lparr>rh_peerAddr = peer, rh_filemgr = None, rh_cgiexe = None, rh_response = None, rh_run = None\<rparr>"
  have "handler_idle h1 \<and> wo_calls w1 = wo_calls w" if "doProcessRequest env w ?h0 hdr = Ok (h1, resp, w1)" for h1 resp w1
    using that
    by (auto simp: doProcessRequest_def handler_idle_def cbind_Ok Let_def
        split: if_splits option.splits prod.splits dest!: unauthorized_calls serve_target_readonly [OF _ assms(2)])
  then show ?thesis
    using assms(1) by (auto simp: reqhdlr_new_def handler_idle_def Let_def cbind_Ok split: if_splits)
qed

lemma body_readonly:
  assumes "reqhdlr_processData env w h d dpr = Ok (h', n, dpr', w')" "handler_idle h"
  shows "handler_idle h' \<and> wo_calls w' = wo_calls w"
proof (cases "rh_filemgr h")
  case (Some fm)
  then obtain fm' as where f: "filemgr_consumeBodyBytes (re_upload env) (wo_uploads w) fm d = Ok (fm', as)"
      "h' = h\<lparr>rh_filemgr := Some fm'\<rparr>" "w' = w\<lparr>wo_uploads := as\<rparr>"
    using assms(1) by (auto simp: reqhdlr_processData_def cbind_Ok)
  then have "feed_body (re_upload env) (wo_uploads w) fm [d] = Ok (fm', as)" by simp
  then show ?thesis
    using feed_body_total [of "re_upload env" "wo_uploads w" fm "[d]"] assms(2) Some f(2,3) by (simp add: handler_idle_def)
qed (use assms in \<open>auto simp: reqhdlr_processData_def handler_idle_def split: option.splits prod.splits\<close>)

lemma processPost_readonly:
  assumes "filemgr_processPost n sys fs c fm rhdr = Some (Ok (fm', res, calls, parts))" "fm_idle fm"
    "\<not> reqhdr_isActionAllowed c rhdr PA_MODIFY"
  shows "fm_idle fm' \<and> calls = [] \<and> parts = []"
  using assms by (auto simp: filemgr_processPost_def fm_idle_def Let_def body_idle_free split: option.splits if_splits)

lemma completed_readonly:
  assumes "reqhdlr_requestReadCompleted env w h hdr = Some (Ok (h', w'))" "handler_idle h" "readonly env"
  shows "handler_idle h' \<and> wo_calls w' = wo_calls w"
proof -
  have "fm_idle fm' \<and> wo_calls w1 = wo_calls w"
    if "processFolderReq env w hdr fm = Some (Ok (fm', resp, w1))" "fm_idle fm" for fm fm' resp w1
    using that processPost_readonly [OF _ that(2) readonly_denied [OF assms(3)]]
    by (auto simp: processFolderReq_def cbind_Ok Let_def
        split: if_splits prod.splits option.splits dest!: unauthorized_calls)
  then show ?thesis
    using assms(1,2)
    by (auto simp: reqhdlr_requestReadCompleted_def handler_idle_def cbind_Ok split: option.splits)
qed

lemma progressed_readonly:
  "reqhdlr_progressResponse u env w h fd dpr = Ok (fin, h', dpr', w') \<Longrightarrow>
     rh_filemgr h' = rh_filemgr h \<and> wo_calls w' = wo_calls w"
  by (auto simp: reqhdlr_progressResponse_def cbind_Ok split: option.splits prod.splits)

lemma freed_readonly: "handler_idle h \<Longrightarrow> fst (reqhdlr_free (Some h)) = []"
  by (auto simp: handler_idle_def reqhdlr_free_def filemgr_free_def fm_idle_def body_idle_free split: option.splits)

interpretation ro: conn_invariant env "readonly_inv env" for env
proof unfold_locales
  fix w hdr peer h w' d dpr h' n dpr' u fd fin
  show "reqhdlr_new env w hdr peer = Ok (h, w') \<Longrightarrow> readonly_inv env None w \<Longrightarrow> readonly_inv env (Some h) w'"
    using created_readonly by (auto simp: readonly_inv_def)
  show "reqhdlr_processData env w h d dpr = Ok (h', n, dpr', w') \<Longrightarrow> readonly_inv env (Some h) w \<Longrightarrow> readonly_inv env (Some h') w'"
    using body_readonly by (auto simp: readonly_inv_def)
  show "reqhdlr_requestReadCompleted env w h hdr = Some (Ok (h', w')) \<Longrightarrow> readonly_inv env (Some h) w \<Longrightarrow> readonly_inv env (Some h') w'"
    using completed_readonly by (auto simp: readonly_inv_def)
  show "reqhdlr_progressResponse u env w h fd dpr = Ok (fin, h', dpr', w') \<Longrightarrow> readonly_inv env (Some h) w \<Longrightarrow> readonly_inv env (Some h') w'"
    using progressed_readonly by (auto simp: readonly_inv_def handler_idle_def)
  show "readonly_inv env (Some h) w \<Longrightarrow> readonly_inv env None (w\<lparr>wo_calls := wo_calls w @ fst (reqhdlr_free (Some h)),
      wo_closed := wo_closed w @ snd (reqhdlr_free (Some h))\<rparr>)"
    using freed_readonly by (auto simp: readonly_inv_def)
qed

text \<open>A connection of such a server, and what was done for those that were closed.\<close>

definition readonly_conn :: "ReqEnv \<Rightarrow> MainWorld \<Rightarrow> ServerConnection \<Rightarrow> bool" where
  "readonly_conn env w c = (conn_ok w c \<and> readonly_inv env (sc_handler c) (mw_fd w (sc_socketFd c)))"

definition readonly_closed :: "ReqEnv \<Rightarrow> MainWorld \<Rightarrow> bool" where
  "readonly_closed env w = (readonly env \<longrightarrow> (\<forall>x \<in> set (mw_closed w). wo_calls (snd x) = []))"

lemma readonly_inv_nonce: "readonly_inv env h (w\<lparr>wo_nonce := n\<rparr>) = readonly_inv env h w"
  by (simp add: readonly_inv_def)

lemma serve_conn_readonly:
  assumes "serve_conn u env c closing drs w = Some (Ok (c', res, drs', w'))" "readonly_conn env w c"
  shows "readonly_inv env (sc_handler c') (mw_fd w' (sc_socketFd c'))" "mw_closed w' = mw_closed w"
    "readonly_conn env w k \<Longrightarrow> readonly_conn env w' k"
proof -
  let ?fd = "sc_socketFd c"
  obtain calls cw reads' where
    p: "conn_processDataReady u env (mw_peer w ?fd) c ((mw_fd w ?fd)\<lparr>wo_nonce := mw_nonce w\<rparr>) (mw_reads w ?fd) closing =
        Some (Ok (c', res, calls, cw, reads'))" and
    w: "w' = w\<lparr>mw_nonce := wo_nonce cw, mw_fd := (mw_fd w)(?fd := cw), mw_reads := (mw_reads w)(?fd := reads')\<rparr>"
    using assms(1) by (auto simp: serve_conn_def Let_def obind_Ok)
  have keep: "readonly_inv env (sc_handler c') cw"
    using ro.conn_keeps [OF p] assms(2) by (simp add: readonly_conn_def conn_ok_def readonly_inv_nonce)
  then show "readonly_inv env (sc_handler c') (mw_fd w' (sc_socketFd c'))" "mw_closed w' = mw_closed w"
    using w processDataReady_fd [OF p] by auto
  show "readonly_conn env w k \<Longrightarrow> readonly_conn env w' k"
    using keep w by (auto simp: readonly_conn_def conn_ok_def readonly_inv_def)
qed

lemma free_conn_readonly:
  assumes "readonly_inv env (sc_handler c) (mw_fd w (sc_socketFd c))" "readonly_closed env w"
  shows "readonly_closed env (free_conn c w)"
  using assms freed_readonly
  by (auto simp: readonly_closed_def readonly_inv_def free_conn_def conn_free_def Let_def reqhdlr_free_def split: option.splits)

lemma free_conn_conn: "readonly_conn env (free_conn c w) k = readonly_conn env w k"
  by (simp add: readonly_conn_def conn_ok_def free_conn_def Let_def)

lemma serve_list_readonly:
  "serve_list u env closing cs drs w = Some (Ok (rs, drs', w')) \<Longrightarrow> \<forall>c \<in> set cs. readonly_conn env w c \<Longrightarrow> drs_inv drs \<Longrightarrow>
   readonly_closed env w \<Longrightarrow>
   readonly_closed env w' \<and> (\<forall>k. readonly_conn env w k \<longrightarrow> readonly_conn env w' k) \<and>
   (\<forall>(c', res) \<in> set rs. res \<noteq> CONN_TO_CLOSE \<longrightarrow> readonly_conn env w' c')"
proof (induction cs arbitrary: closing drs w rs)
  case Nil
  then show ?case by simp
next
  case (Cons c cs)
  obtain c' res drs1 w1 rs' where s: "serve_conn u env c closing drs w = Some (Ok (c', res, drs1, w1))"
      "serve_list u env (closing \<and> res = CONN_BUSY) cs drs1 (if res = CONN_TO_CLOSE then free_conn c' w1 else w1) = Some (Ok (rs', drs', w'))"
      "rs = (c', res) # rs'"
    using Cons.prems(1) by (auto simp: obind_Ok)
  let ?w2 = "if res = CONN_TO_CLOSE then free_conn c' w1 else w1"
  have c: "readonly_conn env w c" using Cons.prems(2) by simp
  note ro1 = serve_conn_readonly [OF s(1) c]
  have a: "drs_inv drs1" "mw_flags w1 = mw_flags w" "sc_socketFd c' = sc_socketFd c" "res \<noteq> CONN_TO_CLOSE \<Longrightarrow> conn_wf c'"
    using serve_conn_awaits [OF s(1) _ Cons.prems(3)] c by (simp_all add: readonly_conn_def conn_ok_def)
  have keep: "readonly_conn env w k \<Longrightarrow> readonly_conn env ?w2 k" for k
    using ro1(3) free_conn_conn by simp
  have "readonly_closed env w1" using Cons.prems(4) ro1(2) by (simp add: readonly_closed_def)
  then have "readonly_closed env ?w2" using free_conn_readonly [OF ro1(1)] by simp
  moreover have "\<forall>c \<in> set cs. readonly_conn env ?w2 c" using Cons.prems(2) keep by simp
  ultimately have IH: "readonly_closed env w' \<and> (\<forall>k. readonly_conn env ?w2 k \<longrightarrow> readonly_conn env w' k) \<and>
      (\<forall>(c', res) \<in> set rs'. res \<noteq> CONN_TO_CLOSE \<longrightarrow> readonly_conn env w' c')"
    using Cons.IH [OF s(2) _ a(1)] by blast
  have "readonly_conn env w1 c'" if "res \<noteq> CONN_TO_CLOSE"
    using that ro1(1) a c by (simp add: readonly_conn_def conn_ok_def)
  then show ?case using IH keep s(3) by auto
qed

lemma accepted_readonly:
  "accepted n as w = Ok (new, w') \<Longrightarrow> \<forall>c \<in> set cs. readonly_conn env w c \<Longrightarrow>
   mw_closed w' = mw_closed w \<and> (\<forall>c \<in> set (cs @ new). readonly_conn env w' c)"
proof (induction n as w arbitrary: cs new rule: accepted.induct)
  case (1 n fd fa cw reads peer as w)
  obtain fl new' where n: "drs_setNonBlockingCloExecFlags fa = Ok fl"
      "accepted n as (open_conn fd fl cw reads peer w) = Ok (new', w')" "new = conn_new fd # new'"
    using "1.prems"(1) by (auto simp: cbind_Ok)
  have "sc_socketFd (conn_new fd) = fd" "sc_handler (conn_new fd) = None" by (simp_all add: conn_new_def)
  then have "\<forall>c \<in> set (cs @ [conn_new fd]). readonly_conn env (open_conn fd fl cw reads peer w) c"
    using "1.prems"(2) flags_safe(1) [OF n(1)] conn_new_wf
    by (auto simp: readonly_conn_def readonly_inv_def conn_ok_def open_conn_def)
  from "1.IH" [OF n(2) this] show ?case using n(3) by (simp add: open_conn_def)
qed simp_all

lemma round_readonly:
  assumes "round_list u env m listenfd ra cs drs w = Some (Ok (cs', drs', w'))" "\<forall>c \<in> set cs. readonly_conn env w c"
    "readonly_closed env w"
  shows "\<forall>c \<in> set cs'. readonly_conn env w' c" "readonly_closed env w'"
proof -
  obtain new w1 rs where new: "accepted (m - length cs) (ra_accept ra) w = Ok (new, w1)" and
      r: "serve_list u env (length (cs @ new) = m) (cs @ new) drs_new w1 = Some (Ok (rs, drs', w'))"
      "cs' = of_res CONN_IDLE rs @ of_res CONN_BUSY rs"
    using assms(1) unfolding round_list_def by (auto simp: obind_Ok split: if_splits)
  note a = accepted_readonly [OF new assms(2)]
  have "readonly_closed env w1" using a assms(3) by (simp add: readonly_closed_def)
  note s = serve_list_readonly [OF r(1) conjunct2 [OF a] drs_new_inv(1) this]
  show "\<forall>c \<in> set cs'. readonly_conn env w' c" "readonly_closed env w'"
    using s r(2) by (auto simp: of_res_sub)
qed

lemma reachable_readonly:
  "server_reachable u env listenfd s \<Longrightarrow>
   \<exists>cs. table (max_clients env) (fst s) cs \<and> (\<forall>c \<in> set cs. readonly_conn env (snd s) c) \<and> readonly_closed env (snd s)"
proof (induction rule: server_reachable.induct)
  case (start fa fl w)
  then show ?case
    using table_init [of "re_config env"] by (intro exI [of _ "[]"]) (simp add: readonly_closed_def max_clients_def)
next
  case (step s s')
  obtain st w st' w' where s: "s = (st, w)" "s' = (st', w')" by fastforce
  obtain ra where 1: "mainloop_round u env (max_clients env) listenfd ra st w = Some (Ok (st', w'))"
    using step.hyps(2) s by (auto elim: server_stepE)
  obtain cs where cs: "table (max_clients env) st cs" "\<forall>c \<in> set cs. readonly_conn env w c" "readonly_closed env w"
    using step.IH s by auto
  from same_run_Ok [OF round_refines [OF cs(1), of u env listenfd ra w, unfolded 1]]
  obtain cs' drs where r: "round_list u env (max_clients env) listenfd ra cs (ms_drs st) w = Some (Ok (cs', drs, w'))"
      "table (max_clients env) st' cs'" by (auto simp: same_table_def)
  show ?case using round_readonly [OF r(1) cs(2,3)] r(2) s by auto
qed

text \<open>C7: Where the configuration lets nobody modify files (\<open>dirops\<close> is not \<open>all\<close>), no client does: whatever the clients send,
  in whatever order the server serves them, and whoever logged in, the server makes no call that changes the file system
  (creating, renaming, removing or writing a file), neither for a connection it has nor for one it closed, and no form of
  a request opened a file.  What a CGI program does is its own, and so is the temporary
  file the process that becomes it makes for the body.\<close>

theorem read_only_server:
  assumes "server_reachable u env listenfd (st, w)" "cf_availOps (re_config env) \<noteq> DO_ALL"
  shows "(\<forall>(fds, cw) \<in> set (mw_closed w). wo_calls cw = []) \<and>
    (\<exists>cs. take (ms_connCount st) (ms_connections st) = map Some cs \<and> length cs = ms_connCount st \<and>
      (\<forall>c \<in> set cs. wo_calls (mw_fd w (sc_socketFd c)) = [] \<and>
        (\<forall>h fm. sc_handler c = Some h \<longrightarrow> rh_filemgr h = Some fm \<longrightarrow> fm_idle fm)))"
proof -
  obtain cs where "table (max_clients env) st cs" "\<forall>c \<in> set cs. readonly_conn env w c" "readonly_closed env w"
    using reachable_readonly [OF assms(1)] by auto
  then show ?thesis
    using assms(2)
    by (intro conjI exI [of _ cs]) (force simp: table_def readonly_conn_def readonly_inv_def readonly_closed_def readonly_def
        handler_idle_def split: option.splits)+
qed

text \<open>The server with room for one client, which may list folders.\<close>

definition listing_env :: ReqEnv where
  "listing_env = small_env\<lparr>re_config := (re_config small_env)\<lparr>cf_availOps := DO_LISTING\<rparr>\<rparr>"

lemma listing_round:
  "\<exists>st w. mainloop_round NUL listing_env (max_clients listing_env) 3 example_round (fst small_start) (snd small_start) =
     Some (Ok (st, w)) \<and> ms_connCount st = 1 \<and> ms_connections st = [Some (conn_new 4)]"
proof -
  have m: "max_clients listing_env = Suc 0"
    by (simp add: max_clients_def config_getMaxClients_def listing_env_def small_env_def)
  have "unat (config_getMaxClients (re_config small_env)) = Suc 0"
    by (simp add: config_getMaxClients_def small_env_def)
  note m' = this
  have fd: "sc_socketFd (conn_new fd) = fd" for fd by (simp add: conn_new_def)
  show ?thesis
    unfolding m small_start_def fst_conv snd_conv
    by (simp add: m' main_init_def Let_def mainloop_round_def example_round_def example_main_def open_conn_def serve_conn_def fd
        drs_setReadFd_def fd_set_add_def drs_new_def drs_select_def arr_set_def arr_get_def serve_all_def scan_loop.simps
        fcntl_ok_flags silent_round copy_loop.simps(2))
qed

theorem read_only_server_witness:
  "\<exists>st w. server_reachable NUL listing_env 3 (st, w) \<and> ms_connections st = [Some (conn_new 4)] \<and>
     wo_calls (mw_fd w 4) = []"
proof -
  obtain st w where r: "mainloop_round NUL listing_env (max_clients listing_env) 3 example_round (fst small_start) (snd small_start) =
      Some (Ok (st, w))" and c: "ms_connCount st = 1" "ms_connections st = [Some (conn_new 4)]"
    using listing_round by blast
  have "re_config listing_env = (re_config small_env)\<lparr>cf_availOps := DO_LISTING\<rparr>" by (simp add: listing_env_def)
  then have "main_init (re_config listing_env) = main_init (re_config small_env)"
    by (simp add: main_init_def config_getMaxClients_def)
  then have "server_reachable NUL listing_env 3 small_start"
    using server_reachable.start [OF fcntl_ok_flags, of example_main NUL listing_env 3]
    by (simp add: small_start_def example_main_def)
  from server_reachable.step [OF this] server_step.round [OF r] have s: "server_reachable NUL listing_env 3 (st, w)" by simp
  have "cf_availOps (re_config listing_env) \<noteq> DO_ALL" by (simp add: listing_env_def)
  from read_only_server [OF s this] c s show ?thesis by (force simp: conn_new_def)
qed

end
