(* ===== verification/Fmlog.thy ===== *)
theory Fmlog
  imports Cmdline
begin

text \<open>
  \<open>src/fmlog.c\<close>: the messages for the administrator.  Standard output has a buffer, standard error has none; what
  reaches the descriptors 1 and 2 is a list of writes.  \<open>vfprintf\<close> is modelled for the conversions that the
  messages of the program use; an argument that does not fit its conversion, or is missing, is \<open>Undef\<close>.  The theories
  of the other components leave the messages out.
\<close>

subsection \<open>Messages\<close>

datatype LogArg = LStr bytes | LInt int | LUint nat | LSize nat

text \<open>\<open>size_t\<close> is wider than \<open>int\<close>, so an argument \<open>LSize\<close> fits none of the conversions here.\<close>

definition print_int :: "int \<Rightarrow> bytes" where
  "print_int n = (if n < 0 then CHR ''-'' # to_base 10 (nat (- n)) else to_base 10 (nat n))"

fun vfprintf :: "bytes \<Rightarrow> LogArg list \<Rightarrow> bytes cres" where
  "vfprintf [] args = Ok []"
| "vfprintf (c # f) args =
     (if c \<noteq> CHR ''%'' then cbind (vfprintf f args) (\<lambda>t. Ok (c # t))
      else case (f, args) of
          (k # f', LStr s # as) \<Rightarrow> if k = CHR ''s'' then cbind (vfprintf f' as) (\<lambda>t. Ok (s @ t)) else Undef
        | (k # f', LInt n # as) \<Rightarrow>
            if k = CHR ''d'' then cbind (vfprintf f' as) (\<lambda>t. Ok (print_int n @ t))
            else if take 3 f = ''.*s'' then
              (case as of LStr s # as' \<Rightarrow> cbind (vfprintf (drop 3 f) as') (\<lambda>t. Ok ((if n < 0 then s else take (nat n) s) @ t))
               | _ \<Rightarrow> Undef)
            else Undef
        | (k # f', LUint n # as) \<Rightarrow>
            if k = CHR ''u'' then cbind (vfprintf f' as) (\<lambda>t. Ok (to_base 10 n @ t))
            else if k = CHR ''o'' then cbind (vfprintf f' as) (\<lambda>t. Ok (to_base 8 n @ t)) else Undef
        | _ \<Rightarrow> Undef)"

subsection \<open>Output\<close>

record LogOut =
  lo_buf :: bytes
  lo_writes :: "(nat \<times> bytes) list"

definition out_flush :: "LogOut \<Rightarrow> LogOut" where
  "out_flush lo = (if lo_buf lo = [] then lo else lo\<lparr>lo_buf := [], lo_writes := lo_writes lo @ [(1, lo_buf lo)]\<rparr>)"

definition out_put :: "bytes \<Rightarrow> LogOut \<Rightarrow> LogOut" where
  "out_put t lo = lo\<lparr>lo_buf := lo_buf lo @ t\<rparr>"

definition err_put :: "bytes \<Rightarrow> LogOut \<Rightarrow> LogOut" where
  "err_put t lo = lo\<lparr>lo_writes := lo_writes lo @ [(2, t)]\<rparr>"

definition log_isLevel :: "CmdLine \<Rightarrow> u32 \<Rightarrow> bool" where
  "log_isLevel cl level = (level \<le> cmdline_getLogLevel cl)"

text \<open>\<open>err\<close> is \<open>errno\<close> at the call.\<close>

definition log_error :: "(nat \<Rightarrow> bytes) \<Rightarrow> nat \<Rightarrow> bytes \<Rightarrow> LogArg list \<Rightarrow> LogOut \<Rightarrow> LogOut cres" where
  "log_error strerror err msg args lo =
     (let lo1 = out_flush lo in
      cbind (vfprintf msg args) (\<lambda>t.
        let lo2 = err_put t lo1;
            lo3 = (if err \<noteq> 0 then err_put ('': '' @ strerror err) lo2 else lo2)
        in Ok (err_put [LF] lo3)))"

definition log_warn :: "bytes \<Rightarrow> LogArg list \<Rightarrow> LogOut \<Rightarrow> LogOut cres" where
  "log_warn msg args lo =
     (let lo1 = err_put ''WARN: '' (out_flush lo) in
      cbind (vfprintf msg args) (\<lambda>t. Ok (err_put [LF] (err_put t lo1))))"

text \<open>The output, and the status the process exits with.\<close>

definition log_fatal :: "(nat \<Rightarrow> bytes) \<Rightarrow> nat \<Rightarrow> bytes \<Rightarrow> LogArg list \<Rightarrow> LogOut \<Rightarrow> (LogOut \<times> nat) cres" where
  "log_fatal strerror err msg args lo =
     (let lo1 = out_flush lo in
      cbind (vfprintf msg args) (\<lambda>t.
        let lo2 = err_put t lo1;
            lo3 = (if err \<noteq> 0 then err_put ('': '' @ strerror err) lo2 else lo2)
        in Ok (err_put [LF] lo3, 1)))"

definition log_debug :: "CmdLine \<Rightarrow> bytes \<Rightarrow> LogArg list \<Rightarrow> LogOut \<Rightarrow> LogOut cres" where
  "log_debug cl msg args lo =
     (if log_isLevel cl 1 then cbind (vfprintf msg args) (\<lambda>t. Ok (out_flush (out_put [LF] (out_put t lo))))
      else Ok lo)"

subsection \<open>The order of the messages\<close>

datatype LogCall = Error nat bytes "LogArg list" | Warn bytes "LogArg list" | Debug bytes "LogArg list"

fun log_call :: "CmdLine \<Rightarrow> (nat \<Rightarrow> bytes) \<Rightarrow> LogCall \<Rightarrow> LogOut \<Rightarrow> LogOut cres" where
  "log_call cl strerror (Error e m as) lo = log_error strerror e m as lo"
| "log_call cl strerror (Warn m as) lo = log_warn m as lo"
| "log_call cl strerror (Debug m as) lo = log_debug cl m as lo"

fun log_calls :: "CmdLine \<Rightarrow> (nat \<Rightarrow> bytes) \<Rightarrow> LogCall list \<Rightarrow> LogOut \<Rightarrow> LogOut cres" where
  "log_calls cl strerror [] lo = Ok lo"
| "log_calls cl strerror (c # cs) lo = cbind (log_call cl strerror c lo) (log_calls cl strerror cs)"

text \<open>The line of a message and the descriptor it is for; none for a debug message without \<open>-d\<close>.\<close>

fun log_line :: "CmdLine \<Rightarrow> (nat \<Rightarrow> bytes) \<Rightarrow> LogCall \<Rightarrow> (nat \<times> bytes) list cres" where
  "log_line cl strerror (Error e m as) =
     cbind (vfprintf m as) (\<lambda>t. Ok [(2, t @ (if e = 0 then [] else '': '' @ strerror e) @ [LF])])"
| "log_line cl strerror (Warn m as) = cbind (vfprintf m as) (\<lambda>t. Ok [(2, ''WARN: '' @ t @ [LF])])"
| "log_line cl strerror (Debug m as) =
     (if cmdline_getLogLevel cl = 0 then Ok [] else cbind (vfprintf m as) (\<lambda>t. Ok [(1, t @ [LF])]))"

fun log_lines :: "CmdLine \<Rightarrow> (nat \<Rightarrow> bytes) \<Rightarrow> LogCall list \<Rightarrow> (nat \<times> bytes) list cres" where
  "log_lines cl strerror [] = Ok []"
| "log_lines cl strerror (c # cs) =
     cbind (log_line cl strerror c) (\<lambda>l. cbind (log_lines cl strerror cs) (\<lambda>ls. Ok (l @ ls)))"

text \<open>What a reader of one descriptor sees, and one of both, as on a terminal.\<close>

definition seen :: "(nat \<Rightarrow> bool) \<Rightarrow> (nat \<times> bytes) list \<Rightarrow> bytes" where
  "seen fds ws = concat (map snd (filter (\<lambda>w. fds (fst w)) ws))"

lemma seen_simps [simp]:
  "seen fds [] = []" "seen fds ((fd, t) # ws) = (if fds fd then t else []) @ seen fds ws" "seen fds (vs @ ws) = seen fds vs @ seen fds ws"
  by (simp_all add: seen_def)

lemma log_call_line:
  assumes "lo_buf lo = []"
  shows "case log_line cl strerror c of
      Ok l \<Rightarrow> \<exists>lo'. log_call cl strerror c lo = Ok lo' \<and> lo_buf lo' = [] \<and>
        (\<forall>fds. seen fds (lo_writes lo') = seen fds (lo_writes lo) @ seen fds l)
    | Abort \<Rightarrow> log_call cl strerror c lo = Abort
    | Undef \<Rightarrow> log_call cl strerror c lo = Undef"
proof -
  have lvl: "(1 :: u32) \<le> n \<longleftrightarrow> n \<noteq> 0" for n by (simp add: word_le_nat_alt unat_gt_0 [symmetric] Suc_le_eq)
  note defs = log_error_def log_warn_def log_debug_def log_isLevel_def lvl out_flush_def out_put_def err_put_def Let_def assms
  show ?thesis
  proof (cases c)
    case (Error e m as)
    then show ?thesis by (cases "vfprintf m as") (simp_all add: defs)
  next
    case (Warn m as)
    then show ?thesis by (cases "vfprintf m as") (simp_all add: defs)
  next
    case (Debug m as)
    then show ?thesis by (cases "vfprintf m as") (auto simp: defs)
  qed
qed

lemma log_calls_lines:
  "lo_buf lo = [] \<Longrightarrow> case log_lines cl strerror cs of
      Ok ls \<Rightarrow> \<exists>lo'. log_calls cl strerror cs lo = Ok lo' \<and> lo_buf lo' = [] \<and>
        (\<forall>fds. seen fds (lo_writes lo') = seen fds (lo_writes lo) @ seen fds ls)
    | Abort \<Rightarrow> True
    | Undef \<Rightarrow> True"
proof (induction cs arbitrary: lo)
  case (Cons c cs)
  show ?case
  proof (cases "log_line cl strerror c")
    case (Ok l)
    with log_call_line [OF Cons.prems, of cl strerror c] obtain lo1 where
      1: "log_call cl strerror c lo = Ok lo1" "lo_buf lo1 = []" "\<forall>fds. seen fds (lo_writes lo1) = seen fds (lo_writes lo) @ seen fds l"
      by auto
    show ?thesis using Cons.IH [OF 1(2)] 1 Ok by (cases "log_lines cl strerror cs") auto
  qed simp_all
qed simp

text \<open>
  The log is in order: whatever messages are logged one after the other, when their arguments fit, every message is
  one line, at once where it belongs (debug messages on standard output, but only with \<open>-d\<close>; errors and
  warnings on standard error, an error with the text of \<open>errno\<close>), and who sees both sees the lines in the order of the
  calls, although standard output has a buffer and standard error has none.
\<close>

lemma log_in_order:
  assumes "lo_buf lo = []" and "log_lines cl strerror cs = Ok ls"
  shows "\<exists>lo'. log_calls cl strerror cs lo = Ok lo' \<and> lo_buf lo' = [] \<and>
    (\<forall>fds. concat (map snd (filter (\<lambda>w. fds (fst w)) (lo_writes lo'))) =
       concat (map snd (filter (\<lambda>w. fds (fst w)) (lo_writes lo))) @ concat (map snd (filter (\<lambda>w. fds (fst w)) ls)))"
  using log_calls_lines [OF assms(1), of cl strerror cs] assms(2) by (simp add: seen_def)

definition example_cmdline :: CmdLine where
  "example_cmdline = fst (cmdline_parse [(CHR ''d'', [])] (cmdline_init []))"

lemma log_in_order_example:
  "\<exists>lo'. log_calls example_cmdline (\<lambda>e. ''Bad file descriptor'')
       [Debug ''%d open'' [LInt 7], Error 9 ''read'' [], Warn ''number of clients reached maximum (%u)'' [LUint 10], Debug ''%d close'' [LInt 7]]
       \<lparr>lo_buf = [], lo_writes = []\<rparr> = Ok lo' \<and>
     concat (map snd (lo_writes lo')) = ''7 open'' @ [LF] @ ''read: Bad file descriptor'' @ [LF] @
       ''WARN: number of clients reached maximum (10)'' @ [LF] @ ''7 close'' @ [LF] \<and>
     concat (map snd (filter (\<lambda>w. fst w = 1) (lo_writes lo'))) = ''7 open'' @ [LF] @ ''7 close'' @ [LF]"
proof -
  let ?calls = "[Debug ''%d open'' [LInt 7], Error 9 ''read'' [], Warn ''number of clients reached maximum (%u)'' [LUint 10],
      Debug ''%d close'' [LInt 7]]"
  have l: "log_lines example_cmdline (\<lambda>e. ''Bad file descriptor'') ?calls =
      Ok [(1, ''7 open'' @ [LF]), (2, ''read: Bad file descriptor'' @ [LF]),
          (2, ''WARN: number of clients reached maximum (10)'' @ [LF]), (1, ''7 close'' @ [LF])]"
    by (simp add: example_cmdline_def cmdline_init_def cmdline_getLogLevel_def print_int_def to_base.simps digit_char_def) code_simp
  obtain lo' where lo': "log_calls example_cmdline (\<lambda>e. ''Bad file descriptor'') ?calls \<lparr>lo_buf = [], lo_writes = []\<rparr> = Ok lo'"
    "\<forall>fds. concat (map snd (filter (\<lambda>w. fds (fst w)) (lo_writes lo'))) = concat (map snd (filter (\<lambda>w. fds (fst w))
       [(1, ''7 open'' @ [LF]), (2, ''read: Bad file descriptor'' @ [LF]),
          (2, ''WARN: number of clients reached maximum (10)'' @ [LF]), (1, ''7 close'' @ [LF])]))"
    using log_in_order [OF _ l, of "\<lparr>lo_buf = [], lo_writes = []\<rparr>"] by auto
  show ?thesis
    using lo'(1) lo'(2) [rule_format, of "\<lambda>_. True"] lo'(2) [rule_format, of "\<lambda>fd. fd = 1"] by simp
qed

subsection \<open>The messages of the program\<close>

text \<open>
  The messages with conversions, with arguments of the types they are called with: all of them fit, but for the one
  of \<open>rsndr_new\<close>, which passes the result of \<open>strcspn\<close> for a precision.
\<close>

lemma messages_fit:
  "list_all (\<lambda>(m, as). vfprintf m as \<noteq> Undef)
    [(''auth: resp nonce=%s'', [LStr a]),
     (''executing %s, SCRIPT_NAME=%s, PATH_INFO=%s, QUERY_STRING=%s'', [LStr a, LStr b, LStr c, LStr d]),
     (''remove %s fail'', [LStr a]), (''replaced %s'', [LStr a]),
     (''failed to replace %s, errno=%d (%s)'', [LStr a, LInt n, LStr b]),
     (''added %s (renamed from: %s)'', [LStr a, LStr b]),
     (''failed to add %s, errno=%d (%s)'', [LStr a, LInt n, LStr b]), (''added %s'', [LStr a]),
     (''No colon in %s header line (line ignored): %s'', [LStr a, LStr b]), (''%s header lines:'', [LStr a]),
     (''  %s:%s'', [LStr a, LStr b]), (''rename_file: %s -> %s'', [LStr a, LStr b]), (''create dir: %s'', [LStr a]),
     (''del_recursive: removing %s'', [LStr a]), (''delete recursively: %s'', [LStr a]), (''delete: %s'', [LStr a]),
     (''change mode to 0%o (%s%s%s) of %s'', [LUint k, LStr a, LStr b, LStr c, LStr d]),
     (''number of clients reached maximum (%u)'', [LUint k]), (''opened %s'', [LStr a]), (''Authorization: %s'', [LStr a]),
     (''No colon in header line (line ignored): %s'', [LStr a]), (''==> response: %s'', [LStr a]),
     (''================================= %d open'', [LInt n]), (''%d request: %s %s HTTP/%s'', [LInt n, LStr a, LStr b, LStr c]),
     (''%s: %s'', [LStr a, LStr b]), (''%d premature EOF'', [LInt n]),
     (''INTERNAL ERROR: conn_processDataReady reqState=%d, respState=%d'', [LInt n, LInt n']),
     (''%d closing as most idle'', [LInt n]), (''================================ %d close'', [LInt n])]"
  by simp

lemma response_message_undefined: "vfprintf ''response: %.*s'' [LSize n, LStr h] = Undef"
  by simp

end
