(* ===== verification/Sinetable.thy ===== *)
theory Sinetable
  imports Complex_Main
begin

text \<open>
  The table of constants of RFC 1321 as the RFC defines it, by the sine function, and a check that decides for a list of
  integers that it is the beginning of the table.  The check computes \<open>sin n\<close> for \<open>n = 1, 2, ...\<close> with integers scaled by \<open>2 ^ 96\<close> and
  a bound for the error, by \<open>sin (n + 1) = 2 * cos 1 * sin n - sin (n - 1)\<close>.
\<close>

text \<open>Element \<open>i\<close> of the table, from 1: \<open>4294967296\<close> times the absolute value of the sine of \<open>i\<close> in radians, without its fraction.\<close>

definition rfc_T :: "nat \<Rightarrow> int" where
  "rfc_T i = \<lfloor>4294967296 * \<bar>sin (real i)\<bar>\<rfloor>"

text \<open>\<open>sin 1\<close> and \<open>2 * cos 1\<close>, scaled; the state of the check are the sines of \<open>n - 1\<close> and of \<open>n\<close> with their errors.\<close>

definition sin1 :: int where "sin1 = 66668199935398081914718513417"
definition cos2 :: int where "cos2 = 85614317792305463192837741358"

fun sine_check :: "int \<Rightarrow> int \<Rightarrow> int \<Rightarrow> int \<Rightarrow> int list \<Rightarrow> bool" where
  "sine_check A ea B eb [] = True"
| "sine_check A ea B eb (x # xs) =
     (eb \<le> 79228162514264337593543950336 \<and>
      x * 18446744073709551616 \<le> \<bar>B\<bar> - eb \<and> \<bar>B\<bar> + eb < (x + 1) * 18446744073709551616 \<and>
      sine_check B eb (drop_bit 96 (B * cos2) - A) (eb + drop_bit 3 eb + ea + 10) xs)"

subsection \<open>The sine and the cosine of 1\<close>

lemma sin_1_sum: "\<bar>sin 1 - (\<Sum>m<28. sin_coeff m)\<bar> \<le> 1 / (fact 28 :: real)"
  using Maclaurin_sin_bound [of 1 28] by (simp add: inverse_eq_divide)

lemma cos_1_sum: "\<bar>cos 1 - (\<Sum>m<28. cos_coeff m)\<bar> \<le> 1 / (fact 28 :: real)"
proof -
  obtain t where "cos (1::real) = (\<Sum>m<28. cos_coeff m * 1 ^ m) + (cos (t + 1/2 * real 28 * pi) / fact 28) * 1 ^ 28"
    using Maclaurin_cos_expansion [of 1 28] by blast
  then have "\<bar>cos 1 - (\<Sum>m<28. cos_coeff m)\<bar> = \<bar>cos (t + 1/2 * real 28 * pi)\<bar> / (fact 28 :: real)"
    by (simp only: power_one mult_1_right abs_divide) simp
  then show ?thesis by (simp only: divide_right_mono [OF abs_cos_le_one] fact_ge_zero)
qed

text \<open>\<open>a\<close> is \<open>x\<close> in the scaled integers, with an error of at most \<open>err\<close>.\<close>

definition near :: "real \<Rightarrow> int \<Rightarrow> int \<Rightarrow> bool" where
  "near x a err = (\<bar>79228162514264337593543950336 * x - of_int a\<bar> \<le> of_int err)"

lemma near_sum:
  fixes s x d :: real
  assumes "\<bar>x - s\<bar> \<le> d" "\<bar>79228162514264337593543950336 * s - of_int a\<bar> \<le> 1" "79228162514264337593543950336 * d \<le> 2"
  shows "near x a 3"
  using assms unfolding near_def by (simp add: abs_le_iff)

lemma sin1_near: "near (sin 1) sin1 3"
proof (rule near_sum [OF sin_1_sum])
  show "\<bar>79228162514264337593543950336 * (\<Sum>m<28. sin_coeff m) - of_int sin1\<bar> \<le> (1 :: real)"
    by (simp add: lessThan_nat_numeral sin_coeff_def fact_numeral sin1_def)
  show "79228162514264337593543950336 * (1 / fact 28) \<le> (2 :: real)" by (simp add: fact_numeral)
qed

lemma cos2_near: "near (2 * cos 1) cos2 3"
proof (rule near_sum)
  show "\<bar>2 * cos 1 - 2 * (\<Sum>m<28. cos_coeff m)\<bar> \<le> 2 / (fact 28 :: real)"
    using cos_1_sum by (simp only: right_diff_distrib [symmetric] abs_mult) (simp del: sum.lessThan_Suc)
  show "\<bar>79228162514264337593543950336 * (2 * (\<Sum>m<28. cos_coeff m)) - of_int cos2\<bar> \<le> (1 :: real)"
    by (simp add: lessThan_nat_numeral cos_coeff_def fact_numeral cos2_def)
  show "79228162514264337593543950336 * (2 / fact 28) \<le> (2 :: real)" by (simp add: fact_numeral)
qed

subsection \<open>The recurrence\<close>

lemma near_mult:
  fixes x :: real
  assumes "near x a err" "\<bar>x\<bar> \<le> 1" "err \<le> 79228162514264337593543950336"
  shows "\<bar>79228162514264337593543950336 * (x * (2 * cos 1)) - of_int (a * cos2) / 79228162514264337593543950336\<bar> \<le> of_int err * (9 / 8) + 6"
proof -
  define k :: real where "k = 79228162514264337593543950336"
  have k: "0 < k" by (simp add: k_def)
  define y :: real where "y = 2 * cos 1"
  have y: "\<bar>k * y - of_int cos2\<bar> \<le> 3" using cos2_near by (simp add: near_def k_def y_def)
  have y9: "\<bar>y\<bar> \<le> 9 / 8" using y by (simp add: k_def cos2_def abs_le_iff) 
  have e: "\<bar>k * x - of_int a\<bar> \<le> of_int err" using assms(1) by (simp add: near_def k_def)
  have a: "\<bar>of_int a\<bar> \<le> 2 * k"
  proof -
    have "\<bar>k * x\<bar> \<le> k" using mult_left_mono [OF assms(2), of k] k by (simp add: abs_mult)
    moreover have "of_int err \<le> k" using assms(3) by (simp add: k_def)
    ultimately show ?thesis using e by linarith
  qed
  have "k * (x * y) - of_int (a * cos2) / k = (k * x - of_int a) * y + of_int a * (k * y - of_int cos2) / k"
    using k by (simp add: field_simps)
  moreover have "\<bar>(k * x - of_int a) * y\<bar> \<le> of_int err * (9 / 8)"
    using mult_mono [OF e y9] e by (simp add: abs_mult)
  moreover have "\<bar>of_int a * (k * y - of_int cos2) / k\<bar> \<le> 6"
  proof -
    have "\<bar>of_int a * (k * y - of_int cos2)\<bar> \<le> (2 * k) * 3"
      using mult_mono [OF a y] k by (simp add: abs_mult)
    then show ?thesis using k by (simp add: field_simps)
  qed
  ultimately show ?thesis unfolding k_def [symmetric] y_def [symmetric] by linarith
qed

lemma drop_bit_real: "of_int (drop_bit n p) \<le> of_int p / (2 ^ n :: real) \<and> of_int p / 2 ^ n < (of_int (drop_bit n p) + 1 :: real)"
  using floor_divide_of_int_eq [of p "2 ^ n", where 'a = real] floor_correct [of "of_int p / (2 ^ n :: real)"]
  by (simp add: drop_bit_eq_div)

lemma near_next:
  assumes "near (sin (x - 1)) A ea" "near (sin x) B eb" "eb \<le> 79228162514264337593543950336"
  shows "near (sin (x + 1)) (drop_bit 96 (B * cos2) - A) (eb + drop_bit 3 eb + ea + 10)"
proof -
  have r: "sin (x + 1) = sin x * (2 * cos 1) - sin (x - 1)" by (simp add: sin_add sin_diff)
  have "of_int eb / 8 \<le> (of_int (drop_bit 3 eb) + 1 :: real)" using drop_bit_real [of 3 eb] by simp
  then show ?thesis
    using near_mult [OF assms(2) abs_sin_le_one assms(3)] assms(1) drop_bit_real [of 96 "B * cos2"]
    unfolding near_def r right_diff_distrib by (simp add: abs_le_iff)
qed

lemma near_floor:
  assumes "near x S err" "k * 18446744073709551616 \<le> \<bar>S\<bar> - err" "\<bar>S\<bar> + err < (k + 1) * 18446744073709551616"
  shows "\<lfloor>4294967296 * \<bar>x\<bar>\<rfloor> = k"
proof -
  have "abs (abs (79228162514264337593543950336 * x) - of_int (abs S)) \<le> of_int err" using assms(1) unfolding near_def by linarith
  then have "abs (79228162514264337593543950336 * abs x - of_int (abs S)) \<le> of_int err" by (simp add: abs_mult)
  moreover have "of_int (k * 18446744073709551616) \<le> (of_int (\<bar>S\<bar> - err) :: real)" "of_int (\<bar>S\<bar> + err) < (of_int ((k + 1) * 18446744073709551616) :: real)"
    using assms(2,3) by (simp_all only: of_int_le_iff of_int_less_iff)
  ultimately have "of_int k \<le> 4294967296 * \<bar>x\<bar> \<and> 4294967296 * \<bar>x\<bar> < of_int k + 1"
    by (simp add: abs_le_iff)
  then show ?thesis by (simp add: floor_unique)
qed

lemma sine_check_floor:
  "sine_check A ea B eb xs \<Longrightarrow> near (sin (real n - 1)) A ea \<Longrightarrow> near (sin (real n)) B eb \<Longrightarrow> i < length xs \<Longrightarrow>
     xs ! i = rfc_T (n + i)"
proof (induction A ea B eb xs arbitrary: n i rule: sine_check.induct)
  case (2 A ea B eb x xs)
  show ?case
  proof (cases i)
    case 0
    then show ?thesis using near_floor [OF "2.prems"(3), of x] "2.prems"(1) unfolding rfc_T_def by simp
  next
    case (Suc j)
    have s: "sine_check B eb (drop_bit 96 (B * cos2) - A) (eb + drop_bit 3 eb + ea + 10) xs"
      and e: "eb \<le> 79228162514264337593543950336" using "2.prems"(1) by (simp_all only: sine_check.simps)
    have "xs ! j = rfc_T (Suc n + j)"
      by (rule "2.IH" [OF s]) (use "2.prems"(3,4) near_next [OF "2.prems"(2,3) e] Suc in \<open>simp_all add: add.commute\<close>)
    then show ?thesis using Suc by simp
  qed
qed simp

lemma sine_table: "sine_check 0 0 sin1 3 xs \<Longrightarrow> i < length xs \<Longrightarrow> xs ! i = rfc_T (Suc i)"
  using sine_check_floor [of 0 0 sin1 3 xs 1 i] sin1_near by (simp add: near_def)

end
