(* ===== verification/Md5rfc.thy ===== *)
theory Md5rfc
  imports Md5calc Sinetable
begin

unbundle bit_operations_syntax

text \<open>
  The MD5 digest after RFC 1321, with nothing of the code in it: the constants by the sine function, the initial
  words by their bytes, and the digest as bytes that are printed in hexadecimal.  \<open>md5_calculate\<close> (\<open>src/md5calc.c\<close>)
  computes it, and what the test suite of the RFC lists.
\<close>

subsection \<open>The digest of the RFC\<close>

definition rfc_table :: "nat \<Rightarrow> u32" where
  "rfc_table i = of_int (rfc_T (Suc i))"

text \<open>The four words of the buffer, each with its low-order byte first.\<close>

definition rfc_word :: "nat list \<Rightarrow> u32" where
  "rfc_word bs = le_word (map char_of bs) 0"

definition rfc_init :: md5state where
  "rfc_init = (rfc_word [0x01, 0x23, 0x45, 0x67], rfc_word [0x89, 0xab, 0xcd, 0xef],
     rfc_word [0xfe, 0xdc, 0xba, 0x98], rfc_word [0x76, 0x54, 0x32, 0x10])"

text \<open>The digest, from the low-order byte of the first word to the high-order byte of the last.\<close>

definition rfc_digest :: "md5state \<Rightarrow> bytes" where
  "rfc_digest = (\<lambda>(a, b, c, d). concat (map (\<lambda>w. le_bytes 4 (unat w)) [a, b, c, d]))"

definition hex_bytes :: "bytes \<Rightarrow> bytes" where
  "hex_bytes bs = concat (map (\<lambda>b. [''0123456789abcdef'' ! (of_char b div 16), ''0123456789abcdef'' ! (of_char b mod 16)]) bs)"

definition rfc_md5 :: "bytes \<Rightarrow> bytes" where
  "rfc_md5 m = hex_bytes (rfc_digest (ref_blocks rfc_table (m @ ref_pad (length m) (8 * length m)) rfc_init))"

subsection \<open>The constants of the code\<close>

lemma SIN_check: "sine_check 0 0 sin1 3 (map uint SIN)"
  by (simp add: SIN_def sin1_def cos2_def)

lemma SIN_rfc: "i < 64 \<Longrightarrow> SIN ! i = rfc_table i"
proof -
  assume "i < 64"
  then have i: "i < length (map uint SIN)" by (simp add: SIN_def)
  then have "rfc_T (Suc i) = uint (SIN ! i)" using sine_table [OF SIN_check i] by simp
  then show ?thesis by (simp add: rfc_table_def)
qed

lemma ref_blocks_table:
  assumes "\<And>i. i < 64 \<Longrightarrow> T i = T' i"
  shows "ref_blocks T b Q = ref_blocks T' b Q"
proof -
  have "fold (ref_op T X) [0..<64] Q = fold (ref_op T' X) [0..<64] Q" for X Q
    by (rule fold_cong) (auto simp: ref_op_def assms)
  then have c: "ref_compress T X Q = ref_compress T' X Q" for X Q by (simp add: ref_compress_def)
  show ?thesis
  proof (induction "length b" arbitrary: b Q rule: less_induct)
    case less
    then show ?case by (subst (1 2) ref_blocks.simps) (simp add: c)
  qed
qed

lemma md5_init_rfc: "md5_init = rfc_init"
  by code_simp

lemma digit_char_hex: "n < 16 \<Longrightarrow> digit_char n = ''0123456789abcdef'' ! n"
proof -
  have "list_all (\<lambda>n. digit_char n = ''0123456789abcdef'' ! n) [0..<16]" by code_simp
  then show "n < 16 \<Longrightarrow> digit_char n = ''0123456789abcdef'' ! n" by (simp add: list_all_iff)
qed

lemma hex_bytes_Cons: "hex_bytes (char_of n # bs) = hex2 (n mod 256) @ hex_bytes bs"
  using digit_char_hex [of "n mod 256 div 16"] digit_char_hex [of "n mod 256 mod 16"]
  by (simp add: hex_bytes_def hex2_def less_mult_imp_div_less)

lemma byte_of_word: "unat (drop_bit k w AND 0xff) = unat (w :: u32) div 2 ^ k mod 256"
proof -
  have "drop_bit k w AND 0xff = drop_bit k w mod 256"
    using take_bit_eq_mask [of 8 "drop_bit k w"] by (simp add: mask_eq_decr_exp take_bit_eq_mod)
  then have "unat (drop_bit k w AND 0xff) = unat (drop_bit k w) mod 256" by (simp only: unat_mod) simp
  moreover have "unat (drop_bit k w) = unat w div 2 ^ k" by (simp add: unat_drop_bit_eq drop_bit_eq_div [symmetric] del: unsigned_drop_bit_eq)
  ultimately show ?thesis by (simp only:)
qed

lemma hex_word_bytes: "hex_word w @ hex_bytes bs = hex_bytes (le_bytes 4 (unat w) @ bs)"
proof -
  define n where "n = unat w"
  have l: "le_bytes 4 n = [char_of n, char_of (n div 256), char_of (n div 256 div 256), char_of (n div 256 div 256 div 256)]"
  proof -
    have "(4 :: nat) = Suc (Suc (Suc (Suc 0)))" by simp
    then show ?thesis by (simp only: le_bytes.simps)
  qed
  have d: "n div 2 ^ 16 = n div 256 div 256" "n div 2 ^ 24 = n div 256 div 256 div 256" "n div 2 ^ 8 = n div 256"
    by (simp_all add: div_mult2_eq [symmetric])
  have w: "hex_word w = hex2 (n mod 256) @ hex2 (n div 2 ^ 8 mod 256) @ hex2 (n div 2 ^ 16 mod 256) @ hex2 (n div 2 ^ 24 mod 256)"
    unfolding hex_word_def n_def byte_of_word using byte_of_word [of 0 w] by simp
  show ?thesis
    unfolding w n_def [symmetric] l d by (simp only: hex_bytes_Cons append_Cons append_Nil append_assoc)
qed

lemma hex_digest: "ref_hex Q = hex_bytes (rfc_digest Q)"
proof -
  obtain a b c d where Q: "Q = (a, b, c, d)" by (metis prod_cases4)
  have "hex_bytes [] = []" by (simp add: hex_bytes_def)
  then show ?thesis
    using hex_word_bytes [of d "[]"] hex_word_bytes [of c "le_bytes 4 (unat d)"]
      hex_word_bytes [of b "le_bytes 4 (unat c) @ le_bytes 4 (unat d)"]
      hex_word_bytes [of a "le_bytes 4 (unat b) @ le_bytes 4 (unat c) @ le_bytes 4 (unat d)"]
    by (simp add: Q ref_hex_def rfc_digest_def)
qed

subsection \<open>The theorem\<close>

text \<open>C13: For every buffer of less than \<open>2 ^ 29\<close> bytes the digest of the code is the MD5 digest of RFC 1321: the table of the code is
  the table of the sine function, its initial words are those of the RFC, the block loop with its in-place padding, its
  index arithmetic and its shift pairs agrees with padding the whole message, splitting it into blocks and folding the
  compression function, and the result is the digest in hexadecimal.\<close>

theorem md5_calculate_correct:
  assumes "length m < 2 ^ 29"
  shows "md5_calculate m (of_nat (length m)) = rfc_md5 m"
  using calc_padded [of m] assms ref_blocks_table [OF SIN_rfc]
  by (simp add: md5_hex_def rfc_md5_def hex_digest md5_init_rfc)

text \<open>Two digests of the test suite of the RFC (A.5), of one block and of two, computed by the code.\<close>

lemma md5_test_3:
  "md5_calculate ''abc'' 3 = ''900150983cd24fb0d6963f7d28e17f72''"
  by code_simp

lemma md5_test_6:
  "md5_calculate ''ABCDEFGHIJKLMNOPQRSTUVWXYZabcdefghijklmnopqrstuvwxyz0123456789'' 62 = ''d174ab98d277d9f5a5611c2c9f419d9f''"
  by code_simp

theorem md5_calculate_correct_witness:
  "md5_calculate ''abc'' 3 = rfc_md5 ''abc'' \<and> rfc_md5 ''abc'' = ''900150983cd24fb0d6963f7d28e17f72''"
  using md5_calculate_correct [of "''abc''"] md5_test_3 by simp

end
