(* ===== verification/Spec2Isabelle.thy ===== *)
theory Spec2Isabelle
  imports Bodycalls Readonly Fmlog Md5rfc
begin

text \<open>
  A verification of \<open>filemanager-httpd\<close>, an HTTP server for the files below a set of shares, with a file
  manager, CGI programs and digest authentication.  All paths are below \<open>src/\<close>.

  The program and its model.  A connection (\<open>serverconnection.c\<close>) reads requests from a non-blocking socket.
  Their headers are parsed as they come (\<open>requestheader.c\<close>, with the digest check of \<open>auth.c\<close>), then a request
  handler (\<open>reqhandler.c\<close>) decides from the configuration (\<open>fmconfig.c\<close>) and the file system what answers: an
  error page, a file, the file manager (\<open>filemanager.c\<close>) or a CGI program (\<open>cgiexecutor.c\<close>).  The bytes of
  the body go to the file manager, which cuts them into the parts of a form (\<open>multipartdata.c\<close>,
  \<open>contentpart.c\<close>), or to the program.  The response is collected in a buffer (\<open>respbuf.c\<close>) and sent with a
  length or in chunks (\<open>responsesender.c\<close>).  State is a record for each C struct and is passed explicitly.  A
  32-bit or 64-bit count whose wrap-around matters is a word; others are natural numbers.  A C string is the list of
  the bytes before its zero byte.  An operation returns \<open>Ok\<close> and its results, \<open>Abort\<close> where the program
  ends itself, or \<open>Undef\<close> where it leaves the memory it owns or uses a null pointer (\<open>cres\<close> in \<open>Prelude\<close>).

  The theories.
    \<open>Prelude\<close>: bytes, C strings, the \<open><string.h>\<close> and \<open>strtoul\<close> functions, number printing, \<open>cres\<close>.
    \<open>Datachunk\<close> (\<open>datachunk.c\<close>): pointers with a length into a string; the parameter lists of headers
      are read back as printed.
    \<open>Membuf\<close> (\<open>membuf.c\<close>): growing buffers, with every access in bounds; interface \<open>byte_buffer\<close>.
    \<open>Md5calc\<close> (\<open>md5calc.c\<close>): the digest, with the structure of RFC 1321; interface \<open>digest\<close>.  \<open>Sinetable\<close>,
      \<open>Md5rfc\<close>: no code of their own; the table of the RFC by the sine function over the real numbers, with a check
      that decides it for a list, and the digest of the RFC, which the code computes.
    \<open>Contenttype\<close>, \<open>Folders\<close> (\<open>contenttype.c\<close>, \<open>folder.c\<close>): media types, sorted folders.
    \<open>Fmconfig\<close> (\<open>fmconfig.c\<close>): parsing the configuration, mapping paths to shares, CGI patterns, privileges,
      credentials of many users.
    \<open>Auth\<close> (\<open>auth.c\<close>): exactly the RFC 2617 response is accepted.
    \<open>Dataheader\<close>, \<open>Requestheader\<close> (\<open>dataheader.c\<close>, \<open>requestheader.c\<close>): parsing in pieces
      equals parsing at once (interface \<open>chunked_consumer\<close>, which both provide), printed headers are read back, and a
      login needs a valid \<open>Authorization\<close> header.
    \<open>Respbuf\<close> (\<open>respbuf.c\<close>): responses and the HTML escaping of \<open>resp_appendFmt\<close>.
    \<open>Contentpart\<close>, \<open>Multipartdata\<close> (\<open>contentpart.c\<close>, \<open>multipartdata.c\<close>): posted forms
      and uploads, against a byte-by-byte reader, and back from their printed form.
    \<open>Responsesender\<close> (\<open>dataprocessingresult.c\<close>, \<open>responsesender.c\<close>): what reaches the wire, whatever the
      socket takes at a time (interface \<open>sender\<close>, provided by the two ways to delimit a response).
    \<open>Filemanager\<close>, \<open>Folderpage\<close> (\<open>filemanager.c\<close>): the operations on files with the calls they
      make, and the page of a folder; privileges, removal of a tree, permissions, fixed markup.
    \<open>Datareadyselector\<close> (\<open>datareadyselector.c\<close>): the descriptors to wait for, which \<open>select\<close> gets exactly, and the
      flags of descriptors.
    \<open>Cgiexecutor\<close> (\<open>cgiexecutor.c\<close>): starting a program, its environment and its response.
    \<open>Reqhandler\<close> (\<open>reqhandler.c\<close>): requests stay below the shares, are answered, need authorization, and
      files arrive on the wire.
    \<open>Serverconnection\<close>, \<open>Requestbody\<close> (\<open>serverconnection.c\<close>): the loops of a connection, which end;
      what the loop over the bytes of a body hands on, in both encodings.
    \<open>Connstate\<close>: no code of its own; the states of a connection between two calls as an inductive set, what the
      fields hold in each of them and what is waited for, and that the internal error is not reached.
    \<open>Cmdline\<close>, \<open>Fmlog\<close> (\<open>cmdline.c\<close>, \<open>fmlog.c\<close>): the command line; the messages, which arrive whole and in order.
    \<open>Mainloop\<close> (\<open>main.c\<close>): the two arrays of connections against a loop over a list, no socket lost, and
      the end of every round.
    \<open>Server\<close>: no code of its own; the rounds as steps of a transition system, with the invariant of its reachable
      states: no connection blocks or is forgotten; clients between two requests do not lock others out, but
      clients that send nothing do.
    \<open>Readonly\<close>: no code of its own; the interface of an invariant of the request handler, which the loops of a
      connection keep, and with it a server without the right to modify, which changes no file.
    \<open>Session\<close>: no code of its own; requests for files on an open connection, through all the components
      from the bytes of the client to the bytes on the wire.
    \<open>Bodycalls\<close>: no code of its own; the body of a form reaches the file manager whole over any number of calls of
      the connection, with all that happens in a call.

  The environment.  What the operating system answers is an argument: the results of \<open>stat\<close>, \<open>readdir\<close>,
  \<open>open\<close>, \<open>access\<close> and the like are functions in records (\<open>FileSys\<close>, \<open>UploadFs\<close>, \<open>FmSys\<close>,
  \<open>ReqEnv\<close>), those of \<open>read\<close> and \<open>write\<close> are lists that the calls use up, in any pieces and with any
  errors; a list at its end is a call that would block.  The calls of the server that change the file system are recorded in
  order, but for the temporary file that the child of \<open>fork\<close> makes for the body of a chunked request before it becomes the
  CGI program (\<open>handleNoContentLength\<close>): it is in the model by what the program reads.  \<open>fnmatch\<close> and \<open>qsort\<close> are function arguments; a hypothesis about them is their documented behaviour.

  Bounds and fuel.  Loops of the code are recursive functions with a proof of termination.  Only removing a
  directory has fuel, for the depth of the tree: \<open>del_recursive_removes\<close> shows that a number above the
  height of the tree is enough, and \<open>conn_ends\<close> and \<open>round_ends\<close> state what depends on it.  The counts of a body are 64-bit
  words; the theorems about them assume less than \<open>2^64 - 2^32\<close> bytes from the client.

  The main loop runs for as long as the list of the answers it gets; each answer is one round, and no property
  depends on the length of the list.

  Not modelled: the options set on sockets, signals, the delay after a failed login, the working directory of a CGI
  program and the failure of \<open>malloc\<close>.  \<open>Fmlog\<close> models how messages are written; where the other components write
  them is left out, but for \<open>log_fatal\<close>, which ends the process and is \<open>Abort\<close>.  The functions that only
  release memory (\<open>drs_free\<close>, \<open>folder_free\<close>, \<open>reqhdr_free\<close>, \<open>datahdr_free\<close>) have no counterpart.
  The sizes of the array of a folder (\<open>entryAlloc\<close>) and of the body of a response are natural numbers: their 32-bit counters
  would wrap at \<open>2^31\<close> entries and at \<open>2^32\<close> bytes.
\<close>

end
